(* ===== verification/Prelude.thy ===== *)
theory Prelude
  imports Complex_Main "HOL-Library.AList" "HOL-Library.Sublist"
begin

text \<open>
  Shared vocabulary of the development: Python exceptions as values, dictionaries as
  association lists in insertion order, the slice comparisons of the radix code as prefix
  tests, and decimal rendering of integers for the f-strings that build branch ids.

  A Python method that may raise is a function from a state to a pair of its outcome
  (\<open>Inl\<close> an exception, \<open>Inr\<close> the returned value) and the state it leaves behind, because an
  exception does not undo the assignments made before it.
\<close>

section \<open>Exceptions and results\<close>

datatype exc =
    KeyError string
  | ValueError
  | RuntimeError
  | MemoryError
  | TypeError
  | AttributeError
  | IndexError
  | OverflowError
  | AssertionError
  | OSError
  | FileNotFoundError
  | PermissionError
  | ProcessLookupError
  | ChildProcessError
  | TimeoutError
  | SGLangTreeCacheError
  | VsockError
  | PrefixViolation
  | NoWinner
  | BackendError nat

text \<open>The subclasses that an \<open>except\<close> clause for a base class also catches.\<close>

definition is_runtime_error :: "exc \<Rightarrow> bool" where
  "is_runtime_error e \<longleftrightarrow> e \<in> {RuntimeError, SGLangTreeCacheError, VsockError, NoWinner}"

definition is_os_error :: "exc \<Rightarrow> bool" where
  "is_os_error e \<longleftrightarrow> e \<in> {OSError, FileNotFoundError, PermissionError, ProcessLookupError, ChildProcessError, TimeoutError}"

definition is_value_error :: "exc \<Rightarrow> bool" where
  "is_value_error e \<longleftrightarrow> e \<in> {ValueError, PrefixViolation}"

definition is_key_error :: "exc \<Rightarrow> bool" where
  "is_key_error e \<longleftrightarrow> (case e of KeyError _ \<Rightarrow> True | _ \<Rightarrow> False)"

lemmas exc_class_defs = is_runtime_error_def is_os_error_def is_value_error_def is_key_error_def

type_synonym ('s, 'a) outcome = "(exc + 'a) \<times> 's"

section \<open>Dictionaries\<close>

text \<open>
  A Python dict is an association list whose keys are distinct.  Assignment is
  \<open>AList.update\<close> (an existing key keeps its position, a new one goes last), \<open>del\<close> and
  \<open>pop\<close> are \<open>AList.delete\<close>, \<open>get\<close> is \<open>map_of\<close>.
\<close>

type_synonym ('k, 'v) dict = "('k \<times> 'v) list"

abbreviation dget :: "('k, 'v) dict \<Rightarrow> 'k \<Rightarrow> 'v option" where
  "dget d k \<equiv> map_of d k"

abbreviation dset :: "'k \<Rightarrow> 'v \<Rightarrow> ('k, 'v) dict \<Rightarrow> ('k, 'v) dict" where
  "dset k v d \<equiv> AList.update k v d"

abbreviation ddel :: "'k \<Rightarrow> ('k, 'v) dict \<Rightarrow> ('k, 'v) dict" where
  "ddel k d \<equiv> AList.delete k d"

abbreviation keys :: "('k, 'v) dict \<Rightarrow> 'k set" where
  "keys d \<equiv> fst ` set d"

abbreviation wf_dict :: "('k, 'v) dict \<Rightarrow> bool" where
  "wf_dict d \<equiv> distinct (map fst d)"

declare map_of_eq_Some_iff [simp del]

lemma dget_dset [simp]: "dget (dset k v d) k' = (if k' = k then Some v else dget d k')"
  by (simp add: update_conv')

lemma dget_ddel [simp]: "dget (ddel k d) k' = (if k' = k then None else dget d k')"
  by (simp add: delete_conv')

lemma wf_dict_dset [simp, intro]: "wf_dict d \<Longrightarrow> wf_dict (dset k v d)"
  by (rule distinct_update)

lemma wf_dict_ddel [simp, intro]: "wf_dict d \<Longrightarrow> wf_dict (ddel k d)"
  by (rule distinct_delete)

lemma keys_dset [simp]: "keys (dset k v d) = insert k (keys d)"
  by (simp add: dom_update)

lemma keys_ddel [simp]: "keys (ddel k d) = keys d - {k}"
  by (induction d) auto

lemma dset_new: "k \<notin> keys d \<Longrightarrow> dset k v d = d @ [(k, v)]"
  by (induction d) auto

lemma dget_None_iff: "dget d k = None \<longleftrightarrow> k \<notin> keys d"
  by (simp add: map_of_eq_None_iff)

lemma keys_dom: "keys d = dom (dget d)"
  by (rule dom_map_of_conv_image_fst [symmetric])

lemma dget_Some_keys: "dget d k = Some v \<Longrightarrow> k \<in> keys d"
  by (auto dest: map_of_SomeD simp: rev_image_eqI)

lemma keys_dgetE:
  assumes "k \<in> keys d"
  obtains v where "dget d k = Some v"
  using assms by (metis dget_None_iff not_None_eq)

lemma dget_in_set: "wf_dict d \<Longrightarrow> dget d k = Some v \<longleftrightarrow> (k, v) \<in> set d"
  by (rule map_of_eq_Some_iff)

lemma length_ddel:
  "wf_dict d \<Longrightarrow> k \<in> keys d \<Longrightarrow> length d = Suc (length (ddel k d))"
  by (induction d) auto

text \<open>Sums over the values of a dictionary, under assignment and deletion.\<close>

definition dsum :: "('v \<Rightarrow> 'n::ab_group_add) \<Rightarrow> ('k, 'v) dict \<Rightarrow> 'n" where
  "dsum f d = sum_list (map (f \<circ> snd) d)"

lemma dsum_Nil [simp]: "dsum f [] = 0"
  by (simp add: dsum_def)

lemma dsum_Cons [simp]: "dsum f (kv # d) = f (snd kv) + dsum f d"
  by (simp add: dsum_def)

lemma dsum_cong [fundef_cong]:
  "d = d' \<Longrightarrow> (\<And>kv. kv \<in> set d' \<Longrightarrow> f (snd kv) = g (snd kv)) \<Longrightarrow> dsum f d = dsum g d'"
  by (auto simp: dsum_def intro!: arg_cong [where f = sum_list])

lemma dsum_dset:
  "dsum f (dset k v d) = dsum f d + f v - (case dget d k of None \<Rightarrow> 0 | Some w \<Rightarrow> f w)"
  by (induction d) (auto split: option.splits)

lemma dsum_ddel:
  "wf_dict d \<Longrightarrow> dsum f (ddel k d) = dsum f d - (case dget d k of None \<Rightarrow> 0 | Some w \<Rightarrow> f w)"
  by (induction d) (auto simp: dget_None_iff [THEN iffD2] split: option.split)

lemma sum_list_last:
  "xs \<noteq> [] \<Longrightarrow> sum_list (map f xs) = sum_list (map f (butlast xs)) + f (last xs)"
  for f :: "'a \<Rightarrow> 'n::comm_monoid_add"
  by (induction xs rule: rev_induct) auto

lemma int_sum_list: "int (sum_list (map f xs)) = sum_list (map (\<lambda>x. int (f x)) xs)"
  by (induction xs) auto

section \<open>Prefixes of token sequences\<close>

text \<open>The slice test \<open>tokens[i:i+len(b)] == b\<close> of the radix code is a prefix test.\<close>

lemma prefix_iff_take: "prefix xs ys \<longleftrightarrow> take (length xs) ys = xs"
  by (metis append_eq_conv_conj append_take_drop_id prefix_def)

lemma prefix_drop_append: "prefix xs ys \<Longrightarrow> ys = xs @ drop (length xs) ys"
  by (metis append_take_drop_id prefix_iff_take)

text \<open>
  The inner loop \<open>while common < n and ... and a[common] == b[common]: common += 1\<close>.
\<close>

fun lcp_len :: "'a list \<Rightarrow> 'a list \<Rightarrow> nat" where
  "lcp_len (x # xs) (y # ys) = (if x = y then Suc (lcp_len xs ys) else 0)"
| "lcp_len _ _ = 0"

lemma lcp_len_le: "lcp_len xs ys \<le> length xs" "lcp_len xs ys \<le> length ys"
  by (induction xs ys rule: lcp_len.induct) auto

lemma lcp_len_take: "take (lcp_len xs ys) xs = take (lcp_len xs ys) ys"
  by (induction xs ys rule: lcp_len.induct) auto

lemma lcp_len_maximal:
  "lcp_len xs ys < length xs \<Longrightarrow> lcp_len xs ys < length ys \<Longrightarrow>
   xs ! lcp_len xs ys \<noteq> ys ! lcp_len xs ys"
  by (induction xs ys rule: lcp_len.induct) auto

lemma lcp_len_full: "lcp_len xs ys = length xs \<longleftrightarrow> prefix xs ys"
  by (induction xs ys rule: lcp_len.induct) auto

section \<open>Decimal rendering\<close>

text \<open>\<open>str(n)\<close> for the integers that f-strings put into branch ids.\<close>

definition digit :: "nat \<Rightarrow> char" where
  "digit d = char_of (48 + d)"

fun str_nat :: "nat \<Rightarrow> string" where
  "str_nat n = (if n < 10 then [digit n] else str_nat (n div 10) @ [digit (n mod 10)])"

declare str_nat.simps [simp del]

definition str_int :: "int \<Rightarrow> string" where
  "str_int n = (if n < 0 then ''-'' @ str_nat (nat (- n)) else str_nat (nat n))"

lemma digit_inject: "c < 10 \<Longrightarrow> d < 10 \<Longrightarrow> digit c = digit d \<longleftrightarrow> c = d"
  by (simp add: digit_def char_of_eq_iff take_bit_eq_mod)

lemma str_nat_nonempty [simp]: "str_nat n \<noteq> []" "[] \<noteq> str_nat n"
  by (subst str_nat.simps, simp)+

lemma str_nat_inject: "str_nat m = str_nat n \<Longrightarrow> m = n"
proof (induction m arbitrary: n rule: less_induct)
  case (less m)
  show ?case
  proof (cases "m < 10")
    case True
    then have "str_nat n = [digit m]" using less.prems by (simp add: str_nat.simps [of m])
    with True show ?thesis
      by (auto simp: str_nat.simps [of n] digit_inject split: if_splits)
  next
    case False
    then have m: "str_nat n = str_nat (m div 10) @ [digit (m mod 10)]"
      using less.prems by (simp add: str_nat.simps [of m])
    then have "\<not> n < 10" by (auto simp: str_nat.simps [of n])
    with m have "str_nat (n div 10) = str_nat (m div 10)" "digit (n mod 10) = digit (m mod 10)"
      by (simp_all add: str_nat.simps [of n])
    then have "m div 10 = n div 10" "n mod 10 = m mod 10"
      using less.IH [of "m div 10" "n div 10"] False by (simp_all add: digit_inject)
    then show ?thesis by (metis div_mult_mod_eq)
  qed
qed

lemma str_nat_digits: "c \<in> set (str_nat n) \<Longrightarrow> \<exists>d<10. c = digit d"
proof (induction n rule: less_induct)
  case (less n)
  show ?case
  proof (cases "n < 10")
    case True
    with less.prems show ?thesis by (auto simp: str_nat.simps [of n])
  next
    case False
    then consider "c \<in> set (str_nat (n div 10))" | "c = digit (n mod 10)"
      using less.prems by (auto simp: str_nat.simps [of n])
    then show ?thesis
      using less.IH [of "n div 10"] False by cases (auto intro!: exI [of _ "n mod 10"])
  qed
qed

end
