(* ===== verification/Procs.thy ===== *)
theory Procs
  imports Prelude
begin

text \<open>
  Python methods as procedures: a procedure takes a state and gives its outcome (an exception or
  a value) with the state it leaves.  The combinators are the control structures the methods
  use: sequencing, \<open>if ...: raise\<close>, \<open>try/except\<close>, \<open>try/finally\<close> and loops over a list.  The
  Hoare triples at the end carry the proofs about composed methods.
\<close>

section \<open>Combinators\<close>

type_synonym ('s, 'a) proc = "'s \<Rightarrow> ('s, 'a) outcome"

definition ret :: "'a \<Rightarrow> ('s, 'a) proc" where
  "ret x s = (Inr x, s)"

definition raise :: "exc \<Rightarrow> ('s, 'a) proc" where
  "raise e s = (Inl e, s)"

definition seqp :: "('s, 'a) proc \<Rightarrow> ('a \<Rightarrow> ('s, 'b) proc) \<Rightarrow> ('s, 'b) proc" where
  "seqp m f s = (case m s of (Inl e, s') \<Rightarrow> (Inl e, s') | (Inr x, s') \<Rightarrow> f x s')"

definition readp :: "('s \<Rightarrow> 'a) \<Rightarrow> ('s, 'a) proc" where
  "readp f s = (Inr (f s), s)"

definition modp :: "('s \<Rightarrow> 's) \<Rightarrow> ('s, unit) proc" where
  "modp f s = (Inr (), f s)"

text \<open>\<open>if cond: raise e\<close>.\<close>

definition raise_if :: "('s \<Rightarrow> bool) \<Rightarrow> exc \<Rightarrow> ('s, unit) proc" where
  "raise_if c e s = (if c s then (Inl e, s) else (Inr (), s))"

definition whenp :: "bool \<Rightarrow> ('s, unit) proc \<Rightarrow> ('s, unit) proc" where
  "whenp b m = (if b then m else ret ())"

text \<open>\<open>try: m except BaseException: h\<close>; a handler that ends in \<open>raise\<close> is \<open>reraise\<close>.\<close>

definition try_except :: "('s, 'a) proc \<Rightarrow> (exc \<Rightarrow> ('s, 'a) proc) \<Rightarrow> ('s, 'a) proc" where
  "try_except m h s = (case m s of (Inl e, s') \<Rightarrow> h e s' | (Inr x, s') \<Rightarrow> (Inr x, s'))"

definition reraise :: "('s, unit) proc \<Rightarrow> exc \<Rightarrow> ('s, 'a) proc" where
  "reraise m e = seqp m (\<lambda>_. raise e)"

text \<open>\<open>try: m finally: f\<close>; an exception of \<open>f\<close> replaces the outcome of \<open>m\<close>.\<close>

definition try_finally :: "('s, 'a) proc \<Rightarrow> ('s, unit) proc \<Rightarrow> ('s, 'a) proc" where
  "try_finally m f s =
     (case m s of (r, s') \<Rightarrow> (case f s' of (Inl e, s'') \<Rightarrow> (Inl e, s'') | (Inr _, s'') \<Rightarrow> (r, s'')))"

fun for_each :: "'x list \<Rightarrow> ('x \<Rightarrow> ('s, unit) proc) \<Rightarrow> ('s, unit) proc" where
  "for_each [] f = ret ()"
| "for_each (x # xs) f = seqp (f x) (\<lambda>_. for_each xs f)"

lemmas proc_defs = ret_def raise_def seqp_def readp_def modp_def raise_if_def whenp_def
  try_except_def reraise_def try_finally_def

section \<open>Hoare triples\<close>

text \<open>
  From a state with \<open>P\<close>, the procedure returns a value in a state with \<open>Q\<close> or raises in a state
  with \<open>R\<close>.  Procedures are total, so a triple speaks of every run.
\<close>

definition triple :: "('s \<Rightarrow> bool) \<Rightarrow> ('s, 'a) proc \<Rightarrow> ('a \<Rightarrow> 's \<Rightarrow> bool) \<Rightarrow> ('s \<Rightarrow> bool) \<Rightarrow> bool" where
  "triple P m Q R \<longleftrightarrow>
     (\<forall>s. P s \<longrightarrow> (case m s of (Inl e, s') \<Rightarrow> R s' | (Inr x, s') \<Rightarrow> Q x s'))"

abbreviation keeps :: "('s \<Rightarrow> bool) \<Rightarrow> ('s, 'a) proc \<Rightarrow> bool" where
  "keeps P m \<equiv> triple P m (\<lambda>_. P) P"

named_theorems triples

lemma tripleI:
  "(\<And>s e s'. P s \<Longrightarrow> m s = (Inl e, s') \<Longrightarrow> R s') \<Longrightarrow>
   (\<And>s x s'. P s \<Longrightarrow> m s = (Inr x, s') \<Longrightarrow> Q x s') \<Longrightarrow> triple P m Q R"
  by (auto simp: triple_def split: prod.split sum.split)

lemma tripleD:
  assumes "triple P m Q R" "P s"
  shows "m s = (Inl e, s') \<Longrightarrow> R s'" "m s = (Inr x, s') \<Longrightarrow> Q x s'"
  using assms by (auto simp: triple_def)

lemma tripleE:
  assumes "triple P m Q R" "P s"
  obtains e s' where "m s = (Inl e, s')" "R s'" | x s' where "m s = (Inr x, s')" "Q x s'"
  using assms by (cases "m s"; cases "fst (m s)") (auto simp: triple_def)

lemma triple_conseq:
  "triple P m Q R \<Longrightarrow> (\<And>s. P' s \<Longrightarrow> P s) \<Longrightarrow> (\<And>x s. Q x s \<Longrightarrow> Q' x s) \<Longrightarrow> (\<And>s. R s \<Longrightarrow> R' s) \<Longrightarrow>
   triple P' m Q' R'"
  by (rule tripleI) (blast dest: tripleD)+

lemma keeps_snd: "keeps P m \<Longrightarrow> P s \<Longrightarrow> P (snd (m s))"
  by (erule (1) tripleE) auto

lemma triple_ret [triples]: "(\<And>s. P s \<Longrightarrow> Q x s) \<Longrightarrow> triple P (ret x) Q R"
  by (simp add: triple_def ret_def)

lemma triple_raise [triples]: "(\<And>s. P s \<Longrightarrow> R s) \<Longrightarrow> triple P (raise e) Q R"
  by (simp add: triple_def raise_def)

lemma triple_readp [triples]: "(\<And>s. P s \<Longrightarrow> Q (f s) s) \<Longrightarrow> triple P (readp f) Q R"
  by (simp add: triple_def readp_def)

lemma triple_modp [triples]: "(\<And>s. P s \<Longrightarrow> Q () (f s)) \<Longrightarrow> triple P (modp f) Q R"
  by (simp add: triple_def modp_def)

lemma triple_raise_if [triples]:
  "(\<And>s. P s \<Longrightarrow> c s \<Longrightarrow> R s) \<Longrightarrow> (\<And>s. P s \<Longrightarrow> \<not> c s \<Longrightarrow> Q () s) \<Longrightarrow> triple P (raise_if c e) Q R"
  by (simp add: triple_def raise_if_def)

lemma triple_whenp [triples]:
  "(b \<Longrightarrow> triple P m Q R) \<Longrightarrow> (\<And>s. \<not> b \<Longrightarrow> P s \<Longrightarrow> Q () s) \<Longrightarrow> triple P (whenp b m) Q R"
  by (simp add: triple_def whenp_def ret_def)

lemma triple_seqp [triples]:
  "triple P m M R \<Longrightarrow> (\<And>x. triple (M x) (f x) Q R) \<Longrightarrow> triple P (seqp m f) Q R"
  by (rule tripleI) (auto simp: seqp_def split: prod.splits sum.splits dest: tripleD)

lemma triple_try_except [triples]:
  "triple P m Q M \<Longrightarrow> (\<And>e. triple M (h e) Q R) \<Longrightarrow> triple P (try_except m h) Q R"
  by (rule tripleI) (auto simp: try_except_def split: prod.splits sum.splits dest: tripleD)

lemma triple_reraise [triples]:
  "triple P m (\<lambda>_. R) R \<Longrightarrow> triple P (reraise m e) Q R"
  unfolding reraise_def by (rule triple_seqp) (auto intro: triple_raise)

lemma triple_try_finally [triples]:
  "triple P m M N \<Longrightarrow> (\<And>x. triple (M x) f (\<lambda>_. Q x) R) \<Longrightarrow> triple N f (\<lambda>_. R) R \<Longrightarrow>
   triple P (try_finally m f) Q R"
proof (rule tripleI)
  fix s e s' assume *: "triple P m M N" "\<And>x. triple (M x) f (\<lambda>_. Q x) R" "triple N f (\<lambda>_. R) R"
    "P s" "try_finally m f s = (Inl e, s')"
  from *(1,4) show "R s'"
    by (rule tripleE) (use *(5) in \<open>auto simp: try_finally_def split: prod.splits sum.splits
        dest: tripleD [OF *(2)] tripleD [OF *(3)]\<close>)
qed (auto simp: try_finally_def split: prod.splits sum.splits dest: tripleD)

lemma triple_for_each [triples]:
  "(\<And>x. x \<in> set xs \<Longrightarrow> triple P (f x) (\<lambda>_. P) R) \<Longrightarrow> (\<And>s. P s \<Longrightarrow> Q () s) \<Longrightarrow>
   triple P (for_each xs f) Q R"
proof (induction xs)
  case (Cons x xs)
  then show ?case
    by (auto intro: triple_seqp [where M = "\<lambda>_. P"])
qed (auto intro: triple_ret)

text \<open>
  An assertion that does not speak of what a procedure changes is carried along: \<open>P\<close> is kept
  and the rest of the triple is unchanged.
\<close>

lemma triple_conj:
  "triple P m Q R \<Longrightarrow> triple P' m Q' R' \<Longrightarrow>
   triple (\<lambda>s. P s \<and> P' s) m (\<lambda>x s. Q x s \<and> Q' x s) (\<lambda>s. R s \<and> R' s)"
  by (rule tripleI) (blast dest: tripleD)+

lemma triple_pre: "(\<And>s. P s \<Longrightarrow> P' s) \<Longrightarrow> triple P' m Q R \<Longrightarrow> triple P m Q R"
  by (rule triple_conseq)

lemma triple_assume: "(A \<Longrightarrow> triple P m Q R) \<Longrightarrow> triple (\<lambda>s. P s \<and> A) m Q R"
  by (auto simp: triple_def)

lemma triple_pure: "triple (\<lambda>_. A) m (\<lambda>_ _. A) (\<lambda>_. True)"
  by (rule tripleI) auto

lemma seqp_assoc: "seqp (seqp m f) g = seqp m (\<lambda>x. seqp (f x) g)"
  by (auto simp: seqp_def split: prod.split sum.split)

lemma seqp_ret [simp]: "seqp (ret x) f = f x" "seqp m ret = m"
  by (auto simp: seqp_def ret_def split: prod.split sum.split)

section \<open>Invariants of composed procedures\<close>

named_theorems keeps

lemma keepsI: "(\<And>s. P s \<Longrightarrow> P (snd (m s))) \<Longrightarrow> keeps P m"
  by (rule tripleI) (metis snd_conv)+

lemma keeps_iff: "keeps P m \<longleftrightarrow> (\<forall>s. P s \<longrightarrow> P (snd (m s)))"
  using keepsI keeps_snd by metis

lemma keeps_weaken: "keeps P m \<Longrightarrow> (\<And>s. P s \<Longrightarrow> R s) \<Longrightarrow> triple P m (\<lambda>_. P) R"
  by (rule triple_conseq)

lemma keeps_simple [keeps]:
  "keeps P (ret x)" "keeps P (raise e)" "keeps P (readp f)" "keeps P (raise_if c e)"
  by (auto intro: triples)

lemma keeps_modp [keeps]: "(\<And>s. P s \<Longrightarrow> P (f s)) \<Longrightarrow> keeps P (modp f)"
  by (auto intro: triples)

lemma keeps_whenp [keeps]: "keeps P m \<Longrightarrow> keeps P (whenp b m)"
  by (auto intro: triples)

lemma keeps_seqp [keeps]: "keeps P m \<Longrightarrow> (\<And>x. keeps P (f x)) \<Longrightarrow> keeps P (seqp m f)"
  by (rule triple_seqp)

lemma keeps_try_except [keeps]: "keeps P m \<Longrightarrow> (\<And>e. keeps P (h e)) \<Longrightarrow> keeps P (try_except m h)"
  by (rule triple_try_except)

lemma keeps_reraise [keeps]: "keeps P m \<Longrightarrow> keeps P (reraise m e)"
  by (rule triple_reraise)

lemma keeps_try_finally [keeps]: "keeps P m \<Longrightarrow> keeps P f \<Longrightarrow> keeps P (try_finally m f)"
  by (rule triple_try_finally)

lemma keeps_for_each [keeps]: "(\<And>x. x \<in> set xs \<Longrightarrow> keeps P (f x)) \<Longrightarrow> keeps P (for_each xs f)"
  by (rule triple_for_each)

lemma keeps_if [keeps]: "(b \<Longrightarrow> keeps P m) \<Longrightarrow> (\<not> b \<Longrightarrow> keeps P n) \<Longrightarrow> keeps P (if b then m else n)"
  by simp

lemma keeps_option [keeps]:
  "(x = None \<Longrightarrow> keeps P m) \<Longrightarrow> (\<And>y. x = Some y \<Longrightarrow> keeps P (f y)) \<Longrightarrow>
   keeps P (case x of None \<Rightarrow> m | Some y \<Rightarrow> f y)"
  by (cases x) auto

end
