(* ===== verification/Registry.thy ===== *)
theory Registry
  imports Prelude
begin

text \<open>
  The registry of \<open>orchestrator.py\<close>: the class \<open>Branch\<close>, its JSON form, the document that
  \<open>_persist\<close> writes and the part of \<open>__init__\<close> that loads it.  The text encoding is the
  standard library's \<open>json\<close>, whose \<open>load\<close> inverts its \<open>dump\<close> on these documents, so the file
  is modelled by the document it holds.  Characters are code points below 256.
\<close>

section \<open>Branches and JSON documents\<close>

record branch =
  br_id :: string
  br_parent :: "string option"
  br_state :: string
  br_created :: real
  br_lease :: "real option"

definition STATE_FORKING :: string where "STATE_FORKING = ''forking''"

definition STATE_LIVE :: string where "STATE_LIVE = ''live''"

definition STATE_KILLING :: string where "STATE_KILLING = ''killing''"

lemma states_distinct [simp]:
  "STATE_FORKING \<noteq> STATE_LIVE" "STATE_LIVE \<noteq> STATE_FORKING" "STATE_FORKING \<noteq> STATE_KILLING"
  "STATE_KILLING \<noteq> STATE_FORKING" "STATE_LIVE \<noteq> STATE_KILLING" "STATE_KILLING \<noteq> STATE_LIVE"
  by (simp_all add: STATE_FORKING_def STATE_LIVE_def STATE_KILLING_def)

datatype json =
    JNull
  | JBool bool
  | JInt int
  | JNum real
  | JStr string
  | JArr "json list"
  | JObj "(string \<times> json) list"

definition to_dict :: "branch \<Rightarrow> json" where
  "to_dict b =
     JObj [(''branch_id'', JStr (br_id b)),
           (''parent_id'', case br_parent b of None \<Rightarrow> JNull | Some p \<Rightarrow> JStr p),
           (''state'', JStr (br_state b)),
           (''created_at'', JNum (br_created b)),
           (''lease_expires_at'', case br_lease b of None \<Rightarrow> JNull | Some x \<Rightarrow> JNum x)]"

text \<open>\<open>d[key]\<close> on a parsed document.\<close>

fun json_item :: "string \<Rightarrow> json \<Rightarrow> exc + json" where
  "json_item k (JObj fs) = (case map_of fs k of None \<Rightarrow> Inl (KeyError k) | Some v \<Rightarrow> Inr v)"
| "json_item k _ = Inl TypeError"

text \<open>
  \<open>from_dict\<close> reads the five fields in order.  It stores them unchecked; a field of another JSON
  type is a \<open>TypeError\<close> here, because a branch of the model has typed fields.
\<close>

fun json_str :: "json \<Rightarrow> exc + string" where
  "json_str (JStr s) = Inr s"
| "json_str _ = Inl TypeError"

fun json_opt_str :: "json \<Rightarrow> exc + string option" where
  "json_opt_str (JStr s) = Inr (Some s)"
| "json_opt_str JNull = Inr None"
| "json_opt_str _ = Inl TypeError"

fun json_float :: "json \<Rightarrow> exc + real" where
  "json_float (JNum x) = Inr x"
| "json_float (JInt n) = Inr (of_int n)"
| "json_float _ = Inl TypeError"

fun json_opt_float :: "json \<Rightarrow> exc + real option" where
  "json_opt_float (JNum x) = Inr (Some x)"
| "json_opt_float (JInt n) = Inr (Some (of_int n))"
| "json_opt_float JNull = Inr None"
| "json_opt_float _ = Inl TypeError"

definition and_then :: "exc + 'a \<Rightarrow> ('a \<Rightarrow> exc + 'b) \<Rightarrow> exc + 'b" where
  "and_then r f = (case r of Inl e \<Rightarrow> Inl e | Inr x \<Rightarrow> f x)"

lemma and_then_simps [simp]: "and_then (Inl e) f = Inl e" "and_then (Inr x) f = f x"
  by (simp_all add: and_then_def)

definition from_dict :: "json \<Rightarrow> exc + branch" where
  "from_dict d =
     and_then (and_then (json_item ''branch_id'' d) json_str) (\<lambda>i.
     and_then (and_then (json_item ''parent_id'' d) json_opt_str) (\<lambda>p.
     and_then (and_then (json_item ''state'' d) json_str) (\<lambda>st.
     and_then (and_then (json_item ''created_at'' d) json_float) (\<lambda>c.
     and_then (and_then (json_item ''lease_expires_at'' d) json_opt_float) (\<lambda>l.
       Inr \<lparr>br_id = i, br_parent = p, br_state = st, br_created = c, br_lease = l\<rparr>)))))"

section \<open>The document\<close>

definition registry_doc :: "(string, branch) dict \<Rightarrow> json" where
  "registry_doc bs = JObj [(''version'', JInt 1), (''branches'', JArr (map (to_dict \<circ> snd) bs))]"

text \<open>\<open>data.get("version") != 1\<close>: Python's equality identifies 1, 1.0 and True.\<close>

definition version_ok :: "json option \<Rightarrow> bool" where
  "version_ok v \<longleftrightarrow> v = Some (JInt 1) \<or> v = Some (JNum 1) \<or> v = Some (JBool True)"

fun iter_json :: "json \<Rightarrow> exc + json list" where
  "iter_json (JArr xs) = Inr xs"
| "iter_json (JObj fs) = Inr (map (JStr \<circ> fst) fs)"
| "iter_json (JStr s) = Inr (map (\<lambda>c. JStr [c]) s)"
| "iter_json _ = Inl TypeError"

text \<open>The dict comprehension \<open>{b["branch_id"]: Branch.from_dict(b) for b in ...}\<close>.\<close>

fun load_branches :: "json list \<Rightarrow> (string, branch) dict \<Rightarrow> exc + (string, branch) dict" where
  "load_branches [] acc = Inr acc"
| "load_branches (d # ds) acc = and_then (from_dict d) (\<lambda>b. load_branches ds (dset (br_id b) b acc))"

fun load_doc :: "json \<Rightarrow> exc + (string, branch) dict" where
  "load_doc (JObj fs) =
     (if \<not> version_ok (map_of fs ''version'') then Inl ValueError
      else and_then (case map_of fs ''branches'' of None \<Rightarrow> Inr [] | Some v \<Rightarrow> iter_json v)
             (\<lambda>ds. load_branches ds []))"
| "load_doc _ = Inl AttributeError"

section \<open>The sequence number\<close>

text \<open>
  \<open>str.isdigit\<close> holds of the decimal digits and of the superscripts 1, 2 and 3, but \<open>int()\<close>
  accepts only the decimal digits.
\<close>

definition decimal_char :: "char \<Rightarrow> bool" where
  "decimal_char c \<longleftrightarrow> 48 \<le> (of_char c :: nat) \<and> (of_char c :: nat) \<le> 57"

definition isdigit :: "string \<Rightarrow> bool" where
  "isdigit s \<longleftrightarrow> s \<noteq> [] \<and>
     list_all (\<lambda>c. decimal_char c \<or> (of_char c :: nat) = 178 \<or> (of_char c :: nat) = 179
       \<or> (of_char c :: nat) = 185) s"

definition py_int :: "string \<Rightarrow> exc + nat" where
  "py_int s =
     (if s \<noteq> [] \<and> list_all decimal_char s
      then Inr (foldl (\<lambda>n c. 10 * n + (of_char c - 48)) 0 s) else Inl ValueError)"

text \<open>\<open>branch_id.rsplit("/", 1)[1]\<close>, for an id with a slash.\<close>

definition after_slash :: "string \<Rightarrow> string" where
  "after_slash s = rev (takeWhile (\<lambda>c. c \<noteq> CHR ''/'') (rev s))"

fun numeric_suffixes :: "string list \<Rightarrow> exc + nat list" where
  "numeric_suffixes [] = Inr []"
| "numeric_suffixes (b # bs) =
     (if CHR ''/'' \<in> set b \<and> isdigit (after_slash b)
      then and_then (py_int (after_slash b)) (\<lambda>n. and_then (numeric_suffixes bs) (\<lambda>ns. Inr (n # ns)))
      else numeric_suffixes bs)"

definition initial_seq :: "(string, branch) dict \<Rightarrow> exc + nat" where
  "initial_seq bs = and_then (numeric_suffixes (map fst bs)) (\<lambda>ns. Inr (fold max ns 0))"

section \<open>Round trips\<close>

lemma from_to_dict: "from_dict (to_dict b) = Inr b"
  by (cases b) (auto simp: from_dict_def to_dict_def split: option.split)

lemma load_branches_inv:
  "(\<forall>x \<in> set bs. br_id (snd x) = fst x) \<Longrightarrow> distinct (map fst acc @ map fst bs) \<Longrightarrow>
   load_branches (map (to_dict \<circ> snd) bs) acc = Inr (acc @ bs)"
proof (induction bs arbitrary: acc)
  case (Cons kb bs)
  obtain k b where kb: "kb = (k, b)" by fastforce
  have "dset k b acc = acc @ [(k, b)]"
    using Cons.prems(2) kb by (intro dset_new) auto
  moreover have "br_id b = k" using Cons.prems(1) kb by simp
  moreover have "load_branches (map (to_dict \<circ> snd) bs) (acc @ [(k, b)]) = Inr ((acc @ [(k, b)]) @ bs)"
    by (rule Cons.IH) (use Cons.prems kb in simp_all)
  ultimately show ?case by (simp add: kb from_to_dict comp_def)
qed simp

text \<open>Reading back the document of a registry gives the registry, in the same order.\<close>

lemma load_registry_doc:
  assumes "wf_dict bs" "\<forall>x \<in> set bs. br_id (snd x) = fst x"
  shows "load_doc (registry_doc bs) = Inr bs"
  using load_branches_inv [of bs "[]"] assms by (simp add: registry_doc_def version_ok_def)

lemma decimal_digit: "d < 10 \<Longrightarrow> of_char (digit d) = 48 + d" for d :: nat
  by (simp add: digit_def of_char_of)

lemma decimal_str_nat: "c \<in> set (str_nat n) \<Longrightarrow> decimal_char c"
  using str_nat_digits [of c n] by (auto simp: decimal_char_def decimal_digit)

lemma py_int_str_nat: "py_int (str_nat n) = Inr n"
proof -
  have "list_all decimal_char (str_nat n)"
    by (simp add: list_all_iff decimal_str_nat)
  moreover have "foldl (\<lambda>n c. 10 * n + (of_char c - 48)) 0 (str_nat n) = n"
  proof (induction n rule: less_induct)
    case (less n)
    then show ?case
      by (cases "n < 10") (simp_all add: str_nat.simps [of n] decimal_digit)
  qed
  ultimately show ?thesis by (simp add: py_int_def)
qed

lemma isdigit_str_nat: "isdigit (str_nat n)"
  by (simp add: isdigit_def list_all_iff decimal_str_nat)

lemma slash_not_digit: "CHR ''/'' \<notin> set (str_nat n)"
proof
  assume "CHR ''/'' \<in> set (str_nat n)"
  then obtain d where "d < 10" "CHR ''/'' = digit d" using str_nat_digits by blast
  then have "of_char CHR ''/'' = (48 + d :: nat)" using decimal_digit by metis
  then show False by simp
qed

lemma after_slash_child: "after_slash (p @ ''/'' @ str_nat n) = str_nat n"
proof -
  have "takeWhile (\<lambda>c. c \<noteq> CHR ''/'') (rev (str_nat n) @ CHR ''/'' # rev p) = rev (str_nat n)"
    using slash_not_digit [of n] by (subst takeWhile_append2) auto
  then show ?thesis by (simp add: after_slash_def)
qed

end
