(* ===== verification/Radix_Node.thy ===== *)
theory Radix_Node
  imports Prelude
begin

text \<open>
  The radix nodes of \<open>kv/tree_cache.py\<close> (class \<open>_Node\<close>) and the loops that walk them:
  \<open>_walk\<close>, \<open>_split\<close>, \<open>_add_refs\<close>, the reference bump of \<open>fork_branch\<close>, the release loop of
  \<open>kill\<close> and the insertion of \<open>extend\<close>.

  A node owns its children, and its \<open>parent\<close> field is the node that holds it, so the object
  graph is a tree and is modelled as one.  A Python reference to a node is the list of
  dictionary keys that leads to it from its namespace root.  \<open>time.monotonic()\<close> is the
  parameter \<open>clk\<close>: the value of the \<open>i\<close>-th reading; every reading advances the counter that
  the functions thread.
\<close>

section \<open>Nodes\<close>

datatype node =
  Node (n_tokens: "int list") (n_ref: int) (n_owners: "string set") (n_last: real)
    (n_children: "(int, node) dict")

lemma size_child_set [termination_simp]:
  "(k, c) \<in> set cs \<Longrightarrow> size c < Suc (size_list (size_prod (\<lambda>_. 0) size) cs)"
  by (induction cs) auto

lemma size_dget:
  "dget (n_children nd) k = Some c \<Longrightarrow> size c < size nd"
  by (cases nd) (auto dest!: map_of_SomeD size_child_set)

lemma node_induct [case_names Node]:
  assumes "\<And>nd. (\<And>k c. (k, c) \<in> set (n_children nd) \<Longrightarrow> P c) \<Longrightarrow> P nd"
  shows "P nd"
proof (induction nd rule: measure_induct_rule [where f = size])
  case (less nd)
  show ?case
  proof (rule assms)
    fix k c assume "(k, c) \<in> set (n_children nd)"
    then have "size c < size nd"
      by (cases nd) (auto dest: size_child_set)
    then show "P c" by (rule less)
  qed
qed

text \<open>\<open>_Node.__init__\<close>.\<close>

definition new_node :: "(nat \<Rightarrow> real) \<Rightarrow> nat \<Rightarrow> int list \<Rightarrow> node" where
  "new_node clk i toks = Node toks 0 {} (clk i) []"

fun set_children :: "(int, node) dict \<Rightarrow> node \<Rightarrow> node" where
  "set_children cs (Node toks r ow la _) = Node toks r ow la cs"

fun touch :: "real \<Rightarrow> node \<Rightarrow> node" where
  "touch now (Node toks r ow _ cs) = Node toks r ow now cs"

definition set_child :: "int \<Rightarrow> node \<Rightarrow> node \<Rightarrow> node" where
  "set_child k c nd = set_children (dset k c (n_children nd)) nd"

definition del_child :: "int \<Rightarrow> node \<Rightarrow> node" where
  "del_child k nd = set_children (ddel k (n_children nd)) nd"

lemma set_child_sel [simp]:
  "n_tokens (set_child k c nd) = n_tokens nd"
  "n_ref (set_child k c nd) = n_ref nd"
  "n_owners (set_child k c nd) = n_owners nd"
  "n_last (set_child k c nd) = n_last nd"
  "n_children (set_child k c nd) = dset k c (n_children nd)"
  by (cases nd; simp add: set_child_def)+

lemma del_child_sel [simp]:
  "n_tokens (del_child k nd) = n_tokens nd"
  "n_ref (del_child k nd) = n_ref nd"
  "n_owners (del_child k nd) = n_owners nd"
  "n_last (del_child k nd) = n_last nd"
  "n_children (del_child k nd) = ddel k (n_children nd)"
  by (cases nd; simp add: del_child_def)+

lemma touch_sel [simp]:
  "n_tokens (touch now nd) = n_tokens nd"
  "n_ref (touch now nd) = n_ref nd"
  "n_owners (touch now nd) = n_owners nd"
  "n_last (touch now nd) = now"
  "n_children (touch now nd) = n_children nd"
  by (cases nd; simp)+

lemma size_touch [simp]: "size (touch now nd) = size nd"
  by (cases nd) simp

section \<open>The loops of the cache\<close>

text \<open>
  \<open>_split\<close>: the head takes the first \<open>pos\<close> tokens, a copy of the reference count and owners and
  a fresh timestamp; the node itself becomes the head's only child.
\<close>

definition split_node :: "(nat \<Rightarrow> real) \<Rightarrow> nat \<Rightarrow> node \<Rightarrow> nat \<Rightarrow> node" where
  "split_node clk i nd pos =
     (let tail = Node (drop pos (n_tokens nd)) (n_ref nd) (n_owners nd) (n_last nd) (n_children nd)
      in Node (take pos (n_tokens nd)) (n_ref nd) (n_owners nd) (clk i)
           [(hd (drop pos (n_tokens nd)), tail)])"

text \<open>
  \<open>_walk\<close>: descend along \<open>toks\<close>, splitting a node that matches in part.  The result is the
  updated node, the reference (key path) of the node the loop stops at, the number of matched
  tokens and the clock counter.  After a split the loop \<open>continue\<close>s: the next iteration finds
  the head, whose tokens match in full, so it is touched and entered; that iteration is
  written out in the split branch.
\<close>

function walk :: "(nat \<Rightarrow> real) \<Rightarrow> nat \<Rightarrow> node \<Rightarrow> int list \<Rightarrow> node \<times> int list \<times> nat \<times> nat" where
  "walk clk i nd toks =
     (case toks of
        [] \<Rightarrow> (nd, [], 0, i)
      | k # _ \<Rightarrow>
         (case dget (n_children nd) k of
            None \<Rightarrow> (nd, [], 0, i)
          | Some nxt \<Rightarrow>
             let n = length (n_tokens nxt) in
             if take n toks \<noteq> n_tokens nxt then
               let common = lcp_len (n_tokens nxt) toks in
               if common = 0 then (nd, [], 0, i)
               else
                 let head = touch (clk (Suc i)) (split_node clk i nxt common);
                     (head', path, m, i') = walk clk (Suc (Suc i)) head (drop common toks)
                 in (set_child k head' nd, k # path, common + m, i')
             else
               let (nxt', path, m, i') = walk clk (Suc i) (touch (clk i) nxt) (drop n toks)
               in (set_child k nxt' nd, k # path, n + m, i')))"
  by pat_completeness auto
termination
  by (relation "measures [\<lambda>(clk, i, nd, toks). length toks, \<lambda>(clk, i, nd, toks). size nd]")
    (auto simp: size_dget dest: size_dget)

declare walk.simps [simp del]

text \<open>
  \<open>node.children[full[pos]] = new\<close> for the node at a reference.  A reference whose node has
  been removed from the tree denotes a detached object: the tree does not change.
\<close>

fun attach :: "int list \<Rightarrow> int \<Rightarrow> node \<Rightarrow> node \<Rightarrow> node" where
  "attach [] k new nd = set_child k new nd"
| "attach (p # ps) k new nd =
     (case dget (n_children nd) p of
        None \<Rightarrow> nd
      | Some c \<Rightarrow> set_child p (attach ps k new c) nd)"

text \<open>\<open>del leaf.parent.children[leaf.tokens[0]]\<close> for the leaf at a reference.\<close>

fun detach :: "int list \<Rightarrow> node \<Rightarrow> node" where
  "detach [] nd = nd"
| "detach [k] nd = del_child k nd"
| "detach (p # ps) nd =
     (case dget (n_children nd) p of
        None \<Rightarrow> nd
      | Some c \<Rightarrow> set_child p (detach ps c) nd)"

text \<open>The refcount loop of \<open>fork_branch\<close>: bump every fully matched node, count its tokens.\<close>

fun bump :: "string \<Rightarrow> node \<Rightarrow> node" where
  "bump t (Node toks r ow la cs) = Node toks (r + 1) (insert t ow) la cs"

lemma bump_sel [simp]:
  "n_tokens (bump t nd) = n_tokens nd"
  "n_ref (bump t nd) = n_ref nd + 1"
  "n_owners (bump t nd) = insert t (n_owners nd)"
  "n_last (bump t nd) = n_last nd"
  "n_children (bump t nd) = n_children nd"
  by (cases nd; simp)+

function bump_path :: "string \<Rightarrow> node \<Rightarrow> int list \<Rightarrow> node \<times> nat" where
  "bump_path t nd toks =
     (case toks of
        [] \<Rightarrow> (nd, 0)
      | k # _ \<Rightarrow>
         (case dget (n_children nd) k of
            None \<Rightarrow> (nd, 0)
          | Some nxt \<Rightarrow>
             let n = length (n_tokens nxt) in
             if take n toks \<noteq> n_tokens nxt then (nd, 0)
             else
               let (nxt', m) = bump_path t nxt (drop n toks)
               in (set_child k (bump t nxt') nd, n + m)))"
  by pat_completeness auto
termination
  by (relation "measure (\<lambda>(t, nd, toks). size nd)") (auto dest: size_dget)

declare bump_path.simps [simp del]

text \<open>\<open>_add_refs\<close>: the same descent, but a node already owned is left alone.\<close>

function add_refs :: "string \<Rightarrow> node \<Rightarrow> int list \<Rightarrow> node" where
  "add_refs t nd toks =
     (case toks of
        [] \<Rightarrow> nd
      | k # _ \<Rightarrow>
         (case dget (n_children nd) k of
            None \<Rightarrow> nd
          | Some nxt \<Rightarrow>
             let n = length (n_tokens nxt) in
             if take n toks \<noteq> n_tokens nxt then nd
             else
               let nxt' = add_refs t nxt (drop n toks)
               in set_child k (if t \<in> n_owners nxt then nxt' else bump t nxt') nd))"
  by pat_completeness auto
termination
  by (relation "measure (\<lambda>(t, nd, toks). size nd)") (auto dest: size_dget)

declare add_refs.simps [simp del]

text \<open>
  The release loop of \<open>kill\<close>: collect the matched path, then from its deepest node upwards
  drop the owner and the reference, and delete a node that is unreferenced and childless.
  The second component is the number of tokens freed.
\<close>

fun unref :: "string \<Rightarrow> node \<Rightarrow> node" where
  "unref t (Node toks r ow la cs) = Node toks (r - 1) (ow - {t}) la cs"

lemma unref_sel [simp]:
  "n_tokens (unref t nd) = n_tokens nd"
  "n_ref (unref t nd) = n_ref nd - 1"
  "n_owners (unref t nd) = n_owners nd - {t}"
  "n_last (unref t nd) = n_last nd"
  "n_children (unref t nd) = n_children nd"
  by (cases nd; simp)+

function release :: "string \<Rightarrow> node \<Rightarrow> int list \<Rightarrow> node \<times> nat" where
  "release t nd toks =
     (case toks of
        [] \<Rightarrow> (nd, 0)
      | k # _ \<Rightarrow>
         (case dget (n_children nd) k of
            None \<Rightarrow> (nd, 0)
          | Some nxt \<Rightarrow>
             let n = length (n_tokens nxt) in
             if take n toks \<noteq> n_tokens nxt then (nd, 0)
             else
               let (nxt', freed) = release t nxt (drop n toks);
                   c = unref t nxt'
               in if n_ref c \<le> 0 \<and> n_children c = []
                  then (del_child (hd (n_tokens c)) nd, freed + length (n_tokens c))
                  else (set_child k c nd, freed)))"
  by pat_completeness auto
termination
  by (relation "measure (\<lambda>(t, nd, toks). size nd)") (auto dest: size_dget)

declare release.simps [simp del]

end
