(* ===== verification/Radix_Laws.thy ===== *)
theory Radix_Laws
  imports Radix_Node
begin

text \<open>
  What the radix loops mean.  A subtree is read as a partial map \<open>owners_at\<close> from non-empty
  token prefixes to the owners of the node that stores the prefix's last token; every loop of
  \<open>Radix_Node\<close> is characterised by its effect on that map, independently of how the tokens are
  cut into nodes.
\<close>

section \<open>Reading a subtree\<close>

function owners_at :: "node \<Rightarrow> int list \<Rightarrow> string set option" where
  "owners_at nd p =
     (case p of
        [] \<Rightarrow> None
      | k # _ \<Rightarrow>
         (case dget (n_children nd) k of
            None \<Rightarrow> None
          | Some c \<Rightarrow>
             if prefix p (n_tokens c) then Some (n_owners c)
             else if prefix (n_tokens c) p then owners_at c (drop (length (n_tokens c)) p)
             else None))"
  by pat_completeness auto
termination
  by (relation "measure (\<lambda>(nd, p). size nd)") (auto dest: size_dget)

declare owners_at.simps [simp del]

definition own_in :: "node \<Rightarrow> int list \<Rightarrow> string set option" where
  "own_in c p =
     (if prefix p (n_tokens c) then Some (n_owners c)
      else if prefix (n_tokens c) p then owners_at c (drop (length (n_tokens c)) p)
      else None)"

lemma owners_at_Nil [simp]: "owners_at nd [] = None"
  by (simp add: owners_at.simps)

lemma owners_at_step:
  "p \<noteq> [] \<Longrightarrow> owners_at nd p =
     (case dget (n_children nd) (hd p) of None \<Rightarrow> None | Some c \<Rightarrow> own_in c p)"
  by (cases p) (auto simp: owners_at.simps [of nd] own_in_def split: option.split)

lemma owners_at_cong_children:
  "n_children nd = n_children nd' \<Longrightarrow> owners_at nd = owners_at nd'"
  by (rule ext, rename_tac p, case_tac "p = []") (simp_all add: owners_at_step)

lemma owners_at_upd [simp]:
  "owners_at (touch now nd) = owners_at nd"
  "owners_at (bump t nd) = owners_at nd"
  "owners_at (unref t nd) = owners_at nd"
  by (rule owners_at_cong_children; simp)+

lemma own_in_touch [simp]: "own_in (touch now c) = own_in c"
  by (simp add: own_in_def fun_eq_iff)

lemma owners_at_set_child:
  "owners_at (set_child k c nd) p =
     (if p \<noteq> [] \<and> hd p = k then own_in c p else owners_at nd p)"
  by (cases "p = []") (auto simp: owners_at_step)

lemma owners_at_del_child:
  "owners_at (del_child k nd) p = (if p \<noteq> [] \<and> hd p = k then None else owners_at nd p)"
  by (cases "p = []") (auto simp: owners_at_step)

section \<open>Well-formed subtrees\<close>

text \<open>
  Children are keyed by their first token, are never empty, and the reference count of a node
  is the number of its owners.
\<close>

fun wf_node :: "node \<Rightarrow> bool" where
  "wf_node (Node toks r ow la cs) \<longleftrightarrow>
     finite ow \<and> r = int (card ow) \<and> wf_dict cs \<and>
     (\<forall>kc \<in> set cs. n_tokens (snd kc) \<noteq> [] \<and> hd (n_tokens (snd kc)) = fst kc \<and> wf_node (snd kc))"

definition wf_child :: "int \<Rightarrow> node \<Rightarrow> bool" where
  "wf_child k c \<longleftrightarrow> n_tokens c \<noteq> [] \<and> hd (n_tokens c) = k \<and> wf_node c"

lemma wf_node_iff:
  "wf_node nd \<longleftrightarrow>
     finite (n_owners nd) \<and> n_ref nd = int (card (n_owners nd)) \<and> wf_dict (n_children nd) \<and>
     (\<forall>k c. dget (n_children nd) k = Some c \<longrightarrow> wf_child k c)"
  by (cases nd) (fastforce simp: wf_child_def dget_in_set)

lemma wf_node_dict: "wf_node nd \<Longrightarrow> wf_dict (n_children nd)"
  by (simp add: wf_node_iff)

lemma wf_node_child: "wf_node nd \<Longrightarrow> dget (n_children nd) k = Some c \<Longrightarrow> wf_child k c"
  by (simp add: wf_node_iff)

lemma wf_set_child: "wf_node nd \<Longrightarrow> wf_child k c \<Longrightarrow> wf_node (set_child k c nd)"
  by (simp add: wf_node_iff)

lemma wf_child_set_child: "wf_child k c \<Longrightarrow> wf_child j x \<Longrightarrow> wf_child k (set_child j x c)"
  unfolding wf_child_def [of k] by (simp add: wf_set_child)

lemma wf_del_child: "wf_node nd \<Longrightarrow> wf_node (del_child k nd)"
  by (simp add: wf_node_iff)

lemma wf_touch [simp]: "wf_node (touch now nd) = wf_node nd"
  by (simp add: wf_node_iff)

lemma wf_child_touch [simp]: "wf_child k (touch now c) = wf_child k c"
  by (simp add: wf_child_def)

lemma wf_bump: "wf_node nd \<Longrightarrow> t \<notin> n_owners nd \<Longrightarrow> wf_node (bump t nd)"
  by (simp add: wf_node_iff)

lemma wf_unref: "wf_node nd \<Longrightarrow> t \<in> n_owners nd \<Longrightarrow> wf_node (unref t nd)"
proof -
  assume *: "wf_node nd" "t \<in> n_owners nd"
  then have "0 < card (n_owners nd)"
    by (auto simp: wf_node_iff card_gt_0_iff)
  with * show ?thesis
    by (simp add: wf_node_iff card_Diff_singleton of_nat_diff)
qed

lemma wf_child_split:
  assumes "wf_child k c" "0 < pos" "pos < length (n_tokens c)"
  shows "wf_child k (split_node clk i c pos)"
  using assms by (cases c) (auto simp: wf_child_def split_node_def)

lemma split_node_sel [simp]:
  "n_tokens (split_node clk i c pos) = take pos (n_tokens c)"
  "n_owners (split_node clk i c pos) = n_owners c"
  "n_ref (split_node clk i c pos) = n_ref c"
  by (simp_all add: split_node_def)

lemma drop_prefix_Cons: "0 < n \<Longrightarrow> n < length xs \<Longrightarrow> drop n xs = xs ! n # drop (Suc n) xs"
  by (simp add: Cons_nth_drop_Suc)

lemma own_in_split:
  assumes "0 < pos" "pos < length (n_tokens c)"
  shows "own_in (split_node clk i c pos) p = own_in c p"
proof (cases "prefix (take pos (n_tokens c)) p \<and> \<not> prefix p (take pos (n_tokens c))")
  case True
  then obtain q where p: "p = take pos (n_tokens c) @ q" and q: "q \<noteq> []"
    by (auto simp: prefix_def)
  have pre: "prefix p (n_tokens c) \<longleftrightarrow> prefix q (drop pos (n_tokens c))"
    "prefix (n_tokens c) p \<longleftrightarrow> prefix (drop pos (n_tokens c)) q"
    unfolding p by (metis append_take_drop_id same_prefix_prefix)+
  have hd: "hd q = hd (drop pos (n_tokens c))"
    if "prefix q (drop pos (n_tokens c)) \<or> prefix (drop pos (n_tokens c)) q"
    using that q assms by (auto simp: prefix_def hd_append)
  let ?tail = "Node (drop pos (n_tokens c)) (n_ref c) (n_owners c) (n_last c) (n_children c)"
  have tl: "owners_at ?tail = owners_at c"
    by (rule owners_at_cong_children) simp
  show ?thesis
    using True q assms hd
    by (auto simp: own_in_def split_node_def p pre [unfolded p] owners_at_step tl min_def)
next
  case False
  have "prefix p (take pos (n_tokens c)) \<Longrightarrow> prefix p (n_tokens c)"
    by (meson prefix_order.trans take_is_prefix)
  moreover have "prefix (take pos (n_tokens c)) p" if "prefix (n_tokens c) p"
    using that by (meson prefix_order.trans take_is_prefix)
  moreover have "prefix p (take pos (n_tokens c)) \<or> prefix (take pos (n_tokens c)) p"
    if "prefix p (n_tokens c)"
    using that by (meson prefix_same_cases take_is_prefix)
  ultimately show ?thesis
    using False by (auto simp: own_in_def split_node_def)
qed

section \<open>The walk\<close>

definition same_top :: "node \<Rightarrow> node \<Rightarrow> bool" where
  "same_top a b \<longleftrightarrow> n_tokens a = n_tokens b \<and> n_ref a = n_ref b \<and> n_owners a = n_owners b"

lemma same_top_simps [simp]:
  "same_top nd nd" "same_top nd (touch now nd)" "same_top nd (set_child k c nd)"
  "same_top nd (touch now nd') = same_top nd nd'" "same_top (touch now nd) nd' = same_top nd nd'"
  by (auto simp: same_top_def)

text \<open>
  One run of \<open>walk\<close>, with the timestamps left open: it stops, splits the node it is in, or
  descends into a child whose tokens match.
\<close>

inductive walked :: "node \<Rightarrow> int list \<Rightarrow> node \<Rightarrow> int list \<Rightarrow> nat \<Rightarrow> bool" where
  stop: "toks = [] \<or> dget (n_children nd) (hd toks) = None \<Longrightarrow> walked nd toks nd [] 0"
| splits: "\<lbrakk> toks \<noteq> []; dget (n_children nd) (hd toks) = Some c; 0 < pos;
    pos < length (n_tokens c); prefix (take pos (n_tokens c)) toks;
    pos < length toks \<longrightarrow> n_tokens c ! pos \<noteq> toks ! pos \<rbrakk> \<Longrightarrow>
    walked nd toks (set_child (hd toks) (touch now (split_node clk i c pos)) nd) [hd toks] pos"
| enters: "\<lbrakk> toks \<noteq> []; dget (n_children nd) (hd toks) = Some c; prefix (n_tokens c) toks;
    walked (touch now c) (drop (length (n_tokens c)) toks) c' path m \<rbrakk> \<Longrightarrow>
    walked nd toks (set_child (hd toks) c' nd) (hd toks # path) (length (n_tokens c) + m)"

lemma walk_stop:
  "toks = [] \<or> dget (n_children nd) (hd toks) = None \<Longrightarrow> walk clk i nd toks = (nd, [], 0, i)"
  by (cases toks) (auto simp: walk.simps [of clk i nd])

lemma walk_enter:
  "toks \<noteq> [] \<Longrightarrow> dget (n_children nd) (hd toks) = Some c \<Longrightarrow> prefix (n_tokens c) toks \<Longrightarrow>
   walk clk i nd toks =
     (let (c', path, m, i') = walk clk (Suc i) (touch (clk i) c) (drop (length (n_tokens c)) toks)
      in (set_child (hd toks) c' nd, hd toks # path, length (n_tokens c) + m, i'))"
  by (cases toks) (auto simp: walk.simps [of clk i nd] prefix_iff_take Let_def)

lemma walk_split:
  "toks \<noteq> [] \<Longrightarrow> dget (n_children nd) (hd toks) = Some c \<Longrightarrow> \<not> prefix (n_tokens c) toks \<Longrightarrow>
   pos = lcp_len (n_tokens c) toks \<Longrightarrow> 0 < pos \<Longrightarrow>
   walk clk i nd toks =
     (let (c', path, m, i') = walk clk (Suc (Suc i)) (touch (clk (Suc i)) (split_node clk i c pos))
            (drop pos toks)
      in (set_child (hd toks) c' nd, hd toks # path, pos + m, i'))"
  by (cases toks) (auto simp: walk.simps [of clk i nd] prefix_iff_take Let_def)

lemma walk_after_split:
  assumes "0 < pos" "pos < length (n_tokens c)"
    and "pos < length toks \<longrightarrow> n_tokens c ! pos \<noteq> toks ! pos"
  shows "walk clk j (touch now (split_node clk i c pos)) (drop pos toks) =
    (touch now (split_node clk i c pos), [], 0, j)"
proof (cases "pos < length toks")
  case True
  then show ?thesis
    using assms by (subst walk.simps)
      (simp add: split_node_def drop_prefix_Cons [of pos toks] hd_drop_conv_nth)
next
  case False
  then show ?thesis by (subst walk.simps) simp
qed

lemma walk_walked:
  assumes "wf_node nd" "walk clk i nd toks = (nd', path, m, i')"
  shows "walked nd toks nd' path m"
  using assms
proof (induction nd arbitrary: i toks nd' path m i' rule: measure_induct_rule [where f = size])
  case (less nd)
  show ?case
  proof (cases "toks = [] \<or> dget (n_children nd) (hd toks) = None")
    case True
    with less.prems(2) show ?thesis
      by (simp add: walk_stop walked.stop)
  next
    case False
    then obtain c where ne: "toks \<noteq> []" and c: "dget (n_children nd) (hd toks) = Some c"
      by auto
    have wfc: "wf_child (hd toks) c"
      using less.prems(1) c by (rule wf_node_child)
    show ?thesis
    proof (cases "prefix (n_tokens c) toks")
      case True
      obtain c' path' m' j where
        rec: "walk clk (Suc i) (touch (clk i) c) (drop (length (n_tokens c)) toks) = (c', path', m', j)"
        by (metis prod_cases4)
      have "walked (touch (clk i) c) (drop (length (n_tokens c)) toks) c' path' m'"
        using less.IH [OF _ _ rec] size_dget [OF c] wfc by (simp add: wf_child_def)
      moreover have "nd' = set_child (hd toks) c' nd" "path = hd toks # path'"
        "m = length (n_tokens c) + m'"
        using less.prems(2) walk_enter [OF ne c True, of clk i] rec by auto
      ultimately show ?thesis
        using walked.enters [OF ne c True] by simp
    next
      case False
      define pos where "pos = lcp_len (n_tokens c) toks"
      have pos: "0 < pos" "pos < length (n_tokens c)" "prefix (take pos (n_tokens c)) toks"
        "pos < length toks \<longrightarrow> n_tokens c ! pos \<noteq> toks ! pos"
        using False wfc ne lcp_len_le [of "n_tokens c" toks] lcp_len_full [of "n_tokens c" toks]
          lcp_len_maximal [of "n_tokens c" toks] lcp_len_take [of "n_tokens c" toks]
        by (auto simp: pos_def wf_child_def take_is_prefix le_less neq_Nil_conv)
      have "nd' = set_child (hd toks) (touch (clk (Suc i)) (split_node clk i c pos)) nd"
        "path = [hd toks]" "m = pos"
        using less.prems(2) walk_split [OF ne c False pos_def pos(1), of clk i]
          walk_after_split [OF pos(1,2,4)] by auto
      then show ?thesis
        using walked.splits [OF ne c pos] by simp
    qed
  qed
qed

lemma own_in_cong: "same_top c c' \<Longrightarrow> owners_at c' = owners_at c \<Longrightarrow> own_in c' = own_in c"
  by (simp add: own_in_def same_top_def fun_eq_iff)

lemma own_in_prefix: "prefix p (n_tokens c) \<Longrightarrow> own_in c p = Some (n_owners c)"
  by (simp add: own_in_def)

lemma own_in_append: "q \<noteq> [] \<Longrightarrow> own_in c (n_tokens c @ q) = owners_at c q"
  by (simp add: own_in_def)

lemma own_in_None: "\<not> prefix p (n_tokens c) \<Longrightarrow> \<not> prefix (n_tokens c) p \<Longrightarrow> own_in c p = None"
  by (simp add: own_in_def)

lemma prefix_cases3:
  obtains (below) "prefix p ts" | (above) q where "q \<noteq> []" "p = ts @ q"
    | (apart) "\<not> prefix p ts" "\<not> prefix ts p"
  by (metis append_Nil2 prefix_def prefix_order.order_refl)

lemma walked_top: "walked nd toks nd' path m \<Longrightarrow> same_top nd nd'"
  by (induction rule: walked.induct) auto

lemma walked_wf: "walked nd toks nd' path m \<Longrightarrow> wf_node nd \<Longrightarrow> wf_node nd'"
proof (induction rule: walked.induct)
  case (splits toks nd c pos now clk i)
  then show ?case
    by (intro wf_set_child) (auto intro: wf_child_split wf_node_child)
next
  case (enters toks nd c now c' path m)
  then have "wf_child (hd toks) c" by (auto intro: wf_node_child)
  moreover have "same_top c c'"
    using walked_top [OF enters.hyps(4)] by simp
  ultimately have "wf_child (hd toks) c'"
    using enters.IH by (simp add: wf_child_def same_top_def)
  then show ?case
    using enters.prems by (intro wf_set_child)
qed simp

lemma walked_owners: "walked nd toks nd' path m \<Longrightarrow> owners_at nd' = owners_at nd"
proof (induction rule: walked.induct)
  case (splits toks nd c pos now clk i)
  then show ?case
    by (auto simp: fun_eq_iff owners_at_set_child own_in_split owners_at_step)
next
  case (enters toks nd c now c' path m)
  have "own_in c' = own_in c"
    using walked_top [OF enters.hyps(4)] enters.IH by (intro own_in_cong) auto
  then show ?case
    using enters.hyps by (auto simp: fun_eq_iff owners_at_set_child owners_at_step)
qed simp

lemma walked_le: "walked nd toks nd' path m \<Longrightarrow> m \<le> length toks"
proof (induction rule: walked.induct)
  case (splits toks nd c pos now clk i)
  then show ?case by (auto dest!: prefix_length_le)
next
  case (enters toks nd c now c' path m)
  then show ?case by (auto dest!: prefix_length_le)
qed simp

lemma walked_maximal:
  "walked nd toks nd' path m \<Longrightarrow> m < length toks \<Longrightarrow> owners_at nd (take (Suc m) toks) = None"
proof (induction rule: walked.induct)
  case (stop toks nd)
  then show ?case by (auto simp: owners_at_step)
next
  case (splits toks nd c pos now clk i)
  let ?p = "take (Suc pos) toks"
  have p: "?p \<noteq> []" "hd ?p = hd toks" "length ?p = Suc pos" "?p ! pos = toks ! pos"
    using splits by auto
  have "\<not> prefix ?p (n_tokens c)"
    using p splits.prems splits.hyps(6) by (metis lessI nth_append prefix_def)
  moreover have "\<not> prefix (n_tokens c) ?p"
    using p splits.prems splits.hyps(4,6)
    by (metis (no_types) Suc_leI calculation le_antisym length_take min.absorb1 prefix_iff_take
        prefix_length_le prefix_order.order_refl)
  ultimately show ?case
    using splits.hyps p by (simp add: owners_at_step own_in_None)
next
  case (enters toks nd c now c' path m)
  let ?n = "length (n_tokens c)" and ?q = "take (Suc m) (drop (length (n_tokens c)) toks)"
  have "take (Suc (?n + m)) toks = n_tokens c @ ?q"
    using enters.hyps(3) by (metis add_Suc_right prefix_iff_take take_add)
  moreover have "owners_at c ?q = None" "?q \<noteq> []"
    using enters.IH enters.prems by auto
  moreover have "hd (n_tokens c @ ?q) = hd toks"
    using calculation(1) by (metis hd_take zero_less_Suc)
  ultimately show ?case
    using enters.hyps(2) by (simp add: owners_at_step own_in_append)
qed

section \<open>Aligned sequences\<close>

text \<open>
  A token sequence is aligned when it is cached and ends at a node boundary: then the descents
  of \<open>fork_branch\<close>, \<open>kill\<close> and \<open>_add_refs\<close>, which never split, cover all of it.
\<close>

function aligned :: "node \<Rightarrow> int list \<Rightarrow> bool" where
  "aligned nd toks =
     (case toks of
        [] \<Rightarrow> True
      | k # _ \<Rightarrow>
         (case dget (n_children nd) k of
            None \<Rightarrow> False
          | Some c \<Rightarrow> prefix (n_tokens c) toks \<and> aligned c (drop (length (n_tokens c)) toks)))"
  by pat_completeness auto
termination
  by (relation "measure (\<lambda>(nd, toks). size nd)") (auto dest: size_dget)

declare aligned.simps [simp del]

lemma aligned_Nil [simp]: "aligned nd []"
  by (simp add: aligned.simps)

lemma aligned_step:
  "toks \<noteq> [] \<Longrightarrow> aligned nd toks \<longleftrightarrow>
     (\<exists>c. dget (n_children nd) (hd toks) = Some c \<and> prefix (n_tokens c) toks \<and>
          aligned c (drop (length (n_tokens c)) toks))"
  by (cases toks) (auto simp: aligned.simps [of nd] split: option.split)

lemma aligned_cong_children:
  "n_children nd = n_children nd' \<Longrightarrow> aligned nd toks = aligned nd' toks"
  by (cases "toks = []") (simp_all add: aligned_step)

lemma aligned_touch [simp]: "aligned (touch now nd) toks = aligned nd toks"
  by (rule aligned_cong_children) simp

text \<open>Induction along an aligned descent.\<close>

lemma aligned_induct [consumes 2, case_names Nil Step]:
  assumes "aligned nd toks" "wf_node nd"
    and nil: "\<And>nd. wf_node nd \<Longrightarrow> P nd []"
    and step: "\<And>nd toks c rest. \<lbrakk> wf_node nd; wf_child (hd toks) c;
      dget (n_children nd) (hd toks) = Some c; n_tokens c @ rest = toks; toks \<noteq> [];
      aligned c rest; P c rest \<rbrakk> \<Longrightarrow> P nd toks"
  shows "P nd toks"
  using assms(1,2)
proof (induction nd arbitrary: toks rule: measure_induct_rule [where f = size])
  case (less nd)
  show ?case
  proof (cases "toks = []")
    case True
    with less.prems(2) show ?thesis by (simp add: nil)
  next
    case False
    then obtain c where c: "dget (n_children nd) (hd toks) = Some c" "prefix (n_tokens c) toks"
        "aligned c (drop (length (n_tokens c)) toks)"
      using less.prems(1) by (auto simp: aligned_step)
    have wfc: "wf_child (hd toks) c" using less.prems(2) c(1) by (rule wf_node_child)
    then have "P c (drop (length (n_tokens c)) toks)"
      using less.IH [OF size_dget [OF c(1)] c(3)] by (simp add: wf_child_def)
    then show ?thesis
      by (intro step [OF less.prems(2) wfc c(1) prefix_drop_append [OF c(2), symmetric] False c(3)])
  qed
qed

lemma aligned_cached:
  "aligned nd toks \<Longrightarrow> wf_node nd \<Longrightarrow> prefix p toks \<Longrightarrow> p \<noteq> [] \<Longrightarrow> owners_at nd p \<noteq> None"
proof (induction nd toks arbitrary: p rule: aligned_induct)
  case (Step nd toks c rest)
  have hd: "hd p = hd toks"
    using Step.prems by (auto simp: prefix_def)
  consider "prefix p (n_tokens c)" | q where "q \<noteq> []" "p = n_tokens c @ q" "prefix q rest"
    using Step.prems(1) Step.hyps(4)
    by (metis append_Nil2 prefix_append prefix_order.order_refl)
  then show ?case
    using Step.prems Step.hyps(3) Step.IH hd
    by cases (auto simp: owners_at_step own_in_prefix own_in_append)
qed simp

lemma walked_aligned:
  "walked nd toks nd' path m \<Longrightarrow> wf_node nd \<Longrightarrow> aligned nd' (take m toks)"
proof (induction rule: walked.induct)
  case (splits toks nd c pos now clk i)
  then have "take pos toks = take pos (n_tokens c)"
    by (metis length_take min.absorb4 prefix_iff_take)
  moreover have "take pos (n_tokens c) \<noteq> []" using splits by auto
  moreover have "hd (take pos (n_tokens c)) = hd toks"
    using splits calculation(1) by (metis hd_take)
  ultimately show ?case
    using splits by (simp add: aligned_step split_node_def)
next
  case (enters toks nd c now c' path m)
  have wfc: "wf_child (hd toks) c" using enters.prems enters.hyps(2) by (rule wf_node_child)
  have top: "n_tokens c' = n_tokens c"
    using walked_top [OF enters.hyps(4)] by (simp add: same_top_def)
  have "take (length (n_tokens c) + m) toks
      = n_tokens c @ take m (drop (length (n_tokens c)) toks)"
    using enters.hyps(3) by (metis prefix_iff_take take_add)
  moreover have "hd (take (length (n_tokens c) + m) toks) = hd toks"
    using wfc by (simp add: wf_child_def hd_take)
  ultimately show ?case
    using enters wfc top by (subst aligned_step) (auto simp: wf_child_def)
qed simp

section \<open>Insertion at the end of a walk\<close>

lemma wf_child_fresh:
  "wf_node new \<Longrightarrow> n_tokens new = drop m toks \<Longrightarrow> m < length toks \<Longrightarrow> wf_child (toks ! m) new"
  by (simp add: wf_child_def hd_drop_conv_nth)

lemma attach_top: "same_top nd (attach path k new nd)"
  by (induction path k new nd rule: attach.induct) (auto split: option.split)

lemma walked_attach_wf:
  "walked nd toks nd' path m \<Longrightarrow> wf_node nd \<Longrightarrow> m < length toks \<Longrightarrow>
   wf_node new \<Longrightarrow> n_tokens new = drop m toks \<Longrightarrow> wf_node (attach path (toks ! m) new nd')"
proof (induction rule: walked.induct)
  case (stop toks nd)
  then show ?case by (simp add: wf_set_child wf_child_fresh)
next
  case (splits toks nd c pos now clk i)
  let ?h = "touch now (split_node clk i c pos)"
  have "wf_child (hd toks) ?h"
    using splits by (auto intro: wf_child_split wf_node_child)
  then have "wf_child (hd toks) (set_child (toks ! pos) new ?h)"
    using splits.prems by (intro wf_child_set_child wf_child_fresh)
  with splits.prems \<open>wf_child (hd toks) ?h\<close> show ?case
    by (simp add: wf_set_child)
next
  case (enters toks nd c now c' path m)
  have c: "wf_child (hd toks) c" using enters.prems(1) enters.hyps(2) by (rule wf_node_child)
  have nth: "drop (length (n_tokens c)) toks ! m = toks ! (length (n_tokens c) + m)"
    using enters.prems by simp
  have wf: "wf_node (attach path (toks ! (length (n_tokens c) + m)) new c')"
    using enters.IH enters.prems c by (simp add: nth wf_child_def add.commute)
  have "wf_child (hd toks) c'"
    using walked_top [OF enters.hyps(4)] walked_wf [OF enters.hyps(4)] c
    by (simp add: wf_child_def same_top_def)
  then have "wf_child (hd toks) (attach path (toks ! (length (n_tokens c) + m)) new c')"
    using wf attach_top [of c' path "toks ! (length (n_tokens c) + m)" new]
    by (simp add: wf_child_def same_top_def)
  then show ?case
    using \<open>wf_child (hd toks) c'\<close> enters.prems(1) by (simp add: wf_set_child)
qed

lemma walked_attach_aligned:
  "walked nd toks nd' path m \<Longrightarrow> wf_node nd \<Longrightarrow> m < length toks \<Longrightarrow>
   n_tokens new = drop m toks \<Longrightarrow> aligned (attach path (toks ! m) new nd') toks"
proof (induction rule: walked.induct)
  case (stop toks nd)
  then show ?case by (auto simp: aligned_step hd_conv_nth)
next
  case (splits toks nd c pos now clk i)
  have "length (take pos (n_tokens c)) = pos" using splits by simp
  moreover have "drop pos toks \<noteq> []" "hd (drop pos toks) = toks ! pos"
    using splits.prems by (auto simp: hd_drop_conv_nth)
  ultimately show ?case
    using splits by (auto simp: aligned_step [of toks] aligned_step [of "drop pos toks"] split_node_def)
next
  case (enters toks nd c now c' path m)
  have wfc: "wf_child (hd toks) c" using enters.prems(1) enters.hyps(2) by (rule wf_node_child)
  let ?x = "attach path (toks ! (length (n_tokens c) + m)) new c'"
  have "n_tokens ?x = n_tokens c"
    using attach_top [of c' path "toks ! (length (n_tokens c) + m)" new] walked_top [OF enters.hyps(4)]
    by (simp add: same_top_def)
  moreover have "aligned ?x (drop (length (n_tokens c)) toks)"
    using enters.IH enters.prems wfc by (simp add: wf_child_def add.commute)
  ultimately show ?case
    using enters.hyps(1,3) by (simp add: aligned_step [of toks])
qed

lemma own_in_leaf:
  "n_children c = [] \<Longrightarrow> own_in c p = (if prefix p (n_tokens c) then Some (n_owners c) else None)"
  by (cases "drop (length (n_tokens c)) p = []") (auto simp: own_in_def owners_at_step)

lemma owners_at_prefix_None:
  "owners_at nd p = None \<Longrightarrow> prefix p q \<Longrightarrow> p \<noteq> [] \<Longrightarrow> wf_node nd \<Longrightarrow> owners_at nd q = None"
proof (induction nd arbitrary: p q rule: measure_induct_rule [where f = size])
  case (less nd)
  have q: "q \<noteq> []" "hd q = hd p" using less.prems by (auto simp: prefix_def)
  show ?case
  proof (cases "dget (n_children nd) (hd p)")
    case (Some c)
    have none: "own_in c p = None" using less.prems Some by (simp add: owners_at_step)
    have "own_in c q = None"
    proof (cases rule: prefix_cases3 [of p "n_tokens c"])
      case below
      with none show ?thesis by (simp add: own_in_prefix)
    next
      case (above p')
      then obtain q' where q': "q = n_tokens c @ q'" "prefix p' q'"
        using less.prems(2) by (auto simp: prefix_def)
      have "owners_at c q' = None"
        using less.IH [OF size_dget [OF Some] _ q'(2) above(1)] none above
          wf_node_child [OF less.prems(4) Some] by (simp add: own_in_append wf_child_def)
      moreover have "q' \<noteq> []" using above q' by auto
      ultimately show ?thesis by (simp add: q' own_in_append)
    next
      case apart
      then show ?thesis
        using less.prems(2) by (intro own_in_None) (meson prefix_order.trans prefix_same_cases)+
    qed
    then show ?thesis using q Some by (simp add: owners_at_step)
  qed (use q in \<open>simp add: owners_at_step\<close>)
qed

lemma hd_prefix: "prefix p toks \<Longrightarrow> p \<noteq> [] \<Longrightarrow> hd p = hd toks"
  by (auto simp: prefix_def)

text \<open>An insertion below a child, seen from the child's parent.\<close>

lemma own_in_insert:
  assumes "same_top c x" "prefix (n_tokens c) toks"
    and rec: "\<And>q. owners_at x q =
      (if prefix q (drop (length (n_tokens c)) toks) \<and> m < length q then V else owners_at c q)"
  shows "own_in x p =
    (if prefix p toks \<and> length (n_tokens c) + m < length p then V else own_in c p)"
proof (cases rule: prefix_cases3 [of p "n_tokens c"])
  case below
  then show ?thesis
    using prefix_length_le [OF below] assms(1) by (simp add: own_in_prefix same_top_def)
next
  case (above q)
  then have "prefix p toks \<longleftrightarrow> prefix q (drop (length (n_tokens c)) toks)"
    using prefix_drop_append [OF assms(2)] by (metis same_prefix_prefix)
  moreover have "own_in x p = owners_at x q" "own_in c p = owners_at c q"
    using above assms(1) by (metis own_in_append same_top_def)+
  ultimately show ?thesis using above rec by simp
next
  case apart
  then have "\<not> (prefix p toks \<and> length (n_tokens c) + m < length p)"
    using assms(2) by (meson prefix_same_cases)
  with apart assms(1) show ?thesis by (auto simp: own_in_None same_top_def)
qed

lemma owners_at_insert_leaf:
  assumes "toks \<noteq> []" "dget (n_children nd) (hd toks) = None"
    and new: "n_tokens new = toks" "n_children new = []"
  shows "owners_at (set_child (hd toks) new nd) p =
    (if prefix p toks \<and> 0 < length p then Some (n_owners new) else owners_at nd p)"
  using assms by (cases "p = []") (auto simp: owners_at_set_child own_in_leaf owners_at_step hd_prefix)

lemma walked_attach_owners:
  assumes "walked nd toks nd' path m" "wf_node nd" "m < length toks"
    and new: "n_tokens new = drop m toks" "n_children new = []"
  shows "owners_at (attach path (toks ! m) new nd') p =
    (if prefix p toks \<and> m < length p then Some (n_owners new) else owners_at nd p)"
  using assms
proof (induction arbitrary: p rule: walked.induct)
  case (stop toks nd)
  then show ?case
    using owners_at_insert_leaf [of toks nd new p] by (simp add: hd_conv_nth)
next
  case (splits toks nd c pos now clk i)
  let ?h = "touch now (split_node clk i c pos)"
  have "hd (drop pos toks) = toks ! pos" "drop pos toks \<noteq> []"
    using splits.prems by (auto simp: hd_drop_conv_nth)
  moreover have "dget (n_children ?h) (toks ! pos) = None" "length (n_tokens ?h) = pos"
    using splits by (auto simp: split_node_def hd_drop_conv_nth)
  ultimately have "owners_at (set_child (toks ! pos) new ?h) q =
      (if prefix q (drop (length (n_tokens ?h)) toks) \<and> 0 < length q then Some (n_owners new)
       else owners_at ?h q)" for q
    using owners_at_insert_leaf [of "drop pos toks" ?h new q] splits.prems by simp
  then have "own_in (set_child (toks ! pos) new ?h) p =
      (if prefix p toks \<and> length (n_tokens ?h) + 0 < length p then Some (n_owners new)
       else own_in ?h p)"
    using splits.hyps(5) by (intro own_in_insert) auto
  then show ?case
    using splits.hyps
    by (cases "p = []") (auto simp: owners_at_set_child owners_at_step hd_prefix own_in_split)
next
  case (enters toks nd c now c' path m)
  let ?x = "attach path (toks ! (length (n_tokens c) + m)) new c'"
  have "wf_child (hd toks) c" using enters.prems(1) enters.hyps(2) by (rule wf_node_child)
  then have "owners_at ?x q =
      (if prefix q (drop (length (n_tokens c)) toks) \<and> m < length q then Some (n_owners new)
       else owners_at c q)" for q
    using enters.IH [of q] enters.prems by (simp add: wf_child_def add.commute)
  moreover have "same_top c ?x"
    using attach_top [of c' path "toks ! (length (n_tokens c) + m)" new] walked_top [OF enters.hyps(4)]
    by (simp add: same_top_def)
  ultimately have "own_in ?x p =
      (if prefix p toks \<and> length (n_tokens c) + m < length p then Some (n_owners new) else own_in c p)"
    using enters.hyps(3) by (intro own_in_insert) auto
  then show ?case
    using enters.hyps(1,2)
    by (cases "p = []") (auto simp: owners_at_set_child owners_at_step hd_prefix)
qed

section \<open>Adding and dropping an owner along an aligned sequence\<close>

text \<open>
  An owner map changed by \<open>g\<close> on the prefixes of one sequence: \<open>add_owner\<close> for \<open>_add_refs\<close> and
  \<open>fork_branch\<close>, \<open>drop_owner\<close> for \<open>kill\<close> (a slot whose last owner goes is no longer cached).
\<close>

definition along :: "int list \<Rightarrow> (string set \<Rightarrow> string set option) \<Rightarrow>
    (int list \<Rightarrow> string set option) \<Rightarrow> int list \<Rightarrow> string set option" where
  "along toks g f p = (if p \<noteq> [] \<and> prefix p toks then Option.bind (f p) g else f p)"

definition add_owner :: "string \<Rightarrow> string set \<Rightarrow> string set option" where
  "add_owner t S = Some (insert t S)"

definition drop_owner :: "string \<Rightarrow> string set \<Rightarrow> string set option" where
  "drop_owner t S = (if S = {t} then None else Some (S - {t}))"

lemma owners_at_child:
  assumes "dget (n_children nd) (hd (n_tokens c)) = Some c" "n_tokens c \<noteq> []"
  shows "owners_at nd (n_tokens c) = Some (n_owners c)"
    and "q \<noteq> [] \<Longrightarrow> owners_at nd (n_tokens c @ q) = owners_at c q"
  using assms by (simp_all add: owners_at_step own_in_prefix own_in_append)

lemma wf_child_key: "wf_child k c \<Longrightarrow> hd (n_tokens c) = k \<and> n_tokens c \<noteq> []"
  by (simp add: wf_child_def)

lemma own_in_along:
  assumes "n_tokens x = n_tokens c" "Some (n_owners x) = g (n_owners c)"
    and rec: "owners_at x = along rest g (owners_at c)" and toks: "n_tokens c @ rest = toks"
  shows "own_in x p = (if prefix p toks then Option.bind (own_in c p) g else own_in c p)"
proof (cases rule: prefix_cases3 [of p "n_tokens c"])
  case below
  then have "prefix p toks" using toks by (metis prefix_append)
  with below assms(1,2) show ?thesis by (simp add: own_in_prefix)
next
  case (above q)
  then have "prefix p toks \<longleftrightarrow> prefix q rest" using toks by auto
  moreover have "own_in x p = owners_at x q" "own_in c p = owners_at c q"
    using above assms(1) by (metis own_in_append)+
  ultimately show ?thesis using above rec by (simp add: along_def)
next
  case apart
  then have "own_in x p = None" "own_in c p = None" using assms(1) by (simp_all add: own_in_None)
  then show ?thesis by simp
qed

lemma owners_at_along:
  assumes "dget (n_children nd) (hd toks) = Some c"
    and "\<And>p. own_in x p = (if prefix p toks then Option.bind (own_in c p) g else own_in c p)"
  shows "owners_at (set_child (hd toks) x nd) = along toks g (owners_at nd)"
proof
  fix p
  show "owners_at (set_child (hd toks) x nd) p = along toks g (owners_at nd) p"
    using assms by (cases "p = []") (auto simp: along_def owners_at_set_child owners_at_step hd_prefix)
qed

lemma take_drop_split:
  "xs @ ys = zs \<Longrightarrow> take (length xs) zs = xs" "xs @ ys = zs \<Longrightarrow> drop (length xs) zs = ys"
  by auto

lemma add_refs_enter:
  assumes "toks \<noteq> []" "dget (n_children nd) (hd toks) = Some c" "n_tokens c @ rest = toks"
  shows "add_refs t nd toks =
     set_child (hd toks)
       (if t \<in> n_owners c then add_refs t c rest else bump t (add_refs t c rest)) nd"
  using assms(1,2) take_drop_split [OF assms(3)]
  by (cases toks) (simp_all add: add_refs.simps [of t nd] Let_def)

lemma add_refs_spec:
  "aligned nd toks \<Longrightarrow> wf_node nd \<Longrightarrow>
   same_top nd (add_refs t nd toks) \<and> wf_node (add_refs t nd toks) \<and>
   owners_at (add_refs t nd toks) = along toks (add_owner t) (owners_at nd)"
proof (induction nd toks rule: aligned_induct)
  case (Nil nd)
  then show ?case by (auto simp: add_refs.simps [of t nd] along_def)
next
  case (Step nd toks c rest)
  let ?c = "add_refs t c rest"
  let ?x = "if t \<in> n_owners c then ?c else bump t ?c"
  have top: "n_tokens ?c = n_tokens c" "n_owners ?c = n_owners c"
    using Step.IH by (auto simp: same_top_def)
  have "wf_child (hd toks) ?x"
    using Step.IH Step.hyps(2) top by (auto simp: wf_child_def wf_bump)
  moreover have "own_in ?x p =
      (if prefix p toks then Option.bind (own_in c p) (add_owner t) else own_in c p)" for p
    using Step.IH Step.hyps(4) top
    by (intro own_in_along) (auto simp: add_owner_def [of t "n_owners c"] insert_absorb)
  ultimately show ?case
    using Step.hyps by (simp add: add_refs_enter [OF Step.hyps(5,3,4)] wf_set_child owners_at_along)
qed

lemma bump_path_enter:
  assumes "toks \<noteq> []" "dget (n_children nd) (hd toks) = Some c" "n_tokens c @ rest = toks"
  shows "bump_path t nd toks =
     (let (c', m) = bump_path t c rest in (set_child (hd toks) (bump t c') nd, length (n_tokens c) + m))"
  using assms(1,2) take_drop_split [OF assms(3)]
  by (cases toks) (simp_all add: bump_path.simps [of t nd] Let_def)

text \<open>For a new owner, the fork loop does what \<open>_add_refs\<close> does, and matches everything.\<close>

lemma bump_path_eq_add_refs:
  "aligned nd toks \<Longrightarrow> wf_node nd \<Longrightarrow> (\<And>p S. owners_at nd p = Some S \<Longrightarrow> t \<notin> S) \<Longrightarrow>
   bump_path t nd toks = (add_refs t nd toks, length toks)"
proof (induction nd toks rule: aligned_induct)
  case (Nil nd)
  then show ?case by (simp add: bump_path.simps [of t nd] add_refs.simps [of t nd])
next
  case (Step nd toks c rest)
  have at_c: "dget (n_children nd) (hd (n_tokens c)) = Some c" "n_tokens c \<noteq> []"
    using Step.hyps(2,3) by (auto dest: wf_child_key)
  have "t \<notin> n_owners c"
    using Step.prems owners_at_child(1) [OF at_c] by blast
  moreover have "t \<notin> S" if "owners_at c p = Some S" for p S
    using Step.prems [of "n_tokens c @ p" S] that owners_at_child(2) [OF at_c, of p]
    by (cases "p = []") auto
  ultimately show ?case
    using Step.IH arg_cong [OF Step.hyps(4), of length]
    by (simp add: add_refs_enter [OF Step.hyps(5,3,4)] bump_path_enter [OF Step.hyps(5,3,4)])
qed

section \<open>Releasing a sequence\<close>

text \<open>
  \<open>held t nd toks\<close>: \<open>t\<close> owns exactly the prefixes of \<open>toks\<close>, every cached slot has an owner,
  and whoever owns a slot owns the slots before it.
\<close>

definition held :: "string \<Rightarrow> node \<Rightarrow> int list \<Rightarrow> bool" where
  "held t nd toks \<longleftrightarrow>
     (\<forall>p S. owners_at nd p = Some S \<longrightarrow>
        S \<noteq> {} \<and> (t \<in> S \<longleftrightarrow> prefix p toks) \<and>
        (\<forall>q S'. owners_at nd q = Some S' \<and> prefix p q \<longrightarrow> S' \<subseteq> S))"

lemma heldD:
  assumes "held t nd toks" "owners_at nd p = Some S"
  shows "S \<noteq> {}" "t \<in> S \<longleftrightarrow> prefix p toks"
    "owners_at nd q = Some S' \<Longrightarrow> prefix p q \<Longrightarrow> S' \<subseteq> S"
  using assms unfolding held_def by blast+

lemma held_child:
  assumes "held t nd toks" "dget (n_children nd) (hd toks) = Some c" "wf_child (hd toks) c"
    and "n_tokens c @ rest = toks"
  shows "held t c rest"
proof -
  have at: "owners_at nd (n_tokens c @ p) = owners_at c p" if "owners_at c p = Some S" for p S
    using that owners_at_child(2) [of nd c p] assms(2) wf_child_key [OF assms(3)]
    by (cases "p = []") auto
  show ?thesis
    unfolding held_def
  proof (intro allI impI)
    fix p S assume p: "owners_at c p = Some S"
    have nd: "owners_at nd (n_tokens c @ p) = Some S" using at [OF p] p by simp
    show "S \<noteq> {} \<and> (t \<in> S \<longleftrightarrow> prefix p rest) \<and>
        (\<forall>q S'. owners_at c q = Some S' \<and> prefix p q \<longrightarrow> S' \<subseteq> S)"
      using heldD [OF assms(1) nd] at assms(4) by (metis same_prefix_prefix)
  qed
qed

lemma held_owner:
  assumes "held t nd toks" "dget (n_children nd) (hd toks) = Some c" "wf_child (hd toks) c"
    and "n_tokens c @ rest = toks"
  shows "t \<in> n_owners c"
  using heldD(2) [OF assms(1) owners_at_child(1), of c] assms wf_child_key [OF assms(3)]
  by (metis prefixI)

lemma held_aligned:
  "wf_node nd \<Longrightarrow> held t nd toks \<Longrightarrow> toks = [] \<or> owners_at nd toks \<noteq> None \<Longrightarrow> aligned nd toks"
proof (induction nd arbitrary: toks rule: measure_induct_rule [where f = size])
  case (less nd)
  show ?case
  proof (cases "toks = []")
    case False
    then obtain S where S: "owners_at nd toks = Some S" using less.prems(3) by auto
    then obtain c where c: "dget (n_children nd) (hd toks) = Some c" "own_in c toks = Some S"
      using False by (auto simp: owners_at_step split: option.splits)
    have wfc: "wf_child (hd toks) c" using less.prems(1) c(1) by (rule wf_node_child)
    have at: "owners_at nd (n_tokens c) = Some (n_owners c)"
      using owners_at_child(1) [of nd c] c(1) wf_child_key [OF wfc] by simp
    have "prefix (n_tokens c) toks"
    proof (cases "prefix toks (n_tokens c)")
      case True
      then have "t \<in> n_owners c"
        using c(2) S heldD(2) [OF less.prems(2) S] by (simp add: own_in_prefix)
      then show ?thesis using heldD(2) [OF less.prems(2) at] by simp
    next
      case False
      then show ?thesis using c(2) by (auto simp: own_in_def split: if_splits)
    qed
    then obtain rest where rest: "n_tokens c @ rest = toks" by (auto simp: prefix_def)
    have "owners_at c rest = Some S" if "rest \<noteq> []"
      using owners_at_child(2) [OF _ _ that, of nd c] wf_child_key [OF wfc] c(1) S rest by simp
    then have "rest = [] \<or> owners_at c rest \<noteq> None" by auto
    then have "aligned c rest"
      using less.IH [OF size_dget [OF c(1)]] held_child [OF less.prems(2) c(1) wfc rest] wfc
      by (simp add: wf_child_def)
    then show ?thesis
      using c(1) take_drop_split [OF rest] by (simp add: aligned_step [OF False] prefix_iff_take)
  qed simp
qed

lemma release_enter:
  assumes "toks \<noteq> []" "dget (n_children nd) (hd toks) = Some c" "n_tokens c @ rest = toks"
  shows "release t nd toks =
     (let (c', freed) = release t c rest; x = unref t c'
      in if n_ref x \<le> 0 \<and> n_children x = []
         then (del_child (hd (n_tokens x)) nd, freed + length (n_tokens x))
         else (set_child (hd toks) x nd, freed))"
  using assms(1,2) take_drop_split [OF assms(3)]
  by (cases toks) (auto simp: release.simps [of t nd] Let_def split: prod.split)

lemma children_owned:
  "wf_node nd \<Longrightarrow> n_children nd \<noteq> [] \<Longrightarrow> \<exists>p S. owners_at nd p = Some S"
proof -
  assume *: "wf_node nd" "n_children nd \<noteq> []"
  then obtain k c where "dget (n_children nd) k = Some c"
    by (metis list.set_intros(1) map_of_eq_Some_iff neq_Nil_conv prod.collapse wf_node_dict)
  moreover from this have "wf_child k c" using *(1) by (simp add: wf_node_child)
  ultimately show ?thesis
    using owners_at_child(1) [of nd c] wf_child_key by blast
qed

text \<open>When the released owner was the only one of a child, nothing below the child survives.\<close>

lemma released_childless:
  assumes "held t nd toks" "dget (n_children nd) (hd toks) = Some c" "wf_child (hd toks) c"
    and "n_tokens c @ rest = toks" "n_owners c = {t}"
    and x: "wf_node x" "owners_at x = along rest (drop_owner t) (owners_at c)"
  shows "n_children x = []"
proof (rule ccontr)
  assume "n_children x \<noteq> []"
  then obtain p S where "owners_at x p = Some S" using children_owned x(1) by blast
  then obtain S' where p: "owners_at c p = Some S'" "p \<noteq> []" "prefix p rest \<longrightarrow> S' \<noteq> {t}"
    using x(2) by (cases "p = []") (auto simp: along_def drop_owner_def split: if_splits bind_splits)
  have at: "owners_at nd (n_tokens c) = Some (n_owners c)" "owners_at nd (n_tokens c @ p) = Some S'"
    using owners_at_child [of nd c] assms(2) wf_child_key [OF assms(3)] p by auto
  have "S' \<subseteq> {t}" "S' \<noteq> {}" "t \<in> S' \<longleftrightarrow> prefix (n_tokens c @ p) toks"
    using heldD(3) [OF assms(1) at(1) at(2)] heldD(1,2) [OF assms(1) at(2)] assms(5) by auto
  then have "S' = {t}" "prefix p rest"
    using assms(4) by (auto simp: same_prefix_prefix [of "n_tokens c" p rest, symmetric] subset_singleton_iff)
  with p(3) show False by simp
qed

lemma owners_at_released:
  assumes "held t nd toks" "dget (n_children nd) (hd toks) = Some c" "wf_child (hd toks) c"
    and "n_tokens c @ rest = toks" "n_owners c = {t}"
  shows "owners_at (del_child (hd toks) nd) = along toks (drop_owner t) (owners_at nd)"
proof
  fix p
  have at: "owners_at nd (n_tokens c) = Some {t}"
    using owners_at_child(1) [of nd c] assms(2,5) wf_child_key [OF assms(3)] by auto
  have "S = {t} \<and> prefix p toks" if p: "owners_at nd p = Some S" "hd p = hd toks" for S
  proof -
    have "own_in c p = Some S"
      using p assms(2) by (cases "p = []") (auto simp: owners_at_step)
    then have "prefix p (n_tokens c) \<and> S = {t} \<or> prefix (n_tokens c) p"
      using assms(5) by (auto simp: own_in_def split: if_splits)
    then have "S = {t}"
      using heldD(3) [OF assms(1) at p(1)] heldD(1) [OF assms(1) p(1)] by auto
    then show ?thesis using heldD(2) [OF assms(1) p(1)] by simp
  qed
  then show "owners_at (del_child (hd toks) nd) p = along toks (drop_owner t) (owners_at nd) p"
    by (cases "owners_at nd p")
      (auto simp: owners_at_del_child along_def drop_owner_def hd_prefix)
qed

lemma release_spec:
  "aligned nd toks \<Longrightarrow> wf_node nd \<Longrightarrow> held t nd toks \<Longrightarrow>
   same_top nd (fst (release t nd toks)) \<and> wf_node (fst (release t nd toks)) \<and>
   owners_at (fst (release t nd toks)) = along toks (drop_owner t) (owners_at nd)"
proof (induction nd toks rule: aligned_induct)
  case (Nil nd)
  then show ?case by (auto simp: release.simps [of t nd] along_def)
next
  case (Step nd toks c rest)
  obtain c' freed where rel: "release t c rest = (c', freed)" by fastforce
  have IH: "same_top c c'" "wf_node c'" "owners_at c' = along rest (drop_owner t) (owners_at c)"
    using Step.IH held_child [OF Step.prems Step.hyps(3,2,4)] rel by auto
  have t: "t \<in> n_owners c" using held_owner [OF Step.prems Step.hyps(3,2,4)] .
  let ?x = "unref t c'"
  have wfx: "wf_node ?x" using IH(1,2) t by (simp add: wf_unref same_top_def)
  note enter = release_enter [OF Step.hyps(5,3,4), of t, unfolded rel]
  show ?case
  proof (cases "n_owners c = {t}")
    case True
    have "n_ref ?x = 0" "n_children ?x = []" "hd (n_tokens ?x) = hd toks"
      using wfx True IH released_childless [OF Step.prems Step.hyps(3,2,4) True IH(2,3)]
        wf_child_key [OF Step.hyps(2)] by (auto simp: wf_node_iff same_top_def)
    then show ?thesis
      using enter Step.hyps(1) owners_at_released [OF Step.prems Step.hyps(3,2,4) True]
      by (simp add: wf_del_child) (simp add: same_top_def)
  next
    case False
    have "n_owners ?x \<noteq> {}" using False t IH(1) by (auto simp: same_top_def)
    then have ref: "0 < n_ref ?x"
      using wfx by (auto simp: wf_node_iff card_gt_0_iff simp del: unref_sel)
    have "own_in ?x p =
        (if prefix p toks then Option.bind (own_in c p) (drop_owner t) else own_in c p)" for p
      by (rule own_in_along [OF _ _ _ Step.hyps(4)])
        (use False IH(1) in \<open>simp_all add: IH(3) drop_owner_def same_top_def\<close>)
    moreover have "wf_child (hd toks) ?x"
      using wfx IH(1) Step.hyps(2) by (simp add: wf_child_def same_top_def)
    ultimately show ?thesis
      using enter ref Step.hyps(1,3) by (simp add: wf_set_child owners_at_along)
  qed
qed

section \<open>Counting tokens\<close>

text \<open>The tokens stored below a node; \<open>_namespace_tokens\<close> computes it with an explicit stack.\<close>

fun tok_count :: "node \<Rightarrow> int" where
  "tok_count (Node _ _ _ _ cs) = dsum (\<lambda>c. int (length (n_tokens c)) + tok_count c) cs"

lemma tok_count_unfold:
  "tok_count nd = dsum (\<lambda>c. int (length (n_tokens c)) + tok_count c) (n_children nd)"
  by (cases nd) simp

lemma tok_count_nonneg: "0 \<le> tok_count nd"
proof (induction nd rule: node_induct)
  case (Node nd)
  then have "0 \<le> dsum (\<lambda>c. int (length (n_tokens c)) + tok_count c) (n_children nd)"
    unfolding dsum_def by (intro sum_list_nonneg) auto
  then show ?case by (simp only: tok_count_unfold [of nd])
qed

text \<open>
  A well-formed subtree stores exactly one token per cached prefix: its token count is the
  number of prefixes it caches.
\<close>

lemma dom_own_in:
  assumes "n_tokens c \<noteq> []"
  shows "{p. p \<noteq> [] \<and> own_in c p \<noteq> None} =
    (\<lambda>j. take j (n_tokens c)) ` {1..length (n_tokens c)} \<union>
    (\<lambda>q. n_tokens c @ q) ` dom (owners_at c)" (is "?L = ?A \<union> ?B")
proof (intro set_eqI iffI)
  fix p assume p: "p \<in> ?L"
  show "p \<in> ?A \<union> ?B"
  proof (cases rule: prefix_cases3 [of p "n_tokens c"])
    case below
    then have "p = take (length p) (n_tokens c)" "length p \<in> {1..length (n_tokens c)}"
      using p prefix_length_le [OF below] by (auto simp: prefix_iff_take Suc_le_eq)
    then show ?thesis by blast
  next
    case (above q)
    then show ?thesis using p by (auto simp: own_in_append)
  next
    case apart
    then show ?thesis using p by (simp add: own_in_None)
  qed
next
  fix p assume "p \<in> ?A \<union> ?B"
  then show "p \<in> ?L"
  proof
    assume "p \<in> ?A"
    then show ?thesis using assms by (auto simp: own_in_prefix take_is_prefix)
  next
    assume "p \<in> ?B"
    then obtain q S where "p = n_tokens c @ q" "owners_at c q = Some S" by auto
    then show ?thesis using assms by (cases "q = []") (auto simp: own_in_append)
  qed
qed

lemma card_dom_own_in:
  assumes "n_tokens c \<noteq> []" "finite (dom (owners_at c))"
  shows "finite {p. p \<noteq> [] \<and> own_in c p \<noteq> None}"
    and "card {p. p \<noteq> [] \<and> own_in c p \<noteq> None} = length (n_tokens c) + card (dom (owners_at c))"
proof -
  let ?A = "(\<lambda>j. take j (n_tokens c)) ` {1..length (n_tokens c)}"
  let ?B = "(\<lambda>q. n_tokens c @ q) ` dom (owners_at c)"
  have "inj_on (\<lambda>j. take j (n_tokens c)) {1..length (n_tokens c)}"
    by (rule inj_onI) (metis atLeastAtMost_iff length_take min.absorb2)
  then have A: "card ?A = length (n_tokens c)" by (simp add: card_image)
  have B: "card ?B = card (dom (owners_at c))" by (simp add: card_image inj_on_def)
  have "length p \<le> length (n_tokens c)" if "p \<in> ?A" for p using that by auto
  moreover have "length (n_tokens c) < length p" if "p \<in> ?B" for p
    using that by (auto simp: domIff intro: gr0I)
  ultimately have "?A \<inter> ?B = {}" by fastforce
  with A B assms(2) show "finite {p. p \<noteq> [] \<and> own_in c p \<noteq> None}"
    "card {p. p \<noteq> [] \<and> own_in c p \<noteq> None} = length (n_tokens c) + card (dom (owners_at c))"
    unfolding dom_own_in [OF assms(1)] by (simp_all add: card_Un_disjoint)
qed

lemma own_in_hd: "own_in c p \<noteq> None \<Longrightarrow> p \<noteq> [] \<Longrightarrow> n_tokens c \<noteq> [] \<Longrightarrow> hd p = hd (n_tokens c)"
  by (auto simp: own_in_def prefix_def split: if_splits)

lemma dom_owners_at:
  assumes "wf_node nd"
  shows "dom (owners_at nd) = (\<Union>kc \<in> set (n_children nd). {p. p \<noteq> [] \<and> own_in (snd kc) p \<noteq> None})"
    (is "_ = ?U")
proof (intro set_eqI iffI)
  fix p assume "p \<in> dom (owners_at nd)"
  then obtain c where c: "p \<noteq> []" "dget (n_children nd) (hd p) = Some c" "own_in c p \<noteq> None"
    by (cases "p = []") (auto simp: owners_at_step split: option.splits)
  then have "(hd p, c) \<in> set (n_children nd)" by (auto dest: map_of_SomeD)
  with c show "p \<in> ?U" by force
next
  fix p assume "p \<in> ?U"
  then obtain k c where c: "(k, c) \<in> set (n_children nd)" "p \<noteq> []" "own_in c p \<noteq> None" by auto
  then have d: "dget (n_children nd) k = Some c" using assms by (simp add: dget_in_set wf_node_dict)
  then have "hd p = k"
    using own_in_hd [OF c(3,2)] wf_child_key [OF wf_node_child [OF assms d]] by auto
  with c d show "p \<in> dom (owners_at nd)" by (simp add: domIff owners_at_step)
qed

lemma card_dom_children:
  assumes "wf_dict cs"
    and "\<And>k c. (k, c) \<in> set cs \<Longrightarrow>
      wf_child k c \<and> finite (dom (owners_at c)) \<and> int (card (dom (owners_at c))) = tok_count c"
  shows "finite (\<Union>kc \<in> set cs. {p. p \<noteq> [] \<and> own_in (snd kc) p \<noteq> None}) \<and>
    int (card (\<Union>kc \<in> set cs. {p. p \<noteq> [] \<and> own_in (snd kc) p \<noteq> None})) =
    dsum (\<lambda>c. int (length (n_tokens c)) + tok_count c) cs"
  using assms
proof (induction cs)
  case (Cons kc cs)
  obtain k c where kc: "kc = (k, c)" by fastforce
  let ?D = "\<lambda>c. {p. p \<noteq> [] \<and> own_in c p \<noteq> None}"
  let ?U = "\<Union>kc \<in> set cs. ?D (snd kc)"
  have IH: "finite ?U" "int (card ?U) = dsum (\<lambda>c. int (length (n_tokens c)) + tok_count c) cs"
    using Cons.IH Cons.prems by auto
  have hd: "hd p = k'" if "(k', c') \<in> set (kc # cs)" "p \<in> ?D c'" for p k' c'
    using that Cons.prems(2) [OF that(1)] own_in_hd [of c' p] by (auto simp: wf_child_def)
  have "?D c \<inter> ?U = {}"
  proof (rule ccontr)
    assume "?D c \<inter> ?U \<noteq> {}"
    then obtain p kc' where p: "p \<in> ?D c" "kc' \<in> set cs" "p \<in> ?D (snd kc')" by blast
    then have "k = fst kc'" using hd [of k c p] hd [of "fst kc'" "snd kc'" p] kc by auto
    with p(2) Cons.prems(1) show False by (auto simp: kc)
  qed
  moreover have c: "finite (?D c)"
    "int (card (?D c)) = int (length (n_tokens c)) + tok_count c"
    using Cons.prems(2) [of k c] card_dom_own_in [of c] by (auto simp: kc wf_child_def)
  ultimately show ?case
    using IH c by (simp add: kc card_Un_disjoint)
qed simp

lemma card_dom_owners_at:
  "wf_node nd \<Longrightarrow> finite (dom (owners_at nd)) \<and> int (card (dom (owners_at nd))) = tok_count nd"
proof (induction nd rule: node_induct)
  case (Node nd)
  have wfd: "wf_dict (n_children nd)" using Node.prems by (rule wf_node_dict)
  have "wf_child k c \<and> finite (dom (owners_at c)) \<and> int (card (dom (owners_at c))) = tok_count c"
    if kc: "(k, c) \<in> set (n_children nd)" for k c
  proof -
    have "wf_child k c" using Node.prems wfd kc by (simp add: wf_node_child dget_in_set)
    then show ?thesis using Node.IH [OF kc] by (simp add: wf_child_def)
  qed
  then show ?case
    unfolding dom_owners_at [OF Node.prems] tok_count_unfold [of nd]
    by (rule card_dom_children [OF wfd])
qed

text \<open>Two well-formed subtrees that cache the same prefixes store the same number of tokens.\<close>

lemma tok_count_dom:
  "wf_node nd \<Longrightarrow> wf_node nd' \<Longrightarrow> dom (owners_at nd) = dom (owners_at nd') \<Longrightarrow>
   tok_count nd = tok_count nd'"
  using card_dom_owners_at by metis

lemma tok_count_set_child:
  "tok_count (set_child k x nd) = tok_count nd + (int (length (n_tokens x)) + tok_count x)
     - (case dget (n_children nd) k of None \<Rightarrow> 0 | Some c \<Rightarrow> int (length (n_tokens c)) + tok_count c)"
  unfolding tok_count_unfold [of nd] tok_count_unfold [of "set_child k x nd"] by (simp add: dsum_dset)

lemma tok_count_del_child:
  "wf_dict (n_children nd) \<Longrightarrow> tok_count (del_child k nd) = tok_count nd
     - (case dget (n_children nd) k of None \<Rightarrow> 0 | Some c \<Rightarrow> int (length (n_tokens c)) + tok_count c)"
  unfolding tok_count_unfold [of nd] tok_count_unfold [of "del_child k nd"] by (simp add: dsum_ddel)

lemma tok_count_unref [simp]: "tok_count (unref t nd) = tok_count nd"
  by (cases nd) simp

lemma tok_count_childless: "n_children nd = [] \<Longrightarrow> tok_count nd = 0"
  by (cases nd) simp

text \<open>\<open>release\<close> reports exactly the tokens it removed from the tree.\<close>

lemma release_count:
  "aligned nd toks \<Longrightarrow> wf_node nd \<Longrightarrow>
   tok_count nd = tok_count (fst (release t nd toks)) + int (snd (release t nd toks)) \<and>
   n_tokens (fst (release t nd toks)) = n_tokens nd"
proof (induction nd toks rule: aligned_induct)
  case (Nil nd)
  then show ?case by (simp add: release.simps [of t nd])
next
  case (Step nd toks c rest)
  obtain c' freed where rel: "release t c rest = (c', freed)" by fastforce
  have IH: "tok_count c = tok_count c' + int freed" "n_tokens c' = n_tokens c"
    using Step.IH rel by simp_all
  have "hd (n_tokens c) = hd toks" using wf_child_key [OF Step.hyps(2)] by simp
  with IH Step.hyps(3) release_enter [OF Step.hyps(5,3,4), of t] wf_node_dict [OF Step.hyps(1)]
  show ?case
    by (auto simp: rel Let_def tok_count_set_child tok_count_del_child tok_count_childless)
qed

end
