(* ===== verification/Tree_Cache.thy ===== *)
theory Tree_Cache
  imports Radix_Laws
begin

text \<open>
  The class \<open>TreeKVCache\<close> of \<open>kv/tree_cache.py\<close>: its state, every public method and every
  internal loop.  Each public method is \<open>@locked\<close>, so a method is one transition of the state.
  \<open>clk\<close> is \<open>time.monotonic()\<close> (see \<open>Radix_Node\<close>); the field \<open>kv_reads\<close> counts the readings.
\<close>

section \<open>State\<close>

record tree_id =
  tid_tree_id :: string
  tid_parent_id :: "string option"
  tid_child_seq :: int
  tid_namespace :: string

record cache_stats =
  st_resident :: int
  st_logical :: int
  st_charged :: int
  st_saved :: int
  st_evicted :: int

record kv_cache =
  kv_root :: "(string, node) dict"
  kv_capacity :: int
  kv_budget :: "int option"
  kv_trees :: "(string, tree_id) dict"
  kv_seqs :: "(string, int list) dict"
  kv_next_seq :: int
  kv_stats :: cache_stats
  kv_reads :: nat

definition empty_stats :: cache_stats where
  "empty_stats = \<lparr>st_resident = 0, st_logical = 0, st_charged = 0, st_saved = 0, st_evicted = 0\<rparr>"

definition dedup_ratio :: "cache_stats \<Rightarrow> real" where
  "dedup_ratio st =
     (if st_resident st = 0 then 1 else of_int (st_logical st) / of_int (st_resident st))"

definition kv_init :: "int \<Rightarrow> int option \<Rightarrow> exc + kv_cache" where
  "kv_init capacity_tokens per_tree_budget =
     (if capacity_tokens < 0 then Inl ValueError
      else if (case per_tree_budget of None \<Rightarrow> False | Some b \<Rightarrow> b < 0) then Inl ValueError
      else Inr \<lparr>kv_root = [], kv_capacity = capacity_tokens, kv_budget = per_tree_budget,
             kv_trees = [], kv_seqs = [], kv_next_seq = 1, kv_stats = empty_stats, kv_reads = 1\<rparr>)"

section \<open>Internal loops\<close>

text \<open>\<open>_namespace_tokens\<close>: a depth-first sum with an explicit stack (its top is the list's end).\<close>

lemma sum_size_children:
  "sum_list (map (size \<circ> snd) cs) < Suc (size_list (size_prod (\<lambda>_. 0) size) cs)"
  for cs :: "(int \<times> node) list"
  by (induction cs) auto

lemma sum_size_node: "sum_list (map (size \<circ> snd) (n_children nd)) < size nd"
  using sum_size_children [of "n_children nd"] by (cases nd) simp

function namespace_tokens_loop :: "node list \<Rightarrow> int \<Rightarrow> int" where
  "namespace_tokens_loop stack acc =
     (if stack = [] then acc
      else let nd = last stack in
        namespace_tokens_loop (butlast stack @ map snd (n_children nd))
          (acc + int (length (n_tokens nd))))"
  by pat_completeness auto
termination
  by (relation "measure (\<lambda>(stack, acc). sum_list (map size stack))")
    (use sum_size_node in \<open>auto simp: sum_list_last [of _ size]\<close>)

declare namespace_tokens_loop.simps [simp del]

definition namespace_tokens :: "node \<Rightarrow> int" where
  "namespace_tokens r = namespace_tokens_loop (map snd (n_children r)) 0"

text \<open>
  \<open>_all_nodes\<close>: every node below the namespace roots, in the order the generator yields them,
  each with its reference (namespace and key path).
\<close>

type_synonym located = "string \<times> int list \<times> node"

definition child_refs :: "string \<Rightarrow> int list \<Rightarrow> node \<Rightarrow> located list" where
  "child_refs ns path nd = map (\<lambda>(k, c). (ns, path @ [k], c)) (n_children nd)"

function all_nodes_loop :: "located list \<Rightarrow> located list" where
  "all_nodes_loop stack =
     (if stack = [] then []
      else let (ns, path, nd) = last stack in
        (ns, path, nd) # all_nodes_loop (butlast stack @ child_refs ns path nd))"
  by pat_completeness auto
termination
proof (relation "measure (\<lambda>stack. sum_list (map (\<lambda>(ns, path, nd). size nd) stack))")
  fix stack :: "located list" and x ns y path nd
  assume "stack \<noteq> []" "x = last stack" "(ns, y) = x" "(path, nd) = y"
  moreover have "sum_list (map (\<lambda>(ns, path, nd). size nd) (child_refs ns path nd)) < size nd"
    using sum_size_node [of nd] by (simp add: child_refs_def case_prod_unfold comp_def)
  ultimately show "(butlast stack @ child_refs ns path nd, stack)
      \<in> measure (\<lambda>stack. sum_list (map (\<lambda>(ns, path, nd). size nd) stack))"
    by (auto simp: sum_list_last [of stack] simp flip: \<open>x = last stack\<close>)
qed simp

declare all_nodes_loop.simps [simp del]

definition all_nodes :: "(string, node) dict \<Rightarrow> located list" where
  "all_nodes nss = all_nodes_loop (concat (map (\<lambda>(ns, r). child_refs ns [] r) nss))"

text \<open>\<open>_maybe_evict\<close>: unreferenced leaves, least recently used first, until the tokens fit.\<close>

definition set_root :: "string \<Rightarrow> node \<Rightarrow> kv_cache \<Rightarrow> kv_cache" where
  "set_root ns r s = s\<lparr>kv_root := dset ns r (kv_root s)\<rparr>"

definition evict_leaf :: "located \<Rightarrow> kv_cache \<Rightarrow> kv_cache" where
  "evict_leaf leaf s =
     (case leaf of (ns, path, nd) \<Rightarrow>
        let n = int (length (n_tokens nd)) in
        s\<lparr>kv_root := (case dget (kv_root s) ns of
              None \<Rightarrow> kv_root s
            | Some r \<Rightarrow> dset ns (detach path r) (kv_root s)),
          kv_stats := (kv_stats s)\<lparr>st_resident := st_resident (kv_stats s) - n,
                                   st_evicted := st_evicted (kv_stats s) + n\<rparr>\<rparr>)"

fun evict_loop :: "located list \<Rightarrow> int \<Rightarrow> kv_cache \<Rightarrow> (kv_cache, unit) outcome" where
  "evict_loop [] need s =
     (if st_resident (kv_stats s) + need > kv_capacity s then (Inl MemoryError, s) else (Inr (), s))"
| "evict_loop (leaf # leaves) need s =
     (if st_resident (kv_stats s) + need \<le> kv_capacity s then (Inr (), s)
      else evict_loop leaves need (evict_leaf leaf s))"

definition evictable :: "located \<Rightarrow> bool" where
  "evictable leaf = (case leaf of (ns, path, nd) \<Rightarrow> n_children nd = [] \<and> n_ref nd \<le> 0)"

definition maybe_evict :: "int \<Rightarrow> kv_cache \<Rightarrow> (kv_cache, unit) outcome" where
  "maybe_evict need s =
     (if st_resident (kv_stats s) + need \<le> kv_capacity s then (Inr (), s)
      else
        let leaves = filter evictable (all_nodes (kv_root s));
            leaves = sort_key (\<lambda>(ns, path, nd). n_last nd) leaves
        in evict_loop leaves need s)"

section \<open>Tree lifecycle\<close>

definition create_tree :: "(nat \<Rightarrow> real) \<Rightarrow> string \<Rightarrow> kv_cache \<Rightarrow> (kv_cache, tree_id) outcome" where
  "create_tree clk t s =
     (if t \<in> keys (kv_trees s) then (Inl ValueError, s)
      else
        let tid = \<lparr>tid_tree_id = t, tid_parent_id = None, tid_child_seq = 0, tid_namespace = t\<rparr>
        in (Inr tid,
            s\<lparr>kv_trees := dset t tid (kv_trees s),
              kv_seqs := dset t [] (kv_seqs s),
              kv_root := dset t (new_node clk (kv_reads s) []) (kv_root s),
              kv_reads := Suc (kv_reads s)\<rparr>))"

text \<open>\<open>child_id or f"{parent_id}/{seq}"\<close>: an absent or empty id is generated.\<close>

definition child_name :: "string \<Rightarrow> string option \<Rightarrow> int \<Rightarrow> string" where
  "child_name parent child sq =
     (case child of
        None \<Rightarrow> parent @ ''/'' @ str_int sq
      | Some c \<Rightarrow> if c = '''' then parent @ ''/'' @ str_int sq else c)"

definition fork_branch :: "string \<Rightarrow> string option \<Rightarrow> kv_cache \<Rightarrow> (kv_cache, tree_id) outcome" where
  "fork_branch parent child s =
     (case dget (kv_trees s) parent of
        None \<Rightarrow> (Inl (KeyError parent), s)
      | Some ptid \<Rightarrow>
         let sq = kv_next_seq s;
             s1 = s\<lparr>kv_next_seq := sq + 1\<rparr>;
             c = child_name parent child sq
         in if c \<in> keys (kv_trees s1) then (Inl ValueError, s1)
            else
              let ns = tid_namespace ptid;
                  tid = \<lparr>tid_tree_id = c, tid_parent_id = Some parent, tid_child_seq = sq,
                         tid_namespace = ns\<rparr>;
                  s2 = s1\<lparr>kv_trees := dset c tid (kv_trees s1)\<rparr>
              in case dget (kv_seqs s2) parent of
                   None \<Rightarrow> (Inl (KeyError parent), s2)
                 | Some toks \<Rightarrow>
                    let s3 = s2\<lparr>kv_seqs := dset c toks (kv_seqs s2)\<rparr>
                    in case dget (kv_root s3) ns of
                         None \<Rightarrow> (Inl (KeyError ns), s3)
                       | Some r \<Rightarrow>
                          let (r', matched) = bump_path c r toks;
                              st = kv_stats s3
                          in (Inr tid,
                              (set_root ns r' s3)
                                \<lparr>kv_stats := st\<lparr>st_saved := st_saved st + int matched,
                                               st_logical := st_logical st + int (length toks)\<rparr>\<rparr>))"

definition kill :: "string \<Rightarrow> kv_cache \<Rightarrow> (kv_cache, int) outcome" where
  "kill t s =
     (case dget (kv_trees s) t of
        None \<Rightarrow> (Inr 0, s)
      | Some tid \<Rightarrow>
         let ns = tid_namespace tid in
         case dget (kv_root s) ns of
           None \<Rightarrow> (Inl (KeyError ns), s)
         | Some r \<Rightarrow>
            (case dget (kv_seqs s) t of
               None \<Rightarrow> (Inl (KeyError t), s)
             | Some toks \<Rightarrow>
                let (r', freed) = release t r toks;
                    st = kv_stats s;
                    trees' = ddel t (kv_trees s);
                    nss = dset ns r' (kv_root s);
                    nss' = (if \<exists>x \<in> set trees'. tid_namespace (snd x) = ns then nss
                              else ddel ns nss)
                in (Inr (int freed),
                    s\<lparr>kv_seqs := ddel t (kv_seqs s),
                      kv_trees := trees',
                      kv_root := nss',
                      kv_stats := st\<lparr>st_resident := st_resident st - int freed,
                                     st_logical := st_logical st - int (length toks)\<rparr>\<rparr>)))"

section \<open>Extend and lookup\<close>

text \<open>\<open>_walk\<close> on a namespace, storing the split and touched nodes back.\<close>

definition walk_ns :: "(nat \<Rightarrow> real) \<Rightarrow> string \<Rightarrow> node \<Rightarrow> int list \<Rightarrow> kv_cache \<Rightarrow>
    int list \<times> nat \<times> kv_cache" where
  "walk_ns clk ns r toks s =
     (let (r', path, m, i) = walk clk (kv_reads s) r toks
      in (path, m, (set_root ns r' s)\<lparr>kv_reads := i\<rparr>))"

text \<open>The insertion of the uncached suffix, after \<open>_maybe_evict\<close> made room for it.\<close>

definition insert_suffix :: "(nat \<Rightarrow> real) \<Rightarrow> string \<Rightarrow> string \<Rightarrow> int list \<Rightarrow> int list \<Rightarrow> nat \<Rightarrow>
    kv_cache \<Rightarrow> kv_cache" where
  "insert_suffix clk t ns path full pos s =
     (let new = Node (drop pos full) 1 {t} (clk (kv_reads s)) [];
          st = kv_stats s
      in s\<lparr>kv_root := (case dget (kv_root s) ns of
               None \<Rightarrow> kv_root s
             | Some r \<Rightarrow> dset ns (attach path (full ! pos) new r) (kv_root s)),
           kv_stats := st\<lparr>st_resident := st_resident st + int (length (n_tokens new))\<rparr>,
           kv_reads := Suc (kv_reads s)\<rparr>)"

text \<open>The tail of \<open>extend\<close>: references on the whole path, the counters, the new sequence.\<close>

definition extend_finish :: "string \<Rightarrow> string \<Rightarrow> int list \<Rightarrow> int list \<Rightarrow> int \<Rightarrow> kv_cache \<Rightarrow> kv_cache" where
  "extend_finish t ns toks full charged s =
     (let st = kv_stats s; n = int (length toks)
      in s\<lparr>kv_root := (case dget (kv_root s) ns of
               None \<Rightarrow> kv_root s
             | Some r \<Rightarrow> dset ns (add_refs t r full) (kv_root s)),
           kv_stats := st\<lparr>st_logical := st_logical st + n,
                          st_charged := st_charged st + charged,
                          st_saved := st_saved st + (if charged < n then n - charged else 0)\<rparr>,
           kv_seqs := dset t full (kv_seqs s)\<rparr>)"

definition extend_kv :: "(nat \<Rightarrow> real) \<Rightarrow> string \<Rightarrow> int list \<Rightarrow> kv_cache \<Rightarrow> (kv_cache, int) outcome" where
  "extend_kv clk t toks s =
     (case dget (kv_trees s) t of
        None \<Rightarrow> (Inl (KeyError t), s)
      | Some tid \<Rightarrow>
         let ns = tid_namespace tid in
         case dget (kv_seqs s) t of
           None \<Rightarrow> (Inl (KeyError t), s)
         | Some sq \<Rightarrow>
            let full = sq @ toks in
            (case dget (kv_root s) ns of
               None \<Rightarrow> (Inl (KeyError ns), s)
             | Some r \<Rightarrow>
                let (path, matched, s1) = walk_ns clk ns r full s;
                    charged = int (length full) - int matched
                in if (case kv_budget s1 of
                         None \<Rightarrow> False
                       | Some b \<Rightarrow>
                          (case dget (kv_root s1) ns of None \<Rightarrow> 0 | Some r1 \<Rightarrow> namespace_tokens r1)
                            + charged > b)
                   then (Inl MemoryError, s1)
                   else if matched < length full then
                     (case maybe_evict (int (length full - matched)) s1 of
                        (Inl e, s2) \<Rightarrow> (Inl e, s2)
                      | (Inr _, s2) \<Rightarrow>
                          (Inr charged,
                           extend_finish t ns toks full charged
                             (insert_suffix clk t ns path full matched s2)))
                   else (Inr charged, extend_finish t ns toks full charged s1)))"

fun match_prefix_loop :: "(nat \<Rightarrow> real) \<Rightarrow> int list \<Rightarrow> string list \<Rightarrow> nat \<Rightarrow> kv_cache \<Rightarrow>
    nat \<times> kv_cache" where
  "match_prefix_loop clk toks [] best s = (best, s)"
| "match_prefix_loop clk toks (ns # nss) best s =
     (case dget (kv_root s) ns of
        None \<Rightarrow> match_prefix_loop clk toks nss best s
      | Some r \<Rightarrow>
         let (path, m, s') = walk_ns clk ns r toks s
         in match_prefix_loop clk toks nss (max best m) s')"

definition match_prefix :: "(nat \<Rightarrow> real) \<Rightarrow> int list \<Rightarrow> kv_cache \<Rightarrow> (kv_cache, nat) outcome" where
  "match_prefix clk toks s =
     (let (best, s') = match_prefix_loop clk toks (map fst (kv_root s)) 0 s in (Inr best, s'))"

definition match_tree_prefix :: "(nat \<Rightarrow> real) \<Rightarrow> string \<Rightarrow> int list \<Rightarrow> kv_cache \<Rightarrow>
    (kv_cache, nat) outcome" where
  "match_tree_prefix clk t toks s =
     (case dget (kv_trees s) t of
        None \<Rightarrow> (Inl (KeyError t), s)
      | Some tid \<Rightarrow>
         (case dget (kv_root s) (tid_namespace tid) of
            None \<Rightarrow> (Inl (KeyError (tid_namespace tid)), s)
          | Some r \<Rightarrow>
             let (path, m, s') = walk_ns clk (tid_namespace tid) r toks s in (Inr m, s')))"

definition resident_tokens :: "kv_cache \<Rightarrow> int" where
  "resident_tokens s = st_resident (kv_stats s)"

definition has_tree :: "string \<Rightarrow> kv_cache \<Rightarrow> bool" where
  "has_tree t s \<longleftrightarrow> t \<in> keys (kv_trees s)"

end
