(* ===== verification/Tree_Cache_Laws.thy ===== *)
theory Tree_Cache_Laws
  imports Tree_Cache
begin

text \<open>
  The invariant of \<open>TreeKVCache\<close> and its preservation by every method.  In each namespace the
  radix tree caches exactly the non-empty prefixes of the sequences of the live trees, each
  owned by exactly the trees whose sequence has that prefix; the counters of \<open>CacheStats\<close> are
  the sizes of those sets.
\<close>

section \<open>The invariant\<close>

definition ns_of :: "kv_cache \<Rightarrow> string \<Rightarrow> string option" where
  "ns_of s t = map_option tid_namespace (dget (kv_trees s) t)"

text \<open>The live trees of a namespace whose sequence starts with \<open>p\<close>.\<close>

definition holders :: "kv_cache \<Rightarrow> string \<Rightarrow> int list \<Rightarrow> string set" where
  "holders s ns p = {t. ns_of s t = Some ns \<and> (\<exists>sq. dget (kv_seqs s) t = Some sq \<and> prefix p sq)}"

definition slots :: "kv_cache \<Rightarrow> string \<Rightarrow> int list \<Rightarrow> string set option" where
  "slots s ns p = (if p = [] \<or> holders s ns p = {} then None else Some (holders s ns p))"

definition ns_ok :: "kv_cache \<Rightarrow> string \<Rightarrow> node \<Rightarrow> bool" where
  "ns_ok s ns r \<longleftrightarrow> n_tokens r = [] \<and> wf_node r \<and> owners_at r = slots s ns"

definition cache_wf :: "kv_cache \<Rightarrow> bool" where
  "cache_wf s \<longleftrightarrow>
     wf_dict (kv_root s) \<and> wf_dict (kv_trees s) \<and> wf_dict (kv_seqs s) \<and>
     keys (kv_seqs s) = keys (kv_trees s) \<and>
     (\<forall>ns. ns \<in> keys (kv_root s) \<longleftrightarrow> (\<exists>t. ns_of s t = Some ns)) \<and>
     (\<forall>ns r. dget (kv_root s) ns = Some r \<longrightarrow> ns_ok s ns r)"

definition ledger :: "kv_cache \<Rightarrow> bool" where
  "ledger s \<longleftrightarrow>
     st_resident (kv_stats s) = dsum tok_count (kv_root s) \<and>
     st_logical (kv_stats s) = dsum (\<lambda>sq. int (length sq)) (kv_seqs s) \<and>
     st_evicted (kv_stats s) = 0"

definition within_limits :: "kv_cache \<Rightarrow> bool" where
  "within_limits s \<longleftrightarrow>
     0 \<le> kv_capacity s \<and> st_resident (kv_stats s) \<le> kv_capacity s \<and>
     (\<forall>b. kv_budget s = Some b \<longrightarrow>
        0 \<le> b \<and> (\<forall>ns r. dget (kv_root s) ns = Some r \<longrightarrow> tok_count r \<le> b))"

definition cache_inv :: "kv_cache \<Rightarrow> bool" where
  "cache_inv s \<longleftrightarrow> cache_wf s \<and> ledger s \<and> within_limits s"

lemmas cache_inv_defs = cache_inv_def cache_wf_def ledger_def within_limits_def

lemma cache_inv_init: "kv_init cap bud = Inr s \<Longrightarrow> cache_inv s"
  by (auto simp: kv_init_def cache_inv_defs ns_of_def empty_stats_def split: if_splits option.splits)

section \<open>Consequences of the invariant\<close>

lemma ns_of_Some: "ns_of s t = Some ns \<longleftrightarrow> (\<exists>tid. dget (kv_trees s) t = Some tid \<and> tid_namespace tid = ns)"
  by (auto simp: ns_of_def)

lemma cache_wf_dicts:
  assumes "cache_wf s"
  shows "wf_dict (kv_root s)" "wf_dict (kv_trees s)" "wf_dict (kv_seqs s)"
    "keys (kv_seqs s) = keys (kv_trees s)"
  using assms by (simp_all add: cache_wf_def)

lemma cache_wf_ns: "cache_wf s \<Longrightarrow> ns \<in> keys (kv_root s) \<longleftrightarrow> (\<exists>t. ns_of s t = Some ns)"
  unfolding cache_wf_def by blast

lemma cache_wf_ok: "cache_wf s \<Longrightarrow> dget (kv_root s) ns = Some r \<Longrightarrow> ns_ok s ns r"
  unfolding cache_wf_def by blast

lemma slots_frame [simp]:
  "slots (s\<lparr>kv_next_seq := n\<rparr>) = slots s" "slots (s\<lparr>kv_reads := m\<rparr>) = slots s"
  "slots (s\<lparr>kv_stats := st\<rparr>) = slots s" "slots (s\<lparr>kv_root := rt\<rparr>) = slots s"
  by (simp_all add: fun_eq_iff slots_def holders_def ns_of_def)

lemma cache_inv_frame [simp]:
  "cache_inv (s\<lparr>kv_next_seq := n\<rparr>) = cache_inv s" "cache_inv (s\<lparr>kv_reads := m\<rparr>) = cache_inv s"
  by (simp_all add: cache_inv_defs ns_ok_def ns_of_def)

lemma cache_wf_tree:
  assumes "cache_wf s" "ns_of s t = Some ns"
  obtains sq r where "dget (kv_seqs s) t = Some sq" "dget (kv_root s) ns = Some r" "ns_ok s ns r"
proof -
  have "t \<in> keys (kv_seqs s)"
    using assms by (auto simp: cache_wf_def ns_of_Some dest: dget_Some_keys)
  then obtain sq where "dget (kv_seqs s) t = Some sq" by (rule keys_dgetE)
  moreover have "ns \<in> keys (kv_root s)"
    using assms unfolding cache_wf_def by blast
  then obtain r where "dget (kv_root s) ns = Some r" by (rule keys_dgetE)
  moreover from this have "ns_ok s ns r" using assms(1) by (simp add: cache_wf_def)
  ultimately show ?thesis by (rule that)
qed

lemma holders_mono: "prefix p q \<Longrightarrow> holders s ns q \<subseteq> holders s ns p"
  unfolding holders_def using prefix_order.trans by blast

lemma holders_member:
  "ns_of s t = Some ns \<Longrightarrow> dget (kv_seqs s) t = Some sq \<Longrightarrow> t \<in> holders s ns p \<longleftrightarrow> prefix p sq"
  by (simp add: holders_def)

lemma tree_held:
  assumes "ns_ok s ns r" "ns_of s t = Some ns" "dget (kv_seqs s) t = Some sq"
  shows "held t r sq"
proof -
  have r: "owners_at r = slots s ns" using assms(1) by (simp add: ns_ok_def)
  show ?thesis
    unfolding held_def r
    using holders_member [OF assms(2,3)] holders_mono
    by (auto simp: slots_def split: if_splits)
qed

lemma tree_aligned:
  assumes "ns_ok s ns r" "ns_of s t = Some ns" "dget (kv_seqs s) t = Some sq"
  shows "aligned r sq"
proof -
  have "sq = [] \<or> owners_at r sq \<noteq> None"
    using assms holders_member [OF assms(2,3), of sq] by (auto simp: ns_ok_def slots_def)
  then show ?thesis
    using held_aligned tree_held [OF assms] assms(1) by (simp add: ns_ok_def)
qed

lemma slots_outside: "t \<notin> keys (kv_trees s) \<Longrightarrow> slots s ns p = Some S \<Longrightarrow> t \<notin> S"
  by (auto simp: slots_def holders_def ns_of_Some split: if_splits dest: dget_Some_keys)

text \<open>
  Replacing the tree of one namespace: what has to be shown for the invariant to survive a
  change of that namespace only.
\<close>

lemma cache_wf_update_ns:
  assumes wf: "cache_wf s" and r': "ns_ok s' ns r'"
    and root: "kv_root s' = dset ns r' (kv_root s)"
    and dicts: "wf_dict (kv_trees s')" "wf_dict (kv_seqs s')" "keys (kv_seqs s') = keys (kv_trees s')"
    and nss: "\<And>n. (\<exists>t. ns_of s' t = Some n) \<longleftrightarrow> n = ns \<or> (\<exists>t. ns_of s t = Some n)"
    and other: "\<And>n. n \<noteq> ns \<Longrightarrow> slots s' n = slots s n"
  shows "cache_wf s'"
  unfolding cache_wf_def
proof (intro conjI allI impI)
  fix n r assume "dget (kv_root s') n = Some r"
  then consider "n = ns" "r = r'" | "n \<noteq> ns" "dget (kv_root s) n = Some r"
    by (auto simp: root split: if_splits)
  then show "ns_ok s' n r"
  proof cases
    case 2
    then have "ns_ok s n r" using wf by (simp add: cache_wf_def)
    with 2 other show ?thesis by (simp add: ns_ok_def)
  qed (simp add: r')
next
  fix n
  show "n \<in> keys (kv_root s') \<longleftrightarrow> (\<exists>t. ns_of s' t = Some n)"
    using wf by (auto simp: root nss cache_wf_def)
qed (use wf dicts root in \<open>auto simp: cache_wf_def\<close>)

section \<open>Creating and forking trees\<close>

lemma owners_at_new_node [simp]: "owners_at (new_node clk i []) = (\<lambda>_. None)"
  by (rule ext, rename_tac p, case_tac "p = []") (simp_all add: owners_at_step new_node_def)

lemma new_node_facts [simp]:
  "n_tokens (new_node clk i toks) = toks" "wf_node (new_node clk i toks)"
  "tok_count (new_node clk i toks) = 0"
  by (simp_all add: new_node_def)

lemma ns_of_add:
  "kv_trees s' = dset c tid (kv_trees s) \<Longrightarrow>
   ns_of s' x = (if x = c then Some (tid_namespace tid) else ns_of s x)"
  by (simp add: ns_of_def)

lemma namespaces_add:
  assumes "kv_trees s' = dset c tid (kv_trees s)" "c \<notin> keys (kv_trees s)"
  shows "(\<exists>t. ns_of s' t = Some n) \<longleftrightarrow> n = tid_namespace tid \<or> (\<exists>t. ns_of s t = Some n)"
proof -
  have "ns_of s c = None" using assms(2) by (simp add: ns_of_def dget_None_iff)
  then show ?thesis by (metis ns_of_add [OF assms(1)] option.distinct(1) option.inject)
qed

lemma holders_add:
  assumes "kv_trees s' = dset c tid (kv_trees s)" "kv_seqs s' = dset c sq (kv_seqs s)"
    and "c \<notin> keys (kv_trees s)"
  shows "holders s' n p =
    (if n = tid_namespace tid \<and> prefix p sq then insert c (holders s n p) else holders s n p)"
proof -
  have "ns_of s c = None" using assms(3) by (simp add: ns_of_def dget_None_iff)
  then show ?thesis by (auto simp: holders_def ns_of_add [OF assms(1)] assms(2))
qed

lemma create_tree_inv:
  assumes inv: "cache_inv s" and fresh: "t \<notin> keys (kv_root s)"
  shows "cache_inv (snd (create_tree clk t s))"
proof (cases "t \<in> keys (kv_trees s)")
  case True
  with inv show ?thesis by (simp add: create_tree_def)
next
  case False
  let ?s = "snd (create_tree clk t s)" and ?r = "new_node clk (kv_reads s) []"
  have s': "kv_root ?s = dset t ?r (kv_root s)" "kv_seqs ?s = dset t [] (kv_seqs s)"
      "kv_trees ?s = dset t \<lparr>tid_tree_id = t, tid_parent_id = None, tid_child_seq = 0, tid_namespace = t\<rparr> (kv_trees s)"
      "kv_stats ?s = kv_stats s" "kv_capacity ?s = kv_capacity s" "kv_budget ?s = kv_budget s"
    using False by (simp_all add: create_tree_def Let_def)
  have wf: "cache_wf s" using inv by (simp add: cache_inv_def)
  have unused: "ns_of s x \<noteq> Some t" for x
    using cache_wf_ns [OF wf] fresh by blast
  have "holders s t p = {}" for p using unused by (auto simp: holders_def)
  then have slots: "slots ?s n = (if n = t then (\<lambda>_. None) else slots s n)" for n
    by (auto simp: slots_def holders_add [OF s'(3,2) False] fun_eq_iff)
  have "cache_wf ?s"
  proof (rule cache_wf_update_ns [OF wf])
    show "kv_root ?s = dset t ?r (kv_root s)" by (rule s')
  qed (use cache_wf_dicts [OF wf] namespaces_add [OF s'(3) False] in
      \<open>simp_all add: s' ns_ok_def slots\<close>)
  moreover have "dget (kv_root s) t = None" "dget (kv_seqs s) t = None"
    using inv False fresh by (auto simp: cache_inv_def cache_wf_def dget_None_iff)
  ultimately show ?thesis
    using inv by (auto simp: cache_inv_def ledger_def within_limits_def s' dsum_dset)
qed

lemma fork_branch_ok:
  assumes "cache_wf s" "dget (kv_trees s) parent = Some ptid"
    and "c = child_name parent child (kv_next_seq s)" "c \<notin> keys (kv_trees s)"
  obtains toks r where "dget (kv_seqs s) parent = Some toks"
    "dget (kv_root s) (tid_namespace ptid) = Some r" "ns_ok s (tid_namespace ptid) r"
    "fork_branch parent child s =
       (let st = kv_stats s;
            tid = \<lparr>tid_tree_id = c, tid_parent_id = Some parent, tid_child_seq = kv_next_seq s,
                   tid_namespace = tid_namespace ptid\<rparr>
        in (Inr tid,
            s\<lparr>kv_root := dset (tid_namespace ptid) (add_refs c r toks) (kv_root s),
              kv_trees := dset c tid (kv_trees s), kv_seqs := dset c toks (kv_seqs s),
              kv_next_seq := kv_next_seq s + 1,
              kv_stats := st\<lparr>st_saved := st_saved st + int (length toks),
                             st_logical := st_logical st + int (length toks)\<rparr>\<rparr>))"
proof -
  have nsp: "ns_of s parent = Some (tid_namespace ptid)" using assms(2) by (simp add: ns_of_def)
  obtain toks r where toks: "dget (kv_seqs s) parent = Some toks"
      and r: "dget (kv_root s) (tid_namespace ptid) = Some r" "ns_ok s (tid_namespace ptid) r"
    using cache_wf_tree [OF assms(1) nsp] .
  have "bump_path c r toks = (add_refs c r toks, length toks)"
    using tree_aligned [OF r(2) nsp toks] r(2) slots_outside [OF assms(4)]
    by (intro bump_path_eq_add_refs) (auto simp: ns_ok_def)
  then show ?thesis
    using assms toks r by (intro that [of toks r]) (simp_all add: fork_branch_def Let_def set_root_def)
qed

lemma slots_fork:
  assumes "ns_of s parent = Some ns" "dget (kv_seqs s) parent = Some toks" "c \<notin> keys (kv_trees s)"
    and "kv_trees s' = dset c tid (kv_trees s)" "kv_seqs s' = dset c toks (kv_seqs s)"
    and "tid_namespace tid = ns"
  shows "slots s' ns = along toks (add_owner c) (slots s ns)"
    and "n \<noteq> ns \<Longrightarrow> slots s' n = slots s n"
proof -
  have "parent \<in> holders s ns p" if "prefix p toks" for p
    using that assms(1,2) by (simp add: holders_def)
  then show "slots s' ns = along toks (add_owner c) (slots s ns)"
    using assms(6) by (auto simp: fun_eq_iff slots_def along_def add_owner_def holders_add [OF assms(4,5,3)])
  show "n \<noteq> ns \<Longrightarrow> slots s' n = slots s n"
    using assms(6) by (auto simp: fun_eq_iff slots_def holders_add [OF assms(4,5,3)])
qed

lemma add_refs_dom:
  "aligned r toks \<Longrightarrow> wf_node r \<Longrightarrow> tok_count (add_refs t r toks) = tok_count r"
  using add_refs_spec [of r toks t]
  by (intro tok_count_dom) (auto simp: dom_def along_def add_owner_def split: if_splits bind_splits)

lemma fork_branch_inv:
  assumes inv: "cache_inv s"
  shows "cache_inv (snd (fork_branch parent child s))"
proof (cases "dget (kv_trees s) parent")
  case None
  with inv show ?thesis by (simp add: fork_branch_def)
next
  case (Some ptid)
  define c where "c = child_name parent child (kv_next_seq s)"
  let ?ns = "tid_namespace ptid" and ?s = "snd (fork_branch parent child s)"
  show ?thesis
  proof (cases "c \<in> keys (kv_trees s)")
    case True
    then show ?thesis
      using inv Some by (simp add: fork_branch_def Let_def flip: c_def)
  next
    case False
    obtain toks r where ok: "dget (kv_seqs s) parent = Some toks" "dget (kv_root s) ?ns = Some r"
        "ns_ok s ?ns r" and eq: "fork_branch parent child s =
       (let st = kv_stats s;
            tid = \<lparr>tid_tree_id = c, tid_parent_id = Some parent, tid_child_seq = kv_next_seq s,
                   tid_namespace = ?ns\<rparr>
        in (Inr tid,
            s\<lparr>kv_root := dset ?ns (add_refs c r toks) (kv_root s),
              kv_trees := dset c tid (kv_trees s), kv_seqs := dset c toks (kv_seqs s),
              kv_next_seq := kv_next_seq s + 1,
              kv_stats := st\<lparr>st_saved := st_saved st + int (length toks),
                             st_logical := st_logical st + int (length toks)\<rparr>\<rparr>))"
      using fork_branch_ok [OF _ Some c_def False] inv by (auto simp: cache_inv_def)
    have nsp: "ns_of s parent = Some ?ns" using Some by (simp add: ns_of_def)
    note al = tree_aligned [OF ok(3) nsp ok(1)]
    have wfr: "wf_node r" "owners_at r = slots s ?ns" "n_tokens r = []"
      using ok(3) by (auto simp: ns_ok_def)
    have s': "kv_trees ?s = dset c (\<lparr>tid_tree_id = c, tid_parent_id = Some parent,
          tid_child_seq = kv_next_seq s, tid_namespace = ?ns\<rparr>) (kv_trees s)"
        "kv_seqs ?s = dset c toks (kv_seqs s)"
        "kv_root ?s = dset ?ns (add_refs c r toks) (kv_root s)"
      by (simp_all add: eq Let_def)
    note sl = slots_fork [OF nsp ok(1) False s'(1,2)]
    have ns_ok: "ns_ok ?s ?ns (add_refs c r toks)"
      using add_refs_spec [OF al wfr(1), of c] wfr sl by (simp add: ns_ok_def same_top_def)
    have wf: "cache_wf s" using inv by (simp add: cache_inv_def)
    have "cache_wf ?s"
      by (rule cache_wf_update_ns [OF wf ns_ok s'(3)])
        (use cache_wf_dicts [OF wf] sl namespaces_add [OF s'(1) False] in \<open>simp_all add: s'\<close>)
    moreover have "dget (kv_seqs s) c = None"
      using inv False by (simp add: cache_inv_def cache_wf_def dget_None_iff)
    ultimately show ?thesis
      using inv ok(2) add_refs_dom [OF al wfr(1), of c]
      by (auto simp: cache_inv_def ledger_def within_limits_def eq Let_def dsum_dset)
  qed
qed

section \<open>Killing a tree\<close>

lemma holders_kill:
  assumes "kv_trees s' = ddel t (kv_trees s)" "kv_seqs s' = ddel t (kv_seqs s)"
  shows "holders s' n p = holders s n p - {t}"
  by (auto simp: holders_def ns_of_def assms)

lemma slots_kill:
  assumes "ns_of s t = Some ns" "dget (kv_seqs s) t = Some toks"
    and "kv_trees s' = ddel t (kv_trees s)" "kv_seqs s' = ddel t (kv_seqs s)"
  shows "slots s' ns = along toks (drop_owner t) (slots s ns)"
    and "n \<noteq> ns \<Longrightarrow> slots s' n = slots s n"
proof -
  note h = holders_kill [OF assms(3,4)] holders_member [OF assms(1,2)]
  show "slots s' ns = along toks (drop_owner t) (slots s ns)"
  proof
    fix p
    show "slots s' ns p = along toks (drop_owner t) (slots s ns) p"
      using h(2) [of p] by (auto simp: slots_def along_def drop_owner_def h(1) Diff_triv)
  qed
  have "t \<notin> holders s n p" if "n \<noteq> ns" for n p
    using that assms(1) by (auto simp: holders_def)
  then show "n \<noteq> ns \<Longrightarrow> slots s' n = slots s n"
    by (auto simp: fun_eq_iff slots_def h(1))
qed

lemma kill_ok:
  assumes "cache_wf s" "dget (kv_trees s) t = Some tid"
  obtains toks r where "dget (kv_seqs s) t = Some toks"
    "dget (kv_root s) (tid_namespace tid) = Some r" "ns_ok s (tid_namespace tid) r"
    "aligned r toks" "held t r toks"
proof -
  have ns: "ns_of s t = Some (tid_namespace tid)" using assms(2) by (simp add: ns_of_def)
  obtain toks r where "dget (kv_seqs s) t = Some toks"
      "dget (kv_root s) (tid_namespace tid) = Some r" "ns_ok s (tid_namespace tid) r"
    using cache_wf_tree [OF assms(1) ns] .
  moreover from this have "aligned r toks" "held t r toks"
    using tree_aligned [OF _ ns] tree_held [OF _ ns] by simp_all
  ultimately show ?thesis by (rule that)
qed

lemma namespaces_kill:
  assumes "cache_wf s" "kv_trees s' = ddel t (kv_trees s)" "ns_of s t = Some ns"
  shows "(\<exists>x \<in> set (ddel t (kv_trees s)). tid_namespace (snd x) = ns) \<longleftrightarrow> (\<exists>x. ns_of s' x = Some ns)"
    and "n \<noteq> ns \<Longrightarrow> (\<exists>x. ns_of s' x = Some n) \<longleftrightarrow> (\<exists>x. ns_of s x = Some n)"
proof -
  have "wf_dict (kv_trees s')" using cache_wf_dicts(2) [OF assms(1)] assms(2) by auto
  then show "(\<exists>x \<in> set (ddel t (kv_trees s)). tid_namespace (snd x) = ns) \<longleftrightarrow> (\<exists>x. ns_of s' x = Some ns)"
    unfolding ns_of_Some assms(2) by (simp add: dget_in_set Bex_def split_paired_Ex del: dget_ddel)
  have "ns_of s' x = (if x = t then None else ns_of s x)" for x
    by (simp add: ns_of_def assms(2))
  then show "n \<noteq> ns \<Longrightarrow> (\<exists>x. ns_of s' x = Some n) \<longleftrightarrow> (\<exists>x. ns_of s x = Some n)"
    using assms(3) by (metis option.distinct(1) option.inject)
qed

lemma owners_none_count: "wf_node r \<Longrightarrow> owners_at r = (\<lambda>_. None) \<Longrightarrow> tok_count r = 0"
  using card_dom_owners_at [of r] by (simp add: dom_def)

text \<open>The run of \<open>kill\<close> on a live tree: what it returns and the state it leaves.\<close>

lemma kill_run:
  assumes wf: "cache_wf s" and tid: "dget (kv_trees s) t = Some tid"
    and s': "s' = snd (kill t s)" and ns: "ns = tid_namespace tid"
  obtains toks r r' freed where
    "dget (kv_seqs s) t = Some toks" "dget (kv_root s) ns = Some r" "fst (kill t s) = Inr (int freed)"
    "ns_ok s' ns r'" "tok_count r = tok_count r' + int freed"
    "kv_trees s' = ddel t (kv_trees s)" "kv_seqs s' = ddel t (kv_seqs s)"
    "kv_root s' = (if \<exists>x. ns_of s' x = Some ns then dset ns r' (kv_root s)
                   else ddel ns (dset ns r' (kv_root s)))"
    "kv_capacity s' = kv_capacity s" "kv_budget s' = kv_budget s"
    "kv_stats s' = (kv_stats s)\<lparr>st_resident := st_resident (kv_stats s) - int freed,
                                 st_logical := st_logical (kv_stats s) - int (length toks)\<rparr>"
proof -
  obtain toks r where ok: "dget (kv_seqs s) t = Some toks" "dget (kv_root s) ns = Some r"
      "ns_ok s ns r" "aligned r toks" "held t r toks"
    using kill_ok [OF wf tid] unfolding ns .
  obtain r' freed where rel: "release t r toks = (r', freed)" by fastforce
  have r': "same_top r r'" "wf_node r'" "owners_at r' = along toks (drop_owner t) (slots s ns)"
      "tok_count r = tok_count r' + int freed"
    using release_spec [OF ok(4) _ ok(5)] release_count [OF ok(4), of t] ok(3) rel
    by (auto simp: ns_ok_def)
  have nst: "ns_of s t = Some ns" using tid ns by (simp add: ns_of_def)
  have dicts: "kv_trees s' = ddel t (kv_trees s)" "kv_seqs s' = ddel t (kv_seqs s)"
    using tid ok(1,2) rel by (simp_all add: s' ns kill_def Let_def)
  have "ns_ok s' ns r'"
    using r' ok(3) slots_kill(1) [OF nst ok(1) dicts] by (simp add: ns_ok_def same_top_def)
  moreover have "kv_root s' = (if \<exists>x. ns_of s' x = Some ns then dset ns r' (kv_root s)
                   else ddel ns (dset ns r' (kv_root s)))"
    using tid ok(1,2) rel
    unfolding namespaces_kill(1) [OF wf dicts(1) nst, symmetric] by (simp add: s' ns kill_def Let_def)
  ultimately show ?thesis
    using that [OF ok(1,2) _ _ r'(4) dicts] tid ok(1,2) rel by (simp add: s' ns kill_def Let_def)
qed

lemma kill_inv:
  assumes inv: "cache_inv s"
  shows "cache_inv (snd (kill t s))"
proof (cases "dget (kv_trees s) t")
  case None
  with inv show ?thesis by (simp add: kill_def)
next
  case (Some tid)
  have wf: "cache_wf s" and led: "ledger s" and lim: "within_limits s"
    using inv by (auto simp: cache_inv_def)
  define s' ns where "s' = snd (kill t s)" and "ns = tid_namespace tid"
  obtain toks r r' freed where ok: "dget (kv_seqs s) t = Some toks" "dget (kv_root s) ns = Some r"
      "ns_ok s' ns r'" "tok_count r = tok_count r' + int freed"
      and dicts: "kv_trees s' = ddel t (kv_trees s)" "kv_seqs s' = ddel t (kv_seqs s)"
      and s': "kv_root s' = (if \<exists>x. ns_of s' x = Some ns then dset ns r' (kv_root s)
                   else ddel ns (dset ns r' (kv_root s)))"
    "kv_capacity s' = kv_capacity s" "kv_budget s' = kv_budget s"
    "kv_stats s' = (kv_stats s)\<lparr>st_resident := st_resident (kv_stats s) - int freed,
                                 st_logical := st_logical (kv_stats s) - int (length toks)\<rparr>"
    by (rule kill_run [OF wf Some s'_def ns_def])
  have nst: "ns_of s t = Some ns" using Some by (simp add: ns_of_def ns_def)
  note nss = namespaces_kill [OF wf dicts(1) nst] and sl = slots_kill [OF nst ok(1) dicts]
  have dead: "tok_count r' = 0" if "\<nexists>x. ns_of s' x = Some ns"
    using that ok(3)
    by (intro owners_none_count) (auto simp: ns_ok_def slots_def holders_def fun_eq_iff)
  have "cache_wf s'"
    unfolding cache_wf_def
  proof (intro conjI allI impI)
    fix n x assume "dget (kv_root s') n = Some x"
    then consider "n = ns" "x = r'" | "n \<noteq> ns" "dget (kv_root s) n = Some x"
      by (auto simp: s'(1) split: if_splits)
    then show "ns_ok s' n x"
      using ok(3) cache_wf_ok [OF wf] sl(2) by cases (auto simp: ns_ok_def)
  next
    fix n show "n \<in> keys (kv_root s') \<longleftrightarrow> (\<exists>x. ns_of s' x = Some n)"
      using nss(2) cache_wf_ns [OF wf, of n] by (cases "n = ns") (simp_all add: s'(1))
  qed (use cache_wf_dicts [OF wf] in \<open>auto simp: s' dicts\<close>)
  moreover have "ledger s'"
    using led ok dead cache_wf_dicts [OF wf]
    by (auto simp: ledger_def s' dicts dsum_dset dsum_ddel)
  moreover have "within_limits s'"
    using lim ok by (force simp: within_limits_def s' split: if_splits)
  ultimately show ?thesis by (simp add: cache_inv_def s'_def)
qed

section \<open>Walking a namespace\<close>

lemma walk_ns_run:
  assumes inv: "cache_inv s" and r: "dget (kv_root s) ns = Some r"
    and walk: "walk_ns clk ns r toks s = (path, m, s')"
  obtains r' i where "walked r toks r' path m" "ns_ok s ns r'" "tok_count r' = tok_count r"
    "s' = s\<lparr>kv_root := dset ns r' (kv_root s), kv_reads := i\<rparr>"
proof -
  have wf: "cache_wf s" using inv by (simp add: cache_inv_def)
  have ok: "n_tokens r = []" "wf_node r" "owners_at r = slots s ns"
    using cache_wf_ok [OF wf r] by (auto simp: ns_ok_def)
  obtain r' p' m' i where w: "walk clk (kv_reads s) r toks = (r', p', m', i)"
    by (metis prod_cases4)
  then have eq: "p' = path" "m' = m" "s' = s\<lparr>kv_root := dset ns r' (kv_root s), kv_reads := i\<rparr>"
    using walk by (auto simp: walk_ns_def set_root_def)
  have wd: "walked r toks r' path m" using walk_walked [OF ok(2) w] eq by simp
  have "ns_ok s ns r'"
    using walked_top [OF wd] walked_wf [OF wd] walked_owners [OF wd] ok
    by (simp add: ns_ok_def same_top_def)
  moreover have "tok_count r' = tok_count r"
    using ok(2) walked_wf [OF wd] walked_owners [OF wd] by (intro tok_count_dom) auto
  ultimately show ?thesis using that wd eq by blast
qed

lemma cache_inv_reroot:
  assumes inv: "cache_inv s" and r: "dget (kv_root s) ns = Some r"
    and r': "ns_ok s ns r'" "tok_count r' = tok_count r"
  shows "cache_inv (s\<lparr>kv_root := dset ns r' (kv_root s), kv_reads := i\<rparr>)" (is "cache_inv ?s")
proof -
  have wf: "cache_wf s" using inv by (simp add: cache_inv_def)
  have ns: "ns_of ?s = ns_of s" by (simp add: ns_of_def fun_eq_iff)
  have "ns \<in> keys (kv_root s)" using r by (rule dget_Some_keys)
  then have ex: "\<exists>t. ns_of s t = Some ns" using cache_wf_ns [OF wf] by simp
  have "cache_wf ?s"
  proof (rule cache_wf_update_ns [OF wf])
    show "ns_ok ?s ns r'" using r'(1) by (simp add: ns_ok_def)
  qed (use cache_wf_dicts [OF wf] ex in \<open>auto simp: ns\<close>)
  then show ?thesis
    using inv r r'(2) by (auto simp: cache_inv_def ledger_def within_limits_def dsum_dset)
qed

lemma walk_ns_inv:
  assumes "cache_inv s" "dget (kv_root s) ns = Some r" "walk_ns clk ns r toks s = (path, m, s')"
  shows "cache_inv s'"
  using walk_ns_run [OF assms] cache_inv_reroot [OF assms(1,2)] by metis

lemma match_tree_prefix_inv: "cache_inv s \<Longrightarrow> cache_inv (snd (match_tree_prefix clk t toks s))"
  by (auto simp: match_tree_prefix_def split: option.split prod.split dest: walk_ns_inv)

lemma match_prefix_loop_inv:
  "cache_inv s \<Longrightarrow> cache_inv (snd (match_prefix_loop clk toks nss best s))"
  by (induction clk toks nss best s rule: match_prefix_loop.induct)
    (auto split: option.split prod.split dest: walk_ns_inv)

lemma match_prefix_inv: "cache_inv s \<Longrightarrow> cache_inv (snd (match_prefix clk toks s))"
  using match_prefix_loop_inv [of s clk toks "map fst (kv_root s)" 0]
  by (simp add: match_prefix_def case_prod_unfold Let_def)

section \<open>Token counts and eviction\<close>

text \<open>\<open>_namespace_tokens\<close> computes the number of tokens of the namespace.\<close>

lemma tok_count_sum:
  "tok_count nd = (\<Sum>c\<leftarrow>map snd (n_children nd). int (length (n_tokens c)) + tok_count c)"
  unfolding tok_count_unfold [of nd] by (simp add: dsum_def comp_def)

lemma namespace_tokens_loop_sum:
  "namespace_tokens_loop stack acc =
     acc + (\<Sum>c\<leftarrow>stack. int (length (n_tokens c)) + tok_count c)"
proof (induction stack acc rule: namespace_tokens_loop.induct)
  case (1 stack acc)
  then show ?case
    by (cases "stack = []")
      (simp_all add: namespace_tokens_loop.simps [of stack] namespace_tokens_loop.simps [of "[]"]
        Let_def sum_list_last [of stack]
        tok_count_sum [of "last stack"])
qed

lemma namespace_tokens_eq: "namespace_tokens r = tok_count r"
  by (simp add: namespace_tokens_def namespace_tokens_loop_sum tok_count_sum [of r])

text \<open>No node of a well-formed cache is unreferenced, so \<open>_maybe_evict\<close> finds nothing to evict.\<close>

definition pinned :: "node \<Rightarrow> bool" where
  "pinned nd \<longleftrightarrow> wf_node nd \<and> (\<forall>p S. owners_at nd p = Some S \<longrightarrow> S \<noteq> {})"

lemma pinned_child:
  assumes "pinned nd" "(k, c) \<in> set (n_children nd)"
  shows "pinned c \<and> 0 < n_ref c"
proof -
  have wf: "wf_node nd" using assms(1) by (simp add: pinned_def)
  have d: "dget (n_children nd) k = Some c"
    using assms(2) by (simp add: dget_in_set wf_node_dict [OF wf])
  have c: "wf_child k c" using wf d by (rule wf_node_child)
  then have at: "owners_at nd (n_tokens c) = Some (n_owners c)"
    "\<And>q. q \<noteq> [] \<Longrightarrow> owners_at nd (n_tokens c @ q) = owners_at c q"
    using owners_at_child [of nd c] d wf_child_key by auto
  have "n_owners c \<noteq> {}" using at(1) assms(1) unfolding pinned_def by blast
  moreover have "S \<noteq> {}" if "owners_at c q = Some S" for q S
    using that at(2) [of q] assms(1) unfolding pinned_def by (cases "q = []") auto
  ultimately show ?thesis
    using c by (auto simp: pinned_def wf_child_def wf_node_iff [of c] card_gt_0_iff)
qed

lemma all_nodes_loop_pinned:
  "(\<And>x. x \<in> set stack \<Longrightarrow> pinned (snd (snd x)) \<and> 0 < n_ref (snd (snd x))) \<Longrightarrow>
   x \<in> set (all_nodes_loop stack) \<Longrightarrow> 0 < n_ref (snd (snd x))"
proof (induction stack rule: all_nodes_loop.induct)
  case (1 stack)
  show ?case
  proof (cases "stack = []")
    case True
    with "1.prems" show ?thesis by (simp add: all_nodes_loop.simps)
  next
    case False
    obtain ns path nd where last: "last stack = (ns, path, nd)" by (metis prod_cases3)
    have nd: "pinned nd" "0 < n_ref nd"
      using "1.prems"(1) [OF last_in_set [OF False]] last by auto
    have "pinned (snd (snd y)) \<and> 0 < n_ref (snd (snd y))"
      if "y \<in> set (butlast stack @ child_refs ns path nd)" for y
      using that "1.prems"(1) [of y] pinned_child [OF nd(1)] in_set_butlastD
      by (fastforce simp: child_refs_def)
    with "1.IH" [OF False last [symmetric] refl refl] "1.prems"(2) nd(2) show ?thesis
      by (auto simp: all_nodes_loop.simps [of stack] False last)
  qed
qed

lemma cache_no_evictable:
  assumes "cache_wf s"
  shows "filter evictable (all_nodes (kv_root s)) = []"
proof -
  have "pinned (snd (snd x)) \<and> 0 < n_ref (snd (snd x))"
    if mem: "x \<in> set (concat (map (\<lambda>(ns, r). child_refs ns [] r) (kv_root s)))" for x
  proof -
    obtain ns r k c where x: "(ns, r) \<in> set (kv_root s)" "(k, c) \<in> set (n_children r)" "x = (ns, [k], c)"
      using mem by (auto simp: child_refs_def)
    then have "ns_ok s ns r"
      using assms cache_wf_ok dget_in_set cache_wf_dicts(1) by metis
    then have "pinned r" by (auto simp: pinned_def ns_ok_def slots_def split: if_splits)
    from pinned_child [OF this x(2)] x(3) show ?thesis by simp
  qed
  then have "0 < n_ref (snd (snd x))" if "x \<in> set (all_nodes (kv_root s))" for x
    using that all_nodes_loop_pinned unfolding all_nodes_def by blast
  then show ?thesis by (fastforce simp: filter_empty_conv evictable_def)
qed

lemma maybe_evict_wf:
  assumes "cache_wf s"
  shows "maybe_evict need s =
    (if st_resident (kv_stats s) + need \<le> kv_capacity s then (Inr (), s) else (Inl MemoryError, s))"
  by (simp add: maybe_evict_def cache_no_evictable [OF assms])

section \<open>Extending a tree\<close>

lemma holders_extend:
  assumes "kv_trees s' = kv_trees s" "kv_seqs s' = dset t full (kv_seqs s)"
    and "ns_of s t = Some ns" "dget (kv_seqs s) t = Some sq" "prefix sq full"
  shows "holders s' n p = (if n = ns \<and> prefix p full then insert t (holders s n p) else holders s n p)"
proof -
  have "ns_of s' = ns_of s" by (simp add: ns_of_def fun_eq_iff assms(1))
  moreover have "prefix p sq \<Longrightarrow> prefix p full" using assms(5) prefix_order.trans by blast
  ultimately show ?thesis using assms(3,4) by (auto simp: holders_def assms(2))
qed

lemma slots_extend:
  assumes "kv_trees s' = kv_trees s" "kv_seqs s' = dset t full (kv_seqs s)"
    and "ns_of s t = Some ns" "dget (kv_seqs s) t = Some sq" "prefix sq full"
  shows "slots s' ns p = (if p \<noteq> [] \<and> prefix p full then Some (insert t (holders s ns p)) else slots s ns p)"
    and "n \<noteq> ns \<Longrightarrow> slots s' n = slots s n"
  by (auto simp: slots_def fun_eq_iff holders_extend [OF assms])

text \<open>
  The namespace after \<open>_walk\<close>, the insertion (if anything was missing) and \<open>_add_refs\<close>: the
  tree owns all prefixes of its new sequence and nothing else has changed.
\<close>

definition grown :: "string \<Rightarrow> int list \<Rightarrow> nat \<Rightarrow> int list \<Rightarrow> real \<Rightarrow> node \<Rightarrow> node" where
  "grown t full m path now r =
     (if m < length full then attach path (full ! m) (Node (drop m full) 1 {t} now []) r else r)"

lemma grown_spec:
  assumes "walked r full r' path m" "wf_node r"
  shows "wf_node (grown t full m path now r')" "aligned (grown t full m path now r') full"
    "same_top r (grown t full m path now r')"
    "owners_at (grown t full m path now r') p =
       (if prefix p full \<and> m < length p then Some {t} else owners_at r p)"
proof -
  show "wf_node (grown t full m path now r')"
    using walked_attach_wf [OF assms] walked_wf [OF assms] by (simp add: grown_def)
  show "aligned (grown t full m path now r') full"
    using walked_attach_aligned [OF assms] walked_aligned [OF assms] walked_le [OF assms(1)]
    by (cases "m < length full") (auto simp: grown_def)
  show "same_top r (grown t full m path now r')"
    using attach_top walked_top [OF assms(1)] by (auto simp: grown_def same_top_def)
  show "owners_at (grown t full m path now r') p =
       (if prefix p full \<and> m < length p then Some {t} else owners_at r p)"
    using walked_attach_owners [OF assms] walked_owners [OF assms(1)] walked_le [OF assms(1)]
    by (auto simp: grown_def dest: prefix_length_le)
qed

lemma walked_cached:
  assumes "walked r full r' path m" "wf_node r" "p \<noteq> []" "prefix p full"
  shows "length p \<le> m \<longleftrightarrow> owners_at r p \<noteq> None"
proof
  assume "length p \<le> m"
  then have "prefix p (take m full)"
    using assms(4) by (metis prefix_length_prefix take_is_prefix walked_le [OF assms(1)] length_take min.absorb2)
  then show "owners_at r p \<noteq> None"
    using aligned_cached [OF walked_aligned [OF assms(1,2)] walked_wf [OF assms(1,2)] _ assms(3)]
      walked_owners [OF assms(1)] by auto
next
  assume *: "owners_at r p \<noteq> None"
  show "length p \<le> m"
  proof (rule ccontr)
    assume "\<not> length p \<le> m"
    then have "m < length full" "prefix (take (Suc m) full) p"
      using prefix_length_le [OF assms(4)] assms(4)
      by (auto intro: prefix_length_prefix take_is_prefix)
    then show False
      using * owners_at_prefix_None [OF walked_maximal [OF assms(1)] _ _ assms(2)] by fastforce
  qed
qed

lemma grown_refs:
  assumes "walked r full r' path m" "wf_node r"
  shows "wf_node (add_refs t (grown t full m path now r') full)"
    "same_top r (add_refs t (grown t full m path now r') full)"
    "owners_at (add_refs t (grown t full m path now r') full) p =
       (if p \<noteq> [] \<and> prefix p full then Some (insert t (case owners_at r p of None \<Rightarrow> {} | Some S \<Rightarrow> S))
        else owners_at r p)"
proof -
  note g = grown_spec [OF assms, of t now]
  note a = add_refs_spec [OF g(2,1), of t]
  show "wf_node (add_refs t (grown t full m path now r') full)"
    "same_top r (add_refs t (grown t full m path now r') full)"
    using a g(3) by (auto simp: same_top_def)
  show "owners_at (add_refs t (grown t full m path now r') full) p =
       (if p \<noteq> [] \<and> prefix p full then Some (insert t (case owners_at r p of None \<Rightarrow> {} | Some S \<Rightarrow> S))
        else owners_at r p)"
    using a g(4) walked_cached [OF assms, of p]
    by (auto simp: along_def add_owner_def not_le split: option.split)
qed


section \<open>Outcomes of \<open>extend\<close>\<close>

text \<open>The number of tokens already cached along a sequence.\<close>

lemma grown_count:
  assumes "walked r full r' path m" "wf_node r"
  shows "tok_count (add_refs t (grown t full m path now r') full) = tok_count r + int (length full - m)"
proof -
  let ?g = "add_refs t (grown t full m path now r') full"
  let ?new = "(\<lambda>j. take j full) ` {m<..length full}"
  note g = grown_refs [OF assms, of t now]
  have eq: "dom (owners_at ?g) = dom (owners_at r) \<union> ?new"
  proof (intro set_eqI iffI)
    fix p assume "p \<in> dom (owners_at ?g)"
    then consider "owners_at r p \<noteq> None" | "p \<noteq> []" "prefix p full" "owners_at r p = None"
      using g(3) [of p] by (auto simp: dom_def split: if_splits)
    then show "p \<in> dom (owners_at r) \<union> ?new"
    proof cases
      case 2
      then have "m < length p" using walked_cached [OF assms 2(1,2)] by simp
      then have "p \<in> ?new"
        using 2(2) prefix_length_le [OF 2(2)] by (auto simp: prefix_iff_take intro!: image_eqI [of _ _ "length p"])
      then show ?thesis by simp
    qed auto
  next
    fix p assume "p \<in> dom (owners_at r) \<union> ?new"
    then show "p \<in> dom (owners_at ?g)"
      using g(3) [of p] by (auto simp: dom_def take_is_prefix split: if_splits)
  qed
  have disj: "dom (owners_at r) \<inter> ?new = {}"
  proof -
    have "owners_at r (take j full) = None" if j: "m < j" "j \<le> length full" for j
      using j walked_cached [OF assms _ take_is_prefix, of j] by (cases "full = []") auto
    then show ?thesis by (auto simp: dom_def)
  qed
  have "inj_on (\<lambda>j. take j full) {m<..length full}"
    by (rule inj_onI) (metis greaterThanAtMost_iff length_take min.absorb2)
  then have "card ?new = length full - m" by (simp add: card_image)
  then show ?thesis
    using card_dom_owners_at [OF assms(2)] card_dom_owners_at [OF g(1)] disj
    by (simp add: eq card_Un_disjoint flip: of_nat_add)
qed

text \<open>
  The state after a successful \<open>extend\<close> of a tree \<open>t\<close> in namespace \<open>ns\<close> to the sequence \<open>full\<close>:
  the namespace has tree \<open>r\<close>, \<open>c\<close> tokens were charged.
\<close>

definition extended :: "string \<Rightarrow> string \<Rightarrow> int list \<Rightarrow> int list \<Rightarrow> node \<Rightarrow> int \<Rightarrow> nat \<Rightarrow> kv_cache \<Rightarrow> kv_cache" where
  "extended t ns toks full r c i s =
     s\<lparr>kv_root := dset ns r (kv_root s), kv_seqs := dset t full (kv_seqs s), kv_reads := i,
       kv_stats := (kv_stats s)\<lparr>st_resident := st_resident (kv_stats s) + c,
         st_logical := st_logical (kv_stats s) + int (length toks),
         st_charged := st_charged (kv_stats s) + c,
         st_saved := st_saved (kv_stats s) +
           (if c < int (length toks) then int (length toks) - c else 0)\<rparr>\<rparr>"

lemma extend_run:
  assumes inv: "cache_inv s" and tid: "dget (kv_trees s) t = Some tid"
    and sq: "dget (kv_seqs s) t = Some sq" and r: "dget (kv_root s) (tid_namespace tid) = Some r"
  obtains r' path m i now j where
    "walked r (sq @ toks) r' path m" "ns_ok s (tid_namespace tid) r'" "tok_count r' = tok_count r"
    "extend_kv clk t toks s =
       (let ns = tid_namespace tid; c = int (length (sq @ toks)) - int m in
        if (\<exists>b. kv_budget s = Some b \<and> tok_count r + c > b)
           \<or> st_resident (kv_stats s) + c > kv_capacity s
        then (Inl MemoryError, s\<lparr>kv_root := dset ns r' (kv_root s), kv_reads := i\<rparr>)
        else (Inr c, extended t ns toks (sq @ toks)
                 (add_refs t (grown t (sq @ toks) m path now r') (sq @ toks)) c j s))"
proof -
  let ?ns = "tid_namespace tid" and ?full = "sq @ toks"
  obtain path m s1 where w: "walk_ns clk ?ns r ?full s = (path, m, s1)" by (metis prod_cases3)
  obtain r' i where wd: "walked r ?full r' path m" and r': "ns_ok s ?ns r'" "tok_count r' = tok_count r"
    and s1: "s1 = s\<lparr>kv_root := dset ?ns r' (kv_root s), kv_reads := i\<rparr>"
    by (rule walk_ns_run [OF inv r w])
  have wf1: "cache_wf s1" using walk_ns_inv [OF inv r w] by (simp add: cache_inv_def)
  have le: "m \<le> length ?full" by (rule walked_le [OF wd])
  have cap: "st_resident (kv_stats s) \<le> kv_capacity s"
    using inv by (simp add: cache_inv_def within_limits_def)
  show ?thesis
  proof (rule that [of r' path m i "clk i" "if m < length ?full then Suc i else i", OF wd r'])
  qed (use tid sq r w s1 r' le cap maybe_evict_wf [OF wf1, of "int (length ?full - m)"] in
      \<open>auto simp: extend_kv_def Let_def namespace_tokens_eq of_nat_diff extend_finish_def
          insert_suffix_def extended_def grown_def split: option.split\<close>)
qed

lemma extended_wf:
  assumes inv: "cache_inv s" and ns: "ns_of s t = Some ns" and sq: "dget (kv_seqs s) t = Some sq"
    and r: "dget (kv_root s) ns = Some r"
    and wd: "walked r (sq @ toks) r' path m"
    and c: "c = int (length (sq @ toks)) - int m"
    and g: "g = add_refs t (grown t (sq @ toks) m path now r') (sq @ toks)"
  shows "cache_wf (extended t ns toks (sq @ toks) g c j s)" (is "cache_wf ?s")
    and "ledger (extended t ns toks (sq @ toks) g c j s)"
    and "ns_ok (extended t ns toks (sq @ toks) g c j s) ns g"
    and "tok_count g = tok_count r + c"
proof -
  have wf: "cache_wf s" using inv by (simp add: cache_inv_def)
  have ok: "n_tokens r = []" "wf_node r" "owners_at r = slots s ns"
    using cache_wf_ok [OF wf r] by (auto simp: ns_ok_def)
  have s': "kv_trees ?s = kv_trees s" "kv_seqs ?s = dset t (sq @ toks) (kv_seqs s)"
      "kv_root ?s = dset ns g (kv_root s)"
    by (simp_all add: extended_def)
  note sl = slots_extend [OF s'(1,2) ns sq prefixI [OF refl]]
  show count: "tok_count g = tok_count r + c"
    using grown_count [OF wd ok(2)] walked_le [OF wd] by (simp add: g c of_nat_diff)
  have "owners_at g p = (if p \<noteq> [] \<and> prefix p (sq @ toks)
      then Some (insert t (case slots s ns p of None \<Rightarrow> {} | Some S \<Rightarrow> S)) else slots s ns p)" for p
    unfolding g grown_refs(3) [OF wd ok(2)] ok(3) by (rule refl)
  then have "owners_at g p = slots ?s ns p" for p
    unfolding sl(1) by (auto simp: slots_def)
  then show g_ok: "ns_ok ?s ns g"
    using grown_refs(1,2) [OF wd ok(2)] ok(1) by (auto simp: ns_ok_def g same_top_def)
  have nsof: "ns_of ?s = ns_of s" by (simp add: ns_of_def fun_eq_iff s')
  have "t \<in> keys (kv_seqs s)" using sq by (rule dget_Some_keys)
  then show "cache_wf ?s"
    using cache_wf_dicts [OF wf] ns sl(2)
    by (intro cache_wf_update_ns [OF wf g_ok]) (auto simp: nsof s')
  show "ledger ?s"
    using inv r sq count by (simp add: cache_inv_def ledger_def extended_def dsum_dset)
qed

lemma extended_inv:
  assumes inv: "cache_inv s" and ns: "ns_of s t = Some ns" and sq: "dget (kv_seqs s) t = Some sq"
    and r: "dget (kv_root s) ns = Some r"
    and wd: "walked r (sq @ toks) r' path m"
    and c: "c = int (length (sq @ toks)) - int m"
    and limits: "\<And>b. kv_budget s = Some b \<Longrightarrow> tok_count r + c \<le> b"
      "st_resident (kv_stats s) + c \<le> kv_capacity s"
    and g: "g = add_refs t (grown t (sq @ toks) m path now r') (sq @ toks)"
  shows "cache_inv (extended t ns toks (sq @ toks) g c j s)" (is "cache_inv ?s")
proof -
  note ext = extended_wf [OF inv ns sq r wd c g]
  have "within_limits ?s"
    using inv limits ext(4) by (auto simp: cache_inv_def within_limits_def extended_def)
  with ext show ?thesis by (simp add: cache_inv_def)
qed

lemma extend_inv:
  assumes inv: "cache_inv s"
  shows "cache_inv (snd (extend_kv clk t toks s))"
proof (cases "dget (kv_trees s) t")
  case None
  with inv show ?thesis by (simp add: extend_kv_def)
next
  case (Some tid)
  then have ns: "ns_of s t = Some (tid_namespace tid)" by (simp add: ns_of_def)
  obtain sq r where sq: "dget (kv_seqs s) t = Some sq" and r: "dget (kv_root s) (tid_namespace tid) = Some r"
    using cache_wf_tree [OF _ ns] inv unfolding cache_inv_def by blast
  show ?thesis
    using extended_inv [OF inv ns sq r _ refl _ _ refl, of toks] cache_inv_reroot [OF inv r]
    by (rule_tac extend_run [OF inv Some sq r, where clk = clk and toks = toks])
      (auto simp: Let_def not_less)
qed

section \<open>Reachable caches\<close>

text \<open>
  One step is one locked method call, whatever its outcome; \<open>ok\<close> says which calls are made in which
  state.
\<close>

datatype kv_op =
    CreateTree string
  | ForkBranch string "string option"
  | Kill string
  | Extend string "int list"
  | MatchPrefix "int list"
  | MatchTreePrefix string "int list"

fun kv_exec :: "(nat \<Rightarrow> real) \<Rightarrow> kv_op \<Rightarrow> kv_cache \<Rightarrow> kv_cache" where
  "kv_exec clk (CreateTree t) s = snd (create_tree clk t s)"
| "kv_exec clk (ForkBranch p c) s = snd (fork_branch p c s)"
| "kv_exec clk (Kill t) s = snd (kill t s)"
| "kv_exec clk (Extend t toks) s = snd (extend_kv clk t toks s)"
| "kv_exec clk (MatchPrefix toks) s = snd (match_prefix clk toks s)"
| "kv_exec clk (MatchTreePrefix t toks) s = snd (match_tree_prefix clk t toks s)"

inductive kv_reach :: "(kv_op \<Rightarrow> kv_cache \<Rightarrow> bool) \<Rightarrow> (nat \<Rightarrow> real) \<Rightarrow> int \<Rightarrow> int option \<Rightarrow> kv_cache \<Rightarrow> bool"
  for ok clk cap bud where
  init: "kv_init cap bud = Inr s \<Longrightarrow> kv_reach ok clk cap bud s"
| step: "kv_reach ok clk cap bud s \<Longrightarrow> ok op s \<Longrightarrow> kv_reach ok clk cap bud (kv_exec clk op s)"

text \<open>
  The condition of the theorems: no killed root is created again while its forks live.  The code
  does not check that and then loses the forks' radix tree (see \<open>create_tree_leak\<close>).  Creating a
  tree that lives, which raises, and a killed root without live forks are allowed.
\<close>

fun no_recreate :: "kv_op \<Rightarrow> kv_cache \<Rightarrow> bool" where
  "no_recreate (CreateTree t) s \<longleftrightarrow> t \<in> keys (kv_trees s) \<or> (\<forall>tid \<in> snd ` set (kv_trees s). tid_namespace tid \<noteq> t)"
| "no_recreate _ s \<longleftrightarrow> True"

lemma create_tree_ok:
  assumes "cache_inv s" "no_recreate (CreateTree t) s"
  shows "cache_inv (snd (create_tree clk t s))"
proof (cases "t \<in> keys (kv_trees s)")
  case False
  then have "t \<notin> keys (kv_root s)"
    using assms cache_wf_ns [of s t]
    by (fastforce simp: cache_inv_def ns_of_def dest: map_of_SomeD)
  then show ?thesis by (rule create_tree_inv [OF assms(1)])
qed (use assms(1) in \<open>simp add: create_tree_def\<close>)

lemma no_recreate_root:
  assumes "cache_inv s" "t \<notin> keys (kv_root s)"
  shows "no_recreate (CreateTree t) s"
proof -
  have wf: "cache_wf s" using assms(1) by (simp add: cache_inv_def)
  have "ns_of s u = Some (tid_namespace tid)" if "(u, tid) \<in> set (kv_trees s)" for u tid
    using that cache_wf_dicts [OF wf] dget_in_set [of "kv_trees s" u tid] by (simp add: ns_of_def)
  then show ?thesis using cache_wf_ns [OF wf, of t] assms(2) by fastforce
qed

lemma kv_exec_inv: "cache_inv s \<Longrightarrow> no_recreate op s \<Longrightarrow> cache_inv (kv_exec clk op s)"
  by (cases op) (simp_all add: create_tree_ok fork_branch_inv kill_inv extend_inv
      match_prefix_inv match_tree_prefix_inv del: no_recreate.simps(1))

lemma kv_reach_inv: "kv_reach no_recreate clk cap bud s \<Longrightarrow> cache_inv s"
  by (induction rule: kv_reach.induct) (simp_all add: cache_inv_init kv_exec_inv)

end
