(* ===== verification/Tree_Cache_Spec.thy ===== *)
theory Tree_Cache_Spec
  imports Tree_Cache_Laws
begin

text \<open>
  What \<open>TreeKVCache\<close> promises, without the radix tree: the abstract state maps every live tree
  to its namespace and its token sequence; a token is stored once per namespace and distinct
  prefix.  The methods of the cache are shown to compute exactly the abstract operations, and
  the counter \<open>resident_tokens\<close> to be the number of stored prefixes.
\<close>

section \<open>The specification\<close>

record kv_spec =
  sp_trees :: "string \<Rightarrow> (string \<times> int list) option"
  sp_seq :: int

definition stored :: "kv_spec \<Rightarrow> (string \<times> int list) set" where
  "stored A = {(ns, p). p \<noteq> [] \<and> (\<exists>t sq. sp_trees A t = Some (ns, sq) \<and> prefix p sq)}"

definition stored_in :: "string \<Rightarrow> kv_spec \<Rightarrow> int list set" where
  "stored_in ns A = {p. (ns, p) \<in> stored A}"

definition spec_create :: "string \<Rightarrow> kv_spec \<Rightarrow> (kv_spec, string) outcome" where
  "spec_create t A =
     (if sp_trees A t \<noteq> None then (Inl ValueError, A)
      else (Inr t, A\<lparr>sp_trees := (sp_trees A)(t \<mapsto> (t, []))\<rparr>))"

definition spec_fork :: "string \<Rightarrow> string option \<Rightarrow> kv_spec \<Rightarrow> (kv_spec, string) outcome" where
  "spec_fork parent child A =
     (case sp_trees A parent of
        None \<Rightarrow> (Inl (KeyError parent), A)
      | Some (ns, sq) \<Rightarrow>
         let c = child_name parent child (sp_seq A); A1 = A\<lparr>sp_seq := sp_seq A + 1\<rparr> in
         if sp_trees A c \<noteq> None then (Inl ValueError, A1)
         else (Inr c, A1\<lparr>sp_trees := (sp_trees A1)(c \<mapsto> (ns, sq))\<rparr>))"

definition spec_kill :: "string \<Rightarrow> kv_spec \<Rightarrow> (kv_spec, int) outcome" where
  "spec_kill t A =
     (let A' = A\<lparr>sp_trees := (sp_trees A)(t := None)\<rparr>
      in (Inr (int (card (stored A)) - int (card (stored A'))), A'))"

definition spec_extend :: "int \<Rightarrow> int option \<Rightarrow> string \<Rightarrow> int list \<Rightarrow> kv_spec \<Rightarrow> (kv_spec, int) outcome" where
  "spec_extend cap bud t toks A =
     (case sp_trees A t of
        None \<Rightarrow> (Inl (KeyError t), A)
      | Some (ns, sq) \<Rightarrow>
         let A' = A\<lparr>sp_trees := (sp_trees A)(t \<mapsto> (ns, sq @ toks))\<rparr> in
         if (\<exists>b. bud = Some b \<and> int (card (stored_in ns A')) > b) \<or> int (card (stored A')) > cap
         then (Inl MemoryError, A)
         else (Inr (int (card (stored A')) - int (card (stored A))), A'))"

definition spec_match :: "string \<Rightarrow> int list \<Rightarrow> kv_spec \<Rightarrow> nat" where
  "spec_match ns toks A = Max (length ` {p. prefix p toks \<and> (p = [] \<or> p \<in> stored_in ns A)})"

section \<open>Abstraction\<close>

definition kv_abs :: "kv_cache \<Rightarrow> kv_spec" where
  "kv_abs s =
     \<lparr>sp_trees = (\<lambda>t. case dget (kv_trees s) t of
          None \<Rightarrow> None
        | Some tid \<Rightarrow> map_option (Pair (tid_namespace tid)) (dget (kv_seqs s) t)),
      sp_seq = kv_next_seq s\<rparr>"

lemma kv_abs_tree:
  "sp_trees (kv_abs s) t = Some (ns, sq) \<longleftrightarrow> ns_of s t = Some ns \<and> dget (kv_seqs s) t = Some sq"
  by (auto simp: kv_abs_def ns_of_def split: option.splits)

lemma kv_abs_None: "cache_wf s \<Longrightarrow> sp_trees (kv_abs s) t = None \<longleftrightarrow> t \<notin> keys (kv_trees s)"
  using cache_wf_dicts(4) [of s]
  by (auto simp: kv_abs_def dget_None_iff split: option.splits dest: dget_Some_keys)

lemma kv_abs_dom: "cache_wf s \<Longrightarrow> dom (sp_trees (kv_abs s)) = keys (kv_trees s)"
  by (rule set_eqI) (simp only: domIff kv_abs_None not_not)

lemma stored_holders: "(ns, p) \<in> stored (kv_abs s) \<longleftrightarrow> p \<noteq> [] \<and> holders s ns p \<noteq> {}"
  by (auto simp: stored_def kv_abs_tree holders_def)

lemma stored_in_dom:
  assumes "ns_ok s ns r"
  shows "stored_in ns (kv_abs s) = dom (owners_at r)"
  using assms by (auto simp: stored_in_def stored_holders ns_ok_def slots_def split: if_splits)

lemma card_stored_in:
  assumes "ns_ok s ns r"
  shows "finite (stored_in ns (kv_abs s))" "int (card (stored_in ns (kv_abs s))) = tok_count r"
  using card_dom_owners_at [of r] stored_in_dom [OF assms] assms by (auto simp: ns_ok_def)

lemma card_sigma_dict:
  assumes "wf_dict d" "\<And>k v. (k, v) \<in> set d \<Longrightarrow> finite (F k) \<and> int (card (F k)) = f v"
  shows "finite (Sigma (keys d) F) \<and> int (card (Sigma (keys d) F)) = dsum f d"
  using assms
proof (induction d)
  case (Cons kv d)
  have "Sigma (keys (kv # d)) F = Pair (fst kv) ` F (fst kv) \<union> Sigma (keys d) F" by auto
  moreover have "Pair (fst kv) ` F (fst kv) \<inter> Sigma (keys d) F = {}"
    using Cons.prems(1) by (auto simp: image_iff)
  moreover have "card (Pair (fst kv) ` F (fst kv)) = card (F (fst kv))"
    by (intro card_image inj_onI) simp
  moreover have "finite (F (fst kv)) \<and> int (card (F (fst kv))) = f (snd kv)"
    using Cons.prems(2) [of "fst kv" "snd kv"] by simp
  moreover have "finite (Sigma (keys d) F) \<and> int (card (Sigma (keys d) F)) = dsum f d"
    by (intro Cons.IH) (use Cons.prems in auto)
  ultimately show ?case by (simp add: card_Un_disjoint)
qed simp

text \<open>The counter of resident tokens is the number of stored prefixes.\<close>

lemma card_stored:
  assumes "cache_wf s"
  shows "finite (stored (kv_abs s))" "int (card (stored (kv_abs s))) = dsum tok_count (kv_root s)"
proof -
  have "stored (kv_abs s) = Sigma (keys (kv_root s)) (\<lambda>ns. stored_in ns (kv_abs s))"
    using cache_wf_ns [OF assms] by (fastforce simp: stored_in_def stored_holders holders_def)
  moreover have "finite (stored_in ns (kv_abs s)) \<and> int (card (stored_in ns (kv_abs s))) = tok_count r"
    if "(ns, r) \<in> set (kv_root s)" for ns r
    using that card_stored_in cache_wf_ok [OF assms] dget_in_set cache_wf_dicts(1) [OF assms] by metis
  ultimately show "finite (stored (kv_abs s))" "int (card (stored (kv_abs s))) = dsum tok_count (kv_root s)"
    using card_sigma_dict [OF cache_wf_dicts(1) [OF assms], of "\<lambda>ns. stored_in ns (kv_abs s)" tok_count]
    by simp_all
qed

lemma resident_stored: "cache_inv s \<Longrightarrow> st_resident (kv_stats s) = int (card (stored (kv_abs s)))"
  by (simp add: cache_inv_def ledger_def card_stored)

lemma kv_abs_walked [simp]:
  "kv_abs (s\<lparr>kv_root := rt, kv_reads := i\<rparr>) = kv_abs s" "kv_abs (s\<lparr>kv_reads := i\<rparr>) = kv_abs s"
  "kv_abs (s\<lparr>kv_root := rt\<rparr>) = kv_abs s" "kv_abs (s\<lparr>kv_stats := st\<rparr>) = kv_abs s"
  by (simp_all add: kv_abs_def cong: option.case_cong)

section \<open>Refinement\<close>

lemma create_tree_refines:
  assumes "cache_inv s"
  shows "map_prod (map_sum id tid_tree_id) kv_abs (create_tree clk t s) = spec_create t (kv_abs s)"
  using kv_abs_None [of s t] assms
  by (auto simp: create_tree_def spec_create_def cache_inv_def kv_abs_def Let_def fun_eq_iff
      cong: option.case_cong)

lemma fork_branch_refines:
  assumes inv: "cache_inv s"
  shows "map_prod (map_sum id tid_tree_id) kv_abs (fork_branch parent child s)
    = spec_fork parent child (kv_abs s)"
proof (cases "dget (kv_trees s) parent")
  case None
  then show ?thesis by (simp add: fork_branch_def spec_fork_def kv_abs_def)
next
  case (Some ptid)
  have wf: "cache_wf s" using inv by (simp add: cache_inv_def)
  define c where "c = child_name parent child (kv_next_seq s)"
  have c_abs: "child_name parent child (sp_seq (kv_abs s)) = c" by (simp add: c_def kv_abs_def)
  have ns: "ns_of s parent = Some (tid_namespace ptid)" using Some by (simp add: ns_of_def)
  obtain sq where sq: "dget (kv_seqs s) parent = Some sq" using cache_wf_tree [OF wf ns] .
  have parent: "sp_trees (kv_abs s) parent = Some (tid_namespace ptid, sq)"
    using ns sq by (simp add: kv_abs_tree)
  show ?thesis
  proof (cases "c \<in> keys (kv_trees s)")
    case True
    then have "sp_trees (kv_abs s) c \<noteq> None" by (simp add: kv_abs_None [OF wf])
    with True show ?thesis
      using Some unfolding fork_branch_def spec_fork_def parent c_abs
      by (auto simp: Let_def kv_abs_def simp flip: c_def cong: option.case_cong)
  next
    case False
    then have "sp_trees (kv_abs s) c = None" by (simp add: kv_abs_None [OF wf])
    then show ?thesis
      using sq unfolding spec_fork_def parent c_abs
      by (rule_tac fork_branch_ok [OF wf Some c_def False]) (auto simp: Let_def kv_abs_def fun_eq_iff cong: option.case_cong)
  qed
qed

lemma kill_refines:
  assumes inv: "cache_inv s"
  shows "map_prod id kv_abs (kill t s) = spec_kill t (kv_abs s)"
proof (cases "dget (kv_trees s) t")
  case None
  then have "kv_abs s\<lparr>sp_trees := (sp_trees (kv_abs s))(t := None)\<rparr> = kv_abs s"
    by (simp add: kv_abs_def fun_eq_iff)
  with None show ?thesis by (simp add: kill_def spec_kill_def)
next
  case (Some tid)
  have wf: "cache_wf s" using inv by (simp add: cache_inv_def)
  obtain toks r r' freed where "dget (kv_seqs s) t = Some toks" "tok_count r = tok_count r' + int freed"
      and run: "fst (kill t s) = Inr (int freed)"
      "kv_trees (snd (kill t s)) = ddel t (kv_trees s)" "kv_seqs (snd (kill t s)) = ddel t (kv_seqs s)"
      "kv_stats (snd (kill t s)) = (kv_stats s)\<lparr>st_resident := st_resident (kv_stats s) - int freed,
         st_logical := st_logical (kv_stats s) - int (length toks)\<rparr>"
    by (rule kill_run [OF wf Some refl refl])
  have "kv_next_seq (snd (kill t s)) = kv_next_seq s"
    by (auto simp: kill_def Let_def split: option.split prod.split)
  then have A': "kv_abs (snd (kill t s)) = kv_abs s\<lparr>sp_trees := (sp_trees (kv_abs s))(t := None)\<rparr>"
    by (simp add: kv_abs_def run fun_eq_iff cong: option.case_cong)
  have "int freed = st_resident (kv_stats s) - st_resident (kv_stats (snd (kill t s)))"
    by (simp add: run)
  then show ?thesis
    using resident_stored [OF inv] resident_stored [OF kill_inv [OF inv], of t] run(1)
    by (simp add: spec_kill_def Let_def A' prod_eq_iff)
qed

lemma kv_abs_extended:
  assumes "ns_of s t = Some ns" "dget (kv_seqs s) t = Some sq"
  shows "kv_abs (extended t ns toks full g c j s)
    = kv_abs s\<lparr>sp_trees := (sp_trees (kv_abs s))(t \<mapsto> (ns, full))\<rparr>"
  using assms by (auto simp: kv_abs_def extended_def ns_of_def fun_eq_iff cong: option.case_cong)

lemma extend_refines:
  assumes inv: "cache_inv s"
  shows "map_prod id kv_abs (extend_kv clk t toks s)
    = spec_extend (kv_capacity s) (kv_budget s) t toks (kv_abs s)"
proof (cases "dget (kv_trees s) t")
  case None
  then show ?thesis by (simp add: extend_kv_def spec_extend_def kv_abs_def)
next
  case (Some tid)
  define ns where "ns = tid_namespace tid"
  have nst: "ns_of s t = Some ns" using Some by (simp add: ns_of_def ns_def)
  obtain sq r where sq: "dget (kv_seqs s) t = Some sq" and r: "dget (kv_root s) ns = Some r"
    using cache_wf_tree [OF _ nst] inv unfolding cache_inv_def by blast
  obtain r' path m i now j where wd: "walked r (sq @ toks) r' path m"
    and run: "extend_kv clk t toks s =
       (let ns = tid_namespace tid; c = int (length (sq @ toks)) - int m in
        if (\<exists>b. kv_budget s = Some b \<and> tok_count r + c > b)
           \<or> st_resident (kv_stats s) + c > kv_capacity s
        then (Inl MemoryError, s\<lparr>kv_root := dset ns r' (kv_root s), kv_reads := i\<rparr>)
        else (Inr c, extended t ns toks (sq @ toks)
                 (add_refs t (grown t (sq @ toks) m path now r') (sq @ toks)) c j s))"
    by (rule extend_run [OF inv Some sq r [unfolded ns_def], where clk = clk and toks = toks])
  define c where "c = int (length (sq @ toks)) - int m"
  define g where "g = add_refs t (grown t (sq @ toks) m path now r') (sq @ toks)"
  define s' where "s' = extended t ns toks (sq @ toks) g c j s"
  have ext: "cache_wf s'" "ledger s'" "ns_ok s' ns g" "tok_count g = tok_count r + c"
    unfolding s'_def by (rule extended_wf [OF inv nst sq r wd c_def g_def])+
  have A': "kv_abs s\<lparr>sp_trees := (sp_trees (kv_abs s))(t \<mapsto> (ns, sq @ toks))\<rparr> = kv_abs s'"
    unfolding s'_def by (rule kv_abs_extended [OF nst sq, symmetric])
  have "st_resident (kv_stats s') = st_resident (kv_stats s) + c" by (simp add: s'_def extended_def)
  then have resident: "int (card (stored (kv_abs s'))) = st_resident (kv_stats s) + c"
    using ext(2) card_stored(2) [OF ext(1)] by (simp add: ledger_def)
  have ns_tokens: "int (card (stored_in ns (kv_abs s'))) = tok_count r + c"
    using card_stored_in(2) [OF ext(3)] ext(4) by simp
  have "sp_trees (kv_abs s) t = Some (ns, sq)" using nst sq by (simp add: kv_abs_tree)
  then show ?thesis
    unfolding spec_extend_def run Let_def c_def [symmetric] ns_def [symmetric] g_def [symmetric]
      s'_def [symmetric]
    by (simp add: A' resident ns_tokens resident_stored [OF inv, symmetric])
qed

lemma walked_spec_match:
  assumes "ns_ok s ns r" "walked r toks r' path m"
  shows "spec_match ns toks (kv_abs s) = m"
proof -
  have wf: "wf_node r" using assms(1) by (simp add: ns_ok_def)
  have "length ` {p. prefix p toks \<and> (p = [] \<or> p \<in> stored_in ns (kv_abs s))} = {0..m}" (is "_ ` ?P = _")
  proof (intro set_eqI iffI)
    fix j assume "j \<in> length ` ?P"
    then obtain p where "prefix p toks" "p = [] \<or> owners_at r p \<noteq> None" "j = length p"
      using stored_in_dom [OF assms(1)] by auto
    then show "j \<in> {0..m}"
      using walked_cached [OF assms(2) wf, of p] by (cases "p = []") simp_all
  next
    fix j assume j: "j \<in> {0..m}"
    then have len: "length (take j toks) = j" using walked_le [OF assms(2)] by simp
    moreover have "take j toks = [] \<or> owners_at r (take j toks) \<noteq> None"
      using j walked_cached [OF assms(2) wf _ take_is_prefix, of j]
      unfolding len by (cases "take j toks = []") (simp_all del: take_eq_Nil)
    then have "take j toks \<in> ?P"
      using stored_in_dom [OF assms(1)] by (simp add: take_is_prefix domIff)
    ultimately show "j \<in> length ` ?P" by (simp only: rev_image_eqI)
  qed
  moreover have "Max {0..m} = m" by (rule Max_eqI) auto
  ultimately show ?thesis by (simp add: spec_match_def)
qed

lemma walk_ns_match:
  assumes inv: "cache_inv s" and r: "dget (kv_root s) ns = Some r"
    and w: "walk_ns clk ns r toks s = (path, m, s')"
  shows "m = spec_match ns toks (kv_abs s)" "kv_abs s' = kv_abs s"
    "keys (kv_root s') = keys (kv_root s)"
proof -
  have ok: "ns_ok s ns r" using inv r by (simp add: cache_inv_def cache_wf_ok)
  obtain r' i where wd: "walked r toks r' path m" and "ns_ok s ns r'"
      and s': "s' = s\<lparr>kv_root := dset ns r' (kv_root s), kv_reads := i\<rparr>"
    by (rule walk_ns_run [OF inv r w])
  show "m = spec_match ns toks (kv_abs s)" "kv_abs s' = kv_abs s" "keys (kv_root s') = keys (kv_root s)"
    using walked_spec_match [OF ok wd] dget_Some_keys [OF r] by (simp_all add: s' insert_absorb)
qed

lemma match_tree_prefix_refines:
  assumes inv: "cache_inv s"
  shows "map_prod id kv_abs (match_tree_prefix clk t toks s) =
    ((case sp_trees (kv_abs s) t of
        None \<Rightarrow> Inl (KeyError t) | Some (ns, _) \<Rightarrow> Inr (spec_match ns toks (kv_abs s))), kv_abs s)"
proof (cases "dget (kv_trees s) t")
  case None
  then show ?thesis by (simp add: match_tree_prefix_def kv_abs_def)
next
  case (Some tid)
  then have ns: "ns_of s t = Some (tid_namespace tid)" by (simp add: ns_of_def)
  obtain sq r where sq: "dget (kv_seqs s) t = Some sq" and r: "dget (kv_root s) (tid_namespace tid) = Some r"
    using cache_wf_tree [OF _ ns] inv unfolding cache_inv_def by blast
  have "sp_trees (kv_abs s) t = Some (tid_namespace tid, sq)" using ns sq by (simp add: kv_abs_tree)
  then show ?thesis
    using Some r walk_ns_match [OF inv r] by (auto simp: match_tree_prefix_def split: prod.split)
qed

lemma fold_max_le: "(j::nat) \<le> fold max xs b \<longleftrightarrow> j \<le> b \<or> (\<exists>x \<in> set xs. j \<le> x)"
  by (induction xs arbitrary: b) (simp_all add: le_max_iff_disj disj_commute disj_left_commute)

lemma match_prefix_loop_spec:
  "cache_inv s \<Longrightarrow> set nss \<subseteq> keys (kv_root s) \<Longrightarrow>
   fst (match_prefix_loop clk toks nss best s)
     = fold max (map (\<lambda>ns. spec_match ns toks (kv_abs s)) nss) best \<and>
   kv_abs (snd (match_prefix_loop clk toks nss best s)) = kv_abs s"
proof (induction nss arbitrary: best s)
  case (Cons ns nss)
  have "ns \<in> keys (kv_root s)" using Cons.prems(2) by simp
  then obtain r where r: "dget (kv_root s) ns = Some r" by (rule keys_dgetE)
  obtain path m s' where w: "walk_ns clk ns r toks s = (path, m, s')" by (metis prod_cases3)
  note wm = walk_ns_match [OF Cons.prems(1) r w]
  show ?case
    using Cons.IH [OF walk_ns_inv [OF Cons.prems(1) r w]] Cons.prems(2) wm
    by (simp add: r w max.commute)
qed simp

definition spec_match_any :: "int list \<Rightarrow> kv_spec \<Rightarrow> nat" where
  "spec_match_any toks A = Max (length ` {p. prefix p toks \<and> (p = [] \<or> (\<exists>ns. (ns, p) \<in> stored A))})"

lemma length_prefixes_bounded: "finite (length ` {p. prefix p toks \<and> P p})"
  by (rule finite_subset [of _ "{0..length toks}"]) (auto dest: prefix_length_le)

lemma spec_match_any_ge:
  "j \<le> spec_match_any toks A \<longleftrightarrow> j = 0 \<or> (\<exists>ns. j \<le> spec_match ns toks A)"
proof -
  have ge: "j \<le> Max (length ` {p. prefix p toks \<and> (p = [] \<or> P p)}) \<longleftrightarrow>
      j = 0 \<or> (\<exists>p. prefix p toks \<and> P p \<and> j \<le> length p)" for P and j :: nat
    by (subst Max_ge_iff [OF length_prefixes_bounded]) (auto intro: exI [of _ "[]"])
  show ?thesis
    unfolding spec_match_any_def spec_match_def ge by (auto simp: stored_in_def)
qed

lemma match_prefix_refines:
  assumes inv: "cache_inv s"
  shows "map_prod id kv_abs (match_prefix clk toks s) = (Inr (spec_match_any toks (kv_abs s)), kv_abs s)"
proof -
  have wf: "cache_wf s" using inv by (simp add: cache_inv_def)
  have outside: "spec_match ns toks (kv_abs s) = 0" if ns: "ns \<notin> keys (kv_root s)" for ns
  proof -
    have "stored_in ns (kv_abs s) = {}"
      using ns cache_wf_ns [OF wf, of ns] by (auto simp: stored_in_def stored_holders holders_def)
    then have "{p. prefix p toks \<and> (p = [] \<or> p \<in> stored_in ns (kv_abs s))} = {[]}" by auto
    then show ?thesis by (simp add: spec_match_def)
  qed
  have "j \<le> fold max (map (\<lambda>ns. spec_match ns toks (kv_abs s)) (map fst (kv_root s))) 0
      \<longleftrightarrow> j \<le> spec_match_any toks (kv_abs s)" for j
    unfolding fold_max_le spec_match_any_ge using outside by (force simp: image_iff)
  then have "fold max (map (\<lambda>ns. spec_match ns toks (kv_abs s)) (map fst (kv_root s))) 0
      = spec_match_any toks (kv_abs s)"
    by (meson order_refl order_antisym)
  then show ?thesis
    using match_prefix_loop_spec [OF inv, of "map fst (kv_root s)" clk toks 0]
    by (simp add: match_prefix_def case_prod_unfold)
qed

end
