(* ===== verification/Tree_Cache_Props.thy ===== *)
theory Tree_Cache_Props
  imports Tree_Cache_Spec
begin

text \<open>
  The properties of \<open>TreeKVCache\<close> over its reachable states: the counters, the sharing done by
  \<open>fork_branch\<close>, what \<open>kill\<close> frees and \<open>extend\<close> charges, the limits, and the one sequence of
  calls that breaks the accounting.
\<close>

section \<open>Facts of reachable caches\<close>

lemma match_prefix_loop_limits:
  "kv_capacity (snd (match_prefix_loop clk toks nss best s)) = kv_capacity s \<and>
   kv_budget (snd (match_prefix_loop clk toks nss best s)) = kv_budget s"
  by (induction clk toks nss best s rule: match_prefix_loop.induct)
    (auto simp: walk_ns_def set_root_def split: option.split prod.split)

lemma extend_limits:
  assumes inv: "cache_inv s"
  shows "kv_capacity (snd (extend_kv clk t toks s)) = kv_capacity s \<and>
    kv_budget (snd (extend_kv clk t toks s)) = kv_budget s"
proof (cases "dget (kv_trees s) t")
  case None
  then show ?thesis by (simp add: extend_kv_def)
next
  case (Some tid)
  then have ns: "ns_of s t = Some (tid_namespace tid)" by (simp add: ns_of_def)
  obtain sq r where "dget (kv_seqs s) t = Some sq" "dget (kv_root s) (tid_namespace tid) = Some r"
    using cache_wf_tree [OF _ ns] inv unfolding cache_inv_def by blast
  then show ?thesis
    by (rule_tac extend_run [OF inv Some, where clk = clk and toks = toks])
      (auto simp: Let_def extended_def)
qed

lemma kv_exec_limits:
  assumes "cache_inv s"
  shows "kv_capacity (kv_exec clk op s) = kv_capacity s \<and> kv_budget (kv_exec clk op s) = kv_budget s"
proof (cases op)
  case (MatchPrefix toks)
  then show ?thesis
    using match_prefix_loop_limits by (simp add: match_prefix_def case_prod_unfold Let_def)
next
  case (Extend t toks)
  then show ?thesis using extend_limits [OF assms] by simp
qed (auto simp: create_tree_def fork_branch_def kill_def match_tree_prefix_def walk_ns_def set_root_def
    Let_def split: option.split prod.split)

lemma kv_reach_limits: "kv_reach no_recreate clk cap bud s \<Longrightarrow> kv_capacity s = cap \<and> kv_budget s = bud"
proof (induction rule: kv_reach.induct)
  case (init s)
  then show ?case by (auto simp: kv_init_def split: if_splits)
next
  case (step s op)
  then show ?case using kv_exec_limits [OF kv_reach_inv, of clk cap bud s] by simp
qed

text \<open>Every stored prefix belongs to a live tree, so sharing never stores more than copying would.\<close>

lemma card_prefixes: "card {p. p \<noteq> [] \<and> prefix p sq} = length sq"
proof -
  have "{p. p \<noteq> [] \<and> prefix p sq} = set (prefixes sq) - {[]}" by auto
  then show ?thesis by (simp add: distinct_card distinct_prefixes)
qed

lemma card_UN_list: "card (\<Union>x \<in> set xs. F x) \<le> sum_list (map (\<lambda>x. card (F x)) xs)"
  by (induction xs) (auto intro: order_trans [OF card_Un_le])

lemma resident_le_logical:
  assumes "cache_inv s"
  shows "st_resident (kv_stats s) \<le> st_logical (kv_stats s)"
proof -
  have wf: "cache_wf s" using assms by (simp add: cache_inv_def)
  let ?F = "\<lambda>x. Pair (the (ns_of s (fst x))) ` {p. p \<noteq> [] \<and> prefix p (snd x)}"
  have sub: "stored (kv_abs s) \<subseteq> (\<Union>x \<in> set (kv_seqs s). ?F x)"
  proof
    fix x assume "x \<in> stored (kv_abs s)"
    then obtain ns p t sq where "x = (ns, p)" "p \<noteq> []" "ns_of s t = Some ns"
        "dget (kv_seqs s) t = Some sq" "prefix p sq"
      by (auto simp: stored_def kv_abs_tree)
    then show "x \<in> (\<Union>x \<in> set (kv_seqs s). ?F x)"
      by (intro UN_I [of "(t, sq)"]) (auto simp: map_of_SomeD)
  qed
  have "finite {p. p \<noteq> [] \<and> prefix p sq}" for sq :: "int list"
    by (rule finite_subset [of _ "set (prefixes sq)"]) auto
  then have "card (stored (kv_abs s)) \<le> card (\<Union>x \<in> set (kv_seqs s). ?F x)"
    by (intro card_mono [OF _ sub]) simp
  also have "\<dots> \<le> sum_list (map (\<lambda>x. card (?F x)) (kv_seqs s))" by (rule card_UN_list)
  also have "\<dots> = sum_list (map (\<lambda>x. length (snd x)) (kv_seqs s))"
    by (simp add: card_image inj_on_def card_prefixes)
  finally have "int (card (stored (kv_abs s))) \<le> int (sum_list (map (\<lambda>x. length (snd x)) (kv_seqs s)))"
    by simp
  also have "\<dots> = dsum (\<lambda>sq. int (length sq)) (kv_seqs s)"
    by (simp add: dsum_def comp_def int_sum_list)
  finally show ?thesis
    using resident_stored [OF assms] assms by (simp add: cache_inv_def ledger_def)
qed

text \<open>The tokens that only \<open>t\<close> holds: what a kill of \<open>t\<close> can free.\<close>

definition held_alone :: "string \<Rightarrow> kv_spec \<Rightarrow> (string \<times> int list) set" where
  "held_alone t A = {(ns, p) \<in> stored A. \<forall>u sq. sp_trees A u = Some (ns, sq) \<and> prefix p sq \<longrightarrow> u = t}"

lemma stored_without:
  "stored (A\<lparr>sp_trees := (sp_trees A)(t := None)\<rparr>) = stored A - held_alone t A"
  unfolding stored_def held_alone_def by (auto split: if_splits)

lemma kill_freed:
  assumes "cache_inv s"
  shows "fst (kill t s) = Inr (int (card (held_alone t (kv_abs s))))"
    and "kv_abs (snd (kill t s)) = kv_abs s\<lparr>sp_trees := (sp_trees (kv_abs s))(t := None)\<rparr>"
proof -
  have fin: "finite (stored (kv_abs s))" using assms card_stored(1) by (simp add: cache_inv_def)
  have sub: "held_alone t (kv_abs s) \<subseteq> stored (kv_abs s)" by (auto simp: held_alone_def)
  then have "card (held_alone t (kv_abs s)) \<le> card (stored (kv_abs s))" using fin by (rule_tac card_mono)
  then have "int (card (stored (kv_abs s) - held_alone t (kv_abs s)))
      = int (card (stored (kv_abs s))) - int (card (held_alone t (kv_abs s)))"
    using card_Diff_subset [OF finite_subset [OF sub fin] sub] by simp
  with kill_refines [OF assms, of t]
  show "fst (kill t s) = Inr (int (card (held_alone t (kv_abs s))))"
    and "kv_abs (snd (kill t s)) = kv_abs s\<lparr>sp_trees := (sp_trees (kv_abs s))(t := None)\<rparr>"
    by (simp_all add: prod_eq_iff spec_kill_def Let_def stored_without)
qed

lemma kill_trees: "cache_inv s \<Longrightarrow> keys (kv_trees (snd (kill t s))) = keys (kv_trees s) - {t}"
  using kv_abs_dom [of s] kv_abs_dom [of "snd (kill t s)"] kill_freed(2) [of s t] kill_inv [of s t]
  by (simp add: cache_inv_def)

lemma kill_list:
  "cache_inv s \<Longrightarrow> cache_inv (fold (\<lambda>t s. snd (kill t s)) ts s) \<and>
   keys (kv_trees (fold (\<lambda>t s. snd (kill t s)) ts s)) = keys (kv_trees s) - set ts"
proof (induction ts arbitrary: s)
  case (Cons t ts)
  then show ?case using kill_inv [OF Cons.prems, of t] kill_trees [OF Cons.prems, of t] by auto
qed simp

lemma no_trees_empty:
  assumes "cache_inv s" "kv_trees s = []"
  shows "kv_root s = []" "st_resident (kv_stats s) = 0" "st_logical (kv_stats s) = 0"
proof -
  have wf: "cache_wf s" and led: "ledger s" using assms(1) by (auto simp: cache_inv_def)
  show root: "kv_root s = []" using cache_wf_ns [OF wf] assms(2) by (fastforce simp: ns_of_def)
  have "kv_seqs s = []" using cache_wf_dicts(4) [OF wf] assms(2) by simp
  with led root show "st_resident (kv_stats s) = 0" "st_logical (kv_stats s) = 0"
    by (auto simp: ledger_def)
qed

section \<open>A sample run\<close>

text \<open>A run of calls, each allowed by \<open>no_recreate\<close>.\<close>

fun kv_run :: "(nat \<Rightarrow> real) \<Rightarrow> kv_op list \<Rightarrow> kv_cache \<Rightarrow> kv_cache option" where
  "kv_run clk [] s = Some s"
| "kv_run clk (op # ops) s = (if no_recreate op s then kv_run clk ops (kv_exec clk op s) else None)"

lemma kv_run_reach: "kv_reach no_recreate clk cap bud s \<Longrightarrow> kv_run clk ops s = Some s' \<Longrightarrow> kv_reach no_recreate clk cap bud s'"
  by (induction ops arbitrary: s) (auto split: if_splits dest: kv_reach.step)

definition sample_ops :: "kv_op list" where
  "sample_ops = [CreateTree ''a'', Extend ''a'' [1, 2, 3, 4], ForkBranch ''a'' None,
     Extend ''a/1'' [5, 6], Extend ''a'' [7], CreateTree ''b'', Extend ''b'' [1, 2]]"

definition sample_cache :: kv_cache where
  "sample_cache = the (kv_run real sample_ops (projr (kv_init 100 (Some 20))))"

lemma sample_reach: "kv_reach no_recreate real 100 (Some 20) sample_cache"
proof -
  have "kv_init 100 (Some 20) = Inr (projr (kv_init 100 (Some 20)))" by (simp add: kv_init_def)
  moreover have "kv_run real sample_ops (projr (kv_init 100 (Some 20))) \<noteq> None" by code_simp
  then have "kv_run real sample_ops (projr (kv_init 100 (Some 20))) = Some sample_cache"
    by (simp add: sample_cache_def)
  ultimately show ?thesis using kv_run_reach kv_reach.init by metis
qed

section \<open>Properties\<close>

text \<open>
  C5: In every cache reachable without creating a killed root again while its forks live
  (\<open>no_recreate\<close>; \<open>create_tree_leak\<close> shows what happens otherwise), the radix tree of each namespace is well formed and holds exactly
  the prefixes of the live trees' sequences with exactly their owners, the counters equal what
  the tree stores, and the capacity and the per-tree budget are respected.
\<close>

theorem cache_invariant: "kv_reach no_recreate clk cap bud s \<Longrightarrow> cache_inv s"
  by (rule kv_reach_inv)

theorem cache_invariant_witness: "kv_reach no_recreate real 100 (Some 20) sample_cache \<and> cache_inv sample_cache"
  using cache_invariant [OF sample_reach] sample_reach by simp

text \<open>
  \<open>resident_tokens()\<close> is the number of distinct pairs of a namespace and a non-empty prefix
  of a live tree's sequence in it: shared prefixes are stored once, nothing dead is stored.
\<close>

theorem resident_tokens_exact:
  "kv_reach no_recreate clk cap bud s \<Longrightarrow> resident_tokens s = int (card (stored (kv_abs s)))"
  using resident_stored [OF kv_reach_inv] by (simp add: resident_tokens_def)

theorem resident_tokens_exact_witness:
  "kv_reach no_recreate real 100 (Some 20) sample_cache \<and> int (card (stored (kv_abs sample_cache))) = 9"
proof -
  have "resident_tokens sample_cache = 9" by code_simp
  then show ?thesis using resident_tokens_exact [OF sample_reach] sample_reach by simp
qed

text \<open>
  C6: In every cache reachable under \<open>no_recreate\<close>, \<open>extend\<close> of a tree by some tokens returns the number of prefixes of the new sequence that
  were not stored in the namespace before, raises \<open>KeyError\<close> for an unknown tree, and raises
  \<open>MemoryError\<close> exactly when the namespace would exceed the budget or the cache its capacity,
  leaving every tree's sequence as it was.
\<close>

theorem extend_refines_spec:
  "kv_reach no_recreate clk cap bud s \<Longrightarrow>
   map_prod id kv_abs (extend_kv clk t toks s) = spec_extend cap bud t toks (kv_abs s)"
  using extend_refines [OF kv_reach_inv] kv_reach_limits by metis

theorem extend_refines_spec_witness:
  "kv_reach no_recreate real 100 (Some 20) sample_cache \<and>
   fst (spec_extend 100 (Some 20) ''a/1'' [9, 9] (kv_abs sample_cache)) = Inr 2 \<and>
   fst (spec_extend 100 (Some 20) ''b'' (replicate 19 3) (kv_abs sample_cache)) = Inl MemoryError"
proof -
  have "fst (extend_kv real ''a/1'' [9, 9] sample_cache) = Inr 2"
    "fst (extend_kv real ''b'' (replicate 19 3) sample_cache) = Inl MemoryError"
    by code_simp+
  moreover have "fst (spec_extend 100 (Some 20) t toks (kv_abs sample_cache))
      = fst (extend_kv real t toks sample_cache)" for t toks
    unfolding extend_refines_spec [OF sample_reach, symmetric] by simp
  ultimately show ?thesis using sample_reach by simp
qed

text \<open>
  C7: In every cache reachable under \<open>no_recreate\<close> (no killed root created again while its forks
  live), \<open>kill\<close> returns exactly the number of stored prefixes that no other live tree holds, and
  removes its tree and no other; killing an unknown id frees nothing.
\<close>

theorem kill_frees_unshared:
  "kv_reach no_recreate clk cap bud s \<Longrightarrow>
   fst (kill t s) = Inr (int (card (held_alone t (kv_abs s)))) \<and>
   kv_abs (snd (kill t s)) = kv_abs s\<lparr>sp_trees := (sp_trees (kv_abs s))(t := None)\<rparr> \<and>
   stored (kv_abs (snd (kill t s))) = stored (kv_abs s) - held_alone t (kv_abs s)"
  using kill_freed [OF kv_reach_inv] by (metis stored_without)

theorem kill_frees_unshared_witness:
  "kv_reach no_recreate real 100 (Some 20) sample_cache \<and> int (card (held_alone ''a/1'' (kv_abs sample_cache))) = 2"
proof -
  have "fst (kill ''a/1'' sample_cache) = Inr 2" by code_simp
  then show ?thesis using kill_frees_unshared [OF sample_reach, of "''a/1''"] sample_reach by simp
qed

text \<open>
  C8: In every cache reachable under \<open>no_recreate\<close>, \<open>fork_branch\<close> of a live tree under a fresh id is zero copy: the child has its parent's
  namespace and sequence, nothing is charged and nothing more is resident, the whole sequence
  is counted as saved, and every other tree is as before.
\<close>

theorem fork_branch_zero_copy:
  assumes "kv_reach no_recreate clk cap bud s" "sp_trees (kv_abs s) parent = Some (ns, sq)"
    and "sp_trees (kv_abs s) (child_name parent child (kv_next_seq s)) = None"
  shows "let c = child_name parent child (kv_next_seq s); s' = snd (fork_branch parent child s) in
    map_sum id tid_tree_id (fst (fork_branch parent child s)) = Inr c \<and>
    sp_trees (kv_abs s') = (sp_trees (kv_abs s))(c \<mapsto> (ns, sq)) \<and>
    resident_tokens s' = resident_tokens s \<and>
    st_charged (kv_stats s') = st_charged (kv_stats s) \<and>
    st_saved (kv_stats s') = st_saved (kv_stats s) + int (length sq)"
proof -
  have inv: "cache_inv s" using assms(1) by (rule kv_reach_inv)
  then have wf: "cache_wf s" by (simp add: cache_inv_def)
  define c where "c = child_name parent child (kv_next_seq s)"
  have fresh: "c \<notin> keys (kv_trees s)" using assms(3) kv_abs_None [OF wf] by (simp add: c_def)
  obtain ptid where ptid: "dget (kv_trees s) parent = Some ptid"
    and sq: "dget (kv_seqs s) parent = Some sq"
    using assms(2) by (auto simp: kv_abs_tree ns_of_Some)
  have abs: "map_prod (map_sum id tid_tree_id) kv_abs (fork_branch parent child s)
      = spec_fork parent child (kv_abs s)"
    by (rule fork_branch_refines [OF inv])
  have "child_name parent child (sp_seq (kv_abs s)) = c" by (simp add: c_def kv_abs_def)
  then have spec: "map_sum id tid_tree_id (fst (fork_branch parent child s)) = Inr c"
      "sp_trees (kv_abs (snd (fork_branch parent child s))) = (sp_trees (kv_abs s))(c \<mapsto> (ns, sq))"
    using abs assms(2,3) by (auto simp: spec_fork_def Let_def prod_eq_iff c_def)
  show ?thesis
    using sq spec unfolding c_def [symmetric]
    by (rule_tac fork_branch_ok [OF wf ptid c_def fresh]) (simp add: Let_def resident_tokens_def)
qed

theorem fork_branch_zero_copy_witness:
  "kv_reach no_recreate real 100 (Some 20) sample_cache \<and>
   resident_tokens (snd (fork_branch ''a/1'' None sample_cache)) = 9 \<and>
   sp_trees (kv_abs (snd (fork_branch ''a/1'' None sample_cache))) ''a/1/2''
     = Some (''a'', [1, 2, 3, 4, 5, 6])"
proof -
  have "sp_trees (kv_abs sample_cache) ''a/1'' = Some (''a'', [1, 2, 3, 4, 5, 6])"
      "sp_trees (kv_abs sample_cache) (child_name ''a/1'' None (kv_next_seq sample_cache)) = None"
      "resident_tokens sample_cache = 9" "child_name ''a/1'' None (kv_next_seq sample_cache) = ''a/1/2''"
    by code_simp+
  then show ?thesis
    using fork_branch_zero_copy [OF sample_reach, of "''a/1''" _ _ None] sample_reach
    by (simp add: Let_def)
qed

text \<open>
  \<open>match_tree_prefix\<close> returns the length of the longest prefix of the query stored in the
  tree's namespace and \<open>match_prefix\<close> the longest over all namespaces; splitting nodes and
  touching them on the way changes no tree.
\<close>

theorem match_prefix_longest:
  assumes "kv_reach no_recreate clk cap bud s"
  shows "map_prod id kv_abs (match_tree_prefix clk t toks s) =
      ((case sp_trees (kv_abs s) t of
          None \<Rightarrow> Inl (KeyError t) | Some (ns, _) \<Rightarrow> Inr (spec_match ns toks (kv_abs s))), kv_abs s) \<and>
    map_prod id kv_abs (match_prefix clk toks s) = (Inr (spec_match_any toks (kv_abs s)), kv_abs s)"
  using match_tree_prefix_refines [OF kv_reach_inv [OF assms]] match_prefix_refines [OF kv_reach_inv [OF assms]]
  by blast

theorem match_prefix_longest_witness:
  "kv_reach no_recreate real 100 (Some 20) sample_cache \<and>
   spec_match ''b'' [1, 2, 3] (kv_abs sample_cache) = 2 \<and> spec_match_any [1, 2, 3] (kv_abs sample_cache) = 3"
proof -
  have "fst (match_tree_prefix real ''b'' [1, 2, 3] sample_cache) = Inr 2"
      "fst (match_prefix real [1, 2, 3] sample_cache) = Inr 3"
      "map_option fst (sp_trees (kv_abs sample_cache) ''b'') = Some ''b''"
    by code_simp+
  then show ?thesis
    using match_prefix_longest [OF sample_reach, of "''b''" "[1, 2, 3]"] sample_reach
    by (auto simp: prod_eq_iff split: option.splits)
qed

text \<open>
  In a reachable cache every node is referenced by a live tree, so \<open>_maybe_evict\<close> never
  evicts: it returns without a change when the tokens fit and raises \<open>MemoryError\<close> otherwise,
  and \<open>evicted_tokens\<close> stays 0.
\<close>

theorem eviction_never_happens:
  assumes "kv_reach no_recreate clk cap bud s"
  shows "maybe_evict need s =
      ((if resident_tokens s + need \<le> cap then Inr () else Inl MemoryError), s) \<and>
    st_evicted (kv_stats s) = 0"
proof -
  have inv: "cache_inv s" using assms by (rule kv_reach_inv)
  then have "maybe_evict need s =
      (if st_resident (kv_stats s) + need \<le> cap then (Inr (), s) else (Inl MemoryError, s))"
    using maybe_evict_wf [of s need] kv_reach_limits [OF assms] by (simp add: cache_inv_def)
  then show ?thesis using inv by (simp add: resident_tokens_def cache_inv_def ledger_def)
qed

theorem eviction_never_happens_witness:
  "kv_reach no_recreate real 100 (Some 20) sample_cache \<and> fst (maybe_evict 92 sample_cache) = Inl MemoryError"
proof -
  have "resident_tokens sample_cache = 9" by code_simp
  then show ?thesis using eviction_never_happens [OF sample_reach, of 92] sample_reach by simp
qed

text \<open>
  Sharing never costs more than copying: \<open>resident_tokens \<le> logical_tokens\<close> and the
  \<open>dedup_ratio\<close> of a reachable cache is at least 1.
\<close>

theorem dedup_ratio_at_least_one:
  assumes "kv_reach no_recreate clk cap bud s"
  shows "0 \<le> resident_tokens s \<and> resident_tokens s \<le> st_logical (kv_stats s) \<and>
    1 \<le> dedup_ratio (kv_stats s)"
proof -
  have inv: "cache_inv s" using assms by (rule kv_reach_inv)
  have "0 \<le> st_resident (kv_stats s)" using resident_stored [OF inv] by simp
  with resident_le_logical [OF inv] show ?thesis
    by (simp add: resident_tokens_def dedup_ratio_def le_divide_eq)
qed

theorem dedup_ratio_at_least_one_witness:
  "kv_reach no_recreate real 100 (Some 20) sample_cache \<and> 1 \<le> dedup_ratio (kv_stats sample_cache)"
  using dedup_ratio_at_least_one [OF sample_reach] sample_reach by simp

text \<open>
  Killing every live tree, in any order, empties the cache: no namespace is left and no
  token is resident.
\<close>

theorem kill_all_empties:
  assumes "kv_reach no_recreate clk cap bud s" "keys (kv_trees s) \<subseteq> set ts"
  shows "let s' = fold (\<lambda>t s. snd (kill t s)) ts s in
    kv_trees s' = [] \<and> kv_root s' = [] \<and> resident_tokens s' = 0"
proof -
  have *: "cache_inv (fold (\<lambda>t s. snd (kill t s)) ts s)"
      "kv_trees (fold (\<lambda>t s. snd (kill t s)) ts s) = []"
    using kill_list [OF kv_reach_inv [OF assms(1)], of ts] assms(2)
    by (simp_all add: Diff_eq_empty_iff [THEN iffD2])
  show ?thesis using no_trees_empty [OF *] *(2) by (simp add: Let_def resident_tokens_def)
qed

theorem kill_all_empties_witness:
  "kv_reach no_recreate real 100 (Some 20) sample_cache \<and>
   kv_root (fold (\<lambda>t s. snd (kill t s)) [''b'', ''a'', ''a/1''] sample_cache) = []"
proof -
  have "list_all (\<lambda>x. x \<in> set [''b'', ''a'', ''a/1'']) (map fst (kv_trees sample_cache))" by code_simp
  then have "keys (kv_trees sample_cache) \<subseteq> set [''b'', ''a'', ''a/1'']"
    by (auto simp: list_all_iff)
  then show ?thesis
    using kill_all_empties [OF sample_reach, of "[''b'', ''a'', ''a/1'']"] sample_reach
    by (simp add: Let_def)
qed

section \<open>Re-creating a killed root\<close>

text \<open>
  \<open>create_tree\<close> checks that its id is not a live tree, not that its namespace is unused: a root
  may be killed and created again while its forks live.  The assignment
  \<open>self.root.children[tree_id] = _Node(...)\<close> then drops the forks' radix tree.
\<close>

definition leak_ops :: "kv_op list" where
  "leak_ops = [CreateTree ''a'', Extend ''a'' [1, 2, 3, 4], ForkBranch ''a'' None,
     Extend ''a/1'' [5, 6], Kill ''a'', CreateTree ''a'', Kill ''a/1'', Kill ''a'']"

definition leaked_cache :: kv_cache where
  "leaked_cache = fold (kv_exec real) leak_ops (projr (kv_init 100 None))"

text \<open>
  After creating a root, extending it, forking it, extending the fork, killing the root and
  creating it again, killing both trees leaves no tree and no namespace, but six tokens are
  still counted as resident: the condition \<open>no_recreate\<close> is needed.
\<close>

theorem create_tree_leak:
  "kv_trees leaked_cache = [] \<and> kv_root leaked_cache = [] \<and> resident_tokens leaked_cache = 6"
  by code_simp

end
