(* ===== verification/Backends.thy ===== *)
theory Backends
  imports Procs Registry Tree_Cache_Props
begin

text \<open>
  The two protocols of \<open>orchestrator.py\<close>, \<open>KVBackend\<close> and \<open>SandboxBackend\<close>: a backend is a
  record of its methods over a state type of its own.  Methods the orchestrator looks up with
  \<open>getattr\<close> are optional fields.  The locales state what the protocols promise; \<open>TreeKVCache\<close>
  and \<open>NullSandbox\<close> are shown to keep the promises.
\<close>

section \<open>Protocols\<close>

record 'k kv_backend =
  kb_create :: "string \<Rightarrow> ('k, unit) proc"
  kb_fork :: "string \<Rightarrow> string \<Rightarrow> ('k, unit) proc"
  kb_kill :: "string \<Rightarrow> ('k, int) proc"
  kb_extend :: "string \<Rightarrow> int list \<Rightarrow> ('k, int) proc"
  kb_external :: bool
  kb_generate :: "(string \<Rightarrow> json \<Rightarrow> json \<Rightarrow> bool \<Rightarrow> int option \<Rightarrow> ('k, json) proc) option"
  kb_has_tree :: "(string \<Rightarrow> ('k, bool) proc) option"

record 'b sandbox_backend =
  sb_spawn :: "string \<Rightarrow> string option \<Rightarrow> ('b, unit) proc"
  sb_kill :: "string \<Rightarrow> ('b, unit) proc"
  sb_alive :: "string \<Rightarrow> ('b, bool) proc"
  sb_wait_ready :: "(string \<Rightarrow> ('b, unit) proc) option"
  sb_exec :: "(string \<Rightarrow> string list \<Rightarrow> real option \<Rightarrow> string option \<Rightarrow> ('b, json) proc) option"
  sb_exec_detached :: "(string \<Rightarrow> string list \<Rightarrow> ('b, json) proc) option"
  sb_export :: "(string \<Rightarrow> string \<Rightarrow> string \<Rightarrow> ('b, json) proc) option"
  sb_sweep_dead :: "('b, string list) proc option"
  sb_restart :: "(string \<Rightarrow> ('b, bool) proc) option"

section \<open>Contracts\<close>

text \<open>
  What the orchestrator relies on of a KV backend.  \<open>trees\<close> are the branch ids the backend holds
  resources for and \<open>kinv\<close> is its own invariant.  A failed \<open>create_tree\<close> or \<open>fork_branch\<close> may
  leave the new tree behind but touches no other; a \<open>kill\<close> that returns has removed its tree,
  also when there was none.  A \<open>generate\<close> may make the tree of its branch anew, or
  release it when it ends the branch.  The laws of \<open>fork_branch\<close> are for a non-empty child id:
  \<open>TreeKVCache\<close> replaces an empty one by an id of its own.
\<close>

definition touches_only :: "string \<Rightarrow> string set \<Rightarrow> string set \<Rightarrow> bool" where
  "touches_only t A B \<longleftrightarrow> A - {t} \<subseteq> B \<and> B \<subseteq> insert t A"

lemma touches_only_cases: "touches_only t A B \<longleftrightarrow> B = insert t A \<or> B = A - {t} \<or> B = A"
  by (auto simp: touches_only_def)

lemma touches_only_simps [simp]:
  "touches_only t A A" "touches_only t A (insert t A)" "touches_only t A (A - {t})"
  by (auto simp: touches_only_def)

locale kv_contract =
  fixes B :: "'k kv_backend" and trees :: "'k \<Rightarrow> string set" and kinv :: "'k \<Rightarrow> bool"
  assumes kv_inv_create: "kinv k \<Longrightarrow> kinv (snd (kb_create B t k))"
    and kv_inv_fork: "kinv k \<Longrightarrow> kinv (snd (kb_fork B p t k))"
    and kv_inv_kill: "kinv k \<Longrightarrow> kinv (snd (kb_kill B t k))"
    and kv_inv_extend: "kinv k \<Longrightarrow> kinv (snd (kb_extend B t toks k))"
    and kv_create_touches: "kinv k \<Longrightarrow> touches_only t (trees k) (trees (snd (kb_create B t k)))"
    and kv_create_made: "kinv k \<Longrightarrow> kb_create B t k = (Inr x, k') \<Longrightarrow> t \<in> trees k'"
    and kv_fork_touches: "kinv k \<Longrightarrow> t \<noteq> [] \<Longrightarrow> touches_only t (trees k) (trees (snd (kb_fork B p t k)))"
    and kv_fork_made: "kinv k \<Longrightarrow> t \<noteq> [] \<Longrightarrow> kb_fork B p t k = (Inr x, k') \<Longrightarrow> t \<in> trees k'"
    and kv_kill_touches: "kinv k \<Longrightarrow> touches_only t (trees k) (trees (snd (kb_kill B t k)))"
    and kv_kill_gone: "kinv k \<Longrightarrow> kb_kill B t k = (Inr n, k') \<Longrightarrow> t \<notin> trees k'"
    and kv_extend_same: "kinv k \<Longrightarrow> trees (snd (kb_extend B t toks k)) = trees k"
    and kv_generate_same: "kinv k \<Longrightarrow> kb_generate B = Some g \<Longrightarrow>
          kinv (snd (g t prompt params fin rsv k)) \<and>
          trees k - (if fin then {t} else {}) \<subseteq> trees (snd (g t prompt params fin rsv k)) \<and>
          trees (snd (g t prompt params fin rsv k)) \<subseteq> insert t (trees k)"
    and kv_has_tree_same: "kinv k \<Longrightarrow> kb_has_tree B = Some h \<Longrightarrow>
          kinv (snd (h t k)) \<and> trees (snd (h t k)) = trees k"

text \<open>A KV backend whose \<open>kill\<close> never raises.\<close>

locale reliable_kv = kv_contract +
  assumes kv_kill_returns: "kinv k \<Longrightarrow> \<exists>n k'. kb_kill B t k = (Inr n, k')"

text \<open>
  What it relies on of a sandbox backend; \<open>boxes\<close> are the branches with a sandbox.  Unlike a KV
  tree, a sandbox may end by itself, so a successful \<open>spawn\<close> promises nothing about later.
\<close>

locale sandbox_core =
  fixes S :: "'b sandbox_backend" and boxes :: "'b \<Rightarrow> string set" and binv :: "'b \<Rightarrow> bool"
  assumes sb_inv_spawn: "binv b \<Longrightarrow> binv (snd (sb_spawn S t p b))"
    and sb_inv_kill: "binv b \<Longrightarrow> binv (snd (sb_kill S t b))"
    and sb_spawn_touches: "binv b \<Longrightarrow> touches_only t (boxes b) (boxes (snd (sb_spawn S t p b)))"
    and sb_kill_touches: "binv b \<Longrightarrow> touches_only t (boxes b) (boxes (snd (sb_kill S t b)))"
    and sb_kill_gone: "binv b \<Longrightarrow> sb_kill S t b = (Inr u, b') \<Longrightarrow> t \<notin> boxes b'"
    and sb_alive_same: "binv b \<Longrightarrow>
          binv (snd (sb_alive S t b)) \<and> boxes (snd (sb_alive S t b)) = boxes b"
    and sb_wait_ready_same: "binv b \<Longrightarrow> sb_wait_ready S = Some w \<Longrightarrow>
          binv (snd (w t b)) \<and> boxes (snd (w t b)) = boxes b"
    and sb_exec_same: "binv b \<Longrightarrow> sb_exec S = Some x \<Longrightarrow>
          binv (snd (x t argv tmo inp b)) \<and> boxes (snd (x t argv tmo inp b)) = boxes b"
    and sb_exec_detached_same: "binv b \<Longrightarrow> sb_exec_detached S = Some xd \<Longrightarrow>
          binv (snd (xd t argv b)) \<and> boxes (snd (xd t argv b)) = boxes b"
    and sb_export_same: "binv b \<Longrightarrow> sb_export S = Some ex \<Longrightarrow>
          binv (snd (ex t src dst b)) \<and> boxes (snd (ex t src dst b)) = boxes b"
    and sb_sweep_same: "binv b \<Longrightarrow> sb_sweep_dead S = Some sw \<Longrightarrow>
          binv (snd (sw b)) \<and> boxes (snd (sw b)) \<subseteq> boxes b"

text \<open>The law of \<open>restart\<close> stands by itself: a backend may break it and keep the others.\<close>

locale sandbox_contract = sandbox_core +
  assumes sb_restart_touches: "binv b \<Longrightarrow> sb_restart S = Some rs \<Longrightarrow>
          binv (snd (rs t b)) \<and> boxes (snd (rs t b)) \<subseteq> insert t (boxes b)"

locale reliable_sandbox = sandbox_contract +
  assumes sb_kill_returns: "binv b \<Longrightarrow> \<exists>b'. sb_kill S t b = (Inr (), b')"

section \<open>\<open>TreeKVCache\<close> as a KV backend\<close>

text \<open>\<open>NullSandbox\<close> has no state and no optional method; every branch is alive.\<close>

definition NullSandbox :: "unit sandbox_backend" where
  "NullSandbox =
     \<lparr>sb_spawn = \<lambda>_ _. ret (), sb_kill = \<lambda>_. ret (), sb_alive = \<lambda>_. ret True,
      sb_wait_ready = None, sb_exec = None, sb_exec_detached = None, sb_export = None,
      sb_sweep_dead = None, sb_restart = None\<rparr>"

interpretation null_box: reliable_sandbox NullSandbox "\<lambda>_. {}" "\<lambda>_. True"
  by unfold_locales (auto simp: NullSandbox_def ret_def touches_only_def)

definition drop_value :: "('s, 'a) proc \<Rightarrow> ('s, unit) proc" where
  "drop_value m = seqp m (\<lambda>_. ret ())"

lemma snd_drop_value [simp]: "snd (drop_value m s) = snd (m s)"
  by (auto simp: drop_value_def seqp_def ret_def split: prod.split sum.split)

lemma drop_value_Inr: "drop_value m s = (Inr u, s') \<longleftrightarrow> (\<exists>x. m s = (Inr x, s'))"
  by (auto simp: drop_value_def seqp_def ret_def split: prod.splits sum.splits)

definition tree_cache_backend :: "(nat \<Rightarrow> real) \<Rightarrow> kv_cache kv_backend" where
  "tree_cache_backend clk =
     \<lparr>kb_create = \<lambda>t. drop_value (create_tree clk t),
      kb_fork = \<lambda>p t. drop_value (fork_branch p (Some t)),
      kb_kill = kill, kb_extend = extend_kv clk, kb_external = False, kb_generate = None,
      kb_has_tree = Some (\<lambda>t. readp (has_tree t))\<rparr>"

text \<open>
  The part of the invariant that also survives re-creating a killed root: every live tree has a
  sequence and a namespace in the radix forest.  It makes \<open>kill\<close> total.
\<close>

definition cache_dicts :: "kv_cache \<Rightarrow> bool" where
  "cache_dicts s \<longleftrightarrow> wf_dict (kv_trees s) \<and>
     (\<forall>t tid. dget (kv_trees s) t = Some tid \<longrightarrow>
        dget (kv_seqs s) t \<noteq> None \<and> dget (kv_root s) (tid_namespace tid) \<noteq> None)"

lemma cache_dicts_tree:
  assumes "cache_dicts s" "dget (kv_trees s) t = Some tid"
  obtains sq r where "dget (kv_seqs s) t = Some sq" "dget (kv_root s) (tid_namespace tid) = Some r"
  using assms unfolding cache_dicts_def by blast

lemma cache_dicts_frame:
  assumes "cache_dicts s" "kv_trees s' = kv_trees s"
    and "\<And>t. dget (kv_seqs s) t \<noteq> None \<Longrightarrow> dget (kv_seqs s') t \<noteq> None"
    and "\<And>n. dget (kv_root s) n \<noteq> None \<Longrightarrow> dget (kv_root s') n \<noteq> None"
  shows "cache_dicts s'"
  unfolding cache_dicts_def assms(2)
proof (intro conjI allI impI)
  fix t tid assume t: "dget (kv_trees s) t = Some tid"
  then have "dget (kv_seqs s) t \<noteq> None \<and> dget (kv_root s) (tid_namespace tid) \<noteq> None"
    using assms(1) unfolding cache_dicts_def by blast
  then show "dget (kv_seqs s') t \<noteq> None" "dget (kv_root s') (tid_namespace tid) \<noteq> None"
    using assms(3,4) by blast+
qed (use assms(1) in \<open>simp add: cache_dicts_def\<close>)

lemma cache_dicts_create: "cache_dicts s \<Longrightarrow> cache_dicts (snd (create_tree clk t s))"
  by (auto simp: create_tree_def Let_def cache_dicts_def)

lemma cache_dicts_fork:
  assumes "cache_dicts s"
  shows "cache_dicts (snd (fork_branch p c s))"
proof (cases "dget (kv_trees s) p")
  case (Some ptid)
  obtain sq r where "dget (kv_seqs s) p = Some sq" "dget (kv_root s) (tid_namespace ptid) = Some r"
    using cache_dicts_tree [OF assms Some] .
  with Some assms show ?thesis
    by (auto simp: fork_branch_def Let_def set_root_def cache_dicts_def split: prod.split)
qed (simp add: fork_branch_def assms)

lemma kill_total:
  assumes "cache_dicts s"
  shows "\<exists>n s'. kill t s = (Inr n, s') \<and> kv_trees s' = ddel t (kv_trees s) \<and> cache_dicts s'"
proof (cases "dget (kv_trees s) t")
  case None
  then have "t \<notin> keys (kv_trees s)" by (simp add: dget_None_iff)
  then show ?thesis using None assms by (simp add: kill_def delete_id)
next
  case (Some tid)
  obtain sq r where ok: "dget (kv_seqs s) t = Some sq" "dget (kv_root s) (tid_namespace tid) = Some r"
    using cache_dicts_tree [OF assms Some] .
  let ?live = "\<exists>x \<in> set (ddel t (kv_trees s)). tid_namespace (snd x) = tid_namespace tid"
  have "(u, v) \<in> set (ddel t (kv_trees s))" if uv: "dget (kv_trees s) u = Some v" "u \<noteq> t" for u v
    using uv assms by (metis cache_dicts_def dget_ddel map_of_SomeD)
  then have "tid_namespace v \<noteq> tid_namespace tid" if "\<not> ?live" "dget (kv_trees s) u = Some v" "u \<noteq> t" for u v
    using that by fastforce
  with Some ok assms show ?thesis
    by (cases "release t r sq") (auto simp: kill_def Let_def cache_dicts_def)
qed

lemma cache_dicts_kill: "cache_dicts s \<Longrightarrow> cache_dicts (snd (kill t s))"
  using kill_total [of s t] by auto

lemma keys_dset_same: "k \<in> keys d \<Longrightarrow> keys (dset k v d) = keys d"
  by (auto simp: insert_absorb)

definition same_dicts :: "kv_cache \<Rightarrow> kv_cache \<Rightarrow> bool" where
  "same_dicts s s' \<longleftrightarrow> kv_trees s' = kv_trees s \<and>
     (\<forall>t. dget (kv_seqs s) t \<noteq> None \<longrightarrow> dget (kv_seqs s') t \<noteq> None) \<and>
     (\<forall>n. dget (kv_root s) n \<noteq> None \<longrightarrow> dget (kv_root s') n \<noteq> None)"

lemma same_dicts_refl [simp]: "same_dicts s s"
  by (simp add: same_dicts_def)

lemma same_dicts_trans: "same_dicts s s' \<Longrightarrow> same_dicts s' s'' \<Longrightarrow> same_dicts s s''"
  unfolding same_dicts_def by metis

lemma same_dicts_inv: "same_dicts s s' \<Longrightarrow> cache_dicts s \<Longrightarrow> cache_dicts s'"
  using cache_dicts_frame [of s s'] by (simp add: same_dicts_def)

lemma same_dicts_evict: "same_dicts s (snd (evict_loop leaves need s))"
proof (induction leaves need s rule: evict_loop.induct)
  case (2 leaf leaves need s)
  have "same_dicts s (evict_leaf leaf s)"
    by (auto simp: same_dicts_def evict_leaf_def Let_def split: prod.split option.split)
  with 2 show ?case by (auto intro: same_dicts_trans)
qed simp

lemma same_dicts_parts:
  "same_dicts s (snd (maybe_evict need s))"
  "same_dicts s (snd (snd (walk_ns clk ns r toks s)))"
  "same_dicts s (insert_suffix clk t ns path full pos s)"
  "same_dicts s (extend_finish t ns toks full charged s)"
  using same_dicts_evict
  by (auto simp: maybe_evict_def Let_def walk_ns_def set_root_def insert_suffix_def extend_finish_def
      same_dicts_def split: prod.split option.split)

lemma same_dicts_extend: "same_dicts s (snd (extend_kv clk t toks s))"
proof -
  have evict: "same_dicts s s2" if "same_dicts s s1" "maybe_evict need s1 = (r, s2)" for s1 s2 need r
    using that same_dicts_parts(1) [where s = s1 and need = need] by (auto intro: same_dicts_trans)
  have walk: "same_dicts s s1" if "walk_ns clk ns r full s = (path, m, s1)" for ns r full path m s1
    using that same_dicts_parts(2) [where s = s and clk = clk and ns = ns and r = r and toks = full] by simp
  show ?thesis
    unfolding extend_kv_def Let_def
    by (auto split: option.split prod.split sum.split intro: walk evict [OF walk]
        same_dicts_trans [OF walk same_dicts_parts(4)]
        same_dicts_trans [OF evict [OF walk] same_dicts_trans [OF same_dicts_parts(3) same_dicts_parts(4)]])
qed

lemma fork_branch_trees:
  assumes "cache_dicts s" "c \<noteq> []"
  shows "kv_trees (snd (fork_branch p (Some c) s)) = kv_trees s \<or>
    (\<exists>tid. kv_trees (snd (fork_branch p (Some c) s)) = dset c tid (kv_trees s))"
    and "fork_branch p (Some c) s = (Inr x, s') \<Longrightarrow> \<exists>tid. kv_trees s' = dset c tid (kv_trees s)"
  using assms(2)
  by (auto simp: fork_branch_def Let_def child_name_def set_root_def split: option.split prod.split)
    (auto simp: fork_branch_def Let_def child_name_def set_root_def split: option.splits prod.splits if_splits)

text \<open>\<open>TreeKVCache\<close> keeps the contract of a reliable KV backend, whatever the clock reads.\<close>

interpretation tree_kv: reliable_kv "tree_cache_backend clk" "\<lambda>s. keys (kv_trees s)" cache_dicts for clk
proof unfold_locales
  fix k k' :: kv_cache and t p x n
  assume inv: "cache_dicts k"
  show "touches_only t (keys (kv_trees k)) (keys (kv_trees (snd (kb_create (tree_cache_backend clk) t k))))"
    by (auto simp: tree_cache_backend_def create_tree_def Let_def touches_only_def)
  show "kb_create (tree_cache_backend clk) t k = (Inr x, k') \<Longrightarrow> t \<in> keys (kv_trees k')"
    by (auto simp: tree_cache_backend_def drop_value_Inr create_tree_def Let_def split: if_splits)
  show "t \<noteq> [] \<Longrightarrow>
      touches_only t (keys (kv_trees k)) (keys (kv_trees (snd (kb_fork (tree_cache_backend clk) p t k))))"
    using fork_branch_trees(1) [OF inv, of t p] by (auto simp: tree_cache_backend_def)
  show "t \<noteq> [] \<Longrightarrow> kb_fork (tree_cache_backend clk) p t k = (Inr x, k') \<Longrightarrow> t \<in> keys (kv_trees k')"
    using fork_branch_trees(2) [OF inv, of t p] by (auto simp: tree_cache_backend_def drop_value_Inr)
  show "touches_only t (keys (kv_trees k)) (keys (kv_trees (snd (kb_kill (tree_cache_backend clk) t k))))"
    using kill_total [OF inv, of t] by (elim exE conjE; simp add: tree_cache_backend_def)
  show "kb_kill (tree_cache_backend clk) t k = (Inr n, k') \<Longrightarrow> t \<notin> keys (kv_trees k')"
    using kill_total [OF inv, of t] by (auto simp: tree_cache_backend_def)
  show "\<exists>n k'. kb_kill (tree_cache_backend clk) t k = (Inr n, k')"
    using kill_total [OF inv, of t] by (auto simp: tree_cache_backend_def)
  fix toks
  show "keys (kv_trees (snd (kb_extend (tree_cache_backend clk) t toks k))) = keys (kv_trees k)"
    using same_dicts_extend [of k clk t toks] by (simp add: tree_cache_backend_def same_dicts_def)
qed (auto simp: tree_cache_backend_def readp_def cache_dicts_create cache_dicts_fork cache_dicts_kill
    same_dicts_inv [OF same_dicts_extend])

end
