(* ===== verification/Orchestrator.thy ===== *)
theory Orchestrator
  imports Backends
begin

text \<open>
  The class \<open>ForkOrchestrator\<close> of \<open>orchestrator.py\<close>.  Each \<open>with self._lock\<close> section is a
  definition of its own (\<open>create_begin\<close>, \<open>fork_begin\<close>, \<open>commit_child\<close>, \<open>kill_begin\<close>, \<open>kill_failed\<close>,
  \<open>kill_done\<close>, ...), as is each group of backend calls made outside the lock; a method is their
  composition.  The environment has the two backends, the readings of the clock and, for every
  attempt to write the registry, the exception it raises before \<open>os.replace\<close> commits, if any.
\<close>

section \<open>State\<close>

record metrics =
  m_forks :: int
  m_kills :: int
  m_kill_failures :: int
  m_execs :: int
  m_reconciles :: int
  m_reaped_expired :: int
  m_swept_dead :: int
  m_restarted :: int

record kill_receipt =
  rc_branch :: string
  rc_freed :: int
  rc_reaped :: bool

record ('k, 'b) config =
  cf_kv :: "'k kv_backend"
  cf_sb :: "'b sandbox_backend"
  cf_clock :: "nat \<Rightarrow> real"
  cf_io :: "nat \<Rightarrow> exc option"

text \<open>
  \<open>o_loaded\<close> is the set \<open>_loaded_branch_ids\<close>, listed in the order in which \<open>reconcile\<close> visits it;
  \<open>o_disk\<close> is the document in the registry file and \<open>o_owned\<close> whether its lock is held.
\<close>

record ('k, 'b) orch =
  o_kv :: 'k
  o_sb :: 'b
  o_registry :: bool
  o_default_lease :: "real option"
  o_seq :: nat
  o_closing :: bool
  o_closed :: bool
  o_branches :: "(string, branch) dict"
  o_loaded :: "string list"
  o_spawning :: "string set"
  o_killing :: "string set"
  o_metrics :: metrics
  o_reaper :: bool
  o_owned :: bool
  o_disk :: "json option"
  o_reads :: nat
  o_io :: nat

type_synonym ('k, 'b, 'a) op = "(('k, 'b) orch, 'a) proc"

definition zero_metrics :: metrics where
  "zero_metrics = \<lparr>m_forks = 0, m_kills = 0, m_kill_failures = 0, m_execs = 0, m_reconciles = 0,
     m_reaped_expired = 0, m_swept_dead = 0, m_restarted = 0\<rparr>"

definition on_kv :: "('k, 'a) proc \<Rightarrow> ('k, 'b, 'a) op" where
  "on_kv m s = (case m (o_kv s) of (r, k) \<Rightarrow> (r, s\<lparr>o_kv := k\<rparr>))"

definition on_sb :: "('b, 'a) proc \<Rightarrow> ('k, 'b, 'a) op" where
  "on_sb m s = (case m (o_sb s) of (r, b) \<Rightarrow> (r, s\<lparr>o_sb := b\<rparr>))"

definition read_clock :: "('k, 'b) config \<Rightarrow> ('k, 'b, real) op" where
  "read_clock E s = (Inr (cf_clock E (o_reads s)), s\<lparr>o_reads := Suc (o_reads s)\<rparr>)"

definition count :: "(metrics \<Rightarrow> metrics) \<Rightarrow> ('k, 'b, unit) op" where
  "count f = modp (\<lambda>s. s\<lparr>o_metrics := f (o_metrics s)\<rparr>)"

definition set_branches :: "((string, branch) dict \<Rightarrow> (string, branch) dict) \<Rightarrow> ('k, 'b, unit) op" where
  "set_branches f = modp (\<lambda>s. s\<lparr>o_branches := f (o_branches s)\<rparr>)"

section \<open>Registry bookkeeping\<close>

definition ensure_open :: "bool \<Rightarrow> ('k, 'b, unit) op" where
  "ensure_open allow_closing =
     seqp (raise_if o_closed RuntimeError) (\<lambda>_.
       raise_if (\<lambda>s. o_closing s \<and> \<not> allow_closing) RuntimeError)"

definition persist :: "('k, 'b) config \<Rightarrow> ('k, 'b, unit) op" where
  "persist E s =
     (if \<not> o_registry s then (Inr (), s)
      else case cf_io E (o_io s) of
          Some e \<Rightarrow> (Inl e, s\<lparr>o_io := Suc (o_io s)\<rparr>)
        | None \<Rightarrow> (Inr (), s\<lparr>o_io := Suc (o_io s), o_disk := Some (registry_doc (o_branches s))\<rparr>))"

definition record_branch :: "('k, 'b) config \<Rightarrow> branch \<Rightarrow> ('k, 'b, unit) op" where
  "record_branch E b =
     seqp (readp (\<lambda>s. dget (o_branches s) (br_id b))) (\<lambda>previous.
     seqp (set_branches (dset (br_id b) b)) (\<lambda>_.
       try_except (persist E)
         (reraise (set_branches (case previous of
              None \<Rightarrow> ddel (br_id b) | Some p \<Rightarrow> dset (br_id b) p)))))"

definition forget :: "('k, 'b) config \<Rightarrow> string \<Rightarrow> ('k, 'b, unit) op" where
  "forget E bid =
     seqp (readp (\<lambda>s. dget (o_branches s) bid)) (\<lambda>previous.
     seqp (set_branches (ddel bid)) (\<lambda>_.
     seqp (try_except (persist E)
         (reraise (set_branches (case previous of None \<Rightarrow> id | Some p \<Rightarrow> dset bid p)))) (\<lambda>_.
       modp (\<lambda>s. s\<lparr>o_loaded := removeAll bid (o_loaded s)\<rparr>))))"

definition replace_branch :: "('k, 'b) config \<Rightarrow> string \<Rightarrow> (branch \<Rightarrow> branch) \<Rightarrow> ('k, 'b, branch) op" where
  "replace_branch E bid changes =
     seqp (readp (\<lambda>s. dget (o_branches s) bid)) (\<lambda>previous.
     case previous of
       None \<Rightarrow> raise (KeyError bid)
     | Some p \<Rightarrow>
        seqp (set_branches (dset bid (changes p))) (\<lambda>_.
        seqp (try_except (persist E) (reraise (set_branches (dset bid p)))) (\<lambda>_.
          ret (changes p))))"

text \<open>
  \<open>_next_child_id\<close>: the loop ends because only finitely many ids are taken and different
  numbers give different ids.
\<close>

definition child_id :: "string \<Rightarrow> nat \<Rightarrow> string" where
  "child_id parent n = parent @ ''/'' @ str_nat n"

lemma child_id_inject [simp]: "child_id p m = child_id p n \<longleftrightarrow> m = n"
  by (auto simp: child_id_def dest: str_nat_inject)

lemma finite_child_ids: "finite A \<Longrightarrow> finite {n. child_id p n \<in> A}"
  by (rule finite_imageD [of "child_id p"]) (auto simp: inj_on_def intro: finite_subset)

function next_child_seq :: "(string, branch) dict \<Rightarrow> string \<Rightarrow> nat \<Rightarrow> nat" where
  "next_child_seq bs parent sq =
     (if child_id parent (Suc sq) \<in> keys bs then next_child_seq bs parent (Suc sq) else Suc sq)"
  by pat_completeness auto
termination
proof (relation "measure (\<lambda>(bs, parent, sq). card {n. child_id parent n \<in> keys bs \<and> sq < n})")
  fix bs :: "(string, branch) dict" and parent sq
  assume "child_id parent (Suc sq) \<in> keys bs"
  then have "{n. child_id parent n \<in> keys bs \<and> Suc sq < n} \<subset> {n. child_id parent n \<in> keys bs \<and> sq < n}"
    by (auto intro!: psubsetI simp: set_eq_iff)
  moreover have "finite {n. child_id parent n \<in> keys bs \<and> sq < n}"
    using finite_child_ids [of "keys bs" parent] by (auto intro: finite_subset [rotated])
  ultimately show "((bs, parent, Suc sq), (bs, parent, sq))
      \<in> measure (\<lambda>(bs, parent, sq). card {n. child_id parent n \<in> keys bs \<and> sq < n})"
    by (simp add: psubset_card_mono)
qed simp

declare next_child_seq.simps [simp del]

definition next_child_id :: "string \<Rightarrow> ('k, 'b, string) op" where
  "next_child_id parent s =
     (let n = next_child_seq (o_branches s) parent (o_seq s)
      in (Inr (child_id parent n), s\<lparr>o_seq := n\<rparr>))"

text \<open>\<open>_rollback_branch\<close>: try both clean-ups, forget the branch only if both succeeded.\<close>

definition attempt :: "('s, 'a) proc \<Rightarrow> ('s, bool) proc" where
  "attempt m = try_except (seqp m (\<lambda>_. ret True)) (\<lambda>_. ret False)"

definition rollback_branch :: "('k, 'b) config \<Rightarrow> string \<Rightarrow> ('k, 'b, unit) op" where
  "rollback_branch E bid =
     seqp (attempt (on_kv (kb_kill (cf_kv E) bid))) (\<lambda>kv_ok.
     seqp (attempt (on_sb (sb_kill (cf_sb E) bid))) (\<lambda>sb_ok.
       whenp (kv_ok \<and> sb_ok) (forget E bid)))"

definition lease_expiry :: "('k, 'b) config \<Rightarrow> real option \<Rightarrow> ('k, 'b, real option) op" where
  "lease_expiry E lease =
     seqp (readp (\<lambda>s. case lease of None \<Rightarrow> o_default_lease s | Some l \<Rightarrow> Some l)) (\<lambda>l.
     case l of
       None \<Rightarrow> ret None
     | Some x \<Rightarrow> if x \<le> 0 then raise ValueError
                 else seqp (read_clock E) (\<lambda>now. ret (Some (now + x))))"

text \<open>
  \<open>_fan_out\<close> in item order: every item is attempted, the first exception is raised after the
  last item, and the results of failed items are dropped.
\<close>

fun fan_out_loop :: "('x \<Rightarrow> ('s, 'a) proc) \<Rightarrow> 'x list \<Rightarrow> 's \<Rightarrow> 'a list \<times> exc option \<times> 's" where
  "fan_out_loop f [] s = ([], None, s)"
| "fan_out_loop f (x # xs) s =
     (case f x s of (r, s') \<Rightarrow>
        (case fan_out_loop f xs s' of (vs, err, s'') \<Rightarrow>
           (case r of Inl e \<Rightarrow> (vs, Some e, s'') | Inr v \<Rightarrow> (v # vs, err, s''))))"

definition fan_out :: "('x \<Rightarrow> ('s, 'a) proc) \<Rightarrow> 'x list \<Rightarrow> ('s, 'a list) proc" where
  "fan_out f xs s =
     (case fan_out_loop f xs s of
        (vs, Some e, s') \<Rightarrow> (Inl e, s') | (vs, None, s') \<Rightarrow> (Inr vs, s'))"

section \<open>Creating and forking\<close>

definition create_begin :: "('k, 'b) config \<Rightarrow> string \<Rightarrow> int list \<Rightarrow> real option \<Rightarrow> ('k, 'b, unit) op" where
  "create_begin E bid tokens lease =
     seqp (ensure_open False) (\<lambda>_.
     seqp (raise_if (\<lambda>_. tokens \<noteq> [] \<and> kb_external (cf_kv E)) RuntimeError) (\<lambda>_.
     seqp (raise_if (\<lambda>s. bid \<in> keys (o_branches s)) ValueError) (\<lambda>_.
     seqp (read_clock E) (\<lambda>now.
     seqp (lease_expiry E lease) (\<lambda>expiry.
     seqp (record_branch E \<lparr>br_id = bid, br_parent = None, br_state = STATE_FORKING,
             br_created = now, br_lease = expiry\<rparr>) (\<lambda>_.
       modp (\<lambda>s. s\<lparr>o_spawning := insert bid (o_spawning s)\<rparr>)))))))"

definition create_backends :: "('k, 'b) config \<Rightarrow> string \<Rightarrow> int list \<Rightarrow> ('k, 'b, unit) op" where
  "create_backends E bid tokens =
     seqp (on_kv (kb_create (cf_kv E) bid)) (\<lambda>_.
     seqp (on_sb (sb_spawn (cf_sb E) bid None)) (\<lambda>_.
     seqp (case sb_wait_ready (cf_sb E) of None \<Rightarrow> ret () | Some w \<Rightarrow> on_sb (w bid)) (\<lambda>_.
       whenp (tokens \<noteq> []) (drop_value (on_kv (kb_extend (cf_kv E) bid tokens))))))"

definition mark_live :: "('k, 'b) config \<Rightarrow> string \<Rightarrow> ('k, 'b, branch) op" where
  "mark_live E bid = replace_branch E bid (\<lambda>b. b\<lparr>br_state := STATE_LIVE\<rparr>)"

definition spawn_end :: "string \<Rightarrow> ('k, 'b, unit) op" where
  "spawn_end bid = modp (\<lambda>s. s\<lparr>o_spawning := o_spawning s - {bid}\<rparr>)"

definition create_parent :: "('k, 'b) config \<Rightarrow> string \<Rightarrow> int list \<Rightarrow> real option \<Rightarrow> ('k, 'b, branch) op" where
  "create_parent E bid tokens lease =
     seqp (create_begin E bid tokens lease) (\<lambda>_.
       try_finally
         (try_except
            (seqp (create_backends E bid tokens) (\<lambda>_. mark_live E bid))
            (reraise (rollback_branch E bid)))
         (spawn_end bid))"

definition is_live :: "('k, 'b) orch \<Rightarrow> string \<Rightarrow> bool" where
  "is_live s bid \<longleftrightarrow>
     (case dget (o_branches s) bid of None \<Rightarrow> False | Some b \<Rightarrow> br_state b = STATE_LIVE)"

text \<open>The loop of \<open>fork\<close> that names the children; \<open>None\<close> asks for a generated id.\<close>

fun plan_children :: "('k, 'b) config \<Rightarrow> string \<Rightarrow> real option \<Rightarrow> string option list \<Rightarrow> branch list \<Rightarrow>
    ('k, 'b, branch list) op" where
  "plan_children E parent lease [] children = ret children"
| "plan_children E parent lease (wanted # rest) children =
     seqp (case wanted of Some c \<Rightarrow> ret c | None \<Rightarrow> next_child_id parent) (\<lambda>c.
     seqp (raise_if (\<lambda>s. c \<in> keys (o_branches s) \<or> (\<exists>x \<in> set children. br_id x = c)) ValueError) (\<lambda>_.
     seqp (read_clock E) (\<lambda>now.
     seqp (lease_expiry E lease) (\<lambda>expiry.
       plan_children E parent lease rest
         (children @ [\<lparr>br_id = c, br_parent = Some parent, br_state = STATE_FORKING,
                        br_created = now, br_lease = expiry\<rparr>])))))"

definition add_all :: "branch list \<Rightarrow> (string, branch) dict \<Rightarrow> (string, branch) dict" where
  "add_all children bs = fold (\<lambda>b. dset (br_id b) b) children bs"

definition drop_all :: "branch list \<Rightarrow> (string, branch) dict \<Rightarrow> (string, branch) dict" where
  "drop_all children bs = fold (\<lambda>b. ddel (br_id b)) children bs"

definition journal_children :: "('k, 'b) config \<Rightarrow> branch list \<Rightarrow> ('k, 'b, unit) op" where
  "journal_children E children =
     seqp (set_branches (add_all children)) (\<lambda>_.
       try_except (persist E) (reraise (set_branches (drop_all children))))"

definition fork_begin :: "('k, 'b) config \<Rightarrow> string \<Rightarrow> int \<Rightarrow> string list option \<Rightarrow> real option \<Rightarrow>
    ('k, 'b, branch list) op" where
  "fork_begin E parent n child_ids lease =
     seqp (ensure_open False) (\<lambda>_.
     seqp (raise_if (\<lambda>s. \<not> is_live s parent) (KeyError parent)) (\<lambda>_.
     seqp (raise_if (\<lambda>_. case child_ids of None \<Rightarrow> False | Some cs \<Rightarrow> int (length cs) \<noteq> n) ValueError) (\<lambda>_.
     seqp (plan_children E parent lease
             (case child_ids of None \<Rightarrow> replicate (nat n) None | Some cs \<Rightarrow> map Some cs) []) (\<lambda>children.
     seqp (journal_children E children) (\<lambda>_.
     seqp (modp (\<lambda>s. s\<lparr>o_spawning := o_spawning s \<union> br_id ` set children\<rparr>)) (\<lambda>_.
       ret children))))))"

definition fork_backends :: "('k, 'b) config \<Rightarrow> string \<Rightarrow> string \<Rightarrow> ('k, 'b, unit) op" where
  "fork_backends E parent c =
     seqp (on_kv (kb_fork (cf_kv E) parent c)) (\<lambda>_.
       on_sb (sb_spawn (cf_sb E) c (Some parent)))"

definition commit_child :: "('k, 'b) config \<Rightarrow> string \<Rightarrow> string \<Rightarrow> ('k, 'b, branch) op" where
  "commit_child E parent c =
     seqp (raise_if (\<lambda>s. \<not> is_live s parent) RuntimeError) (\<lambda>_. mark_live E c)"

definition spawn_one :: "('k, 'b) config \<Rightarrow> string \<Rightarrow> branch \<Rightarrow> ('k, 'b, branch) op" where
  "spawn_one E parent b =
     (let c = br_id b in
      try_finally
        (try_except
           (seqp (fork_backends E parent c) (\<lambda>_. commit_child E parent c))
           (reraise (rollback_branch E c)))
        (spawn_end c))"

definition fork :: "('k, 'b) config \<Rightarrow> string \<Rightarrow> int \<Rightarrow> string list option \<Rightarrow> real option \<Rightarrow>
    ('k, 'b, branch list) op" where
  "fork E parent n child_ids lease =
     seqp (fork_begin E parent n child_ids lease) (\<lambda>children.
     seqp (fan_out (spawn_one E parent) children) (\<lambda>forked.
     seqp (count (\<lambda>m. m\<lparr>m_forks := m_forks m + int (length forked)\<rparr>)) (\<lambda>_.
       ret forked)))"

section \<open>Killing\<close>

text \<open>\<open>True\<close> asks the caller to reap the branch, \<open>False\<close> is the no-op.\<close>

definition kill_begin :: "('k, 'b) config \<Rightarrow> bool \<Rightarrow> string \<Rightarrow> ('k, 'b, bool) op" where
  "kill_begin E allow_closing bid =
     seqp (ensure_open allow_closing) (\<lambda>_.
     seqp (readp (\<lambda>s. bid \<notin> keys (o_branches s) \<or> bid \<in> o_killing s \<or> bid \<in> o_spawning s)) (\<lambda>skip.
       if skip then ret False
       else
         seqp (modp (\<lambda>s. s\<lparr>o_killing := insert bid (o_killing s)\<rparr>)) (\<lambda>_.
         seqp (try_except (replace_branch E bid (\<lambda>b. b\<lparr>br_state := STATE_KILLING\<rparr>))
                (reraise (modp (\<lambda>s. s\<lparr>o_killing := o_killing s - {bid}\<rparr>)))) (\<lambda>_.
           ret True))))"

definition kill_backends :: "('k, 'b) config \<Rightarrow> string \<Rightarrow> ('k, 'b, int) op" where
  "kill_backends E bid =
     seqp (on_sb (sb_kill (cf_sb E) bid)) (\<lambda>_. on_kv (kb_kill (cf_kv E) bid))"

definition kill_failed :: "string \<Rightarrow> ('k, 'b, unit) op" where
  "kill_failed bid =
     seqp (modp (\<lambda>s. s\<lparr>o_killing := o_killing s - {bid}\<rparr>)) (\<lambda>_.
       count (\<lambda>m. m\<lparr>m_kill_failures := m_kill_failures m + 1\<rparr>))"

definition kill_done :: "('k, 'b) config \<Rightarrow> string \<Rightarrow> ('k, 'b, unit) op" where
  "kill_done E bid =
     seqp (modp (\<lambda>s. s\<lparr>o_killing := o_killing s - {bid}\<rparr>)) (\<lambda>_.
     seqp (forget E bid) (\<lambda>_.
       count (\<lambda>m. m\<lparr>m_kills := m_kills m + 1\<rparr>)))"

definition kill_branch :: "('k, 'b) config \<Rightarrow> bool \<Rightarrow> string \<Rightarrow> ('k, 'b, kill_receipt) op" where
  "kill_branch E allow_closing bid =
     seqp (kill_begin E allow_closing bid) (\<lambda>go.
       if \<not> go then ret \<lparr>rc_branch = bid, rc_freed = 0, rc_reaped = False\<rparr>
       else
         seqp (try_except (kill_backends E bid) (reraise (kill_failed bid))) (\<lambda>freed.
         seqp (kill_done E bid) (\<lambda>_.
           ret \<lparr>rc_branch = bid, rc_freed = freed, rc_reaped = True\<rparr>)))"

definition orch_kill :: "('k, 'b) config \<Rightarrow> string \<Rightarrow> ('k, 'b, kill_receipt) op" where
  "orch_kill E bid = kill_branch E False bid"

text \<open>The ancestor chain that \<open>kill_losers\<close> keeps.\<close>

function keep_chain :: "(string, branch) dict \<Rightarrow> string option \<Rightarrow> string list \<Rightarrow> string list" where
  "keep_chain bs cursor kept =
     (case cursor of
        None \<Rightarrow> kept
      | Some c \<Rightarrow>
         if c \<in> set kept then kept
         else keep_chain bs (case dget bs c of None \<Rightarrow> None | Some b \<Rightarrow> br_parent b) (c # kept))"
  by pat_completeness auto
termination
proof (relation "measures [\<lambda>(bs, cursor, kept). card (keys bs - set kept),
    \<lambda>(bs, cursor, kept). if cursor = None then 0 else 1]")
  fix bs :: "(string, branch) dict" and cursor kept and c :: string
  assume c: "cursor = Some c" "c \<notin> set kept"
  show "((bs, case dget bs c of None \<Rightarrow> None | Some b \<Rightarrow> br_parent b, c # kept), bs, cursor, kept)
      \<in> measures [\<lambda>(bs, cursor, kept). card (keys bs - set kept),
          \<lambda>(bs, cursor, kept). if cursor = None then 0 else 1]"
  proof (cases "c \<in> keys bs")
    case True
    then have "keys bs - set (c # kept) \<subset> keys bs - set kept" using c(2) by auto
    then have "card (keys bs - set (c # kept)) < card (keys bs - set kept)"
      by (intro psubset_card_mono) auto
    then show ?thesis by simp
  next
    case False
    then have "dget bs c = None" "keys bs - set (c # kept) = keys bs - set kept"
      by (auto simp: dget_None_iff)
    then show ?thesis using c(1) by simp
  qed
qed simp

declare keep_chain.simps [simp del]

definition receipt_dict :: "kill_receipt list \<Rightarrow> (string, kill_receipt) dict" where
  "receipt_dict rs = fold (\<lambda>r. dset (rc_branch r) r) rs []"

text \<open>
  The settling loop of \<open>kill_losers\<close> for one loser.  It polls while the branch is being spawned
  or killed elsewhere, so without other threads it may not return: its result is then \<open>None\<close>.
\<close>

partial_function (option) settle_loser :: "('k, 'b) config \<Rightarrow> string \<Rightarrow> (string, kill_receipt) dict \<Rightarrow>
    ('k, 'b) orch \<Rightarrow> (('k, 'b) orch, (string, kill_receipt) dict) outcome option" where
  "settle_loser E bid receipts s =
     (if (case dget receipts bid of None \<Rightarrow> False | Some r \<Rightarrow> rc_reaped r) then Some (Inr receipts, s)
      else if bid \<notin> keys (o_branches s) then Some (Inr receipts, s)
      else if bid \<in> o_spawning s \<or> bid \<in> o_killing s then settle_loser E bid receipts s
      else case orch_kill E bid s of
          (Inl e, s') \<Rightarrow> Some (Inl e, s')
        | (Inr r, s') \<Rightarrow> settle_loser E bid (dset bid r receipts) s')"

fun settle_all :: "('k, 'b) config \<Rightarrow> string list \<Rightarrow> (string, kill_receipt) dict \<Rightarrow>
    ('k, 'b) orch \<Rightarrow> (('k, 'b) orch, (string, kill_receipt) dict) outcome option" where
  "settle_all E [] receipts s = Some (Inr receipts, s)"
| "settle_all E (bid # bids) receipts s =
     (case settle_loser E bid receipts s of
        None \<Rightarrow> None
      | Some (Inl e, s') \<Rightarrow> Some (Inl e, s')
      | Some (Inr receipts', s') \<Rightarrow> settle_all E bids receipts' s')"

definition losers_begin :: "string \<Rightarrow> ('k, 'b, string list) op" where
  "losers_begin winner =
     seqp (ensure_open False) (\<lambda>_.
     seqp (raise_if (\<lambda>s. \<not> is_live s winner) (KeyError winner)) (\<lambda>_.
       readp (\<lambda>s. filter (\<lambda>bid. bid \<notin> set (keep_chain (o_branches s) (Some winner) []))
                    (map fst (o_branches s)))))"

definition kill_losers :: "('k, 'b) config \<Rightarrow> string \<Rightarrow> ('k, 'b) orch \<Rightarrow>
    (('k, 'b) orch, kill_receipt list) outcome option" where
  "kill_losers E winner s =
     (case seqp (losers_begin winner) (\<lambda>losers.
             seqp (fan_out (orch_kill E) losers) (\<lambda>rs. ret (losers, receipt_dict rs))) s of
        (Inl e, s') \<Rightarrow> Some (Inl e, s')
      | (Inr (losers, receipts), s') \<Rightarrow>
          (case settle_all E losers receipts s' of
             None \<Rightarrow> None
           | Some (Inl e, s'') \<Rightarrow> Some (Inl e, s'')
           | Some (Inr receipts', s'') \<Rightarrow> Some (Inr (map snd receipts'), s'')))"

section \<open>Using a branch\<close>

definition need_live :: "string \<Rightarrow> ('k, 'b, unit) op" where
  "need_live bid =
     seqp (ensure_open False) (\<lambda>_. raise_if (\<lambda>s. \<not> is_live s bid) (KeyError bid))"

definition orch_extend :: "('k, 'b) config \<Rightarrow> string \<Rightarrow> int list \<Rightarrow> ('k, 'b, int) op" where
  "orch_extend E bid tokens = seqp (need_live bid) (\<lambda>_. on_kv (kb_extend (cf_kv E) bid tokens))"

definition orch_generate :: "('k, 'b) config \<Rightarrow> string \<Rightarrow> json \<Rightarrow> json \<Rightarrow> bool \<Rightarrow> int option \<Rightarrow>
    ('k, 'b, json) op" where
  "orch_generate E bid prompt params branch_end reserve =
     seqp (need_live bid) (\<lambda>_.
     case kb_generate (cf_kv E) of
       None \<Rightarrow> raise RuntimeError
     | Some g \<Rightarrow>
        seqp (on_kv (g bid prompt params branch_end reserve)) (\<lambda>result.
        seqp (whenp branch_end (drop_value (orch_kill E bid))) (\<lambda>_. ret result)))"

definition count_exec :: "('k, 'b, unit) op" where
  "count_exec = count (\<lambda>m. m\<lparr>m_execs := m_execs m + 1\<rparr>)"

definition orch_exec :: "('k, 'b) config \<Rightarrow> string \<Rightarrow> string list \<Rightarrow> real option \<Rightarrow> string option \<Rightarrow>
    ('k, 'b, json) op" where
  "orch_exec E bid argv timeout stdin =
     seqp (need_live bid) (\<lambda>_.
     case sb_exec (cf_sb E) of
       None \<Rightarrow> raise RuntimeError
     | Some x \<Rightarrow> seqp count_exec (\<lambda>_. on_sb (x bid argv timeout stdin)))"

definition orch_exec_detached :: "('k, 'b) config \<Rightarrow> string \<Rightarrow> string list \<Rightarrow> ('k, 'b, json) op" where
  "orch_exec_detached E bid argv =
     seqp (need_live bid) (\<lambda>_.
     case sb_exec_detached (cf_sb E) of
       None \<Rightarrow> raise RuntimeError
     | Some x \<Rightarrow> seqp count_exec (\<lambda>_. on_sb (x bid argv)))"

definition export_artifact :: "('k, 'b) config \<Rightarrow> string \<Rightarrow> string \<Rightarrow> string \<Rightarrow> ('k, 'b, json) op" where
  "export_artifact E bid guest_path dest_path =
     seqp (need_live bid) (\<lambda>_.
     case sb_export (cf_sb E) of
       None \<Rightarrow> raise RuntimeError
     | Some x \<Rightarrow> on_sb (x bid guest_path dest_path))"

section \<open>Collection\<close>

definition renew_lease :: "('k, 'b) config \<Rightarrow> string \<Rightarrow> real \<Rightarrow> ('k, 'b, branch) op" where
  "renew_lease E bid lease =
     seqp (need_live bid) (\<lambda>_.
     seqp (raise_if (\<lambda>_. lease \<le> 0) ValueError) (\<lambda>_.
     seqp (read_clock E) (\<lambda>now.
       replace_branch E bid (\<lambda>b. b\<lparr>br_lease := Some (now + lease)\<rparr>))))"

definition lapsed :: "real \<Rightarrow> branch \<Rightarrow> bool" where
  "lapsed now b \<longleftrightarrow> (case br_lease b of None \<Rightarrow> False | Some x \<Rightarrow> x \<le> now)"

definition reaped_count :: "(kill_receipt \<Rightarrow> bool) \<Rightarrow> kill_receipt list \<Rightarrow> int" where
  "reaped_count P rs = int (length (filter (\<lambda>r. rc_reaped r \<and> P r) rs))"

definition reap_expired :: "('k, 'b) config \<Rightarrow> ('k, 'b, kill_receipt list) op" where
  "reap_expired E =
     seqp (ensure_open False) (\<lambda>_.
     seqp (read_clock E) (\<lambda>now.
     seqp (readp (\<lambda>s. map (br_id \<circ> snd)
             (filter (\<lambda>x. lapsed now (snd x) \<and> br_id (snd x) \<notin> o_spawning s) (o_branches s)))) (\<lambda>expired.
     seqp (fan_out (orch_kill E) expired) (\<lambda>receipts.
     seqp (count (\<lambda>m. m\<lparr>m_reaped_expired := m_reaped_expired m + reaped_count (\<lambda>_. True) receipts\<rparr>)) (\<lambda>_.
       ret receipts)))))"

definition in_flight :: "('k, 'b) orch \<Rightarrow> string \<Rightarrow> bool" where
  "in_flight s bid \<longleftrightarrow> bid \<in> o_spawning s \<or> bid \<in> o_killing s"

definition stuck_branches :: "('k, 'b) orch \<Rightarrow> string list" where
  "stuck_branches s =
     (let mid = map (br_id \<circ> snd)
            (filter (\<lambda>x. (br_state (snd x) = STATE_FORKING \<or> br_state (snd x) = STATE_KILLING)
                       \<and> \<not> in_flight s (br_id (snd x))) (o_branches s))
      in mid @ filter (\<lambda>bid. bid \<notin> set mid \<and> \<not> in_flight s bid) (o_loaded s))"

definition expired_branches :: "real \<Rightarrow> string list \<Rightarrow> ('k, 'b) orch \<Rightarrow> string list" where
  "expired_branches now stuck s =
     map (br_id \<circ> snd)
       (filter (\<lambda>x. lapsed now (snd x) \<and> \<not> in_flight s (br_id (snd x)) \<and> br_id (snd x) \<notin> set stuck)
          (o_branches s))"

definition reconcile :: "('k, 'b) config \<Rightarrow> ('k, 'b, kill_receipt list) op" where
  "reconcile E =
     seqp (ensure_open False) (\<lambda>_.
     seqp (readp stuck_branches) (\<lambda>stuck.
     seqp (read_clock E) (\<lambda>now.
     seqp (readp (expired_branches now stuck)) (\<lambda>expired.
     seqp (try_finally (fan_out (orch_kill E) (stuck @ expired))
             (count (\<lambda>m. m\<lparr>m_reconciles := m_reconciles m + 1\<rparr>))) (\<lambda>receipts.
     seqp (count (\<lambda>m. m\<lparr>m_reaped_expired := m_reaped_expired m
             + reaped_count (\<lambda>r. rc_branch r \<in> set expired) receipts\<rparr>)) (\<lambda>_.
       ret receipts))))))"

section \<open>Background collection\<close>

text \<open>
  \<open>o_reaper\<close> says whether the reaper thread runs.  \<open>reaper_pass\<close> is one turn of its loop; its
  value says whether the loop goes on.
\<close>

definition start_reaper :: "real \<Rightarrow> ('k, 'b, unit) op" where
  "start_reaper interval =
     seqp (raise_if (\<lambda>_. interval \<le> 0) ValueError) (\<lambda>_.
     seqp (ensure_open False) (\<lambda>_. modp (\<lambda>s. s\<lparr>o_reaper := True\<rparr>)))"

definition stop_reaper :: "('k, 'b, unit) op" where
  "stop_reaper = modp (\<lambda>s. s\<lparr>o_reaper := False\<rparr>)"

definition try_restart :: "(string \<Rightarrow> ('b, bool) proc) \<Rightarrow> string \<Rightarrow> ('k, 'b, bool) op" where
  "try_restart restart bid =
     try_except
       (seqp (on_sb (restart bid)) (\<lambda>ok.
          if ok then seqp (count (\<lambda>m. m\<lparr>m_restarted := m_restarted m + 1\<rparr>)) (\<lambda>_. ret True)
          else ret False))
       (\<lambda>_. ret False)"

definition handle_dead :: "('k, 'b) config \<Rightarrow> bool \<Rightarrow> string \<Rightarrow> ('k, 'b, unit) op" where
  "handle_dead E restart_dead bid =
     seqp (readp (\<lambda>s. is_live s bid \<and> bid \<notin> o_killing s)) (\<lambda>live.
     seqp (case (if restart_dead then sb_restart (cf_sb E) else None) of
             None \<Rightarrow> ret False
           | Some restart \<Rightarrow> if live then try_restart restart bid else ret False) (\<lambda>restarted.
       if restarted then ret ()
       else seqp (orch_kill E bid) (\<lambda>r.
              whenp (rc_reaped r) (count (\<lambda>m. m\<lparr>m_swept_dead := m_swept_dead m + 1\<rparr>)))))"

definition reaper_body :: "('k, 'b) config \<Rightarrow> bool \<Rightarrow> ('k, 'b, unit) op" where
  "reaper_body E restart_dead =
     seqp (reconcile E) (\<lambda>_.
     case sb_sweep_dead (cf_sb E) of
       None \<Rightarrow> ret ()
     | Some sweep \<Rightarrow> seqp (on_sb sweep) (\<lambda>dead. for_each dead (handle_dead E restart_dead)))"

definition reaper_pass :: "('k, 'b) config \<Rightarrow> bool \<Rightarrow> ('k, 'b, bool) op" where
  "reaper_pass E restart_dead =
     try_except
       (seqp (reaper_body E restart_dead) (\<lambda>_. ret True))
       (\<lambda>e. if is_runtime_error e then readp (\<lambda>s. \<not> o_closed s) else ret True)"

section \<open>Introspection and teardown\<close>

definition metrics_snapshot :: "('k, 'b, metrics) op" where
  "metrics_snapshot = readp o_metrics"

definition branches :: "('k, 'b, branch list) op" where
  "branches = readp (\<lambda>s. map snd (o_branches s))"

definition orch_alive :: "('k, 'b) config \<Rightarrow> string \<Rightarrow> ('k, 'b, bool) op" where
  "orch_alive E bid =
     seqp (readp (\<lambda>s. is_live s bid)) (\<lambda>live.
       if \<not> live then ret False
       else seqp (on_sb (sb_alive (cf_sb E) bid)) (\<lambda>up.
         if \<not> up then ret False
         else case kb_has_tree (cf_kv E) of None \<Rightarrow> ret True | Some h \<Rightarrow> on_kv (h bid)))"

text \<open>
  \<open>close\<close> waits for work in flight, and a second caller waits for the first.  Without another
  thread that wait does not end: the result is then \<open>None\<close>.
\<close>

definition close_finish :: "('k, 'b, unit) op" where
  "close_finish = modp (\<lambda>s. s\<lparr>o_closed := True, o_closing := False, o_owned := False\<rparr>)"

definition close_sweep :: "('k, 'b) config \<Rightarrow> string list \<Rightarrow> ('k, 'b, unit) op" where
  "close_sweep E bids =
     try_finally (drop_value (fan_out (kill_branch E True) bids)) close_finish"

definition close :: "('k, 'b) config \<Rightarrow> ('k, 'b) orch \<Rightarrow> (('k, 'b) orch, unit) outcome option" where
  "close E s =
     (let s1 = snd (stop_reaper s) in
      if o_closed s1 then Some (Inr (), s1)
      else if o_closing s1 then None
      else if o_spawning s1 \<noteq> {} \<or> o_killing s1 \<noteq> {} then None
      else Some (close_sweep E (map fst (o_branches s1)) (s1\<lparr>o_closing := True\<rparr>)))"

section \<open>Construction\<close>

text \<open>
  \<open>__init__\<close> and \<open>_acquire_registry_lock\<close>: \<open>lock_free\<close> says whether no other orchestrator holds the
  sidecar lock, \<open>file\<close> is what the registry path holds.  A failed construction releases the lock.
\<close>

definition orch_new :: "'k \<Rightarrow> 'b \<Rightarrow> bool \<Rightarrow> real option \<Rightarrow> json option \<Rightarrow> ('k, 'b) orch" where
  "orch_new kv sb registry default_lease file =
     \<lparr>o_kv = kv, o_sb = sb, o_registry = registry, o_default_lease = default_lease, o_seq = 0,
      o_closing = False, o_closed = False, o_branches = [], o_loaded = [], o_spawning = {},
      o_killing = {}, o_metrics = zero_metrics, o_reaper = False, o_owned = registry,
      o_disk = file, o_reads = 0, o_io = 0\<rparr>"

definition load_registry :: "('k, 'b, unit) op" where
  "load_registry s =
     (case (if o_registry s then o_disk s else None) of
        None \<Rightarrow> (Inr (), s)
      | Some doc \<Rightarrow>
         (case load_doc doc of
            Inl e \<Rightarrow> (Inl e, s)
          | Inr bs \<Rightarrow>
             (case initial_seq bs of
                Inl e \<Rightarrow> (Inl e, s)
              | Inr n \<Rightarrow> (Inr (), s\<lparr>o_branches := bs, o_loaded := map fst bs, o_seq := n\<rparr>))))"

definition not_positive :: "real option \<Rightarrow> bool" where
  "not_positive x \<longleftrightarrow> (case x of None \<Rightarrow> False | Some v \<Rightarrow> v \<le> 0)"

definition orch_init :: "'k \<Rightarrow> 'b \<Rightarrow> bool \<Rightarrow> real option \<Rightarrow> real option \<Rightarrow> bool \<Rightarrow> json option \<Rightarrow>
    exc + ('k, 'b) orch" where
  "orch_init kv sb registry default_lease reap_interval lock_free file =
     (if not_positive default_lease \<or> not_positive reap_interval then Inl ValueError
      else if registry \<and> \<not> lock_free then Inl RuntimeError
      else case seqp load_registry (\<lambda>_.
                  case reap_interval of None \<Rightarrow> ret () | Some i \<Rightarrow> start_reaper i)
                (orch_new kv sb registry default_lease file) of
          (Inl e, s) \<Rightarrow> Inl e
        | (Inr _, s) \<Rightarrow> Inr s)"

end
