(* ===== verification/Orchestrator_Laws.thy ===== *)
theory Orchestrator_Laws
  imports Orchestrator
begin

text \<open>
  The invariants of \<open>ForkOrchestrator\<close> and the Hoare triples of its sections: the registry file
  agrees with memory after every method, also when a write fails; no KV tree and no sandbox
  exists without a registry record; a live branch of this process has its KV tree.
\<close>

section \<open>Registry primitives\<close>

text \<open>What the registry file says: the map a new orchestrator would load from it.\<close>

definition disk_says :: "('k, 'b) orch \<Rightarrow> (string \<Rightarrow> branch option) \<Rightarrow> bool" where
  "disk_says s m \<longleftrightarrow>
     (case o_disk s of
        None \<Rightarrow> m = Map.empty
      | Some doc \<Rightarrow> \<exists>bs. load_doc doc = Inr bs \<and> dget bs = m)"

definition ids_ok :: "(string, branch) dict \<Rightarrow> bool" where
  "ids_ok bs \<longleftrightarrow> wf_dict bs \<and> (\<forall>x \<in> set bs. br_id (snd x) = fst x)"

definition reg_inv :: "('k, 'b) orch \<Rightarrow> bool" where
  "reg_inv s \<longleftrightarrow> ids_ok (o_branches s) \<and> set (o_loaded s) \<subseteq> keys (o_branches s) \<and>
     (o_registry s \<longrightarrow> disk_says s (dget (o_branches s)))"

lemma dset_set: "set (dset k v d) \<subseteq> insert (k, v) (set d)"
  by (induction d) auto

lemma ids_ok_dset [simp]: "ids_ok bs \<Longrightarrow> br_id b = k \<Longrightarrow> ids_ok (dset k b bs)"
  using dset_set [of k b bs] by (auto simp: ids_ok_def)

lemma ids_ok_ddel [simp]: "ids_ok bs \<Longrightarrow> ids_ok (ddel k bs)"
  using wf_dict_ddel [of bs k] by (auto simp: ids_ok_def AList.delete_eq)

lemma ids_ok_dget: "ids_ok bs \<Longrightarrow> dget bs k = Some b \<Longrightarrow> br_id b = k"
  by (fastforce simp: ids_ok_def dest: map_of_SomeD)

lemma ids_ok_Nil [simp]: "ids_ok []"
  by (simp add: ids_ok_def)

lemma disk_says_doc: "ids_ok bs \<Longrightarrow> o_disk s = Some (registry_doc bs) \<Longrightarrow> disk_says s (dget bs)"
  by (simp add: disk_says_def ids_ok_def load_registry_doc)

text \<open>A write that fails leaves the file alone; one that succeeds makes it say what memory says.\<close>

definition write_fails :: "('k, 'b) config \<Rightarrow> ('k, 'b) orch \<Rightarrow> bool" where
  "write_fails E s \<longleftrightarrow> o_registry s \<and> cf_io E (o_io s) \<noteq> None"

lemma persist_cases:
  obtains (fail) e where "write_fails E s" "persist E s = (Inl e, s\<lparr>o_io := Suc (o_io s)\<rparr>)"
  | (ok) io disk where "\<not> write_fails E s" "persist E s = (Inr (), s\<lparr>o_io := io, o_disk := disk\<rparr>)"
      "o_registry s \<Longrightarrow> disk = Some (registry_doc (o_branches s))"
proof (cases "write_fails E s")
  case True
  then show ?thesis by (auto simp: write_fails_def persist_def intro: fail)
next
  case False
  show ?thesis
  proof (cases "o_registry s")
    case True
    with False show ?thesis by (intro ok) (auto simp: write_fails_def persist_def)
  next
    case no: False
    with False show ?thesis
      by (intro ok [where io = "o_io s" and disk = "o_disk s"]) (auto simp: persist_def)
  qed
qed

lemma reg_inv_written:
  assumes "ids_ok bs" "set ld \<subseteq> keys bs" "o_registry s \<Longrightarrow> disk = Some (registry_doc bs)"
  shows "reg_inv (s\<lparr>o_branches := bs, o_io := io, o_disk := disk, o_loaded := ld\<rparr>)"
  using assms disk_says_doc [of bs "s\<lparr>o_branches := bs, o_io := io, o_disk := disk, o_loaded := ld\<rparr>"]
  by (simp add: reg_inv_def)

lemma reg_inv_restored:
  assumes "reg_inv s" "ids_ok bs" "dget bs = dget (o_branches s)"
  shows "reg_inv (s\<lparr>o_branches := bs, o_io := io\<rparr>)"
proof -
  have "keys bs = keys (o_branches s)" by (metis assms(3) dget_None_iff set_eqI)
  with assms show ?thesis by (simp add: reg_inv_def disk_says_def)
qed

lemma reg_inv_frame [simp]:
  "reg_inv (s\<lparr>o_kv := k\<rparr>) = reg_inv s" "reg_inv (s\<lparr>o_sb := b\<rparr>) = reg_inv s"
  "reg_inv (s\<lparr>o_seq := n\<rparr>) = reg_inv s" "reg_inv (s\<lparr>o_closing := c\<rparr>) = reg_inv s"
  "reg_inv (s\<lparr>o_closed := c\<rparr>) = reg_inv s" "reg_inv (s\<lparr>o_spawning := sp\<rparr>) = reg_inv s"
  "reg_inv (s\<lparr>o_killing := sp\<rparr>) = reg_inv s" "reg_inv (s\<lparr>o_metrics := m\<rparr>) = reg_inv s"
  "reg_inv (s\<lparr>o_reaper := c\<rparr>) = reg_inv s" "reg_inv (s\<lparr>o_owned := c\<rparr>) = reg_inv s"
  "reg_inv (s\<lparr>o_reads := n\<rparr>) = reg_inv s" "reg_inv (s\<lparr>o_io := n\<rparr>) = reg_inv s"
  by (simp_all add: reg_inv_def disk_says_def)

text \<open>
  What the three bookkeeping primitives do: on a failed write the map in memory is what it was;
  otherwise memory and file have the new map.
\<close>

lemmas op_defs = proc_defs set_branches_def count_def

lemma record_branch_cases:
  assumes "reg_inv s"
  obtains (fail) e bs io where "record_branch E b s = (Inl e, s\<lparr>o_branches := bs, o_io := io\<rparr>)"
      "dget bs = dget (o_branches s)" "ids_ok bs"
  | (ok) io disk where "record_branch E b s = (Inr (), s\<lparr>o_branches := dset (br_id b) b (o_branches s),
        o_io := io, o_disk := disk\<rparr>)"
      "o_registry s \<Longrightarrow> disk = Some (registry_doc (dset (br_id b) b (o_branches s)))"
proof -
  let ?s = "s\<lparr>o_branches := dset (br_id b) b (o_branches s)\<rparr>"
  have ids: "ids_ok (o_branches s)" using assms by (simp add: reg_inv_def)
  show ?thesis
  proof (cases rule: persist_cases [of E ?s])
    case (fail e)
    let ?bs = "case dget (o_branches s) (br_id b) of None \<Rightarrow> ddel (br_id b) (o_branches ?s)
      | Some p \<Rightarrow> dset (br_id b) p (o_branches ?s)"
    have "ids_ok ?bs" using ids ids_ok_dget [OF ids] by (auto split: option.split)
    moreover have "dget ?bs = dget (o_branches s)" by (auto simp: fun_eq_iff split: option.split)
    ultimately show ?thesis
      using fail(2) by (intro that(1) [where e = e and bs = ?bs and io = "Suc (o_io s)"])
        (simp_all add: record_branch_def op_defs split: option.split)
  next
    case (ok io disk)
    then show ?thesis by (intro that(2) [where io = io and disk = disk]) (simp_all add: record_branch_def op_defs)
  qed
qed

lemma forget_cases:
  assumes "reg_inv s"
  obtains (fail) e bs io where "forget E bid s = (Inl e, s\<lparr>o_branches := bs, o_io := io\<rparr>)"
      "dget bs = dget (o_branches s)" "ids_ok bs" "write_fails E s"
  | (ok) io disk where "forget E bid s = (Inr (), s\<lparr>o_branches := ddel bid (o_branches s),
        o_io := io, o_disk := disk, o_loaded := removeAll bid (o_loaded s)\<rparr>)"
      "o_registry s \<Longrightarrow> disk = Some (registry_doc (ddel bid (o_branches s)))" "\<not> write_fails E s"
proof -
  let ?s = "s\<lparr>o_branches := ddel bid (o_branches s)\<rparr>"
  have ids: "ids_ok (o_branches s)" using assms by (simp add: reg_inv_def)
  show ?thesis
  proof (cases rule: persist_cases [of E ?s])
    case (fail e)
    let ?bs = "case dget (o_branches s) bid of None \<Rightarrow> o_branches ?s | Some p \<Rightarrow> dset bid p (o_branches ?s)"
    have "ids_ok ?bs" using ids ids_ok_dget [OF ids] by (auto split: option.split)
    moreover have "dget ?bs = dget (o_branches s)" by (auto simp: fun_eq_iff split: option.split)
    ultimately show ?thesis
      using fail by (intro that(1) [where e = e and bs = ?bs and io = "Suc (o_io s)"])
        (simp_all add: forget_def op_defs write_fails_def split: option.split)
  next
    case (ok io disk)
    then show ?thesis
      by (intro that(2) [where io = io and disk = disk]) (simp_all add: forget_def op_defs write_fails_def)
  qed
qed

lemma replace_branch_cases:
  assumes "reg_inv s" "\<And>b. br_id (f b) = br_id b"
  obtains (none) "dget (o_branches s) bid = None" "replace_branch E bid f s = (Inl (KeyError bid), s)"
  | (fail) e b io where "dget (o_branches s) bid = Some b" "write_fails E s"
      "replace_branch E bid f s = (Inl e, s\<lparr>o_io := io\<rparr>)"
  | (ok) b io disk where "dget (o_branches s) bid = Some b" "\<not> write_fails E s"
      "replace_branch E bid f s = (Inr (f b), s\<lparr>o_branches := dset bid (f b) (o_branches s),
         o_io := io, o_disk := disk\<rparr>)"
      "o_registry s \<Longrightarrow> disk = Some (registry_doc (dset bid (f b) (o_branches s)))"
proof (cases "dget (o_branches s) bid")
  case None
  then show ?thesis by (intro none) (simp_all add: replace_branch_def op_defs)
next
  case (Some b)
  let ?s = "s\<lparr>o_branches := dset bid (f b) (o_branches s)\<rparr>"
  show ?thesis
  proof (cases rule: persist_cases [of E ?s])
    case (fail e)
    then show ?thesis
      using Some by (intro that(2) [where b = b and e = e and io = "Suc (o_io s)"])
        (simp_all add: replace_branch_def op_defs write_fails_def update_triv)
  next
    case (ok io disk)
    then show ?thesis
      using Some by (intro that(3) [where b = b and io = io and disk = disk])
        (simp_all add: replace_branch_def op_defs write_fails_def)
  qed
qed

section \<open>Memory and file agree\<close>

lemma keeps_attempt [keeps]: "keeps P m \<Longrightarrow> keeps P (attempt m)"
  unfolding attempt_def by (intro keeps)

lemma keeps_drop_value [keeps]: "keeps P m \<Longrightarrow> keeps P (drop_value m)"
  unfolding drop_value_def by (intro keeps)

lemma snd_fan_out: "snd (fan_out f xs s) = snd (snd (fan_out_loop f xs s))"
  by (auto simp: fan_out_def split: prod.split option.split)

lemma keeps_fan_out [keeps]:
  assumes "\<And>x. x \<in> set xs \<Longrightarrow> keeps P (f x)"
  shows "keeps P (fan_out f xs)"
proof -
  have "P s \<Longrightarrow> P (snd (snd (fan_out_loop f xs s)))" for s
    using assms
  proof (induction f xs s rule: fan_out_loop.induct)
    case (2 f x xs s)
    obtain r s' where r: "f x s = (r, s')" by fastforce
    then have "P s'" using "2.prems" keeps_snd [of P "f x" s] by simp
    then have "P (snd (snd (fan_out_loop f xs s')))" using "2.IH" r "2.prems" by simp
    then show ?case by (auto simp: r split: prod.split sum.split)
  qed simp
  then show ?thesis by (intro keepsI) (simp add: snd_fan_out)
qed

lemma keeps_on_kv: "(\<And>s. P s \<Longrightarrow> P (s\<lparr>o_kv := snd (m (o_kv s))\<rparr>)) \<Longrightarrow> keeps P (on_kv m)"
  by (intro keepsI) (simp add: on_kv_def case_prod_unfold)

lemma keeps_on_sb: "(\<And>s. P s \<Longrightarrow> P (s\<lparr>o_sb := snd (m (o_sb s))\<rparr>)) \<Longrightarrow> keeps P (on_sb m)"
  by (intro keepsI) (simp add: on_sb_def case_prod_unfold)

lemma reg_record [keeps]: "keeps reg_inv (record_branch E b)" for E :: "('k, 'b) config"
proof (rule keepsI)
  fix s :: "('k, 'b) orch" assume inv: "reg_inv s"
  then have ld: "set (o_loaded s) \<subseteq> keys (dset (br_id b) b (o_branches s))" "ids_ok (o_branches s)"
    by (auto simp: reg_inv_def)
  from inv show "reg_inv (snd (record_branch E b s))"
  proof (cases rule: record_branch_cases [where E = E and b = b])
    case (fail e bs io)
    then show ?thesis using reg_inv_restored [OF inv] by simp
  next
    case (ok io disk)
    then show ?thesis using reg_inv_written [OF _ ld(1), of s disk io] ld(2) by simp
  qed
qed

lemma reg_forget [keeps]: "keeps reg_inv (forget E bid)" for E :: "('k, 'b) config"
proof (rule keepsI)
  fix s :: "('k, 'b) orch" assume inv: "reg_inv s"
  then have ld: "set (removeAll bid (o_loaded s)) \<subseteq> keys (ddel bid (o_branches s))" "ids_ok (o_branches s)"
    by (auto simp: reg_inv_def)
  from inv show "reg_inv (snd (forget E bid s))"
  proof (cases rule: forget_cases [where E = E and bid = bid])
    case (fail e bs io)
    then show ?thesis using reg_inv_restored [OF inv] by simp
  next
    case (ok io disk)
    then show ?thesis using reg_inv_written [OF _ ld(1), of s disk io] ld(2) by simp
  qed
qed

lemma reg_replace:
  fixes E :: "('k, 'b) config"
  assumes f: "\<And>b. br_id (f b) = br_id b"
  shows "keeps reg_inv (replace_branch E bid f)"
proof (rule keepsI)
  fix s :: "('k, 'b) orch" assume inv: "reg_inv s"
  then have ids: "ids_ok (o_branches s)" and ld: "set (o_loaded s) \<subseteq> keys (dset bid x (o_branches s))" for x
    by (auto simp: reg_inv_def)
  from inv f show "reg_inv (snd (replace_branch E bid f s))"
  proof (cases rule: replace_branch_cases [where E = E and bid = bid])
    case none
    then show ?thesis using inv by simp
  next
    case (fail e b io)
    then show ?thesis using inv by simp
  next
    case (ok b io disk)
    then have "br_id b = bid" by (metis ids ids_ok_dget)
    then show ?thesis using ok reg_inv_written [OF _ ld, of "f b" s disk io] ids f by simp
  qed
qed

text \<open>The primitives that do not touch the registry.\<close>

lemma keeps_count: "(\<And>s. P s \<Longrightarrow> P (s\<lparr>o_metrics := f (o_metrics s)\<rparr>)) \<Longrightarrow> keeps P (count f)"
  unfolding count_def by (intro keeps)

lemma keeps_read_clock: "(\<And>s n. P s \<Longrightarrow> P (s\<lparr>o_reads := n\<rparr>)) \<Longrightarrow> keeps P (read_clock E)"
  by (intro keepsI) (simp add: read_clock_def)

lemma keeps_ensure_open [keeps]: "keeps P (ensure_open allow)"
  unfolding ensure_open_def by (intro keeps)

lemma keeps_next_child_id: "(\<And>s n. P s \<Longrightarrow> P (s\<lparr>o_seq := n\<rparr>)) \<Longrightarrow> keeps P (next_child_id parent)"
  by (intro keepsI) (simp add: next_child_id_def Let_def)

lemma keeps_lease_expiry:
  "(\<And>s n. P s \<Longrightarrow> P (s\<lparr>o_reads := n\<rparr>)) \<Longrightarrow> keeps P (lease_expiry E lease)"
  unfolding lease_expiry_def by (intro keeps keeps_read_clock)

lemma keeps_plan_children:
  assumes "\<And>s n. P s \<Longrightarrow> P (s\<lparr>o_reads := n\<rparr>)" "\<And>s n. P s \<Longrightarrow> P (s\<lparr>o_seq := n\<rparr>)"
  shows "keeps P (plan_children E parent lease ids children)"
  by (induction ids arbitrary: children)
    (simp_all, (intro keeps keeps_read_clock keeps_lease_expiry keeps_next_child_id assms; assumption)+)

lemma keeps_need_live [keeps]: "keeps P (need_live bid)"
  unfolding need_live_def by (intro keeps)

lemma reg_simple [keeps]:
  "keeps reg_inv (on_kv m)" "keeps reg_inv (on_sb m')" "keeps reg_inv (count f)"
  "keeps reg_inv (read_clock E)" "keeps reg_inv (lease_expiry E lease)"
  "keeps reg_inv (plan_children E parent lease ids children)"
  by (intro keeps_on_kv keeps_on_sb keeps_count keeps_read_clock keeps_lease_expiry
      keeps_plan_children; simp)+

lemma reg_states [keeps]:
  "keeps reg_inv (mark_live E bid)"
  "keeps reg_inv (replace_branch E bid (\<lambda>b. b\<lparr>br_state := st\<rparr>))"
  "keeps reg_inv (replace_branch E bid (\<lambda>b. b\<lparr>br_lease := l\<rparr>))"
  unfolding mark_live_def by (intro reg_replace; simp)+

lemma ids_ok_add_all [simp]: "ids_ok bs \<Longrightarrow> ids_ok (add_all children bs)"
  unfolding add_all_def by (induction children arbitrary: bs) simp_all

lemma ids_ok_drop_all [simp]: "ids_ok bs \<Longrightarrow> ids_ok (drop_all children bs)"
  unfolding drop_all_def by (induction children arbitrary: bs) simp_all

lemma keys_add_all [simp]: "keys (add_all children bs) = br_id ` set children \<union> keys bs"
  unfolding add_all_def by (induction children arbitrary: bs) (simp_all add: Un_commute insert_commute)

lemma dget_drop_all: "dget (drop_all children bs) k = (if k \<in> br_id ` set children then None else dget bs k)"
  unfolding drop_all_def by (induction children arbitrary: bs) auto

lemma dget_add_all_other: "k \<notin> br_id ` set children \<Longrightarrow> dget (add_all children bs) k = dget bs k"
  unfolding add_all_def by (induction children arbitrary: bs) auto

lemma drop_add_all:
  "br_id ` set children \<inter> keys bs = {} \<Longrightarrow> dget (drop_all children (add_all children bs)) = dget bs"
  by (rule ext) (auto simp: dget_drop_all dget_add_all_other dget_None_iff [THEN iffD2] disjoint_iff)

text \<open>The children that \<open>fork\<close> plans have new, distinct ids.\<close>

definition planned :: "string \<Rightarrow> (string, branch) dict \<Rightarrow> branch list \<Rightarrow> bool" where
  "planned parent bs cs \<longleftrightarrow> distinct (map br_id cs) \<and>
     (\<forall>c \<in> set cs. br_id c \<notin> keys bs \<and> br_state c = STATE_FORKING \<and> br_parent c = Some parent)"

lemma plan_children_planned:
  "triple (\<lambda>s. o_branches s = bs \<and> planned parent bs children) (plan_children E parent lease ids children)
     (\<lambda>cs s. o_branches s = bs \<and> planned parent bs cs \<and> length cs = length children + length ids)
     (\<lambda>s. o_branches s = bs)"
proof (induction ids arbitrary: children)
  case Nil
  then show ?case by (auto intro: triples)
next
  case (Cons wanted ids)
  let ?P = "\<lambda>s. o_branches s = bs \<and> planned parent bs children"
  let ?F = "\<lambda>c s. ?P s \<and> c \<notin> keys bs \<and> (\<forall>x \<in> set children. br_id x \<noteq> c)"
  have keepsF: "triple (?F c) (read_clock E) (\<lambda>_. ?F c) (\<lambda>s. o_branches s = bs)"
      "triple (?F c) (lease_expiry E lease) (\<lambda>_. ?F c) (\<lambda>s. o_branches s = bs)" for c
    by (auto intro!: keeps_weaken keeps_read_clock keeps_lease_expiry)
  have "triple ?P (case wanted of Some c \<Rightarrow> ret c | None \<Rightarrow> next_child_id parent) (\<lambda>_. ?P) (\<lambda>s. o_branches s = bs)"
    by (cases wanted) (auto intro!: triple_ret keeps_weaken keeps_next_child_id)
  moreover have "triple ?P (raise_if (\<lambda>s. c \<in> keys (o_branches s) \<or> (\<exists>x \<in> set children. br_id x = c)) ValueError)
      (\<lambda>_. ?F c) (\<lambda>s. o_branches s = bs)" for c
    by (auto intro!: triple_raise_if)
  moreover have "triple (?F c) (plan_children E parent lease ids (children @ [\<lparr>br_id = c,
      br_parent = Some parent, br_state = STATE_FORKING, br_created = now, br_lease = l\<rparr>]))
      (\<lambda>cs s. o_branches s = bs \<and> planned parent bs cs \<and> length cs = length children + length (wanted # ids))
      (\<lambda>s. o_branches s = bs)" for c now l
    by (rule triple_conseq [OF Cons.IH]) (auto simp: planned_def)
  ultimately show ?case
    using keepsF by (auto intro!: triple_seqp)
qed

lemma journal_children_cases:
  assumes "reg_inv s" "planned parent (o_branches s) cs"
  obtains (fail) e bs io where "journal_children E cs s = (Inl e, s\<lparr>o_branches := bs, o_io := io\<rparr>)"
      "dget bs = dget (o_branches s)" "ids_ok bs"
  | (ok) io disk where "journal_children E cs s = (Inr (), s\<lparr>o_branches := add_all cs (o_branches s),
        o_io := io, o_disk := disk\<rparr>)"
      "o_registry s \<Longrightarrow> disk = Some (registry_doc (add_all cs (o_branches s)))"
proof -
  let ?s = "s\<lparr>o_branches := add_all cs (o_branches s)\<rparr>"
  have ids: "ids_ok (o_branches s)" using assms(1) by (simp add: reg_inv_def)
  have new: "br_id ` set cs \<inter> keys (o_branches s) = {}" using assms(2) by (auto simp: planned_def)
  show ?thesis
  proof (cases rule: persist_cases [of E ?s])
    case (fail e)
    then show ?thesis
      using ids drop_add_all [OF new]
      by (intro that(1) [where e = e and bs = "drop_all cs (add_all cs (o_branches s))" and io = "Suc (o_io s)"])
        (simp_all add: journal_children_def op_defs)
  next
    case (ok io disk)
    then show ?thesis
      by (intro that(2) [where io = io and disk = disk]) (simp_all add: journal_children_def op_defs)
  qed
qed

lemma reg_journal_children:
  "triple (\<lambda>s. reg_inv s \<and> planned parent (o_branches s) cs) (journal_children E cs) (\<lambda>_. reg_inv) reg_inv"
proof -
  have "reg_inv (snd (journal_children E cs s))" if *: "reg_inv s" "planned parent (o_branches s) cs" for s
  proof -
    have ld: "set (o_loaded s) \<subseteq> keys (add_all cs (o_branches s))" "ids_ok (o_branches s)"
      using *(1) by (auto simp: reg_inv_def)
    from * show ?thesis
    proof (cases rule: journal_children_cases [where E = E])
      case (fail e bs io)
      then show ?thesis using reg_inv_restored [OF *(1)] by simp
    next
      case (ok io disk)
      then show ?thesis using reg_inv_written [OF _ ld(1), of s disk io] ld(2) by simp
    qed
  qed
  then show ?thesis by (intro tripleI) (metis snd_conv)+
qed

lemma triple_frame:
  "triple P m Q R \<Longrightarrow> keeps I m \<Longrightarrow> triple (\<lambda>s. I s \<and> P s) m (\<lambda>x s. I s \<and> Q x s) I"
  by (rule tripleI) (blast dest: tripleD)+

lemma reg_plan:
  "triple reg_inv (plan_children E parent lease ids [])
     (\<lambda>cs s. reg_inv s \<and> planned parent (o_branches s) cs) reg_inv"
proof (rule tripleI)
  fix s e s' assume "reg_inv s" "plan_children E parent lease ids [] s = (Inl e, s')"
  then show "reg_inv s'" using keeps_snd [OF reg_simple(6)] by (metis snd_conv)
next
  fix s cs s' assume *: "reg_inv s" "plan_children E parent lease ids [] s = (Inr cs, s')"
  have "o_branches s = o_branches s \<and> planned parent (o_branches s) []" by (simp add: planned_def)
  from tripleD(2) [OF plan_children_planned this *(2)]
  have "planned parent (o_branches s') cs" by simp
  then show "reg_inv s' \<and> planned parent (o_branches s') cs"
    using * keeps_snd [OF reg_simple(6)] by (metis snd_conv)
qed

lemma reg_fork_begin [keeps]: "keeps reg_inv (fork_begin E parent n child_ids lease)"
  unfolding fork_begin_def
  by (intro keeps_seqp keeps triple_seqp [OF reg_plan] triple_seqp [OF reg_journal_children]) simp

lemma reg_sections [keeps]:
  "keeps reg_inv (rollback_branch E bid)" "keeps reg_inv (create_begin E bid tokens lease)"
  "keeps reg_inv (create_backends E bid tokens)" "keeps reg_inv (spawn_end bid)"
  "keeps reg_inv (fork_backends E parent bid)" "keeps reg_inv (commit_child E parent bid)"
  "keeps reg_inv (kill_begin E allow bid)" "keeps reg_inv (kill_backends E bid)"
  "keeps reg_inv (kill_failed bid)" "keeps reg_inv (kill_done E bid)"
  unfolding rollback_branch_def create_begin_def create_backends_def spawn_end_def fork_backends_def
    commit_child_def kill_begin_def kill_backends_def kill_failed_def kill_done_def
  by (intro keeps; simp)+

lemma reg_kill [keeps]: "keeps reg_inv (kill_branch E allow bid)" "keeps reg_inv (orch_kill E bid)"
  unfolding orch_kill_def kill_branch_def by (intro keeps)+

lemma reg_ops [keeps]:
  "keeps reg_inv (create_parent E bid tokens lease)" "keeps reg_inv (spawn_one E parent b)"
  "keeps reg_inv (orch_extend E bid tokens)" "keeps reg_inv (orch_generate E bid prompt params fin rsv)"
  "keeps reg_inv (orch_exec E bid argv tmo inp)" "keeps reg_inv (orch_exec_detached E bid argv)"
  "keeps reg_inv (export_artifact E bid src dst)" "keeps reg_inv (renew_lease E bid l)"
  "keeps reg_inv (reap_expired E)" "keeps reg_inv (reconcile E)" "keeps reg_inv (orch_alive E bid)"
  "keeps reg_inv (start_reaper i)" "keeps reg_inv stop_reaper" "keeps reg_inv (try_restart rs bid)"
  unfolding create_parent_def spawn_one_def Let_def orch_extend_def orch_generate_def orch_exec_def
    orch_exec_detached_def export_artifact_def renew_lease_def reap_expired_def reconcile_def
    orch_alive_def start_reaper_def stop_reaper_def try_restart_def count_exec_def
  by (intro keeps; simp)+

lemma reg_composed [keeps]:
  "keeps reg_inv (fork E parent n child_ids lease)" "keeps reg_inv (handle_dead E rd bid)"
  "keeps reg_inv (close_sweep E bids)"
  unfolding fork_def handle_dead_def close_sweep_def close_finish_def
  by (intro keeps; simp)+

lemma reg_reaper_pass [keeps]: "keeps reg_inv (reaper_pass E rd)"
  unfolding reaper_pass_def reaper_body_def by (intro keeps)

text \<open>The loops that may not return: if they do, the state is one that kills alone lead to.\<close>

lemma settle_loser_keeps:
  assumes "\<And>bid. keeps P (orch_kill E bid)" "P s" "settle_loser E bid receipts s = Some (r, s')"
  shows "P s'"
proof -
  have "E = E \<longrightarrow> P s \<longrightarrow> P (snd (r, s'))"
  proof (rule settle_loser.raw_induct [where P = "\<lambda>E' bid receipts s y. E' = E \<longrightarrow> P s \<longrightarrow> P (snd y)",
        OF _ assms(3)])
    fix settle E' bid receipts s y
    assume IH: "\<And>E' bid receipts s y. settle E' bid receipts s = Some y \<Longrightarrow> E' = E \<longrightarrow> P s \<longrightarrow> P (snd y)"
      and body: "(if (case dget receipts bid of None \<Rightarrow> False | Some r \<Rightarrow> rc_reaped r) then Some (Inr receipts, s)
        else if bid \<notin> keys (o_branches s) then Some (Inr receipts, s)
        else if bid \<in> o_spawning s \<or> bid \<in> o_killing s then settle E' bid receipts s
        else case orch_kill E' bid s of
            (Inl e, s') \<Rightarrow> Some (Inl e, s')
          | (Inr r, s') \<Rightarrow> settle E' bid (dset bid r receipts) s') = Some y"
    show "E' = E \<longrightarrow> P s \<longrightarrow> P (snd y)"
      using body IH keeps_snd [OF assms(1), of s bid]
      by (cases y) (fastforce split: if_splits prod.splits sum.splits)
  qed
  with assms(2) show ?thesis by simp
qed

lemma settle_all_keeps:
  assumes "\<And>bid. keeps P (orch_kill E bid)"
  shows "P s \<Longrightarrow> settle_all E bids receipts s = Some (r, s') \<Longrightarrow> P s'"
proof (induction bids arbitrary: receipts s)
  case (Cons bid bids)
  then show ?case
    using settle_loser_keeps [OF assms Cons.prems(1)]
    by (fastforce split: option.splits prod.splits sum.splits)
qed simp

lemma kill_losers_keeps:
  assumes "\<And>bid. keeps P (orch_kill E bid)" "P s" "kill_losers E winner s = Some (r, s')"
  shows "P s'"
proof -
  let ?m = "seqp (losers_begin winner) (\<lambda>losers.
    seqp (fan_out (orch_kill E) losers) (\<lambda>rs. ret (losers, receipt_dict rs)))"
  have "keeps P ?m" unfolding losers_begin_def by (intro keeps assms(1))
  then have "P (snd (?m s))" using assms(2) by (rule keeps_snd)
  then show ?thesis
    using assms(3) settle_all_keeps [OF assms(1)]
    by (auto simp: kill_losers_def split: option.splits prod.splits sum.splits)
qed

lemma close_keeps:
  assumes "\<And>s c. P s \<Longrightarrow> P (s\<lparr>o_reaper := c\<rparr>)" "\<And>s c. P s \<Longrightarrow> P (s\<lparr>o_closing := c\<rparr>)"
    and "\<And>bids. keeps P (close_sweep E bids)" "P s" "close E s = Some (r, s')"
  shows "P s'"
  using assms(4,5) keeps_snd [OF assms(3)] assms(1,2)
  by (auto simp: close_def stop_reaper_def modp_def Let_def split: if_splits) (metis snd_conv)

section \<open>Every method as a step\<close>

datatype call =
    CallCreate string "int list" "real option"
  | CallFork string int "string list option" "real option"
  | CallExtend string "int list"
  | CallGenerate string json json bool "int option"
  | CallExec string "string list" "real option" "string option"
  | CallExecDetached string "string list"
  | CallExport string string string
  | CallKill string
  | CallKillLosers string
  | CallRenew string real
  | CallReapExpired
  | CallReconcile
  | CallReaperPass bool
  | CallStartReaper real
  | CallStopReaper
  | CallAlive string
  | CallClose

text \<open>The state a call leaves, whatever its outcome; \<open>None\<close> when it waits for ever.\<close>

fun orch_step :: "('k, 'b) config \<Rightarrow> call \<Rightarrow> ('k, 'b) orch \<Rightarrow> ('k, 'b) orch option" where
  "orch_step E (CallCreate b toks l) s = Some (snd (create_parent E b toks l s))"
| "orch_step E (CallFork p n cs l) s = Some (snd (fork E p n cs l s))"
| "orch_step E (CallExtend b toks) s = Some (snd (orch_extend E b toks s))"
| "orch_step E (CallGenerate b p sp fin r) s = Some (snd (orch_generate E b p sp fin r s))"
| "orch_step E (CallExec b argv t i) s = Some (snd (orch_exec E b argv t i s))"
| "orch_step E (CallExecDetached b argv) s = Some (snd (orch_exec_detached E b argv s))"
| "orch_step E (CallExport b x y) s = Some (snd (export_artifact E b x y s))"
| "orch_step E (CallKill b) s = Some (snd (orch_kill E b s))"
| "orch_step E (CallKillLosers b) s = map_option snd (kill_losers E b s)"
| "orch_step E (CallRenew b l) s = Some (snd (renew_lease E b l s))"
| "orch_step E CallReapExpired s = Some (snd (reap_expired E s))"
| "orch_step E CallReconcile s = Some (snd (reconcile E s))"
| "orch_step E (CallReaperPass rd) s = Some (snd (reaper_pass E rd s))"
| "orch_step E (CallStartReaper i) s = Some (snd (start_reaper i s))"
| "orch_step E CallStopReaper s = Some (snd (stop_reaper s))"
| "orch_step E (CallAlive b) s = Some (snd (orch_alive E b s))"
| "orch_step E CallClose s = map_option snd (close E s)"

text \<open>
  The callers' side: a child id given to \<open>fork\<close> is not empty (\<open>TreeKVCache\<close> would replace it), and
  \<open>ends\<close> has the branches for which \<open>generate\<close> is called with \<open>branch_end\<close>.
\<close>

fun call_ok :: "string set \<Rightarrow> call \<Rightarrow> bool" where
  "call_ok ends (CallFork p n cs l) \<longleftrightarrow> (case cs of None \<Rightarrow> True | Some ids \<Rightarrow> [] \<notin> set ids)"
| "call_ok ends (CallGenerate b p sp fin r) \<longleftrightarrow> (fin \<longrightarrow> b \<in> ends)"
| "call_ok ends _ \<longleftrightarrow> True"

text \<open>The calls that may use \<open>restart\<close> of the sandbox: a pass of the reaper started with \<open>restart_dead=True\<close>.\<close>

fun restarts_dead :: "call \<Rightarrow> bool" where
  "restarts_dead (CallReaperPass rd) \<longleftrightarrow> rd"
| "restarts_dead _ \<longleftrightarrow> False"

lemma reg_step:
  assumes "reg_inv s" "orch_step E c s = Some s'"
  shows "reg_inv s'"
proof (cases c)
  case (CallKillLosers b)
  then show ?thesis using assms kill_losers_keeps [OF reg_kill(2)] by fastforce
next
  case CallClose
  then show ?thesis using assms close_keeps [where P = reg_inv, OF _ _ reg_composed(3)] by fastforce
qed (use assms in \<open>auto intro!: keeps_snd [where P = reg_inv] keeps\<close>)

section \<open>The invariant with the backends\<close>

text \<open>No resource without a record, and a KV tree for every live branch of this process that no
  \<open>generate\<close> ends.\<close>

definition covered :: "('k \<Rightarrow> string set) \<Rightarrow> ('k \<Rightarrow> bool) \<Rightarrow> ('b \<Rightarrow> string set) \<Rightarrow> ('b \<Rightarrow> bool) \<Rightarrow>
    ('k, 'b) orch \<Rightarrow> bool" where
  "covered trees kinv boxes binv s \<longleftrightarrow> kinv (o_kv s) \<and> binv (o_sb s) \<and>
     trees (o_kv s) \<union> boxes (o_sb s) \<subseteq> keys (o_branches s)"

definition backed :: "('k \<Rightarrow> string set) \<Rightarrow> string set \<Rightarrow> ('k, 'b) orch \<Rightarrow> bool" where
  "backed trees ends s \<longleftrightarrow>
     (\<forall>b. is_live s b \<and> b \<notin> set (o_loaded s) \<and> b \<notin> ends \<longrightarrow> b \<in> trees (o_kv s))"

definition sys_inv :: "('k \<Rightarrow> string set) \<Rightarrow> ('k \<Rightarrow> bool) \<Rightarrow> ('b \<Rightarrow> string set) \<Rightarrow> ('b \<Rightarrow> bool) \<Rightarrow> string set \<Rightarrow>
    ('k, 'b) orch \<Rightarrow> bool" where
  "sys_inv trees kinv boxes binv ends s \<longleftrightarrow> reg_inv s \<and> covered trees kinv boxes binv s \<and> backed trees ends s"

lemmas sys_inv_defs = sys_inv_def covered_def backed_def is_live_def

text \<open>A branch that a section works on: recorded and not live.\<close>

definition mine :: "string \<Rightarrow> ('k, 'b) orch \<Rightarrow> bool" where
  "mine bid s \<longleftrightarrow> bid \<in> keys (o_branches s) \<and> \<not> is_live s bid"

lemma sys_inv_frame [simp]:
  "sys_inv t i b v e (s\<lparr>o_seq := n\<rparr>) = sys_inv t i b v e s"
  "sys_inv t i b v e (s\<lparr>o_closing := c\<rparr>) = sys_inv t i b v e s"
  "sys_inv t i b v e (s\<lparr>o_closed := c\<rparr>) = sys_inv t i b v e s"
  "sys_inv t i b v e (s\<lparr>o_spawning := sp\<rparr>) = sys_inv t i b v e s"
  "sys_inv t i b v e (s\<lparr>o_killing := sp\<rparr>) = sys_inv t i b v e s"
  "sys_inv t i b v e (s\<lparr>o_metrics := m\<rparr>) = sys_inv t i b v e s"
  "sys_inv t i b v e (s\<lparr>o_reaper := c\<rparr>) = sys_inv t i b v e s"
  "sys_inv t i b v e (s\<lparr>o_owned := c\<rparr>) = sys_inv t i b v e s"
  "sys_inv t i b v e (s\<lparr>o_reads := n\<rparr>) = sys_inv t i b v e s"
  "sys_inv t i b v e (s\<lparr>o_io := n\<rparr>) = sys_inv t i b v e s"
  by (simp_all add: sys_inv_defs)

lemma mine_frame [simp]:
  "mine x (s\<lparr>o_kv := k\<rparr>) = mine x s" "mine x (s\<lparr>o_sb := bb\<rparr>) = mine x s"
  "mine x (s\<lparr>o_spawning := sp\<rparr>) = mine x s" "mine x (s\<lparr>o_killing := sp\<rparr>) = mine x s"
  "mine x (s\<lparr>o_metrics := m\<rparr>) = mine x s" "mine x (s\<lparr>o_io := n\<rparr>) = mine x s"
  by (simp_all add: mine_def is_live_def)

text \<open>A restored registry is, for the invariant, the one before.\<close>

lemma sys_inv_restored:
  assumes "sys_inv t i b v e s" "ids_ok bs" "dget bs = dget (o_branches s)"
  shows "sys_inv t i b v e (s\<lparr>o_branches := bs, o_io := io\<rparr>)"
    and "mine x (s\<lparr>o_branches := bs, o_io := io\<rparr>) = mine x s"
proof -
  have "keys bs = keys (o_branches s)" by (metis assms(3) dget_None_iff set_eqI)
  with assms reg_inv_restored [OF _ assms(2,3)]
  show "sys_inv t i b v e (s\<lparr>o_branches := bs, o_io := io\<rparr>)"
    "mine x (s\<lparr>o_branches := bs, o_io := io\<rparr>) = mine x s"
    by (simp_all add: sys_inv_defs mine_def)
qed

section \<open>Work on one branch leaves the others alone\<close>

definition entry :: "string \<Rightarrow> branch option \<Rightarrow> ('k, 'b) orch \<Rightarrow> bool" where
  "entry d v s \<longleftrightarrow> dget (o_branches s) d = v"

lemma entry_frame [simp]:
  "entry d v (s\<lparr>o_kv := k\<rparr>) = entry d v s" "entry d v (s\<lparr>o_sb := b\<rparr>) = entry d v s"
  "entry d v (s\<lparr>o_seq := n\<rparr>) = entry d v s" "entry d v (s\<lparr>o_closing := c\<rparr>) = entry d v s"
  "entry d v (s\<lparr>o_closed := c\<rparr>) = entry d v s" "entry d v (s\<lparr>o_spawning := sp\<rparr>) = entry d v s"
  "entry d v (s\<lparr>o_killing := sp\<rparr>) = entry d v s" "entry d v (s\<lparr>o_metrics := m\<rparr>) = entry d v s"
  "entry d v (s\<lparr>o_reaper := c\<rparr>) = entry d v s" "entry d v (s\<lparr>o_owned := c\<rparr>) = entry d v s"
  "entry d v (s\<lparr>o_reads := n\<rparr>) = entry d v s" "entry d v (s\<lparr>o_io := n\<rparr>) = entry d v s"
  "entry d v (s\<lparr>o_loaded := l\<rparr>) = entry d v s"
  by (simp_all add: entry_def)

lemma entry_persist [keeps]: "keeps (entry d v) (persist E)"
  by (intro keepsI) (auto simp: persist_def entry_def split: option.split)

lemma entry_set_branches:
  "(\<And>bs. dget (f bs) d = dget bs d) \<Longrightarrow> keeps (entry d v) (set_branches f)"
  unfolding set_branches_def by (intro keeps) (simp add: entry_def)

lemma entry_simple [keeps]:
  "keeps (entry d v) (on_kv m)" "keeps (entry d v) (on_sb m')" "keeps (entry d v) (count f)"
  "keeps (entry d v) (read_clock E)" "keeps (entry d v) (lease_expiry E lease)"
  "keeps (entry d v) (plan_children E parent lease ids children)"
  by (intro keeps_on_kv keeps_on_sb keeps_count keeps_read_clock keeps_lease_expiry
      keeps_plan_children; simp)+

lemma entry_registry:
  assumes "d \<noteq> x"
  shows "keeps (entry d v) (forget E x)" "keeps (entry d v) (replace_branch E x f)"
    "br_id b = x \<Longrightarrow> keeps (entry d v) (record_branch E b)"
  unfolding forget_def replace_branch_def record_branch_def
  using assms by (intro keeps entry_set_branches; auto split: option.split)+

lemma entry_work:
  assumes "d \<noteq> x"
  shows "keeps (entry d v) (rollback_branch E x)" "keeps (entry d v) (mark_live E x)"
    "br_id b = x \<Longrightarrow> keeps (entry d v) (spawn_one E p b)"
    "keeps (entry d v) (kill_branch E allow x)" "keeps (entry d v) (create_begin E x tokens lease)"
    "keeps (entry d v) (create_parent E x tokens lease)"
  unfolding rollback_branch_def mark_live_def spawn_one_def Let_def fork_backends_def commit_child_def
    spawn_end_def kill_branch_def kill_begin_def kill_backends_def kill_failed_def kill_done_def
    create_parent_def create_begin_def create_backends_def
  by (intro keeps entry_registry [OF assms]; simp)+

lemma keeps_entry_dep:
  fixes m :: "('k, 'b, 'a) op"
  assumes "\<And>v. keeps (entry d v) m"
  shows "keeps (\<lambda>s. Q (dget (o_branches s) d)) m"
proof (rule keepsI)
  fix s :: "('k, 'b) orch" assume "Q (dget (o_branches s) d)"
  moreover have "entry d (dget (o_branches s) d) (snd (m s))"
    by (rule keeps_snd [OF assms]) (simp add: entry_def)
  ultimately show "Q (dget (o_branches (snd (m s))) d)" by (simp add: entry_def)
qed

lemma mine_entry: "mine d s \<longleftrightarrow> (case dget (o_branches s) d of None \<Rightarrow> False | Some b \<Rightarrow> br_state b \<noteq> STATE_LIVE)"
  by (auto simp: mine_def is_live_def dget_None_iff split: option.split dest: dget_Some_keys)

lemma keeps_mine: fixes m :: "('k, 'b, 'a) op" shows "(\<And>v. keeps (entry d v) m) \<Longrightarrow> keeps (mine d) m"
  unfolding mine_entry [abs_def] by (rule keeps_entry_dep)

lemma triple_fan_out:
  assumes "distinct xs" "\<And>x. x \<in> set xs \<Longrightarrow> triple (\<lambda>s. I s \<and> A x s) (f x) (\<lambda>_. I) I"
    and "\<And>x y. x \<in> set xs \<Longrightarrow> y \<in> set xs \<Longrightarrow> x \<noteq> y \<Longrightarrow> keeps (A y) (f x)"
  shows "triple (\<lambda>s. I s \<and> (\<forall>x \<in> set xs. A x s)) (fan_out f xs) (\<lambda>_. I) I"
proof -
  have "I (snd (snd (fan_out_loop f xs s)))" if "I s" "\<forall>x \<in> set xs. A x s" for s
    using assms that
  proof (induction f xs s rule: fan_out_loop.induct)
    case (2 f x xs s)
    obtain r s' where r: "f x s = (r, s')" by fastforce
    have "triple (\<lambda>s. I s \<and> A x s) (f x) (\<lambda>_. I) I" using "2.prems"(2) by simp
    then have "I s'"
      using "2.prems"(4,5) r tripleD [where P = "\<lambda>s. I s \<and> A x s" and m = "f x" and s = s]
      by (cases r) auto
    moreover have "\<forall>y \<in> set xs. A y s'"
    proof
      fix y assume y: "y \<in> set xs"
      then have "keeps (A y) (f x)" using "2.prems"(1,3) by auto
      then show "A y s'" using keeps_snd [of "A y" "f x" s] "2.prems"(5) r y by simp
    qed
    ultimately have "I (snd (snd (fan_out_loop f xs s')))"
      using "2.IH" [OF r [symmetric]] "2.prems" by simp
    then show ?case by (auto simp: r split: prod.split sum.split)
  qed simp
  then show ?thesis by (intro tripleI) (metis snd_conv snd_fan_out)+
qed

lemma dget_add_all:
  "distinct (map br_id cs) \<Longrightarrow> c \<in> set cs \<Longrightarrow> dget (add_all cs bs) (br_id c) = Some c"
proof (induction cs arbitrary: bs)
  case (Cons x cs)
  have unfold: "add_all (x # cs) bs = add_all cs (dset (br_id x) x bs)" by (simp add: add_all_def)
  show ?case
  proof (cases "c \<in> set cs")
    case True
    with Cons show ?thesis by (simp add: unfold)
  next
    case False
    with Cons.prems have "c = x" "br_id x \<notin> br_id ` set cs" by auto
    then show ?thesis by (simp add: unfold dget_add_all_other)
  qed
qed simp

end
