(* ===== verification/Orchestrator_Safety.thy ===== *)
theory Orchestrator_Safety
  imports Orchestrator_Laws
begin

text \<open>
  The orchestrator over any two backends that keep their contracts: every section and every
  method preserves the invariant, so no KV tree and no sandbox is ever without a registry
  record, whatever backend call or registry write fails.  In the locale \<open>orch_core\<close> nothing is
  known of the sandbox's \<open>restart\<close>, and the passes of the reaper that use it are left out; in
  \<open>orchestrated\<close> it keeps its law, and no call is.
\<close>

locale orch_core =
  kv_contract "cf_kv E" trees kinv + sandbox_core "cf_sb E" boxes binv
  for E :: "('k, 'b) config" and trees kinv boxes binv +
  fixes ends :: "string set"
begin

abbreviation good :: "('k, 'b) orch \<Rightarrow> bool" where
  "good \<equiv> sys_inv trees kinv boxes binv ends"

text \<open>Backend calls on a branch that is recorded and not live.\<close>

lemma good_kv_call:
  assumes "good s" "mine x s" "kinv k'" "touches_only x (trees (o_kv s)) (trees k')"
  shows "good (s\<lparr>o_kv := k'\<rparr>)"
  using assms by (auto simp: sys_inv_def covered_def backed_def mine_def touches_only_def is_live_def)

lemma good_sb_call:
  assumes "good s" "x \<in> keys (o_branches s)" "binv b'" "boxes b' \<subseteq> insert x (boxes (o_sb s))"
  shows "good (s\<lparr>o_sb := b'\<rparr>)"
  using assms by (auto simp: sys_inv_def covered_def backed_def is_live_def)

lemma good_kv_same:
  assumes "good s" "kinv k'" "trees k' = trees (o_kv s)"
  shows "good (s\<lparr>o_kv := k'\<rparr>)"
  using assms by (auto simp: sys_inv_def covered_def backed_def is_live_def)

lemma good_sb_same:
  assumes "good s" "binv b'" "boxes b' \<subseteq> boxes (o_sb s)"
  shows "good (s\<lparr>o_sb := b'\<rparr>)"
  using assms by (auto simp: sys_inv_def covered_def backed_def is_live_def)

lemma goodD: "good s \<Longrightarrow> kinv (o_kv s)" "good s \<Longrightarrow> binv (o_sb s)" "good s \<Longrightarrow> reg_inv s"
  by (simp_all add: sys_inv_def covered_def)

lemma triple_on_kv:
  assumes "\<And>s. P s \<Longrightarrow> R (s\<lparr>o_kv := snd (m (o_kv s))\<rparr>)"
    and "\<And>s x k'. P s \<Longrightarrow> m (o_kv s) = (Inr x, k') \<Longrightarrow> Q x (s\<lparr>o_kv := k'\<rparr>)"
  shows "triple P (on_kv m) Q R"
proof (rule tripleI)
  fix s e s' assume "P s" "on_kv m s = (Inl e, s')"
  then show "R s'" using assms(1) [of s] by (auto simp: on_kv_def split: prod.splits)
qed (use assms(2) in \<open>auto simp: on_kv_def split: prod.splits\<close>)

lemma triple_on_sb:
  assumes "\<And>s. P s \<Longrightarrow> R (s\<lparr>o_sb := snd (m (o_sb s))\<rparr>)"
    and "\<And>s x b'. P s \<Longrightarrow> m (o_sb s) = (Inr x, b') \<Longrightarrow> Q x (s\<lparr>o_sb := b'\<rparr>)"
  shows "triple P (on_sb m) Q R"
proof (rule tripleI)
  fix s e s' assume "P s" "on_sb m s = (Inl e, s')"
  then show "R s'" using assms(1) [of s] by (auto simp: on_sb_def split: prod.splits)
qed (use assms(2) in \<open>auto simp: on_sb_def split: prod.splits\<close>)

abbreviation owned :: "string \<Rightarrow> ('k, 'b) orch \<Rightarrow> bool" where
  "owned x s \<equiv> good s \<and> mine x s"

lemma kv_call:
  assumes "\<And>k. kinv k \<Longrightarrow> kinv (snd (m k))" "\<And>k. kinv k \<Longrightarrow> touches_only x (trees k) (trees (snd (m k)))"
    and "\<And>k y k'. kinv k \<Longrightarrow> m k = (Inr y, k') \<Longrightarrow> G (trees k')"
  shows "triple (owned x) (on_kv m) (\<lambda>_ s. owned x s \<and> G (trees (o_kv s))) (owned x)"
proof -
  have own: "owned x (s\<lparr>o_kv := snd (m (o_kv s))\<rparr>)" if "owned x s" for s
    using that good_kv_call [of s x "snd (m (o_kv s))"] assms(1,2) [of "o_kv s"] goodD(1) by simp
  show ?thesis
  proof (rule triple_on_kv)
    fix s y k' assume s: "owned x s" "m (o_kv s) = (Inr y, k')"
    then have "G (trees k')" using assms(3) goodD(1) by blast
    then show "owned x (s\<lparr>o_kv := k'\<rparr>) \<and> G (trees (o_kv (s\<lparr>o_kv := k'\<rparr>)))"
      using own [OF s(1)] s(2) by simp
  qed (rule own)
qed

lemma kv_create_call:
  "triple (owned x) (on_kv (kb_create (cf_kv E) x)) (\<lambda>_ s. owned x s \<and> x \<in> trees (o_kv s)) (owned x)"
  using kv_inv_create kv_create_touches kv_create_made by (rule kv_call)

lemma kv_fork_call:
  assumes "x \<noteq> []"
  shows "triple (owned x) (on_kv (kb_fork (cf_kv E) p x))
    (\<lambda>_ s. owned x s \<and> x \<in> trees (o_kv s)) (owned x)"
  using kv_inv_fork kv_fork_touches [OF _ assms] kv_fork_made [OF _ assms] by (rule kv_call)

lemma kv_kill_call:
  "triple (owned x) (on_kv (kb_kill (cf_kv E) x)) (\<lambda>_ s. owned x s \<and> x \<notin> trees (o_kv s)) (owned x)"
  using kv_inv_kill kv_kill_touches kv_kill_gone by (rule kv_call)

lemma kv_extend_call: "keeps (\<lambda>s. good s \<and> P (o_branches s) (trees (o_kv s))) (on_kv (kb_extend (cf_kv E) x toks))"
  by (rule keeps_on_kv) (simp add: good_kv_same goodD kv_inv_extend kv_extend_same)

text \<open>A sandbox call does not change what the KV backend holds.\<close>

lemma sb_call:
  assumes "\<And>b. binv b \<Longrightarrow> binv (snd (m b))" "\<And>b. binv b \<Longrightarrow> boxes (snd (m b)) \<subseteq> insert x (boxes b)"
    and "\<And>b y b'. binv b \<Longrightarrow> m b = (Inr y, b') \<Longrightarrow> G (boxes b')"
  shows "triple (\<lambda>s. owned x s \<and> K (trees (o_kv s))) (on_sb m)
    (\<lambda>_ s. owned x s \<and> K (trees (o_kv s)) \<and> G (boxes (o_sb s))) (\<lambda>s. owned x s \<and> K (trees (o_kv s)))"
proof -
  have own: "owned x (s\<lparr>o_sb := snd (m (o_sb s))\<rparr>)" if "owned x s" for s
    using that good_sb_call [of s x "snd (m (o_sb s))"] assms(1,2) [of "o_sb s"] goodD(2)
    by (simp add: mine_def is_live_def)
  show ?thesis
  proof (rule triple_on_sb)
    fix s y b' assume s: "owned x s \<and> K (trees (o_kv s))" "m (o_sb s) = (Inr y, b')"
    then have "G (boxes b')" using assms(3) goodD(2) by blast
    then show "owned x (s\<lparr>o_sb := b'\<rparr>) \<and> K (trees (o_kv (s\<lparr>o_sb := b'\<rparr>))) \<and> G (boxes (o_sb (s\<lparr>o_sb := b'\<rparr>)))"
      using own [of s] s by simp
  next
    fix s assume "owned x s \<and> K (trees (o_kv s))"
    then show "owned x (s\<lparr>o_sb := snd (m (o_sb s))\<rparr>) \<and> K (trees (o_kv (s\<lparr>o_sb := snd (m (o_sb s))\<rparr>)))"
      using own [of s] by simp
  qed
qed

lemma sb_spawn_call:
  "keeps (\<lambda>s. owned x s \<and> K (trees (o_kv s))) (on_sb (sb_spawn (cf_sb E) x p))"
  using sb_call [of "sb_spawn (cf_sb E) x p" x "\<lambda>_. True" K] sb_inv_spawn sb_spawn_touches
  by (simp add: touches_only_def)

lemma sb_kill_call:
  "triple (\<lambda>s. owned x s \<and> K (trees (o_kv s))) (on_sb (sb_kill (cf_sb E) x))
     (\<lambda>_ s. owned x s \<and> K (trees (o_kv s)) \<and> x \<notin> boxes (o_sb s)) (\<lambda>s. owned x s \<and> K (trees (o_kv s)))"
  using sb_call [of "sb_kill (cf_sb E) x" x "\<lambda>B. x \<notin> B" K] sb_inv_kill sb_kill_touches sb_kill_gone
  by (simp add: touches_only_def)

lemma sb_wait_call:
  "sb_wait_ready (cf_sb E) = Some w \<Longrightarrow> keeps (\<lambda>s. owned x s \<and> K (trees (o_kv s))) (on_sb (w y))"
  using sb_call [of "w y" x "\<lambda>_. True" K] sb_wait_ready_same by auto

text \<open>Forgetting a branch none of whose resources is left.\<close>

lemma forget_call:
  "triple (\<lambda>s. good s \<and> x \<notin> trees (o_kv s) \<and> x \<notin> boxes (o_sb s)) (forget E x) (\<lambda>_. good) good"
proof -
  have "good (snd (forget E x s))" if *: "good s" "x \<notin> trees (o_kv s)" "x \<notin> boxes (o_sb s)" for s
    using goodD(3) [OF *(1)]
  proof (cases rule: forget_cases [where E = E and bid = x])
    case (fail e bs io)
    then show ?thesis using sys_inv_restored(1) [OF *(1)] by simp
  next
    case (ok io disk)
    have "reg_inv (snd (forget E x s))" by (rule keeps_snd [OF reg_forget goodD(3) [OF *(1)]])
    with * ok show ?thesis
      by (auto simp: sys_inv_def covered_def backed_def is_live_def split: if_splits)
  qed
  then show ?thesis by (intro tripleI) (metis snd_conv)+
qed

text \<open>Recording a branch that is being made.\<close>

lemma record_call:
  assumes b: "br_id b = x" "br_state b \<noteq> STATE_LIVE"
  shows "triple (\<lambda>s. good s \<and> x \<notin> keys (o_branches s)) (record_branch E b) (\<lambda>_. owned x) good"
proof (rule tripleI)
  fix s e s' assume s: "good s \<and> x \<notin> keys (o_branches s)" "record_branch E b s = (Inl e, s')"
  have "reg_inv s" using s(1) goodD(3) by blast
  then show "good s'"
    using s sys_inv_restored(1) [of trees kinv boxes binv ends s]
    by (cases rule: record_branch_cases [where E = E and b = b]) auto
next
  fix s u s' assume s: "good s \<and> x \<notin> keys (o_branches s)" "record_branch E b s = (Inr u, s')"
  have reg: "reg_inv s" using s(1) goodD(3) by blast
  then show "owned x s'"
  proof (cases rule: record_branch_cases [where E = E and b = b])
    case (ok io disk)
    have "reg_inv s'" using keeps_snd [OF reg_record reg, of E b] s(2) by simp
    moreover have "x \<notin> set (o_loaded s)" using s(1) reg by (auto simp: reg_inv_def)
    ultimately show ?thesis
      using s ok b by (auto simp: sys_inv_def covered_def backed_def mine_def is_live_def split: if_splits)
  qed (use s in simp)
qed

lemma create_begin_call: "triple good (create_begin E x tokens lease) (\<lambda>_. owned x) good"
proof -
  have g: "keeps good (read_clock E)" "keeps good (lease_expiry E lease)"
    by (auto intro!: keeps_read_clock keeps_lease_expiry)
  have n: "triple (\<lambda>s. good s \<and> x \<notin> keys (o_branches s)) (read_clock E)
      (\<lambda>_ s. good s \<and> x \<notin> keys (o_branches s)) good"
    "triple (\<lambda>s. good s \<and> x \<notin> keys (o_branches s)) (lease_expiry E lease)
      (\<lambda>_ s. good s \<and> x \<notin> keys (o_branches s)) good"
    by (auto intro!: keeps_weaken keeps_read_clock keeps_lease_expiry)
  have fresh: "triple good (raise_if (\<lambda>s. x \<in> keys (o_branches s)) ValueError)
      (\<lambda>_ s. good s \<and> x \<notin> keys (o_branches s)) good"
    by (intro triple_raise_if) auto
  have add: "triple (owned x) (modp (\<lambda>s. s\<lparr>o_spawning := insert x (o_spawning s)\<rparr>)) (\<lambda>_. owned x) good"
    by (intro triple_modp) simp
  show ?thesis
    unfolding create_begin_def
    by (intro triple_seqp [where M = "\<lambda>_. good", OF keeps_ensure_open]
        triple_seqp [where M = "\<lambda>_. good", OF keeps_simple(4)] triple_seqp [OF fresh]
        triple_seqp [OF n(1)] triple_seqp [OF n(2)] triple_seqp [OF record_call] add) simp_all
qed

lemma create_backends_call:
  "triple (owned x) (create_backends E x tokens) (\<lambda>_ s. owned x s \<and> x \<in> trees (o_kv s)) (owned x)"
proof -
  let ?M = "\<lambda>s. owned x s \<and> x \<in> trees (o_kv s)"
  have "triple ?M (on_sb (sb_spawn (cf_sb E) x None)) (\<lambda>_. ?M) (owned x)"
    by (rule keeps_weaken [OF sb_spawn_call]) simp
  moreover have "triple ?M (case sb_wait_ready (cf_sb E) of None \<Rightarrow> ret () | Some w \<Rightarrow> on_sb (w x)) (\<lambda>_. ?M) (owned x)"
    by (rule keeps_weaken, intro keeps_option keeps_simple sb_wait_call, assumption) simp
  moreover have "keeps (\<lambda>s. good s \<and> (x \<in> keys (o_branches s) \<and> \<not> (case dget (o_branches s) x of
        None \<Rightarrow> False | Some b \<Rightarrow> br_state b = STATE_LIVE)) \<and> x \<in> trees (o_kv s))
      (on_kv (kb_extend (cf_kv E) x tokens))"
    using kv_extend_call [of "\<lambda>bs ts. (x \<in> keys bs \<and> \<not> (case dget bs x of None \<Rightarrow> False | Some b \<Rightarrow> br_state b = STATE_LIVE)) \<and> x \<in> ts"
        x tokens] .
  then have "keeps ?M (on_kv (kb_extend (cf_kv E) x tokens))"
    by (rule triple_conseq) (simp_all add: mine_def is_live_def)
  from keeps_whenp [OF keeps_drop_value [OF this], of "tokens \<noteq> []"]
  have "triple ?M (whenp (tokens \<noteq> []) (drop_value (on_kv (kb_extend (cf_kv E) x tokens)))) (\<lambda>_. ?M) (owned x)"
    by (rule keeps_weaken) simp
  ultimately show ?thesis
    unfolding create_backends_def
    by (intro triple_seqp [OF kv_create_call] triple_seqp [where M = "\<lambda>_. ?M"])
qed

lemma mark_live_call:
  "triple (\<lambda>s. owned x s \<and> x \<in> trees (o_kv s)) (mark_live E x) (\<lambda>_. good) (owned x)"
proof (rule tripleI)
  fix s e s' assume s: "owned x s \<and> x \<in> trees (o_kv s)" "mark_live E x s = (Inl e, s')"
  have reg: "reg_inv s" using s(1) goodD(3) by blast
  have "br_id (b\<lparr>br_state := STATE_LIVE\<rparr>) = br_id b" for b by simp
  with reg show "owned x s'"
  proof (cases rule: replace_branch_cases [where E = E and bid = x and f = "\<lambda>b. b\<lparr>br_state := STATE_LIVE\<rparr>"])
    case (fail e' b io)
    then show ?thesis using s by (auto simp: mark_live_def)
  qed (use s in \<open>auto simp: mark_live_def\<close>)
next
  fix s u s' assume s: "owned x s \<and> x \<in> trees (o_kv s)" "mark_live E x s = (Inr u, s')"
  have reg: "reg_inv s" using s(1) goodD(3) by blast
  have reg': "reg_inv s'" using keeps_snd [OF reg_states(1) reg, of E x] s(2) by simp
  have "br_id (b\<lparr>br_state := STATE_LIVE\<rparr>) = br_id b" for b by simp
  with reg show "good s'"
  proof (cases rule: replace_branch_cases [where E = E and bid = x and f = "\<lambda>b. b\<lparr>br_state := STATE_LIVE\<rparr>"])
    case (ok b io disk)
    then show ?thesis
      using s reg' by (auto simp: mark_live_def sys_inv_def covered_def backed_def is_live_def split: if_splits)
  qed (use s in \<open>auto simp: mark_live_def\<close>)
qed

text \<open>The rollback of a failed spawn.\<close>

lemma triple_attempt:
  "triple P m (\<lambda>_. Q) R \<Longrightarrow> triple P (attempt m) (\<lambda>ok s. if ok then Q s else R s) S"
  unfolding attempt_def
  by (rule triple_try_except [where M = R], rule triple_seqp [where M = "\<lambda>_. Q"]) (auto intro: triples)

lemma rollback_call: "triple (owned x) (rollback_branch E x) (\<lambda>_. good) good"
proof -
  have kv: "triple (owned x) (attempt (on_kv (kb_kill (cf_kv E) x)))
      (\<lambda>ok s. owned x s \<and> (ok \<longrightarrow> x \<notin> trees (o_kv s))) good"
    by (rule triple_conseq [OF triple_attempt [OF kv_kill_call]]) (auto split: if_splits)
  have sb: "triple (\<lambda>s. owned x s \<and> (ok1 \<longrightarrow> x \<notin> trees (o_kv s))) (attempt (on_sb (sb_kill (cf_sb E) x)))
      (\<lambda>ok2 s. good s \<and> (ok1 \<and> ok2 \<longrightarrow> x \<notin> trees (o_kv s) \<and> x \<notin> boxes (o_sb s))) good" for ok1
    by (rule triple_conseq [OF triple_attempt [OF sb_kill_call [where K = "\<lambda>T. ok1 \<longrightarrow> x \<notin> T"]]])
      (auto split: if_splits)
  have fin: "triple (\<lambda>s. good s \<and> (c \<longrightarrow> x \<notin> trees (o_kv s) \<and> x \<notin> boxes (o_sb s)))
      (whenp c (forget E x)) (\<lambda>_. good) good" for c
    by (rule triple_whenp, rule triple_pre [OF _ forget_call]) auto
  show ?thesis
    unfolding rollback_branch_def by (intro triple_seqp [OF kv] triple_seqp [OF sb] fin)
qed

lemma spawn_end_call: "keeps good (spawn_end x)"
  unfolding spawn_end_def by (intro keeps) simp

lemma create_parent_call: "keeps good (create_parent E x tokens lease)"
proof -
  have "triple (owned x) (try_except (seqp (create_backends E x tokens) (\<lambda>_. mark_live E x))
      (reraise (rollback_branch E x))) (\<lambda>_. good) good"
    by (rule triple_try_except [where M = "owned x"])
      (intro triple_seqp [OF create_backends_call] mark_live_call triple_reraise rollback_call)+
  then show ?thesis
    unfolding create_parent_def
    by (intro triple_seqp [OF create_begin_call] triple_try_finally [where M = "\<lambda>_. good" and N = good]
        spawn_end_call)
qed

lemma fork_backends_call:
  assumes "x \<noteq> []"
  shows "triple (owned x) (fork_backends E p x) (\<lambda>_ s. owned x s \<and> x \<in> trees (o_kv s)) (owned x)"
  unfolding fork_backends_def
  by (rule triple_seqp [OF kv_fork_call [OF assms]], rule keeps_weaken [OF sb_spawn_call]) simp

lemma commit_child_call:
  "triple (\<lambda>s. owned x s \<and> x \<in> trees (o_kv s)) (commit_child E p x) (\<lambda>_. good) (owned x)"
  unfolding commit_child_def
  by (rule triple_seqp [OF _ mark_live_call], rule triple_raise_if) auto

lemma spawn_one_call:
  assumes "br_id b \<noteq> []"
  shows "triple (owned (br_id b)) (spawn_one E p b) (\<lambda>_. good) good"
proof -
  let ?x = "br_id b"
  have "triple (owned ?x) (try_except (seqp (fork_backends E p ?x) (\<lambda>_. commit_child E p ?x))
      (reraise (rollback_branch E ?x))) (\<lambda>_. good) good"
    by (rule triple_try_except [where M = "owned ?x"])
      (intro triple_seqp [OF fork_backends_call [OF assms]] commit_child_call triple_reraise rollback_call)+
  then show ?thesis
    unfolding spawn_one_def Let_def
    by (intro triple_try_finally [where M = "\<lambda>_. good" and N = good] spawn_end_call)
qed

text \<open>Killing.\<close>

lemma kill_begin_call:
  "triple good (kill_begin E allow x) (\<lambda>go s. good s \<and> (go \<longrightarrow> mine x s)) good"
proof -
  let ?f = "\<lambda>b. b\<lparr>br_state := STATE_KILLING\<rparr>"
  have f: "br_id (?f b) = br_id b" for b by simp
  have rep: "triple (\<lambda>s. good s \<and> x \<in> keys (o_branches s)) (replace_branch E x ?f) (\<lambda>_. owned x) good"
  proof (rule tripleI)
    fix s e s' assume s: "good s \<and> x \<in> keys (o_branches s)" "replace_branch E x ?f s = (Inl e, s')"
    have reg: "reg_inv s" using s(1) goodD(3) by blast
    from reg f show "good s'"
      using s by (cases rule: replace_branch_cases [where E = E and bid = x]) auto
  next
    fix s u s' assume s: "good s \<and> x \<in> keys (o_branches s)" "replace_branch E x ?f s = (Inr u, s')"
    have reg: "reg_inv s" using s(1) goodD(3) by blast
    have reg': "reg_inv s'" using keeps_snd [OF reg_states(2) reg] s(2) by (metis snd_conv)
    from reg f show "owned x s'"
    proof (cases rule: replace_branch_cases [where E = E and bid = x])
      case (ok b io disk)
      then show ?thesis
        using s reg' by (auto simp: sys_inv_def covered_def backed_def mine_def is_live_def split: if_splits)
    qed (use s in auto)
  qed
  have add: "triple (\<lambda>s. good s \<and> x \<in> keys (o_branches s))
      (modp (\<lambda>s. s\<lparr>o_killing := insert x (o_killing s)\<rparr>)) (\<lambda>_ s. good s \<and> x \<in> keys (o_branches s)) good"
    by (intro triple_modp) simp
  have undo: "keeps good (modp (\<lambda>s. s\<lparr>o_killing := o_killing s - {x}\<rparr>))"
    by (intro keeps) simp
  have work: "triple (\<lambda>s. good s \<and> x \<in> keys (o_branches s))
      (seqp (modp (\<lambda>s. s\<lparr>o_killing := insert x (o_killing s)\<rparr>)) (\<lambda>_.
         seqp (try_except (replace_branch E x ?f) (reraise (modp (\<lambda>s. s\<lparr>o_killing := o_killing s - {x}\<rparr>))))
           (\<lambda>_. ret True)))
      (\<lambda>go s. good s \<and> (go \<longrightarrow> mine x s)) good"
    by (intro triple_seqp [OF add] triple_seqp [where M = "\<lambda>_. owned x"] triple_try_except [OF rep]
        triple_reraise [OF undo] triple_ret) auto
  have skip: "triple good (readp (\<lambda>s. x \<notin> keys (o_branches s) \<or> x \<in> o_killing s \<or> x \<in> o_spawning s))
      (\<lambda>skip s. good s \<and> (\<not> skip \<longrightarrow> x \<in> keys (o_branches s))) good"
    by (intro triple_readp) auto
  show ?thesis
    unfolding kill_begin_def
    by (intro triple_seqp [where M = "\<lambda>_. good", OF keeps_ensure_open] triple_seqp [OF skip])
      (use work in \<open>auto intro!: triple_ret elim!: triple_conseq\<close>)
qed

lemma kill_backends_call:
  "triple (owned x) (kill_backends E x)
     (\<lambda>_ s. good s \<and> x \<notin> trees (o_kv s) \<and> x \<notin> boxes (o_sb s)) good"
proof -
  have box: "keeps (\<lambda>s. x \<notin> boxes (o_sb s)) (on_kv (kb_kill (cf_kv E) x))"
    by (rule keeps_on_kv) simp
  have "triple (\<lambda>s. x \<notin> boxes (o_sb s) \<and> owned x s) (on_kv (kb_kill (cf_kv E) x))
      (\<lambda>_ s. x \<notin> boxes (o_sb s) \<and> owned x s \<and> x \<notin> trees (o_kv s)) (\<lambda>s. x \<notin> boxes (o_sb s) \<and> owned x s)"
    by (rule triple_conj [OF box kv_kill_call])
  then have kv: "triple (\<lambda>s. owned x s \<and> True \<and> x \<notin> boxes (o_sb s)) (on_kv (kb_kill (cf_kv E) x))
      (\<lambda>_ s. good s \<and> x \<notin> trees (o_kv s) \<and> x \<notin> boxes (o_sb s)) good"
    by (rule triple_conseq) auto
  have sb: "triple (owned x) (on_sb (sb_kill (cf_sb E) x)) (\<lambda>_ s. owned x s \<and> True \<and> x \<notin> boxes (o_sb s)) good"
    by (rule triple_conseq [OF sb_kill_call [where K = "\<lambda>_. True"]]) auto
  show ?thesis unfolding kill_backends_def by (rule triple_seqp [OF sb kv])
qed

lemma good_count: "keeps good (count f)"
  by (intro keeps_count) simp

lemma kill_branch_call: "keeps good (kill_branch E allow x)"
proof -
  let ?gone = "\<lambda>s. good s \<and> x \<notin> trees (o_kv s) \<and> x \<notin> boxes (o_sb s)"
  have failed: "keeps good (kill_failed x)"
    unfolding kill_failed_def by (intro keeps good_count) simp
  have fin: "triple ?gone (kill_done E x) (\<lambda>_. good) good"
    unfolding kill_done_def
    by (rule triple_seqp [where M = "\<lambda>_. ?gone"], rule triple_modp, simp,
        rule triple_seqp [OF forget_call good_count])
  have "triple (owned x) (seqp (try_except (kill_backends E x) (reraise (kill_failed x))) (\<lambda>freed.
      seqp (kill_done E x) (\<lambda>_. ret \<lparr>rc_branch = x, rc_freed = freed, rc_reaped = True\<rparr>))) (\<lambda>_. good) good"
    by (intro triple_seqp [where M = "\<lambda>_. ?gone"] triple_try_except [OF kill_backends_call]
        triple_reraise [OF failed] triple_seqp [OF fin] triple_ret) auto
  then show ?thesis
    unfolding kill_branch_def
    by (intro triple_seqp [OF kill_begin_call]) (auto intro!: triple_ret elim!: triple_conseq)
qed

text \<open>Forking: all children are recorded before the first backend call.\<close>

lemma plan_nonempty:
  "Some [] \<notin> set ids \<Longrightarrow>
   triple (\<lambda>_. \<forall>c \<in> set children. br_id c \<noteq> []) (plan_children E p lease ids children)
     (\<lambda>cs _. \<forall>c \<in> set cs. br_id c \<noteq> []) (\<lambda>_. True)"
proof (induction ids arbitrary: children)
  case (Cons wanted ids)
  let ?P = "\<lambda>_ :: ('k, 'b) orch. \<forall>c \<in> set children. br_id c \<noteq> []"
  have name: "triple ?P (case wanted of Some c \<Rightarrow> ret c | None \<Rightarrow> next_child_id p)
      (\<lambda>c s. ?P s \<and> c \<noteq> []) (\<lambda>_. True)"
    using Cons.prems
    by (cases wanted) (auto simp: triple_def ret_def next_child_id_def child_id_def Let_def)
  have rest: "triple (\<lambda>s. ?P s \<and> c \<noteq> []) (plan_children E p lease ids (children @ [\<lparr>br_id = c,
      br_parent = Some p, br_state = STATE_FORKING, br_created = now, br_lease = l\<rparr>]))
      (\<lambda>cs _. \<forall>c \<in> set cs. br_id c \<noteq> []) (\<lambda>_. True)" for c now l
    by (rule triple_pre [OF _ Cons.IH]) (use Cons.prems in auto)
  show ?case
    unfolding plan_children.simps
    by (intro triple_seqp [OF name] triple_seqp [OF triple_pure] rest)
qed (auto intro: triples)

lemma journal_call:
  "triple (\<lambda>s. good s \<and> planned p (o_branches s) cs) (journal_children E cs)
     (\<lambda>_ s. good s \<and> (\<forall>c \<in> set cs. mine (br_id c) s)) good"
proof (rule tripleI)
  fix s e s' assume s: "good s \<and> planned p (o_branches s) cs" "journal_children E cs s = (Inl e, s')"
  then have "reg_inv s" "planned p (o_branches s) cs" using goodD(3) by blast+
  then show "good s'"
    using s sys_inv_restored(1) [of trees kinv boxes binv ends s]
    by (cases rule: journal_children_cases [where E = E]) auto
next
  fix s u s' assume s: "good s \<and> planned p (o_branches s) cs" "journal_children E cs s = (Inr u, s')"
  then have reg: "reg_inv s" and pl: "planned p (o_branches s) cs" using goodD(3) by blast+
  have reg': "reg_inv s'" using tripleD(2) [OF reg_journal_children _ s(2)] reg pl by blast
  from reg pl show "good s' \<and> (\<forall>c \<in> set cs. mine (br_id c) s')"
  proof (cases rule: journal_children_cases [where E = E])
    case (ok io disk)
    then have s': "o_kv s' = o_kv s" "o_sb s' = o_sb s" "o_loaded s' = o_loaded s"
        "o_branches s' = add_all cs (o_branches s)"
      using s(2) by auto
    have new: "dget (o_branches s') (br_id c) = Some c" if "c \<in> set cs" for c
      using that pl dget_add_all [of cs c "o_branches s"] by (simp add: s' planned_def)
    have old: "is_live s' b \<longleftrightarrow> is_live s b" for b
    proof (cases "b \<in> br_id ` set cs")
      case True
      then obtain c where c: "c \<in> set cs" "b = br_id c" by blast
      then have "dget (o_branches s) b = None" using pl by (auto simp: planned_def dget_None_iff)
      then show ?thesis using new [OF c(1)] c pl by (simp add: is_live_def planned_def)
    qed (simp add: is_live_def s' dget_add_all_other)
    have "mine (br_id c) s'" if "c \<in> set cs" for c
      using that new pl by (simp add: mine_entry planned_def)
    moreover have "good s'"
      using s(1) reg' old by (auto simp: sys_inv_def covered_def backed_def s')
    ultimately show ?thesis by blast
  qed (use s in simp)
qed

lemma fork_begin_call:
  assumes "case ids of None \<Rightarrow> True | Some cs \<Rightarrow> [] \<notin> set cs"
  shows "triple good (fork_begin E p n ids lease)
    (\<lambda>cs s. good s \<and> (\<forall>c \<in> set cs. mine (br_id c) s) \<and> distinct (map br_id cs) \<and>
       (\<forall>c \<in> set cs. br_id c \<noteq> [])) good"
proof -
  let ?ids = "case ids of None \<Rightarrow> replicate (nat n) None | Some cs \<Rightarrow> map Some cs"
  have "Some [] \<notin> set ?ids" using assms by (auto split: option.splits)
  note ne = plan_nonempty [OF this, of "[]" p lease]
  have gp: "keeps good (plan_children E p lease ?ids [])" by (rule keeps_plan_children) simp_all
  have plan: "triple good (plan_children E p lease ?ids [])
      (\<lambda>cs s. (good s \<and> planned p (o_branches s) cs) \<and> (\<forall>c \<in> set cs. br_id c \<noteq> [])) good"
  proof (rule tripleI)
    fix s cs s' assume s: "good s" "plan_children E p lease ?ids [] s = (Inr cs, s')"
    have "planned p (o_branches s') cs" using tripleD(2) [OF reg_plan goodD(3) [OF s(1)] s(2)] by simp
    moreover have "\<forall>c \<in> set cs. br_id c \<noteq> []" using tripleD(2) [OF ne _ s(2)] by simp
    ultimately show "(good s' \<and> planned p (o_branches s') cs) \<and> (\<forall>c \<in> set cs. br_id c \<noteq> [])"
      using tripleD(2) [OF gp s] by simp
  qed (use tripleD(1) [OF gp] in blast)
  have journal: "triple (\<lambda>s. (good s \<and> planned p (o_branches s) cs) \<and> (\<forall>c \<in> set cs. br_id c \<noteq> []))
      (journal_children E cs)
      (\<lambda>_ s. good s \<and> (\<forall>c \<in> set cs. mine (br_id c) s) \<and> distinct (map br_id cs) \<and>
         (\<forall>c \<in> set cs. br_id c \<noteq> [])) good" for cs
  proof (rule tripleI)
    fix s u s' assume s: "(good s \<and> planned p (o_branches s) cs) \<and> (\<forall>c \<in> set cs. br_id c \<noteq> [])"
      "journal_children E cs s = (Inr u, s')"
    then have "distinct (map br_id cs)" by (simp add: planned_def)
    with s tripleD(2) [OF journal_call conjunct1 [OF s(1)] s(2)]
    show "good s' \<and> (\<forall>c \<in> set cs. mine (br_id c) s') \<and> distinct (map br_id cs) \<and>
         (\<forall>c \<in> set cs. br_id c \<noteq> [])" by blast
  qed (use tripleD(1) [OF journal_call] in blast)
  have fin: "triple (\<lambda>s. good s \<and> (\<forall>c \<in> set cs. mine (br_id c) s) \<and> distinct (map br_id cs) \<and>
         (\<forall>c \<in> set cs. br_id c \<noteq> []))
      (seqp (modp (\<lambda>s. s\<lparr>o_spawning := o_spawning s \<union> br_id ` set cs\<rparr>)) (\<lambda>_. ret cs))
      (\<lambda>cs s. good s \<and> (\<forall>c \<in> set cs. mine (br_id c) s) \<and> distinct (map br_id cs) \<and>
         (\<forall>c \<in> set cs. br_id c \<noteq> [])) good" for cs
    by (rule tripleI) (auto simp: seqp_def modp_def ret_def)
  show ?thesis
    unfolding fork_begin_def
    by (intro triple_seqp [where M = "\<lambda>_. good", OF keeps_ensure_open]
        triple_seqp [where M = "\<lambda>_. good", OF keeps_simple(4)] triple_seqp [OF plan]
        triple_seqp [OF journal] fin)
qed

lemma fork_call:
  assumes "case ids of None \<Rightarrow> True | Some cs \<Rightarrow> [] \<notin> set cs"
  shows "keeps good (fork E p n ids lease)"
proof -
  have spawn: "triple (\<lambda>s. good s \<and> (\<forall>c \<in> set cs. mine (br_id c) s) \<and> distinct (map br_id cs) \<and>
         (\<forall>c \<in> set cs. br_id c \<noteq> []))
      (fan_out (spawn_one E p) cs) (\<lambda>_. good) good" for cs
  proof (cases "distinct (map br_id cs) \<and> (\<forall>c \<in> set cs. br_id c \<noteq> [])")
    case True
    then have inj: "distinct cs" "\<And>c d. c \<in> set cs \<Longrightarrow> d \<in> set cs \<Longrightarrow> c \<noteq> d \<Longrightarrow> br_id d \<noteq> br_id c"
      by (auto simp: distinct_map inj_on_def)
    have "triple (\<lambda>s. good s \<and> (\<forall>c \<in> set cs. mine (br_id c) s)) (fan_out (spawn_one E p) cs) (\<lambda>_. good) good"
    proof (rule triple_fan_out [OF inj(1)])
      fix c d assume "c \<in> set cs" "d \<in> set cs" "c \<noteq> d"
      then show "keeps (mine (br_id d)) (spawn_one E p c)"
        using inj(2) by (intro keeps_mine entry_work(3) [of _ "br_id c"]) auto
    qed (use True spawn_one_call in auto)
    then show ?thesis by (rule triple_conseq) auto
  qed (auto simp: triple_def)
  show ?thesis
    unfolding fork_def
    by (intro triple_seqp [OF fork_begin_call [OF assms]] triple_seqp [OF spawn]
        triple_seqp [where M = "\<lambda>_. good", OF good_count]) (rule keeps)
qed

text \<open>The methods that use a branch, and the collecting methods.\<close>

lemma orch_kill_call: "keeps good (orch_kill E x)"
  unfolding orch_kill_def by (rule kill_branch_call)

lemma good_clock: "keeps good (read_clock E)"
  by (rule keeps_read_clock) simp

lemma need_live_call: "triple good (need_live x) (\<lambda>_ s. good s \<and> is_live s x) good"
  unfolding need_live_def
  by (rule triple_seqp [where M = "\<lambda>_. good", OF keeps_ensure_open], rule triple_raise_if) auto

lemma is_live_keys: "is_live s x \<Longrightarrow> x \<in> keys (o_branches s)"
  by (auto simp: is_live_def split: option.splits dest: dget_Some_keys)

lemma kv_generate_call:
  assumes "kb_generate (cf_kv E) = Some g" "fin \<longrightarrow> x \<in> ends"
  shows "triple (\<lambda>s. good s \<and> is_live s x) (on_kv (g x p sp fin r)) (\<lambda>_. good) good"
proof -
  have "good (s\<lparr>o_kv := snd (g x p sp fin r (o_kv s))\<rparr>)" if s: "good s" "is_live s x" for s
  proof -
    note law = kv_generate_same [OF goodD(1) [OF s(1)] assms(1), of x p sp fin r]
    have "trees (snd (g x p sp fin r (o_kv s))) \<subseteq> keys (o_branches s)"
      using law s(1) is_live_keys [OF s(2)] unfolding sys_inv_def covered_def by blast
    moreover have "b \<in> trees (snd (g x p sp fin r (o_kv s)))" if "b \<in> trees (o_kv s)" "b \<notin> ends" for b
      using law assms(2) that by (auto split: if_splits)
    ultimately show ?thesis
      using law s(1) by (auto simp: sys_inv_def covered_def backed_def is_live_def)
  qed
  then show ?thesis by (intro triple_on_kv) (auto, metis snd_conv)
qed

lemma kv_has_tree_call: "kb_has_tree (cf_kv E) = Some h \<Longrightarrow> keeps good (on_kv (h x))"
  by (rule keeps_on_kv) (simp add: good_kv_same goodD kv_has_tree_same)

lemma sb_use_calls:
  "sb_exec (cf_sb E) = Some f \<Longrightarrow> keeps good (on_sb (f x argv tmo inp))"
  "sb_exec_detached (cf_sb E) = Some f2 \<Longrightarrow> keeps good (on_sb (f2 x argv))"
  "sb_export (cf_sb E) = Some f3 \<Longrightarrow> keeps good (on_sb (f3 x src dst))"
  "sb_sweep_dead (cf_sb E) = Some f4 \<Longrightarrow> keeps good (on_sb f4)"
  "keeps good (on_sb (sb_alive (cf_sb E) x))"
  by (auto intro!: keeps_on_sb simp: good_sb_same goodD sb_exec_same sb_exec_detached_same
      sb_export_same sb_sweep_same sb_alive_same)

lemma good_extend: "keeps good (on_kv (kb_extend (cf_kv E) x toks))"
  by (rule keeps_on_kv) (simp add: good_kv_same goodD kv_inv_extend kv_extend_same)

lemma good_replace_lease:
  "keeps good (replace_branch E x (\<lambda>b. b\<lparr>br_lease := l\<rparr>))"
proof (rule keepsI)
  fix s assume g: "good s"
  have reg: "reg_inv s" using g by (rule goodD)
  have reg': "reg_inv (snd (replace_branch E x (\<lambda>b. b\<lparr>br_lease := l\<rparr>) s))"
    by (rule keeps_snd [OF reg_states(3) reg])
  have "br_id (b\<lparr>br_lease := l\<rparr>) = br_id b" for b by simp
  with reg show "good (snd (replace_branch E x (\<lambda>b. b\<lparr>br_lease := l\<rparr>) s))"
  proof (cases rule: replace_branch_cases [where E = E and bid = x])
    case (ok b io disk)
    then show ?thesis
      using g reg' by (auto simp: sys_inv_def covered_def backed_def is_live_def split: if_splits)
  qed (use g in auto)
qed

lemma orch_generate_call:
  assumes "fin \<longrightarrow> x \<in> ends"
  shows "keeps good (orch_generate E x p sp fin r)"
proof -
  have "triple (\<lambda>s. good s \<and> is_live s x) (case kb_generate (cf_kv E) of None \<Rightarrow> raise RuntimeError
      | Some g \<Rightarrow> seqp (on_kv (g x p sp fin r)) (\<lambda>result.
          seqp (whenp fin (drop_value (orch_kill E x))) (\<lambda>_. ret result))) (\<lambda>_. good) good"
    using assms
    by (auto intro!: triple_raise triple_seqp [OF kv_generate_call] keeps orch_kill_call split: option.split)
  then show ?thesis unfolding orch_generate_def by (rule triple_seqp [OF need_live_call])
qed

lemmas good_calls = orch_kill_call good_clock kv_has_tree_call sb_use_calls
  good_extend good_replace_lease good_count

lemma use_calls:
  "keeps good (orch_extend E x toks)"
  "keeps good (orch_exec E x argv tmo inp)" "keeps good (orch_exec_detached E x argv)"
  "keeps good (export_artifact E x src dst)" "keeps good (renew_lease E x len)"
  "keeps good (reap_expired E)" "keeps good (reconcile E)" "keeps good (orch_alive E x)"
  unfolding orch_extend_def orch_exec_def orch_exec_detached_def export_artifact_def
    renew_lease_def reap_expired_def reconcile_def orch_alive_def count_exec_def
  by (intro keeps good_calls; assumption)+

definition restart_ok :: bool where
  "restart_ok \<longleftrightarrow> (\<forall>rs t b. sb_restart (cf_sb E) = Some rs \<longrightarrow> binv b \<longrightarrow>
     binv (snd (rs t b)) \<and> boxes (snd (rs t b)) \<subseteq> insert t (boxes b))"

lemma try_restart_call:
  assumes "sb_restart (cf_sb E) = Some rs" restart_ok
  shows "triple (\<lambda>s. good s \<and> is_live s x) (try_restart rs x) (\<lambda>_. good) good"
proof -
  have "good (s\<lparr>o_sb := snd (rs x (o_sb s))\<rparr>)" if g: "good s" "is_live s x" for s
    using g assms goodD(2) [OF g(1)] unfolding restart_ok_def
    by (intro good_sb_call [of s x]) (auto simp: is_live_def split: option.splits dest: dget_Some_keys)
  then have "triple (\<lambda>s. good s \<and> is_live s x) (on_sb (rs x)) (\<lambda>_. good) good"
    by (intro triple_on_sb) (auto, metis snd_conv)
  then show ?thesis
    unfolding try_restart_def
    by (rule_tac triple_try_except [where M = good], rule_tac triple_seqp)
      (assumption, (intro keeps good_count)+)
qed

lemma handle_dead_call:
  assumes "rd \<Longrightarrow> restart_ok"
  shows "keeps good (handle_dead E rd x)"
proof -
  have live: "triple good (readp (\<lambda>s. is_live s x \<and> x \<notin> o_killing s))
      (\<lambda>live s. good s \<and> (live \<longrightarrow> is_live s x)) good"
    by (intro triple_readp) auto
  have restart: "triple (\<lambda>s. good s \<and> (live \<longrightarrow> is_live s x))
      (case (if rd then sb_restart (cf_sb E) else None) of
             None \<Rightarrow> ret False
           | Some restart \<Rightarrow> if live then try_restart restart x else ret False)
      (\<lambda>_. good) good" for live
    using try_restart_call assms
    by (auto intro!: triple_ret elim!: triple_conseq split: option.splits if_splits)
  show ?thesis
    unfolding handle_dead_def
    by (intro triple_seqp [OF live] triple_seqp [OF restart] keeps orch_kill_call good_count)
qed

lemma reaper_calls: "(rd \<Longrightarrow> restart_ok) \<Longrightarrow> keeps good (reaper_pass E rd)" "keeps good (close_sweep E bids)"
  unfolding reaper_pass_def reaper_body_def close_sweep_def close_finish_def
  by (intro keeps use_calls handle_dead_call sb_use_calls kill_branch_call; simp)+

theorem good_step_core:
  assumes "good s" "call_ok ends c" "orch_step E c s = Some s'" "restarts_dead c \<Longrightarrow> restart_ok"
  shows "good s'"
proof (cases c)
  case (CallKillLosers b)
  then obtain r where "kill_losers E b s = Some (r, s')" using assms(3) by auto
  then show ?thesis by (rule kill_losers_keeps [OF orch_kill_call assms(1)])
next
  case CallClose
  then obtain r where "close E s = Some (r, s')" using assms(3) by auto
  then show ?thesis
    by (rule close_keeps [where P = good, rotated -1]) (use assms(1) reaper_calls(2) in simp_all)
next
  case (CallFork p n ids l)
  then show ?thesis using assms keeps_snd [OF fork_call] by auto
next
  case (CallStartReaper i)
  have "keeps good (start_reaper i)" unfolding start_reaper_def by (intro keeps) simp
  then show ?thesis using assms CallStartReaper keeps_snd by fastforce
next
  case CallStopReaper
  then show ?thesis using assms by (auto simp: stop_reaper_def modp_def)
qed (use assms in \<open>auto intro!: keeps_snd [where P = good] use_calls orch_generate_call create_parent_call orch_kill_call reaper_calls\<close>)

end

locale orchestrated =
  kv_contract "cf_kv E" trees kinv + sandbox_contract "cf_sb E" boxes binv
  for E :: "('k, 'b) config" and trees kinv boxes binv +
  fixes ends :: "string set"

sublocale orchestrated \<subseteq> orch_core E trees kinv boxes binv ends
  by unfold_locales

context orchestrated
begin

lemma good_step:
  assumes "good s" "call_ok ends c" "orch_step E c s = Some s'"
  shows "good s'"
  by (rule good_step_core [OF assms]) (use sb_restart_touches in \<open>auto simp: restart_ok_def\<close>)

end

end
