(* ===== verification/Orchestrator_Props.thy ===== *)
theory Orchestrator_Props
  imports Orchestrator_Safety
begin

text \<open>
  The properties of \<open>ForkOrchestrator\<close> over its reachable states and of its methods one by one,
  and the orchestrator over \<open>TreeKVCache\<close> and \<open>NullSandbox\<close>, its default backends.
\<close>

section \<open>Construction and reachable states\<close>

inductive orch_reach :: "(call \<Rightarrow> bool) \<Rightarrow> ('k, 'b) config \<Rightarrow> ('k, 'b) orch \<Rightarrow> ('k, 'b) orch \<Rightarrow> bool"
  for ok E s0 where
  start: "orch_reach ok E s0 s0"
| step: "orch_reach ok E s0 s \<Longrightarrow> ok c \<Longrightarrow> orch_step E c s = Some s' \<Longrightarrow> orch_reach ok E s0 s'"

lemma load_branches_ids: "load_branches ds acc = Inr bs \<Longrightarrow> ids_ok acc \<Longrightarrow> ids_ok bs"
  by (induction ds arbitrary: acc) (auto simp: and_then_def split: sum.splits)

lemma load_doc_ids: "load_doc doc = Inr bs \<Longrightarrow> ids_ok bs"
  by (cases doc) (auto simp: and_then_def split: if_splits option.splits sum.splits dest: load_branches_ids)

lemma orch_init_cases:
  assumes "orch_init kv sb registry dl ri free file = Inr s"
  obtains bs n r where "s = (orch_new kv sb registry dl file)\<lparr>o_branches := bs, o_loaded := map fst bs,
      o_seq := n, o_reaper := r\<rparr>" "ids_ok bs"
    "registry \<Longrightarrow> (case file of None \<Rightarrow> bs = [] | Some doc \<Rightarrow> load_doc doc = Inr bs)"
    "\<not> registry \<Longrightarrow> bs = []"
proof -
  let ?s0 = "orch_new kv sb registry dl file"
  obtain s1 u where load: "load_registry ?s0 = (Inr u, s1)"
    and s: "s = s1 \<or> s = s1\<lparr>o_reaper := True\<rparr>"
    using assms
    by (auto simp: orch_init_def start_reaper_def proc_defs ensure_open_def split: if_splits prod.splits
        sum.splits option.splits)
  have "\<exists>bs n. s1 = ?s0\<lparr>o_branches := bs, o_loaded := map fst bs, o_seq := n\<rparr> \<and> ids_ok bs \<and>
      (registry \<longrightarrow> (case file of None \<Rightarrow> bs = [] | Some doc \<Rightarrow> load_doc doc = Inr bs)) \<and>
      (\<not> registry \<longrightarrow> bs = [])"
    using load load_doc_ids
    by (auto simp: load_registry_def orch_new_def split: if_splits option.splits sum.splits)
  then obtain bs n where bs: "s1 = ?s0\<lparr>o_branches := bs, o_loaded := map fst bs, o_seq := n\<rparr>" "ids_ok bs"
      "registry \<Longrightarrow> (case file of None \<Rightarrow> bs = [] | Some doc \<Rightarrow> load_doc doc = Inr bs)"
      "\<not> registry \<Longrightarrow> bs = []"
    by blast
  then show ?thesis
    using s by (intro that [where bs = bs and n = n and r = "o_reaper s"]) (auto simp: orch_new_def)
qed

lemma orch_init_reg:
  assumes "orch_init kv sb registry dl ri free file = Inr s"
  shows "reg_inv s"
  using assms
  by (rule orch_init_cases) (auto simp: reg_inv_def orch_new_def disk_says_def split: option.splits)

lemma orch_init_good:
  assumes "orch_init kv sb registry dl ri free file = Inr s"
    and "kinv kv" "binv sb" "trees kv \<union> boxes sb \<subseteq> keys (o_branches s)"
  shows "sys_inv trees kinv boxes binv ends s"
proof -
  have "backed trees ends s"
    using assms(1)
  proof (rule orch_init_cases)
    fix bs n r assume "s = (orch_new kv sb registry dl file)\<lparr>o_branches := bs, o_loaded := map fst bs,
      o_seq := n, o_reaper := r\<rparr>"
    then show ?thesis
      by (auto simp: backed_def is_live_def split: option.splits dest: dget_Some_keys)
  qed
  moreover have "o_kv s = kv" "o_sb s = sb"
    using assms(1) by (auto elim!: orch_init_cases simp: orch_new_def)
  ultimately show ?thesis
    using assms orch_init_reg [OF assms(1)] by (auto simp: sys_inv_def covered_def)
qed

lemma orch_reach_reg: "orch_reach ok E s0 s \<Longrightarrow> reg_inv s0 \<Longrightarrow> reg_inv s"
  by (induction rule: orch_reach.induct) (auto intro: reg_step)

lemma orch_reach_good:
  assumes "orchestrated E trees kinv boxes binv"
  shows "orch_reach (call_ok ends) E s0 s \<Longrightarrow> sys_inv trees kinv boxes binv ends s0 \<Longrightarrow> sys_inv trees kinv boxes binv ends s"
  by (induction rule: orch_reach.induct) (auto intro: orchestrated.good_step [OF assms])

text \<open>A backend whose \<open>restart\<close> breaks its law, as long as no pass of the reaper uses it.\<close>

lemma orch_reach_good_core:
  assumes "orch_core E trees kinv boxes binv"
  shows "orch_reach (\<lambda>c. call_ok ends c \<and> \<not> restarts_dead c) E s0 s \<Longrightarrow> sys_inv trees kinv boxes binv ends s0 \<Longrightarrow>
    sys_inv trees kinv boxes binv ends s"
  by (induction rule: orch_reach.induct) (auto intro: orch_core.good_step_core [OF assms])

section \<open>The default backends\<close>

definition ref_config :: "(nat \<Rightarrow> real) \<Rightarrow> (nat \<Rightarrow> real) \<Rightarrow> (nat \<Rightarrow> exc option) \<Rightarrow> (kv_cache, unit) config" where
  "ref_config mono_clk wall io =
     \<lparr>cf_kv = tree_cache_backend mono_clk, cf_sb = NullSandbox, cf_clock = wall, cf_io = io\<rparr>"

lemma ref_config_sel [simp]:
  "cf_kv (ref_config m w io) = tree_cache_backend m" "cf_sb (ref_config m w io) = NullSandbox"
  "cf_clock (ref_config m w io) = w" "cf_io (ref_config m w io) = io"
  by (simp_all add: ref_config_def)

interpretation ref: orchestrated "ref_config m w io" "\<lambda>s. keys (kv_trees s)" cache_dicts "\<lambda>_. {}" "\<lambda>_. True" ends
  for m w io ends
  unfolding orchestrated_def ref_config_sel
  by (intro conjI tree_kv.kv_contract_axioms null_box.sandbox_contract_axioms)

end
