(* ===== verification/Orchestrator_Quiet.thy ===== *)
theory Orchestrator_Quiet
  imports Orchestrator_Props
begin

text \<open>
  The bookkeeping of work in flight: \<open>_spawning\<close> and \<open>_killing\<close> have exactly the branches some
  running method works on, on every path, so both are empty when no method runs.
\<close>

definition flight :: "string set \<Rightarrow> string set \<Rightarrow> bool \<Rightarrow> ('k, 'b) orch \<Rightarrow> bool" where
  "flight A K c s \<longleftrightarrow> o_spawning s = A \<and> o_killing s = K \<and> o_closing s = c"

abbreviation quiet :: "('k, 'b) orch \<Rightarrow> bool" where
  "quiet \<equiv> flight {} {} False"

lemma flight_frame [simp]:
  "flight A K c (s\<lparr>o_kv := k\<rparr>) = flight A K c s" "flight A K c (s\<lparr>o_sb := b\<rparr>) = flight A K c s"
  "flight A K c (s\<lparr>o_seq := n\<rparr>) = flight A K c s" "flight A K c (s\<lparr>o_closed := d\<rparr>) = flight A K c s"
  "flight A K c (s\<lparr>o_branches := bs\<rparr>) = flight A K c s" "flight A K c (s\<lparr>o_loaded := l\<rparr>) = flight A K c s"
  "flight A K c (s\<lparr>o_metrics := m\<rparr>) = flight A K c s" "flight A K c (s\<lparr>o_reaper := r\<rparr>) = flight A K c s"
  "flight A K c (s\<lparr>o_owned := w\<rparr>) = flight A K c s" "flight A K c (s\<lparr>o_disk := dk\<rparr>) = flight A K c s"
  "flight A K c (s\<lparr>o_reads := n\<rparr>) = flight A K c s" "flight A K c (s\<lparr>o_io := n\<rparr>) = flight A K c s"
  by (simp_all add: flight_def)

lemma flight_persist [keeps]: "keeps (flight A K c) (persist E)"
  by (intro keepsI) (simp add: persist_def split: option.split)

lemma flight_simple [keeps]:
  "keeps (flight A K c) (on_kv m)" "keeps (flight A K c) (on_sb m')" "keeps (flight A K c) (count f)"
  "keeps (flight A K c) (read_clock E)" "keeps (flight A K c) (lease_expiry E lease)"
  "keeps (flight A K c) (plan_children E parent lease ids children)"
  by (intro keeps_on_kv keeps_on_sb keeps_count keeps_read_clock keeps_lease_expiry
      keeps_plan_children; simp)+

lemma flight_set_branches [keeps]: "keeps (flight A K c) (set_branches f)"
  unfolding set_branches_def by (intro keeps) simp

lemma flight_registry [keeps]:
  "keeps (flight A K c) (forget E x)" "keeps (flight A K c) (replace_branch E x f)"
  "keeps (flight A K c) (record_branch E b)" "keeps (flight A K c) (journal_children E cs)"
  "keeps (flight A K c) (rollback_branch E x)" "keeps (flight A K c) (mark_live E x)"
  unfolding forget_def replace_branch_def record_branch_def journal_children_def rollback_branch_def
    mark_live_def
  by (intro keeps; simp)+

lemma flight_kill [keeps]: "keeps (flight A K c) (kill_branch E allow x)"
proof -
  let ?F = "flight A K c" and ?G = "flight A (insert x K) c"
  have undo: "triple ?G (modp (\<lambda>s. s\<lparr>o_killing := o_killing s - {x}\<rparr>)) (\<lambda>_. ?F) ?F" if "x \<notin> K"
    using that by (intro triple_modp) (simp add: flight_def)
  have "keeps ?G (replace_branch E x f)" for f by (rule keeps)
  note mark = triple_conseq [OF this, of ?G "\<lambda>_. ?G" ?G]
  have add: "triple ?F (modp (\<lambda>s. s\<lparr>o_killing := insert x (o_killing s)\<rparr>)) (\<lambda>_. ?G) ?F"
    by (intro triple_modp) (simp add: flight_def)
  have beg: "triple ?F (kill_begin E allow x) (\<lambda>go s. if go then x \<notin> K \<and> ?G s else ?F s) ?F"
  proof (cases "x \<in> K")
    case True
    then have "triple ?F (readp (\<lambda>s. x \<notin> keys (o_branches s) \<or> x \<in> o_killing s \<or> x \<in> o_spawning s))
        (\<lambda>skip s. skip \<and> ?F s) ?F"
      by (intro triple_readp) (simp add: flight_def)
    then show ?thesis
      unfolding kill_begin_def
      by (intro triple_seqp [where M = "\<lambda>_. ?F", OF keeps_ensure_open] triple_seqp [where M = "\<lambda>skip s. skip \<and> ?F s"])
        (auto simp: triple_def ret_def)
  next
    case False
    show ?thesis
      unfolding kill_begin_def
      by (intro triple_seqp [where M = "\<lambda>_. ?F", OF keeps_ensure_open] triple_seqp [where M = "\<lambda>_. ?F", OF keeps_simple(3)])
        (auto intro!: triple_ret triple_seqp [OF add] triple_seqp [where M = "\<lambda>_. ?G"]
          triple_try_except [where M = ?G] triple_reraise undo [OF False] mark simp: False)
  qed
  have work: "triple (\<lambda>s. x \<notin> K \<and> ?G s) (seqp (try_except (kill_backends E x) (reraise (kill_failed x)))
      (\<lambda>freed. seqp (kill_done E x) (\<lambda>_. ret (r freed)))) (\<lambda>_. ?F) ?F" for r :: "int \<Rightarrow> kill_receipt"
  proof (cases "x \<in> K")
    case False
    have "keeps ?G (kill_backends E x)" unfolding kill_backends_def by (intro keeps)
    moreover have "triple ?G (kill_failed x) (\<lambda>_. ?F) ?F" "triple ?G (kill_done E x) (\<lambda>_. ?F) ?F"
      unfolding kill_failed_def kill_done_def
      by (rule triple_seqp [OF undo [OF False]], intro keeps)+
    ultimately have "triple ?G (seqp (try_except (kill_backends E x) (reraise (kill_failed x)))
        (\<lambda>freed. seqp (kill_done E x) (\<lambda>_. ret (r freed)))) (\<lambda>_. ?F) ?F"
      by (intro triple_seqp [where M = "\<lambda>_. ?G"] triple_try_except [where M = ?G] triple_reraise
          triple_seqp [where M = "\<lambda>_. ?F"]) (auto intro: keeps_simple)
    then show ?thesis by (rule triple_conseq) auto
  qed (simp add: triple_def)
  show ?thesis
    unfolding kill_branch_def
    by (rule triple_seqp [OF beg]) (auto intro!: triple_ret work)
qed

lemma flight_use [keeps]:
  "keeps (flight A K c) (orch_kill E x)" "keeps (flight A K c) (orch_extend E x toks)"
  "keeps (flight A K c) (orch_generate E x p sp fin r)" "keeps (flight A K c) (orch_exec E x argv tmo inp)"
  "keeps (flight A K c) (orch_exec_detached E x argv)" "keeps (flight A K c) (export_artifact E x src dst)"
  "keeps (flight A K c) (renew_lease E x len)" "keeps (flight A K c) (reap_expired E)"
  "keeps (flight A K c) (reconcile E)" "keeps (flight A K c) (orch_alive E x)"
  "keeps (flight A K c) (try_restart rs x)" "keeps (flight A K c) (start_reaper i)"
  unfolding orch_kill_def orch_extend_def orch_generate_def orch_exec_def orch_exec_detached_def export_artifact_def
    renew_lease_def reap_expired_def reconcile_def orch_alive_def count_exec_def try_restart_def start_reaper_def
  by (intro keeps; simp)+

lemma flight_reaper [keeps]: "keeps (flight A K c) (reaper_pass E rd)"
  unfolding reaper_pass_def reaper_body_def handle_dead_def by (intro keeps)

lemma quiet_create: "keeps quiet (create_parent E x toks l)"
proof -
  let ?G = "flight {x} {} False"
  have beg: "triple quiet (create_begin E x toks l) (\<lambda>_. ?G) quiet"
    unfolding create_begin_def
    by (intro triple_seqp [where M = "\<lambda>_. quiet"] keeps) (auto intro!: triple_modp simp: flight_def)
  have body: "keeps ?G (try_except (seqp (create_backends E x toks) (\<lambda>_. mark_live E x)) (reraise (rollback_branch E x)))"
    unfolding create_backends_def by (intro keeps)
  have fin: "triple ?G (spawn_end x) (\<lambda>_. quiet) quiet"
    unfolding spawn_end_def by (intro triple_modp) (simp add: flight_def)
  show ?thesis
    unfolding create_parent_def by (intro triple_seqp [OF beg] triple_try_finally [OF body] fin)
qed

lemma fan_out_removes:
  assumes "\<And>A x. triple (F A) (f x) (\<lambda>_. F (A - {g x})) (F (A - {g x}))"
  shows "triple (F A) (fan_out f xs) (\<lambda>_. F (A - g ` set xs)) (F (A - g ` set xs))"
proof -
  have "F (A - g ` set xs) (snd (snd (fan_out_loop f xs s)))" if "F A s" for s
    using that
  proof (induction xs arbitrary: A s)
    case (Cons x xs)
    obtain r s' where r: "f x s = (r, s')" by fastforce
    then have "F (A - {g x}) s'" using assms [of A x] Cons.prems by (cases r) (auto dest: tripleD)
    from Cons.IH [OF this] have "F (A - {g x} - g ` set xs) (snd (snd (fan_out_loop f xs s')))" .
    moreover have "A - {g x} - g ` set xs = A - g ` set (x # xs)" by auto
    ultimately show ?case by (auto simp: r split: prod.split sum.split)
  qed simp
  then show ?thesis by (intro tripleI) (metis snd_conv snd_fan_out)+
qed

lemma quiet_fork: "keeps quiet (fork E p n ids l)"
proof -
  have beg: "triple quiet (fork_begin E p n ids l) (\<lambda>cs. flight (br_id ` set cs) {} False) quiet"
  proof -
    have mark: "triple quiet (seqp (modp (\<lambda>s. s\<lparr>o_spawning := o_spawning s \<union> br_id ` set cs\<rparr>)) (\<lambda>_. ret cs))
        (\<lambda>cs. flight (br_id ` set cs) {} False) quiet" for cs
      by (rule tripleI) (auto simp: seqp_def modp_def ret_def flight_def)
    show ?thesis
      unfolding fork_begin_def by (intro triple_seqp [where M = "\<lambda>_. quiet"] keeps mark)
  qed
  have one: "triple (flight A {} False) (spawn_one E p b) (\<lambda>_. flight (A - {br_id b}) {} False)
      (flight (A - {br_id b}) {} False)" for A b
  proof -
    have "keeps (flight A {} False) (try_except (seqp (fork_backends E p (br_id b))
        (\<lambda>_. commit_child E p (br_id b))) (reraise (rollback_branch E (br_id b))))"
      unfolding fork_backends_def commit_child_def by (intro keeps)
    then show ?thesis
      unfolding spawn_one_def Let_def spawn_end_def
      by (rule triple_try_finally; intro triple_modp) (auto simp: flight_def)
  qed
  have all: "triple (flight (br_id ` set cs) {} False) (fan_out (spawn_one E p) cs) (\<lambda>_. quiet) quiet" for cs
    using fan_out_removes [where F = "\<lambda>A. flight A {} False" and g = br_id, OF one, of "br_id ` set cs" cs]
    by simp
  show ?thesis
    unfolding fork_def by (intro triple_seqp [OF beg] triple_seqp [OF all] keeps)
qed

lemma quiet_close:
  assumes "quiet s" "close E s = Some (r, s')"
  shows "quiet s'"
proof -
  let ?G = "flight {} {} True"
  have sweep: "triple ?G (close_sweep E xs) (\<lambda>_. quiet) quiet" for xs
    unfolding close_sweep_def close_finish_def
    by (rule triple_try_finally [where M = "\<lambda>_. ?G" and N = ?G], intro keeps)
      (intro triple_modp, simp add: flight_def)+
  have "?G (s\<lparr>o_reaper := False, o_closing := True\<rparr>)" using assms(1) by (simp add: flight_def)
  then have run: "quiet (snd (close_sweep E xs (s\<lparr>o_reaper := False, o_closing := True\<rparr>)))" for xs
    by (rule tripleE [OF sweep, of _ xs]) auto
  have "s' = s\<lparr>o_reaper := False\<rparr> \<or>
      s' = snd (close_sweep E (map fst (o_branches s)) (s\<lparr>o_reaper := False, o_closing := True\<rparr>))"
    using assms(2) by (auto simp: close_def Let_def stop_reaper_def modp_def split: if_splits dest: arg_cong [of _ _ snd])
  then show ?thesis using assms(1) run by auto
qed

lemma quiet_step:
  assumes "quiet s" "orch_step E c s = Some s'"
  shows "quiet s'"
proof (cases c)
  case (CallKillLosers b)
  then show ?thesis using assms kill_losers_keeps [OF flight_use(1)] by fastforce
next
  case CallClose
  then show ?thesis using assms quiet_close by fastforce
next
  case CallStopReaper
  then show ?thesis using assms by (auto simp: stop_reaper_def modp_def)
qed (use assms in \<open>auto intro!: keeps_snd [where P = quiet] keeps quiet_create quiet_fork\<close>)

lemma orch_init_quiet: "orch_init kv sb registry dl ri free file = Inr s \<Longrightarrow> quiet s"
  by (erule orch_init_cases) (simp add: orch_new_def flight_def)

lemma orch_reach_quiet: "orch_reach ok E s0 s \<Longrightarrow> quiet s0 \<Longrightarrow> quiet s"
  by (induction rule: orch_reach.induct) (auto intro: quiet_step)

end
