(* ===== verification/Orchestrator_Live.thy ===== *)
theory Orchestrator_Live
  imports Orchestrator_Quiet
begin

text \<open>
  The orchestrator when nothing fails: with backends whose kills return and a registry that can
  be written, a kill of an idle orchestrator succeeds, so the collecting methods collect
  everything they should and nothing else.
\<close>

section \<open>Reliable surroundings\<close>

locale reliable_orch =
  reliable_kv "cf_kv E" trees kinv + reliable_sandbox "cf_sb E" boxes binv
  for E :: "('k, 'b) config" and trees kinv boxes binv +
  fixes ends :: "string set"
  assumes io_ok: "cf_io E n = None"

sublocale reliable_orch \<subseteq> orchestrated E trees kinv boxes binv ends
  by unfold_locales

text \<open>Open, and nothing in flight.\<close>

definition idle :: "('k, 'b) orch \<Rightarrow> bool" where
  "idle s \<longleftrightarrow> \<not> o_closed s \<and> \<not> o_closing s \<and> o_spawning s = {} \<and> o_killing s = {}"

lemma idle_quiet: "idle s \<longleftrightarrow> quiet s \<and> \<not> o_closed s"
  by (auto simp: idle_def flight_def)

lemma idle_frame [simp]:
  "idle (s\<lparr>o_kv := k\<rparr>) = idle s" "idle (s\<lparr>o_sb := b\<rparr>) = idle s" "idle (s\<lparr>o_branches := bs\<rparr>) = idle s"
  "idle (s\<lparr>o_loaded := l\<rparr>) = idle s" "idle (s\<lparr>o_metrics := m\<rparr>) = idle s" "idle (s\<lparr>o_io := n\<rparr>) = idle s"
  "idle (s\<lparr>o_disk := d\<rparr>) = idle s" "idle (s\<lparr>o_reads := n\<rparr>) = idle s" "idle (s\<lparr>o_seq := n\<rparr>) = idle s"
  by (simp_all add: idle_def)

text \<open>A kill ends with the branch gone and all others as they were.\<close>

definition killed :: "string \<Rightarrow> ('k, 'b) orch \<Rightarrow> ('k, 'b) orch \<Rightarrow> bool" where
  "killed x s s' \<longleftrightarrow>
     dget (o_branches s') = (dget (o_branches s))(x := None) \<and>
     o_loaded s' = removeAll x (o_loaded s) \<and> o_reads s' = o_reads s \<and>
     o_closed s' = o_closed s \<and> o_closing s' = o_closing s \<and>
     o_spawning s' = o_spawning s \<and> o_killing s' = o_killing s"

definition killed_all :: "string set \<Rightarrow> ('k, 'b) orch \<Rightarrow> ('k, 'b) orch \<Rightarrow> bool" where
  "killed_all X s s' \<longleftrightarrow>
     dget (o_branches s') = (\<lambda>k. if k \<in> X then None else dget (o_branches s) k) \<and>
     o_loaded s' = filter (\<lambda>k. k \<notin> X) (o_loaded s) \<and> o_reads s' = o_reads s \<and>
     o_closed s' = o_closed s \<and> o_closing s' = o_closing s \<and>
     o_spawning s' = o_spawning s \<and> o_killing s' = o_killing s"

lemma killed_all_keys: "killed_all X s s' \<Longrightarrow> keys (o_branches s') = keys (o_branches s) - X"
  unfolding keys_dom by (auto simp: killed_all_def split: if_splits)

lemma killed_keys: "killed x s s' \<Longrightarrow> keys (o_branches s') = keys (o_branches s) - {x}"
  unfolding keys_dom by (simp add: killed_def)

lemma killed_then_all: "killed x s s' \<Longrightarrow> killed_all X s' s'' \<Longrightarrow> killed_all (insert x X) s s''"
  by (simp add: killed_def killed_all_def fun_eq_iff removeAll_filter_not_eq)
    (auto intro: filter_cong)

section \<open>The chain a winner keeps\<close>

inductive_set ancestors :: "(string, branch) dict \<Rightarrow> string \<Rightarrow> string set" for bs w where
  self: "w \<in> ancestors bs w"
| up: "x \<in> ancestors bs w \<Longrightarrow> dget bs x = Some b \<Longrightarrow> br_parent b = Some p \<Longrightarrow> p \<in> ancestors bs w"

definition parent_closed :: "(string, branch) dict \<Rightarrow> string set \<Rightarrow> string set \<Rightarrow> bool" where
  "parent_closed bs A B \<longleftrightarrow> (\<forall>x \<in> A. \<forall>b p. dget bs x = Some b \<longrightarrow> br_parent b = Some p \<longrightarrow> p \<in> B)"

lemma ancestors_closed: "parent_closed bs (ancestors bs w) (ancestors bs w)"
  by (auto simp: parent_closed_def intro: ancestors.up)

lemma ancestors_least: "w \<in> A \<Longrightarrow> parent_closed bs A A \<Longrightarrow> ancestors bs w \<subseteq> A"
  by (rule subsetI, erule ancestors.induct) (auto simp: parent_closed_def)

lemma keep_chain_sound:
  "set kept \<subseteq> A \<Longrightarrow> set_option cursor \<subseteq> A \<Longrightarrow> parent_closed bs A A \<Longrightarrow> set (keep_chain bs cursor kept) \<subseteq> A"
proof (induction bs cursor kept rule: keep_chain.induct)
  case (1 bs cursor kept)
  show ?case
  proof (cases cursor)
    case (Some c)
    have "set_option (case dget bs c of None \<Rightarrow> None | Some b \<Rightarrow> br_parent b) \<subseteq> A"
      using 1(3,4) Some by (auto simp: parent_closed_def split: option.splits)
    then show ?thesis
      using 1(1) [OF Some] 1(2-4) Some by (subst keep_chain.simps) simp
  qed (use 1(2) in \<open>simp add: keep_chain.simps\<close>)
qed

lemma keep_chain_complete:
  "parent_closed bs (set kept) (set kept \<union> set_option cursor) \<Longrightarrow>
   set kept \<union> set_option cursor \<subseteq> set (keep_chain bs cursor kept) \<and>
   parent_closed bs (set (keep_chain bs cursor kept)) (set (keep_chain bs cursor kept))"
proof (induction bs cursor kept rule: keep_chain.induct)
  case (1 bs cursor kept)
  show ?case
  proof (cases cursor)
    case (Some c)
    show ?thesis
    proof (cases "c \<in> set kept")
      case False
      have "parent_closed bs (set (c # kept))
          (set (c # kept) \<union> set_option (case dget bs c of None \<Rightarrow> None | Some b \<Rightarrow> br_parent b))"
        using 1(2) Some by (auto simp: parent_closed_def)
      from 1(1) [OF Some False this] show ?thesis
        using False Some by (subst (1 2 3) keep_chain.simps) simp
    qed (use 1(2) Some in \<open>simp add: keep_chain.simps insert_absorb\<close>)
  qed (use 1(2) in \<open>simp add: keep_chain.simps\<close>)
qed

lemma keep_chain_ancestors: "set (keep_chain bs (Some w) []) = ancestors bs w"
proof
  show "set (keep_chain bs (Some w) []) \<subseteq> ancestors bs w"
    by (rule keep_chain_sound) (auto intro: ancestors.self ancestors_closed)
  have "parent_closed bs {} {w}" by (simp add: parent_closed_def)
  then show "ancestors bs w \<subseteq> set (keep_chain bs (Some w) [])"
    using keep_chain_complete [of bs "[]" "Some w"] by (intro ancestors_least) simp_all
qed

text \<open>Receipts by branch: with distinct branches, the dictionary lists them in order.\<close>

lemma receipt_dict_distinct:
  assumes "distinct (map rc_branch rs)"
  shows "receipt_dict rs = map (\<lambda>r. (rc_branch r, r)) rs"
proof -
  have "fold (\<lambda>r. dset (rc_branch r) r) rs d = d @ map (\<lambda>r. (rc_branch r, r)) rs"
    if "distinct (map fst d @ map rc_branch rs)" for d
    using that
  proof (induction rs arbitrary: d)
    case (Cons r rs)
    then have "dset (rc_branch r) r d = d @ [(rc_branch r, r)]" by (intro dset_new) auto
    then show ?case using Cons by simp
  qed simp
  from this [of "[]"] show ?thesis using assms by (simp add: receipt_dict_def)
qed

lemma settle_all_reaped:
  assumes "\<And>b. b \<in> set bids \<Longrightarrow> \<exists>r. dget receipts b = Some r \<and> rc_reaped r"
  shows "settle_all E bids receipts s = Some (Inr receipts, s)"
  using assms
proof (induction bids)
  case (Cons b bids)
  then obtain r where "dget receipts b = Some r" "rc_reaped r" by auto
  then have "settle_loser E b receipts s = Some (Inr receipts, s)"
    by (subst settle_loser.simps) simp
  then show ?case using Cons by simp
qed simp

section \<open>What the collecting methods collect\<close>

context reliable_orch
begin

lemma no_write_fails [simp]: "\<not> write_fails E s"
  by (simp add: write_fails_def io_ok)

lemma kill_runs:
  assumes "good s" "\<not> o_closed s" "o_closing s \<longrightarrow> allow" "x \<in> keys (o_branches s)"
    and "x \<notin> o_spawning s" "x \<notin> o_killing s"
  obtains freed s' where "kill_branch E allow x s = (Inr \<lparr>rc_branch = x, rc_freed = freed, rc_reaped = True\<rparr>, s')"
    "good s'" "killed x s s'"
proof -
  let ?f = "\<lambda>b. b\<lparr>br_state := STATE_KILLING\<rparr>"
  let ?s1 = "s\<lparr>o_killing := insert x (o_killing s)\<rparr>"
  have f: "br_id (?f b) = br_id b" for b by simp
  have reg1: "reg_inv ?s1" using goodD(3) [OF assms(1)] by simp
  obtain b io disk where b: "dget (o_branches s) x = Some b"
    and rep: "replace_branch E x ?f ?s1 = (Inr (?f b), ?s1\<lparr>o_branches := dset x (?f b) (o_branches s),
         o_io := io, o_disk := disk\<rparr>)"
    using reg1 f
  proof (cases rule: replace_branch_cases [where E = E and bid = x])
    case none
    then show ?thesis using assms(4) by (simp add: dget_None_iff)
  next
    case (fail e b io)
    then show ?thesis by simp
  next
    case (ok b io disk)
    then show ?thesis by (intro that) simp_all
  qed
  define s2 where "s2 = ?s1\<lparr>o_branches := dset x (?f b) (o_branches s), o_io := io, o_disk := disk\<rparr>"
  have beg: "kill_begin E allow x s = (Inr True, s2)"
    using assms(2-6) rep by (simp add: kill_begin_def ensure_open_def op_defs s2_def)
  have own2: "owned x s2" using tripleD(2) [OF kill_begin_call assms(1) beg] by simp
  obtain b' where sb: "sb_kill (cf_sb E) x (o_sb s2) = (Inr (), b')"
    using sb_kill_returns goodD(2) own2 by blast
  define s3 where "s3 = s2\<lparr>o_sb := b'\<rparr>"
  have box: "on_sb (sb_kill (cf_sb E) x) s2 = (Inr (), s3)" by (simp add: on_sb_def sb s3_def)
  have own3: "owned x s3 \<and> True \<and> x \<notin> boxes (o_sb s3)"
    using tripleD(2) [OF sb_kill_call [where K = "\<lambda>_. True"] _ box] own2 by simp
  obtain n k' where kv: "kb_kill (cf_kv E) x (o_kv s3) = (Inr n, k')"
    using kv_kill_returns goodD(1) own3 by blast
  define s4 where "s4 = s3\<lparr>o_kv := k', o_killing := o_killing s3 - {x}\<rparr>"
  have halves: "kill_backends E x s2 = (Inr n, s3\<lparr>o_kv := k'\<rparr>)"
    using box by (simp add: kill_backends_def seqp_def on_kv_def kv)
  have gone: "good s4 \<and> x \<notin> trees (o_kv s4) \<and> x \<notin> boxes (o_sb s4)"
    using tripleD(2) [OF kill_backends_call own2 halves] by (simp add: s4_def)
  obtain io' disk' where fg: "forget E x s4 = (Inr (), s4\<lparr>o_branches := ddel x (o_branches s4),
        o_io := io', o_disk := disk', o_loaded := removeAll x (o_loaded s4)\<rparr>)"
    using goodD(3) [OF conjunct1 [OF gone]]
    by (rule forget_cases [where E = E and bid = x]) (simp_all add: that)
  define s5 where "s5 = s4\<lparr>o_branches := ddel x (o_branches s4), o_io := io', o_disk := disk',
      o_loaded := removeAll x (o_loaded s4)\<rparr>"
  let ?s' = "s5\<lparr>o_metrics := (o_metrics s5)\<lparr>m_kills := m_kills (o_metrics s5) + 1\<rparr>\<rparr>"
  have "kill_branch E allow x s = (Inr \<lparr>rc_branch = x, rc_freed = n, rc_reaped = True\<rparr>, ?s')"
    using beg halves fg
    by (simp add: kill_branch_def kill_done_def op_defs s4_def s5_def [symmetric] flip: s4_def)
  moreover have "good ?s'" using tripleD(2) [OF forget_call gone fg] by (simp add: s5_def)
  moreover have "killed x s ?s'"
    using assms(6) by (auto simp: killed_def s5_def s4_def s3_def s2_def fun_eq_iff)
  ultimately show ?thesis by (rule that)
qed

lemma kill_settles:
  assumes "good s" "\<not> o_closed s" "o_closing s \<longrightarrow> allow" "x \<notin> o_spawning s" "x \<notin> o_killing s"
  obtains r s' where "kill_branch E allow x s = (Inr r, s')" "good s'" "killed x s s'"
    "rc_branch r = x" "rc_reaped r \<longleftrightarrow> x \<in> keys (o_branches s)"
proof (cases "x \<in> keys (o_branches s)")
  case True
  with assms show ?thesis by (rule_tac kill_runs [of s allow x]) (auto intro: that)
next
  case False
  then have "kill_branch E allow x s = (Inr \<lparr>rc_branch = x, rc_freed = 0, rc_reaped = False\<rparr>, s)"
    using assms by (simp add: kill_branch_def kill_begin_def ensure_open_def op_defs)
  moreover have "x \<notin> set (o_loaded s)" using False goodD(3) [OF assms(1)] by (auto simp: reg_inv_def)
  then have "killed x s s"
    using False by (simp add: killed_def fun_eq_iff dget_None_iff)
  ultimately show ?thesis using assms(1) False by (intro that) auto
qed

lemma kill_all_settle:
  assumes "good s" "\<not> o_closed s" "o_closing s \<longrightarrow> allow" "set xs \<inter> (o_spawning s \<union> o_killing s) = {}"
  obtains rs s' where "fan_out (kill_branch E allow) xs s = (Inr rs, s')" "good s'" "killed_all (set xs) s s'"
    "map rc_branch rs = xs"
    "distinct xs \<Longrightarrow> set xs \<subseteq> keys (o_branches s) \<Longrightarrow> \<forall>r \<in> set rs. rc_reaped r"
proof -
  have "\<exists>rs s'. fan_out_loop (kill_branch E allow) xs s = (rs, None, s') \<and> good s' \<and>
      killed_all (set xs) s s' \<and> map rc_branch rs = xs \<and>
      (distinct xs \<longrightarrow> set xs \<subseteq> keys (o_branches s) \<longrightarrow> (\<forall>r \<in> set rs. rc_reaped r))"
    using assms
  proof (induction xs arbitrary: s)
    case Nil
    then show ?case by (simp add: killed_all_def)
  next
    case (Cons x xs)
    obtain r s1 where r: "kill_branch E allow x s = (Inr r, s1)" "good s1" "killed x s s1"
        "rc_branch r = x" "rc_reaped r \<longleftrightarrow> x \<in> keys (o_branches s)"
      using Cons.prems by (rule_tac kill_settles [of s allow x]) auto
    have "\<not> o_closed s1" "o_closing s1 \<longrightarrow> allow" "set xs \<inter> (o_spawning s1 \<union> o_killing s1) = {}"
      using Cons.prems r(3) by (auto simp: killed_def)
    from Cons.IH [OF r(2) this] obtain rs s' where rs: "fan_out_loop (kill_branch E allow) xs s1 = (rs, None, s')"
        "good s'" "killed_all (set xs) s1 s'" "map rc_branch rs = xs"
        "distinct xs \<longrightarrow> set xs \<subseteq> keys (o_branches s1) \<longrightarrow> (\<forall>r \<in> set rs. rc_reaped r)"
      by blast
    have "\<forall>r \<in> set (r # rs). rc_reaped r" if "distinct (x # xs)" "set (x # xs) \<subseteq> keys (o_branches s)"
    proof -
      have "x \<in> keys (o_branches s)" "set xs \<subseteq> keys (o_branches s1)" "distinct xs"
        using that killed_keys [OF r(3)] by auto
      then show ?thesis using rs(5) r(5) by simp
    qed
    moreover have "fan_out_loop (kill_branch E allow) (x # xs) s = (r # rs, None, s')"
      using r(1) rs(1) by simp
    moreover have "killed_all (set (x # xs)) s s'" using killed_then_all [OF r(3) rs(3)] by simp
    moreover have "map rc_branch (r # rs) = x # xs" using r(4) rs(4) by simp
    ultimately show ?case using rs(2) by (intro exI [of _ "r # rs"] exI [of _ s'] conjI impI) assumption+
  qed
  then obtain rs s' where "fan_out_loop (kill_branch E allow) xs s = (rs, None, s')" "good s'"
      "killed_all (set xs) s s'" "map rc_branch rs = xs"
      "distinct xs \<longrightarrow> set xs \<subseteq> keys (o_branches s) \<longrightarrow> (\<forall>r \<in> set rs. rc_reaped r)"
    by blast
  then show ?thesis by (intro that [of rs s']) (simp_all add: fan_out_def)
qed

text \<open>\<open>reconcile\<close> on an idle orchestrator.\<close>

lemma reconcile_settles:
  assumes "good s" "idle s"
  obtains rs s' where "reconcile E s = (Inr rs, s')" "good s'" "idle s'"
    "dget (o_branches s') = (\<lambda>k. if k \<in> set (stuck_branches s) \<union>
       set (expired_branches (cf_clock E (o_reads s)) (stuck_branches s) s) then None else dget (o_branches s) k)"
    "o_loaded s' = []"
proof -
  let ?s1 = "s\<lparr>o_reads := Suc (o_reads s)\<rparr>" and ?now = "cf_clock E (o_reads s)"
  let ?xs = "stuck_branches s @ expired_branches ?now (stuck_branches s) s"
  have st: "stuck_branches ?s1 = stuck_branches s" "expired_branches n st ?s1 = expired_branches n st s" for n st
    by (simp_all add: stuck_branches_def expired_branches_def in_flight_def Let_def)
  obtain rs s2 where k: "fan_out (kill_branch E False) ?xs ?s1 = (Inr rs, s2)" "good s2"
      "killed_all (set ?xs) ?s1 s2"
    using assms by (rule_tac kill_all_settle [of ?s1 False ?xs]) (auto simp: idle_def)
  have kill: "orch_kill E = kill_branch E False" by (simp add: orch_kill_def fun_eq_iff)
  have "set (o_loaded s) \<subseteq> set (stuck_branches s)"
    using assms(2) by (auto simp: stuck_branches_def Let_def in_flight_def idle_def)
  then have "o_loaded s2 = []" using k(3) by (auto simp: killed_all_def filter_empty_conv)
  moreover have "idle s2" using assms(2) k(3) by (simp add: idle_def killed_all_def)
  moreover have "dget (o_branches s2) = (\<lambda>k. if k \<in> set ?xs then None else dget (o_branches s) k)"
    using k(3) by (simp add: killed_all_def fun_eq_iff)
  moreover have "\<exists>m. reconcile E s = (Inr rs, s2\<lparr>o_metrics := m\<rparr>)"
    using assms(2) k(1)
    by (auto simp: reconcile_def ensure_open_def read_clock_def op_defs idle_def kill st)
  then obtain m where "reconcile E s = (Inr rs, s2\<lparr>o_metrics := m\<rparr>)" by blast
  ultimately show ?thesis using k(2) by (intro that [of rs "s2\<lparr>o_metrics := m\<rparr>"]) simp_all
qed

lemma orch_kill_eq: "orch_kill E = kill_branch E False"
  by (simp add: orch_kill_def fun_eq_iff)

lemma kill_losers_settles:
  assumes "good s" "idle s" "is_live s w"
  obtains rs s' where "kill_losers E w s = Some (Inr rs, s')" "good s'" "idle s'"
    "dget (o_branches s') = (\<lambda>k. if k \<in> ancestors (o_branches s) w then dget (o_branches s) k else None)"
    "map rc_branch rs = filter (\<lambda>k. k \<notin> ancestors (o_branches s) w) (map fst (o_branches s))"
    "\<forall>r \<in> set rs. rc_reaped r"
proof -
  let ?A = "ancestors (o_branches s) w"
  let ?xs = "filter (\<lambda>k. k \<notin> ?A) (map fst (o_branches s))"
  have xs: "distinct ?xs" "set ?xs \<subseteq> keys (o_branches s)"
    using goodD(3) [OF assms(1)] by (auto simp: reg_inv_def ids_ok_def)
  obtain rs s' where k: "fan_out (kill_branch E False) ?xs s = (Inr rs, s')" "good s'"
      "killed_all (set ?xs) s s'" "map rc_branch rs = ?xs" "\<forall>r \<in> set rs. rc_reaped r"
    using assms xs by (rule_tac kill_all_settle [of s False ?xs]) (auto simp: idle_def)
  have d: "receipt_dict rs = map (\<lambda>r. (rc_branch r, r)) rs"
    using k(4) xs by (intro receipt_dict_distinct) simp
  have "\<exists>r. dget (receipt_dict rs) b = Some r \<and> rc_reaped r" if "b \<in> set ?xs" for b
  proof -
    have "b \<in> rc_branch ` set rs" using that k(4) by (metis list.set_map)
    then have "b \<in> keys (receipt_dict rs)" by (simp add: d image_image)
    then obtain r where r: "dget (receipt_dict rs) b = Some r" by (rule keys_dgetE)
    then have "r \<in> set rs" using map_of_SomeD by (fastforce simp: d)
    then show ?thesis using r k(5) by simp
  qed
  then have "settle_all E ?xs (receipt_dict rs) s' = Some (Inr (receipt_dict rs), s')"
    by (rule settle_all_reaped)
  then have "kill_losers E w s = Some (Inr rs, s')"
    using assms(2,3) k(1)
    by (simp add: kill_losers_def losers_begin_def ensure_open_def op_defs idle_def orch_kill_eq
        keep_chain_ancestors d comp_def)
  moreover have "idle s'" using assms(2) k(3) by (simp add: idle_def killed_all_def)
  moreover have "dget (o_branches s') = (\<lambda>k. if k \<in> ?A then dget (o_branches s) k else None)"
    using k(3) by (auto simp: killed_all_def fun_eq_iff dget_None_iff [THEN iffD2] intro: dget_None_iff [THEN iffD2])
  ultimately show ?thesis using k(2,4,5) by (intro that)
qed

lemma close_settles:
  assumes "good s" "idle s"
  obtains s' where "close E s = Some (Inr (), s')" "good s'" "o_closed s'" "\<not> o_owned s'"
    "o_branches s' = []" "trees (o_kv s') = {}" "boxes (o_sb s') = {}"
proof -
  let ?s1 = "s\<lparr>o_reaper := False, o_closing := True\<rparr>" and ?xs = "map fst (o_branches s)"
  obtain rs s2 where k: "fan_out (kill_branch E True) ?xs ?s1 = (Inr rs, s2)" "good s2"
      "killed_all (set ?xs) ?s1 s2"
    using assms by (rule_tac kill_all_settle [of ?s1 True ?xs]) (auto simp: idle_def)
  let ?s' = "s2\<lparr>o_closed := True, o_closing := False, o_owned := False\<rparr>"
  have keys: "keys (o_branches s2) = {}" using killed_all_keys [OF k(3)] by simp
  have run: "close E s = Some (Inr (), ?s')"
    using assms(2) k(1)
    by (simp add: close_def stop_reaper_def close_sweep_def close_finish_def drop_value_def op_defs idle_def)
  moreover have "trees (o_kv ?s') = {}" "boxes (o_sb ?s') = {}"
    using k(2) keys by (auto simp: sys_inv_def covered_def)
  ultimately show ?thesis
    using k(2) keys by (intro that [of ?s']) simp_all
qed

text \<open>The branches a pass over the leases takes, and those \<open>reconcile\<close> takes.\<close>

lemma reap_settles:
  assumes "good s" "idle s"
  obtains rs s' where "reap_expired E s = (Inr rs, s')" "good s'" "idle s'"
    "dget (o_branches s') = (\<lambda>k. case dget (o_branches s) k of None \<Rightarrow> None
       | Some b \<Rightarrow> if lapsed (cf_clock E (o_reads s)) b then None else Some b)"
proof -
  let ?s1 = "s\<lparr>o_reads := Suc (o_reads s)\<rparr>" and ?now = "cf_clock E (o_reads s)"
  let ?xs = "map (br_id \<circ> snd) (filter (\<lambda>x. lapsed ?now (snd x)) (o_branches s))"
  have ids: "ids_ok (o_branches s)" using goodD(3) [OF assms(1)] by (simp add: reg_inv_def)
  obtain rs s2 where k: "fan_out (kill_branch E False) ?xs ?s1 = (Inr rs, s2)" "good s2"
      "killed_all (set ?xs) ?s1 s2"
    using assms by (rule_tac kill_all_settle [of ?s1 False ?xs]) (auto simp: idle_def)
  have "\<exists>m. reap_expired E s = (Inr rs, s2\<lparr>o_metrics := m\<rparr>)"
    using assms(2) k(1)
    by (auto simp: reap_expired_def ensure_open_def read_clock_def op_defs idle_def orch_kill_eq)
  then obtain m where "reap_expired E s = (Inr rs, s2\<lparr>o_metrics := m\<rparr>)" by blast
  moreover have "x \<in> set ?xs \<longleftrightarrow> (\<exists>b. dget (o_branches s) x = Some b \<and> lapsed ?now b)" for x
    using ids by (force simp: ids_ok_def dget_in_set)
  then have "dget (o_branches s2) = (\<lambda>k. case dget (o_branches s) k of None \<Rightarrow> None
       | Some b \<Rightarrow> if lapsed ?now b then None else Some b)"
    using k(3) by (auto simp: killed_all_def fun_eq_iff split: option.split)
  moreover have "idle s2" using assms(2) k(3) by (simp add: idle_def killed_all_def)
  ultimately show ?thesis using k(2) by (intro that [of rs "s2\<lparr>o_metrics := m\<rparr>"]) simp_all
qed

lemma reconcile_takes:
  assumes "ids_ok (o_branches s)" "set (o_loaded s) \<subseteq> keys (o_branches s)" "idle s"
  shows "x \<in> set (stuck_branches s) \<union> set (expired_branches now (stuck_branches s) s) \<longleftrightarrow>
    (\<exists>b. dget (o_branches s) x = Some b \<and>
       (br_state b = STATE_FORKING \<or> br_state b = STATE_KILLING \<or> x \<in> set (o_loaded s) \<or> lapsed now b))"
proof -
  have mem: "dget (o_branches s) y = Some b \<longleftrightarrow> (y, b) \<in> set (o_branches s)" for y b
    using assms(1) by (simp add: ids_ok_def dget_in_set)
  have id: "br_id b = y" if "(y, b) \<in> set (o_branches s)" for y b
    using assms(1) that by (auto simp: ids_ok_def)
  have fl: "\<not> in_flight s y" for y using assms(3) by (simp add: in_flight_def idle_def)
  have ids: "y \<in> br_id ` snd ` {z \<in> set (o_branches s). P (snd z)} \<longleftrightarrow>
      (\<exists>b. (y, b) \<in> set (o_branches s) \<and> P b)" for y P
    by (auto intro!: image_eqI [where x = "(y, b)" for b] image_eqI) (metis id, metis id snd_conv)
  have stuck: "x \<in> set (stuck_branches s) \<longleftrightarrow> (\<exists>b. (x, b) \<in> set (o_branches s) \<and>
      (br_state b = STATE_FORKING \<or> br_state b = STATE_KILLING)) \<or> x \<in> set (o_loaded s)"
    using ids [of x "\<lambda>b. br_state b = STATE_FORKING \<or> br_state b = STATE_KILLING"]
    by (auto simp: stuck_branches_def Let_def fl image_comp)
  have "x \<in> set (expired_branches now st s) \<longleftrightarrow> (\<exists>b. (x, b) \<in> set (o_branches s) \<and> lapsed now b \<and> x \<notin> set st)" for st
    using ids [of x "\<lambda>b. lapsed now b \<and> br_id b \<notin> set st"] id
    by (auto simp: expired_branches_def fl image_comp)
  moreover have "\<exists>b. (x, b) \<in> set (o_branches s)" if "x \<in> set (o_loaded s)"
    using assms(2) that by force
  ultimately show ?thesis unfolding mem using stuck by blast
qed

end

section \<open>The default backends with a working disk\<close>

interpretation ref_ok: reliable_orch "ref_config m w (\<lambda>_. None)" "\<lambda>s. keys (kv_trees s)" cache_dicts "\<lambda>_. {}" "\<lambda>_. True" ends
  for m w ends
  unfolding reliable_orch_def reliable_orch_axioms_def ref_config_sel
  by (intro conjI tree_kv.reliable_kv_axioms null_box.reliable_sandbox_axioms) simp

end
