(* ===== verification/Orchestrator_Outcomes.thy ===== *)
theory Orchestrator_Outcomes
  imports Orchestrator_Quiet
begin

text \<open>
  What \<open>create_parent\<close>, \<open>fork\<close> and \<open>kill\<close> leave in the registry on each of their outcomes,
  whatever the backends do and whichever registry write fails.
\<close>

section \<open>The record of one branch\<close>

definition in_state :: "string \<Rightarrow> string option \<Rightarrow> string \<Rightarrow> ('k, 'b) orch \<Rightarrow> bool" where
  "in_state st p x s \<longleftrightarrow>
     (\<exists>b. dget (o_branches s) x = Some b \<and> br_id b = x \<and> br_state b = st \<and> br_parent b = p)"

definition absent :: "string \<Rightarrow> ('k, 'b) orch \<Rightarrow> bool" where
  "absent x s \<longleftrightarrow> dget (o_branches s) x = None"

text \<open>A branch that was not made: nothing of it is recorded, or it waits for \<open>reconcile\<close>.\<close>

abbreviation undone :: "string option \<Rightarrow> string \<Rightarrow> ('k, 'b) orch \<Rightarrow> bool" where
  "undone p x s \<equiv> absent x s \<or> in_state STATE_FORKING p x s"

definition made :: "string option \<Rightarrow> string \<Rightarrow> branch \<Rightarrow> ('k, 'b) orch \<Rightarrow> bool" where
  "made p x b s \<longleftrightarrow> dget (o_branches s) x = Some b \<and> br_id b = x \<and> br_state b = STATE_LIVE \<and> br_parent b = p"

lemmas record_defs = in_state_def absent_def made_def

lemma record_keeps:
  fixes m :: "('k, 'b, 'a) op"
  assumes "\<And>v. keeps (entry x v) m"
  shows "keeps (in_state st p x) m" "keeps (absent x) m" "keeps (made p x b) m" "keeps (undone p x) m"
  unfolding record_defs [abs_def]
  by (rule keeps_entry_dep [where Q = "\<lambda>v. \<exists>b. v = Some b \<and> br_id b = x \<and> br_state b = st \<and> br_parent b = p",
        OF assms] keeps_entry_dep [where Q = "\<lambda>v. v = None", OF assms]
      keeps_entry_dep [where Q = "\<lambda>v. v = Some b \<and> br_id b = x \<and> br_state b = STATE_LIVE \<and> br_parent b = p",
        OF assms]
      keeps_entry_dep [where Q = "\<lambda>v. v = None \<or> (\<exists>b. v = Some b \<and> br_id b = x \<and> br_state b = STATE_FORKING
        \<and> br_parent b = p)", OF assms])+

lemma forget_outcome: "triple (in_state st p x) (forget E x) (\<lambda>_. absent x) (in_state st p x)"
  by (rule tripleI)
    (auto simp: forget_def op_defs persist_def record_defs split: if_splits option.splits prod.splits sum.splits)

lemma mark_live_outcome:
  "triple (in_state STATE_FORKING p x) (mark_live E x) (\<lambda>b. made p x b) (in_state STATE_FORKING p x)"
  by (rule tripleI)
    (auto simp: mark_live_def replace_branch_def op_defs persist_def record_defs
      split: if_splits option.splits prod.splits sum.splits)

lemma record_outcome:
  "br_id b = x \<Longrightarrow> br_state b = st \<Longrightarrow> br_parent b = p \<Longrightarrow>
   triple (absent x) (record_branch E b) (\<lambda>_. in_state st p x) (absent x)"
  by (rule tripleI)
    (auto simp: record_branch_def op_defs persist_def record_defs
      split: if_splits option.splits prod.splits sum.splits)

lemma rollback_outcome:
  "triple (in_state STATE_FORKING p x) (rollback_branch E x) (\<lambda>_. undone p x) (undone p x)"
proof -
  let ?F = "in_state STATE_FORKING p x"
  have kv: "triple ?F (attempt (on_kv m)) (\<lambda>_. ?F) (undone p x)" for m
    by (rule keeps_weaken, intro record_keeps keeps) simp
  have sb: "triple ?F (attempt (on_sb m)) (\<lambda>_. ?F) (undone p x)" for m
    by (rule keeps_weaken, intro record_keeps keeps) simp
  have "triple ?F (whenp c (forget E x)) (\<lambda>_. undone p x) (undone p x)" for c
    by (rule triple_whenp, rule triple_conseq [OF forget_outcome]) auto
  then show ?thesis
    unfolding rollback_branch_def by (intro triple_seqp [OF kv] triple_seqp [OF sb])
qed

lemma spawn_end_outcome:
  "triple (undone p x) (spawn_end y) (\<lambda>_. undone p x) R" "triple (made p x b) (spawn_end y) (\<lambda>_. made p x b) R"
  unfolding spawn_end_def by (rule triple_modp, simp add: record_defs)+

text \<open>The \<open>try ... except ... finally\<close> that \<open>create_parent\<close> and \<open>fork\<close> share.\<close>

lemma spawn_outcome:
  fixes work :: "('k, 'b, unit) op"
  assumes "\<And>v. keeps (entry x v) work" "\<And>v. keeps (entry x v) pre"
  shows "triple (in_state STATE_FORKING p x)
    (try_finally (try_except (seqp work (\<lambda>_. seqp pre (\<lambda>_ :: unit. mark_live E x)))
       (reraise (rollback_branch E x))) (spawn_end x))
    (\<lambda>b. made p x b) (undone p x)"
proof -
  let ?F = "in_state STATE_FORKING p x"
  have "triple ?F (seqp work (\<lambda>_. seqp pre (\<lambda>_. mark_live E x))) (\<lambda>b. made p x b) ?F"
    by (intro triple_seqp [OF record_keeps(1) [OF assms(1)]] triple_seqp [OF record_keeps(1) [OF assms(2)]]
        mark_live_outcome)
  then have "triple ?F (try_except (seqp work (\<lambda>_. seqp pre (\<lambda>_. mark_live E x)))
      (reraise (rollback_branch E x))) (\<lambda>b. made p x b) (undone p x)"
    by (rule triple_try_except) (rule triple_reraise, rule rollback_outcome)
  then show ?thesis
    by (rule triple_try_finally) (rule spawn_end_outcome)+
qed

section \<open>\<open>create_parent\<close>\<close>

lemma create_begin_outcome:
  "triple (absent x) (create_begin E x toks l) (\<lambda>_. in_state STATE_FORKING None x) (absent x)"
proof -
  have a: "keeps (absent x) (raise_if c e)" "keeps (absent x) (ensure_open False)"
    "keeps (absent x) (read_clock E)" "keeps (absent x) (lease_expiry E l)" for c e
    by (intro record_keeps keeps)+
  have "triple (in_state STATE_FORKING None x) (modp (\<lambda>s. s\<lparr>o_spawning := insert x (o_spawning s)\<rparr>))
      (\<lambda>_. in_state STATE_FORKING None x) (absent x)"
    by (intro triple_modp) (simp add: in_state_def)
  then show ?thesis
    unfolding create_begin_def
    by (intro triple_seqp [OF a(2)] triple_seqp [OF a(1)] triple_seqp [OF a(3)] triple_seqp [OF a(4)]
        triple_seqp [OF record_outcome]) simp_all
qed

lemma create_outcome: "triple (absent x) (create_parent E x toks l) (\<lambda>b. made None x b) (undone None x)"
proof -
  have "keeps (entry x v) (create_backends E x toks)" for v
    unfolding create_backends_def by (intro keeps)
  from spawn_outcome [where pre = "ret ()", OF this keeps_simple(1)]
  have "triple (in_state STATE_FORKING None x) (try_finally (try_except (seqp (create_backends E x toks)
      (\<lambda>_. mark_live E x)) (reraise (rollback_branch E x))) (spawn_end x)) (\<lambda>b. made None x b) (undone None x)"
    by simp
  moreover have "triple (absent x) (create_begin E x toks l) (\<lambda>_. in_state STATE_FORKING None x) (undone None x)"
    by (rule triple_conseq [OF create_begin_outcome]) auto
  ultimately show ?thesis
    unfolding create_parent_def by (rule triple_seqp [rotated])
qed

section \<open>\<open>fork\<close>\<close>

lemma spawn_one_outcome:
  "triple (in_state STATE_FORKING (Some p) (br_id b)) (spawn_one E p b) (\<lambda>b'. made (Some p) (br_id b) b')
     (undone (Some p) (br_id b))"
proof -
  have "keeps (entry x v) (fork_backends E p y)" "keeps (entry x v) (raise_if c RuntimeError)" for x y v c
    unfolding fork_backends_def by (intro keeps)+
  from spawn_outcome [OF this] show ?thesis
    unfolding spawn_one_def Let_def commit_child_def by simp
qed

text \<open>
  Items of a fan-out that work on different branches: each ends as its own call does.
\<close>

lemma fan_out_outcomes:
  assumes "distinct xs"
    and "\<And>x. x \<in> set xs \<Longrightarrow> triple (A x) (f x) (\<lambda>r. B x r) (C x)"
    and "\<And>x y. x \<in> set xs \<Longrightarrow> y \<in> set xs \<Longrightarrow> x \<noteq> y \<Longrightarrow>
       keeps (A y) (f x) \<and> (\<forall>r. keeps (B y r) (f x)) \<and> keeps (C y) (f x)"
  shows "triple (\<lambda>s. \<forall>x \<in> set xs. A x s) (fan_out f xs) (\<lambda>rs s. list_all2 (\<lambda>x r. B x r s) xs rs)
    (\<lambda>s. \<forall>x \<in> set xs. (\<exists>r. B x r s) \<or> C x s)"
proof -
  have frame: "P s \<Longrightarrow> P (snd (snd (fan_out_loop f ys s)))" if "\<And>y. y \<in> set ys \<Longrightarrow> keeps P (f y)" for P s ys
    using that
  proof (induction ys arbitrary: s)
    case (Cons y ys)
    have "P (snd (f y s))" using Cons.prems by (simp add: keeps_snd)
    then have "P (snd (snd (fan_out_loop f ys (snd (f y s)))))" using Cons by simp
    then show ?case by (auto split: prod.split sum.split)
  qed simp
  have "case fan_out_loop f xs s of (rs, err, s') \<Rightarrow>
      (err = None \<longrightarrow> list_all2 (\<lambda>x r. B x r s') xs rs) \<and> (\<forall>x \<in> set xs. (\<exists>r. B x r s') \<or> C x s')"
    if "\<forall>x \<in> set xs. A x s" for s
    using assms that
  proof (induction xs arbitrary: s)
    case (Cons x xs)
    obtain r s1 where r: "f x s = (r, s1)" by fastforce
    obtain rs err s2 where l: "fan_out_loop f xs s1 = (rs, err, s2)" by (metis prod_cases3)
    have s1: "case r of Inl e \<Rightarrow> C x s1 | Inr v \<Rightarrow> B x v s1"
      using Cons.prems(2) [of x] Cons.prems(4) r by (auto split: sum.split dest: tripleD)
    have "A y s1" if "y \<in> set xs" for y
    proof -
      have "keeps (A y) (f x)" using Cons.prems(1,3) that by auto
      from keeps_snd [OF this, of s] show ?thesis using Cons.prems(4) that r by simp
    qed
    then have rest: "(err = None \<longrightarrow> list_all2 (\<lambda>x r. B x r s2) xs rs) \<and> (\<forall>x \<in> set xs. (\<exists>r. B x r s2) \<or> C x s2)"
      using Cons.IH [of s1] Cons.prems(1-3) l by simp
    have "keeps (C x) (f y)" "\<forall>r. keeps (B x r) (f y)" if "y \<in> set xs" for y
      using Cons.prems(1,3) that by auto
    then have "case r of Inl e \<Rightarrow> C x s2 | Inr v \<Rightarrow> B x v s2"
      using s1 frame [of xs "C x" s1] frame [of xs "B x v" s1 for v] l by (auto split: sum.splits)
    with rest show ?case by (auto simp: r l split: sum.split)
  qed simp
  then show ?thesis
    by (intro tripleI) (auto simp: fan_out_def split: prod.splits option.splits, fastforce+)
qed

lemma list_all2_in_set2: "list_all2 P xs ys \<Longrightarrow> y \<in> set ys \<Longrightarrow> \<exists>x \<in> set xs. P x y"
  by (induction rule: list_all2_induct) auto

lemma made_all_live: "list_all2 (\<lambda>c b. made p (br_id c) b s) cs bs \<Longrightarrow> map br_id bs = map br_id cs"
  by (induction rule: list_all2_induct) (auto simp: made_def)

definition journaled :: "(string \<Rightarrow> branch option) \<Rightarrow> string \<Rightarrow> branch list \<Rightarrow> ('k, 'b) orch \<Rightarrow> bool" where
  "journaled D p cs s \<longleftrightarrow> distinct (map br_id cs) \<and>
     (\<forall>c \<in> set cs. D (br_id c) = None \<and> in_state STATE_FORKING (Some p) (br_id c) s) \<and>
     (\<forall>k. k \<notin> br_id ` set cs \<longrightarrow> dget (o_branches s) k = D k)"

text \<open>What a \<open>fork\<close> that raises may leave: the old records and, for new ids, undone or made children.\<close>

definition fork_residue :: "(string \<Rightarrow> branch option) \<Rightarrow> string \<Rightarrow> ('k, 'b) orch \<Rightarrow> bool" where
  "fork_residue D p s \<longleftrightarrow> (\<forall>k. dget (o_branches s) k = D k \<or>
     D k = None \<and> (in_state STATE_FORKING (Some p) k s \<or> (\<exists>b. made (Some p) k b s)))"

lemma fork_begin_outcome:
  fixes E :: "('k, 'b) config"
  shows "triple (\<lambda>s. reg_inv s \<and> dget (o_branches s) = D) (fork_begin E p n ids l)
     (\<lambda>cs s. length cs = nat n \<and> journaled D p cs s) (fork_residue D p)"
proof -
  let ?P = "\<lambda>s :: ('k, 'b) orch. reg_inv s \<and> dget (o_branches s) = D" and ?R = "fork_residue D p"
  let ?ids = "case ids of None \<Rightarrow> replicate (nat n) None | Some cs \<Rightarrow> map Some cs"
  let ?plan = "\<lambda>cs s :: ('k, 'b) orch. ?P s \<and> planned p (o_branches s) cs \<and> length cs = length ?ids"
  have R: "?R s" if "dget (o_branches s) = D" for s :: "('k, 'b) orch"
    using that by (simp add: fork_residue_def)
  have open': "triple ?P (ensure_open False) (\<lambda>_. ?P) ?R" "triple ?P (raise_if c e) (\<lambda>_. ?P) ?R" for c e
    by (rule keeps_weaken, rule keeps, simp add: R)+
  let ?bad = "case ids of None \<Rightarrow> False | Some cs \<Rightarrow> int (length cs) \<noteq> n"
  have len: "triple ?P (raise_if (\<lambda>_. ?bad) ValueError) (\<lambda>_ s. ?P s \<and> \<not> ?bad) ?R"
    by (intro triple_raise_if) (auto simp: R)
  have plan: "triple (\<lambda>s. ?P s \<and> \<not> ?bad) (plan_children E p l ?ids []) (\<lambda>cs s. ?plan cs s \<and> \<not> ?bad) ?R"
  proof (rule tripleI)
    fix s e s' assume s: "?P s \<and> \<not> ?bad" "plan_children E p l ?ids [] s = (Inl e, s')"
    have "o_branches s = o_branches s \<and> planned p (o_branches s) []" by (simp add: planned_def)
    from tripleD(1) [OF plan_children_planned this s(2)] s(1) R [of s'] show "?R s'" by simp
  next
    fix s cs s' assume s: "?P s \<and> \<not> ?bad" "plan_children E p l ?ids [] s = (Inr cs, s')"
    have "o_branches s = o_branches s \<and> planned p (o_branches s) []" by (simp add: planned_def)
    note pl = tripleD(2) [OF plan_children_planned this s(2)]
    have "reg_inv s'" using tripleD(2) [OF reg_plan _ s(2)] s(1) by simp
    with pl s(1) show "?plan cs s' \<and> \<not> ?bad" by simp
  qed
  have journal: "triple (\<lambda>s. ?plan cs s \<and> \<not> ?bad) (journal_children E cs)
      (\<lambda>_ s. length cs = nat n \<and> journaled D p cs s) ?R" for cs
  proof (rule tripleI)
    fix s e s' assume s: "?plan cs s \<and> \<not> ?bad" "journal_children E cs s = (Inl e, s')"
    then have "reg_inv s" "planned p (o_branches s) cs" by blast+
    then show "?R s'"
      using s R [of s'] by (cases rule: journal_children_cases [where E = E]) auto
  next
    fix s u s' assume s: "?plan cs s \<and> \<not> ?bad" "journal_children E cs s = (Inr u, s')"
    then have pl: "reg_inv s" "planned p (o_branches s) cs" by blast+
    then have s': "o_branches s' = add_all cs (o_branches s)"
      using s(2) by (cases rule: journal_children_cases [where E = E]) auto
    have "D (br_id c) = None \<and> in_state STATE_FORKING (Some p) (br_id c) s'" if "c \<in> set cs" for c
      using that pl(2) s(1) dget_add_all [of cs c "o_branches s"] dget_None_iff [of "o_branches s" "br_id c"]
      by (auto simp: in_state_def s' planned_def)
    moreover have "dget (o_branches s') k = D k" if "k \<notin> br_id ` set cs" for k
      using that s(1) by (simp add: s' dget_add_all_other)
    moreover have "length ?ids = nat n" using s(1) by (auto split: option.splits)
    ultimately show "length cs = nat n \<and> journaled D p cs s'"
      using pl(2) s(1) by (simp add: journaled_def planned_def)
  qed
  have fin: "triple (\<lambda>s. length cs = nat n \<and> journaled D p cs s)
      (seqp (modp (\<lambda>s. s\<lparr>o_spawning := o_spawning s \<union> br_id ` set cs\<rparr>)) (\<lambda>_. ret cs))
      (\<lambda>cs s. length cs = nat n \<and> journaled D p cs s) ?R" for cs
    by (rule tripleI) (auto simp: seqp_def modp_def ret_def journaled_def in_state_def)
  show ?thesis
    unfolding fork_begin_def
    by (intro triple_seqp [OF open'(1)] triple_seqp [OF open'(2)] triple_seqp [OF len] triple_seqp [OF plan]
        triple_seqp [OF journal] fin)
qed

text \<open>A \<open>fork\<close> that returns has made every child; one that raises leaves only accountable records.\<close>

definition forked :: "(string \<Rightarrow> branch option) \<Rightarrow> string \<Rightarrow> int \<Rightarrow> branch list \<Rightarrow> ('k, 'b) orch \<Rightarrow> bool" where
  "forked D p n bs s \<longleftrightarrow> length bs = nat n \<and> distinct (map br_id bs) \<and>
     (\<forall>b \<in> set bs. D (br_id b) = None \<and> made (Some p) (br_id b) b s) \<and>
     (\<forall>k. k \<notin> br_id ` set bs \<longrightarrow> dget (o_branches s) k = D k)"

lemma spawn_all_outcome:
  fixes E :: "('k, 'b) config"
  shows "triple (\<lambda>s. length cs = nat n \<and> journaled D p cs s) (fan_out (spawn_one E p) cs)
    (\<lambda>bs. forked D p n bs) (fork_residue D p)"
proof (cases "distinct (map br_id cs) \<and> length cs = nat n \<and> (\<forall>c \<in> set cs. D (br_id c) = None)")
  case True
  have inj: "distinct cs" "\<And>c d. c \<in> set cs \<Longrightarrow> d \<in> set cs \<Longrightarrow> c \<noteq> d \<Longrightarrow> br_id d \<noteq> br_id c"
    using True by (auto simp: distinct_map inj_on_def)
  let ?A = "\<lambda>c. in_state STATE_FORKING (Some p) (br_id c)" and ?O = "\<lambda>s :: ('k, 'b) orch. (\<forall>k. k \<notin> br_id ` set cs \<longrightarrow> dget (o_branches s) k = D k)"
  have new: "triple (\<lambda>s. \<forall>c \<in> set cs. ?A c s) (fan_out (spawn_one E p) cs)
      (\<lambda>bs s. list_all2 (\<lambda>c b. made (Some p) (br_id c) b s) cs bs)
      (\<lambda>s. \<forall>c \<in> set cs. (\<exists>b. made (Some p) (br_id c) b s) \<or> undone (Some p) (br_id c) s)"
  proof (rule fan_out_outcomes [OF inj(1)])
    fix c d assume "c \<in> set cs" "d \<in> set cs" "c \<noteq> d"
    then have "\<And>v. keeps (entry (br_id d) v) (spawn_one E p c)"
      using inj(2) by (intro entry_work(3) [of _ "br_id c"]) auto
    then show "keeps (?A d) (spawn_one E p c) \<and> (\<forall>b. keeps (made (Some p) (br_id d) b) (spawn_one E p c)) \<and>
        keeps (undone (Some p) (br_id d)) (spawn_one E p c)"
      by (intro conjI allI record_keeps)
  qed (rule spawn_one_outcome)
  have "keeps (entry k v) (fan_out (spawn_one E p) cs)" if "k \<notin> br_id ` set cs" for k v
    using that by (intro keeps_fan_out entry_work(3) [of _ "br_id x" for x]) auto
  then have "dget (o_branches (snd (fan_out (spawn_one E p) cs s))) k = D k" if "?O s" "k \<notin> br_id ` set cs" for s k
    using that keeps_snd [of "entry k (D k)" "fan_out (spawn_one E p) cs" s] by (simp add: entry_def)
  then have old: "keeps ?O (fan_out (spawn_one E p) cs)" by (intro keepsI) blast
  show ?thesis
  proof (rule triple_conseq [OF triple_conj [OF new old]])
    fix s :: "('k, 'b) orch" assume "length cs = nat n \<and> journaled D p cs s"
    then show "(\<forall>c \<in> set cs. ?A c s) \<and> ?O s" by (auto simp: journaled_def)
  next
    fix bs and s :: "('k, 'b) orch"
    assume bs: "list_all2 (\<lambda>c b. made (Some p) (br_id c) b s) cs bs \<and> ?O s"
    have ids: "map br_id bs = map br_id cs" using bs made_all_live by blast
    have made: "made (Some p) (br_id b) b s" if b: "b \<in> set bs" for b
    proof -
      obtain c :: branch where "made (Some p) (br_id c) b s"
        using list_all2_in_set2 [OF conjunct1 [OF bs] b] by blast
      moreover from this have "br_id b = br_id c" by (simp add: made_def)
      ultimately show ?thesis by simp
    qed
    have set: "br_id ` set bs = br_id ` set cs" by (metis ids list.set_map)
    have "D (br_id b) = None" if "b \<in> set bs" for b
    proof -
      have "br_id b \<in> br_id ` set cs" using that set by blast
      then show ?thesis using True by auto
    qed
    moreover have "length bs = nat n" using True map_eq_imp_length_eq [OF ids] by simp
    ultimately show "forked D p n bs s"
      unfolding forked_def set ids using True conjunct2 [OF bs] made by blast
  next
    fix s :: "('k, 'b) orch"
    assume s: "(\<forall>c \<in> set cs. (\<exists>b. made (Some p) (br_id c) b s) \<or> undone (Some p) (br_id c) s) \<and> ?O s"
    show "fork_residue D p s"
      unfolding fork_residue_def
    proof
      fix k
      show "dget (o_branches s) k = D k \<or>
         D k = None \<and> (in_state STATE_FORKING (Some p) k s \<or> (\<exists>b. made (Some p) k b s))"
      proof (cases "k \<in> br_id ` set cs")
        case True
        then have "D k = None" using \<open>distinct (map br_id cs) \<and> _ \<and> _\<close> by auto
        with s True show ?thesis by (auto simp: absent_def)
      qed (use s in simp)
    qed
  qed
qed (auto simp: triple_def journaled_def)

lemma fork_outcome:
  fixes E :: "('k, 'b) config"
  shows "triple (\<lambda>s. reg_inv s \<and> dget (o_branches s) = D) (fork E p n ids l)
    (\<lambda>bs. forked D p n bs) (fork_residue D p)"
proof -
  have "triple (forked D p n bs) (count f) (\<lambda>_. forked D p n bs) (fork_residue D p :: ('k, 'b) orch \<Rightarrow> bool)" for bs f
    by (rule tripleI) (auto simp: count_def modp_def forked_def made_def)
  then show ?thesis
    unfolding fork_def
    by (intro triple_seqp [OF fork_begin_outcome] triple_seqp [OF spawn_all_outcome] triple_seqp triple_ret) auto
qed

section \<open>\<open>kill\<close>\<close>

text \<open>A branch that a later kill can work on.\<close>

definition killable :: "string \<Rightarrow> ('k, 'b) orch \<Rightarrow> bool" where
  "killable x s \<longleftrightarrow> x \<in> keys (o_branches s) \<and> x \<notin> o_killing s \<and> x \<notin> o_spawning s"

definition held :: "string \<Rightarrow> ('k, 'b) orch \<Rightarrow> bool" where
  "held x s \<longleftrightarrow> x \<in> keys (o_branches s) \<and> x \<notin> o_spawning s"

lemma held_dget: "held x s \<longleftrightarrow> dget (o_branches s) x \<noteq> None \<and> x \<notin> o_spawning s"
  by (simp add: held_def dget_None_iff)

lemma killable_dget: "killable x s \<longleftrightarrow> dget (o_branches s) x \<noteq> None \<and> x \<notin> o_killing s \<and> x \<notin> o_spawning s"
  by (simp add: killable_def dget_None_iff)

lemma kill_begin_outcome: "triple (killable x) (kill_begin E allow x) (\<lambda>go s. go \<and> held x s) (killable x)"
  by (rule tripleI)
    (auto simp: kill_begin_def ensure_open_def replace_branch_def op_defs persist_def killable_dget held_dget
      dget_None_iff [symmetric] split: if_splits option.splits prod.splits sum.splits)

lemma kill_backends_outcome: "keeps (held x) (kill_backends E x)"
  unfolding kill_backends_def by (intro keeps keeps_on_kv keeps_on_sb) (simp_all add: held_def)

lemma kill_failed_outcome: "triple (held x) (kill_failed x) (\<lambda>_. killable x) (killable x)"
  by (rule tripleI) (auto simp: kill_failed_def op_defs held_def killable_def)

lemma kill_done_outcome: "triple (held x) (kill_done E x) (\<lambda>_ s. x \<notin> keys (o_branches s)) (killable x)"
  by (rule tripleI)
    (auto simp: kill_done_def forget_def op_defs persist_def held_dget killable_dget dget_None_iff [symmetric]
      simp flip: keys_dom split: if_splits option.splits prod.splits sum.splits)

text \<open>A kill removes the record or, when it raises, leaves one that a later kill takes up.\<close>

lemma kill_outcome:
  "triple (killable x) (kill_branch E allow x)
     (\<lambda>r s. rc_branch r = x \<and> rc_reaped r \<and> x \<notin> keys (o_branches s)) (killable x)"
proof -
  have work: "triple (held x) (try_except (kill_backends E x) (reraise (kill_failed x))) (\<lambda>_. held x) (killable x)"
    by (rule triple_try_except [OF kill_backends_outcome], rule triple_reraise, rule kill_failed_outcome)
  have "triple (held x) (seqp (try_except (kill_backends E x) (reraise (kill_failed x))) (\<lambda>freed.
      seqp (kill_done E x) (\<lambda>_. ret \<lparr>rc_branch = x, rc_freed = freed, rc_reaped = True\<rparr>)))
      (\<lambda>r s. rc_branch r = x \<and> rc_reaped r \<and> x \<notin> keys (o_branches s)) (killable x)"
    by (intro triple_seqp [OF work] triple_seqp [OF kill_done_outcome] triple_ret) simp
  then show ?thesis
    unfolding kill_branch_def
    by (intro triple_seqp [OF kill_begin_outcome]) (auto simp: triple_def)
qed

end
