(* ===== verification/Orchestrator_Recovery.thy ===== *)
theory Orchestrator_Recovery
  imports Orchestrator_Live Orchestrator_Outcomes
begin

text \<open>
  The properties of \<open>ForkOrchestrator\<close>, with witnesses on the default backends: the registry and
  memory agree, no resource escapes the registry, a crash is recovered from, and what each
  method leaves behind on its outcomes.
\<close>

section \<open>Starting points\<close>

text \<open>
  An orchestrator just constructed, over backends that hold resources only for the branches its
  registry file records.
\<close>

definition orch_started :: "('k \<Rightarrow> string set) \<Rightarrow> ('k \<Rightarrow> bool) \<Rightarrow> ('b \<Rightarrow> string set) \<Rightarrow> ('b \<Rightarrow> bool) \<Rightarrow>
    ('k, 'b) orch \<Rightarrow> bool" where
  "orch_started trees kinv boxes binv s0 \<longleftrightarrow>
     (\<exists>kv sb registry dl ri file. orch_init kv sb registry dl ri True file = Inr s0 \<and>
        kinv kv \<and> binv sb \<and> trees kv \<union> boxes sb \<subseteq> keys (o_branches s0))"

lemma orch_started_good: "orch_started trees kinv boxes binv s0 \<Longrightarrow> sys_inv trees kinv boxes binv ends s0"
  by (auto simp: orch_started_def intro!: orch_init_good)

lemma orch_started_quiet: "orch_started trees kinv boxes binv s0 \<Longrightarrow> quiet s0"
  by (auto simp: orch_started_def intro: orch_init_quiet)

lemma reached_good:
  assumes "orchestrated E trees kinv boxes binv" "orch_started trees kinv boxes binv s0" "orch_reach (call_ok ends) E s0 s"
  shows "sys_inv trees kinv boxes binv ends s" "quiet s" "reg_inv s"
  using orch_reach_good [OF assms(1,3) orch_started_good [OF assms(2)]]
    orch_reach_quiet [OF assms(3) orch_started_quiet [OF assms(2)]]
  by (simp_all add: sys_inv_def)

lemma reliable_is_orchestrated:
  "reliable_orch E trees kinv boxes binv \<Longrightarrow> orchestrated E trees kinv boxes binv"
  by (simp add: reliable_orch_def orchestrated_def reliable_kv_def reliable_sandbox_def)

section \<open>A sample run\<close>

definition demo_config :: "(kv_cache, unit) config" where
  "demo_config = ref_config real real (\<lambda>_. None)"

definition demo_start :: "(kv_cache, unit) orch" where
  "demo_start = projr (orch_init (projr (kv_init 100 None)) () True None None True None)"

fun orch_run :: "('k, 'b) config \<Rightarrow> call list \<Rightarrow> ('k, 'b) orch \<Rightarrow> ('k, 'b) orch option" where
  "orch_run E [] s = Some s"
| "orch_run E (c # cs) s = (case orch_step E c s of None \<Rightarrow> None | Some s' \<Rightarrow> orch_run E cs s')"

lemma orch_run_reach:
  "orch_run E cs s = Some s' \<Longrightarrow> orch_reach ok E s0 s \<Longrightarrow> (\<And>c. c \<in> set cs \<Longrightarrow> ok c) \<Longrightarrow> orch_reach ok E s0 s'"
  by (induction cs arbitrary: s) (auto split: option.splits intro: orch_reach.step)

definition demo_calls :: "call list" where
  "demo_calls = [CallCreate ''a'' [1, 2] None, CallFork ''a'' 3 None (Some 100), CallExtend ''a/2'' [3],
     CallCreate ''b'' [1] (Some 1), CallKill ''a/1'']"

definition demo_state :: "(kv_cache, unit) orch" where
  "demo_state = the (orch_run demo_config demo_calls demo_start)"

text \<open>A run that forks under the empty id, and an id with a superscript digit.\<close>

definition empty_id_calls :: "call list" where
  "empty_id_calls = [CallCreate ''a'' [1, 2] None, CallFork ''a'' 1 (Some [[]]) None, CallKill [], CallKill ''a'']"

definition superscript_id :: string where
  "superscript_id = [CHR ''a'', CHR ''/'', CHR 0xB2]"

lemma demo_init: "orch_init (projr (kv_init 100 None)) () True None None True None = Inr demo_start"
  by (simp add: demo_start_def orch_init_def not_positive_def load_registry_def orch_new_def seqp_def ret_def)

lemma demo_runs: "orch_run demo_config demo_calls demo_start = Some demo_state"
proof -
  have "orch_run demo_config demo_calls demo_start \<noteq> None" by code_simp
  then show ?thesis by (simp add: demo_state_def)
qed

lemma demo_reach: "(\<And>c. c \<in> set demo_calls \<Longrightarrow> ok c) \<Longrightarrow> orch_reach ok demo_config demo_start demo_state"
  by (rule orch_run_reach [OF demo_runs orch_reach.start])

lemma demo_reach_ok: "orch_reach (call_ok {}) demo_config demo_start demo_state"
  by (rule demo_reach) (auto simp: demo_calls_def)

lemma demo_started:
  "orch_started (\<lambda>s. keys (kv_trees s)) cache_dicts (\<lambda>_. {}) (\<lambda>_. True) demo_start"
proof -
  have "cache_dicts (projr (kv_init 100 None)) \<and> keys (kv_trees (projr (kv_init 100 None))) = {}"
    by (simp add: kv_init_def cache_dicts_def)
  note init = this
  show ?thesis
    unfolding orch_started_def by (intro exI [of _ "projr (kv_init 100 None)"] exI conjI) (rule demo_init, use init in simp_all)
qed

lemma demo_reliable:
  "reliable_orch demo_config (\<lambda>s. keys (kv_trees s)) cache_dicts (\<lambda>_. {}) (\<lambda>_. True)"
  unfolding demo_config_def by (rule ref_ok.reliable_orch_axioms)

lemma demo_branches: "map fst (o_branches demo_state) = [''a'', ''a/2'', ''a/3'', ''b'']"
  by code_simp

lemma demo_keys: "keys (o_branches demo_state) = {''a'', ''a/2'', ''a/3'', ''b''}"
  using arg_cong [OF demo_branches, of set] by simp

lemma demo_open: "\<not> o_closed demo_state \<and> o_registry demo_state"
  by code_simp

section \<open>The registry and the resources\<close>

text \<open>
  C1: After any sequence of calls, whatever the backends do and whichever registry writes fail, each
  record is filed under its own id and the registry file, read back the way \<open>__init__\<close> reads it,
  gives exactly the branches in memory.
\<close>

theorem registry_agrees:
  assumes "orch_init kv sb registry dl ri free file = Inr s0" "orch_reach (\<lambda>_. True) E s0 s"
  shows "ids_ok (o_branches s) \<and> (o_registry s \<longrightarrow> disk_says s (dget (o_branches s)))"
  using orch_reach_reg [OF assms(2) orch_init_reg [OF assms(1)]] by (simp add: reg_inv_def)

theorem registry_agrees_witness:
  "map fst (o_branches demo_state) = [''a'', ''a/2'', ''a/3'', ''b''] \<and>
   disk_says demo_state (dget (o_branches demo_state))"
  using registry_agrees [OF demo_init demo_reach] demo_branches demo_open by simp

text \<open>
  C2: With backends that keep their contracts, every KV tree and every sandbox the backends hold
  belongs to a recorded branch, and every live branch of this process that no \<open>generate\<close> ends has its KV tree, after any
  sequence of calls in which no child id given to \<open>fork\<close> is empty (\<open>call_ok\<close>), failed calls and failed registry writes
  included.
\<close>

theorem no_orphan_resources:
  assumes "orchestrated E trees kinv boxes binv" "orch_started trees kinv boxes binv s0"
    and "orch_reach (call_ok ends) E s0 s"
  shows "trees (o_kv s) \<union> boxes (o_sb s) \<subseteq> keys (o_branches s) \<and>
    (\<forall>b. is_live s b \<and> b \<notin> set (o_loaded s) \<and> b \<notin> ends \<longrightarrow> b \<in> trees (o_kv s))"
  using reached_good(1) [OF assms] by (simp add: sys_inv_def covered_def backed_def)

theorem no_orphan_resources_witness:
  "keys (kv_trees (o_kv demo_state)) \<subseteq> keys (o_branches demo_state) \<and> ''a/3'' \<in> keys (kv_trees (o_kv demo_state))"
proof -
  have "is_live demo_state ''a/3'' \<and> ''a/3'' \<notin> set (o_loaded demo_state)" by code_simp
  then show ?thesis
    using no_orphan_resources [OF reliable_is_orchestrated [OF demo_reliable] demo_started demo_reach_ok] by simp
qed




end
