(* ===== verification/Orchestrator_Methods.thy ===== *)
theory Orchestrator_Methods
  imports Orchestrator_Recovery
begin

text \<open>
  What each method of \<open>ForkOrchestrator\<close> promises on its outcomes, continued from
  \<open>Orchestrator_Recovery\<close>: creation, forking, killing, collection, closing, and the ids.
\<close>

section \<open>Making and removing branches\<close>

text \<open>
  C9: \<open>create_parent\<close> of a new id returns the record of a live root that has its KV tree, or raises
  and leaves either nothing of the branch (no record, KV tree or sandbox) or a record in state
  \<open>forking\<close> that \<open>reconcile\<close> collects.  No other record changes.
\<close>

theorem create_parent_all_or_nothing:
  assumes "orchestrated E trees kinv boxes binv" "orch_started trees kinv boxes binv s0"
    and "orch_reach (call_ok ends) E s0 s" "x \<notin> keys (o_branches s)"
  shows "case create_parent E x toks l s of (r, s') \<Rightarrow>
    (\<forall>k. k \<noteq> x \<longrightarrow> dget (o_branches s') k = dget (o_branches s) k) \<and>
    (case r of
       Inr b \<Rightarrow> made None x b s'
     | Inl e \<Rightarrow> x \<notin> keys (o_branches s') \<and> x \<notin> trees (o_kv s') \<and> x \<notin> boxes (o_sb s') \<or>
         in_state STATE_FORKING None x s' \<and> \<not> in_flight s' x)"
proof -
  obtain r s' where c: "create_parent E x toks l s = (r, s')" by fastforce
  then have reach: "orch_reach (call_ok ends) E s0 s'"
    by (intro orch_reach.step [OF assms(3), of "CallCreate x toks l"]) simp_all
  note new = reached_good [OF assms(1,2) reach]
  have "entry k (dget (o_branches s) k) s'" if "k \<noteq> x" for k
    using keeps_snd [OF entry_work(6) [OF that], of "dget (o_branches s) k" s E toks l] c by (simp add: entry_def)
  moreover have "absent x s" using assms(4) by (simp add: absent_def dget_None_iff)
  then have "case r of Inl e \<Rightarrow> undone None x s' | Inr b \<Rightarrow> made None x b s'"
    using c tripleD [OF create_outcome [of x E toks l]] by (auto split: sum.split)
  moreover have "x \<notin> keys (o_branches s') \<and> x \<notin> trees (o_kv s') \<and> x \<notin> boxes (o_sb s')" if "absent x s'"
    using new(1) that unfolding absent_def dget_None_iff sys_inv_def covered_def by blast
  moreover have "\<not> in_flight s' x" using new(2) by (simp add: flight_def in_flight_def)
  ultimately show ?thesis by (auto simp: c entry_def split: sum.splits)
qed

theorem create_parent_all_or_nothing_witness:
  "\<exists>b s'. create_parent demo_config ''c'' [7] None demo_state = (Inr b, s') \<and> made None ''c'' b s'"
proof -
  have ok: "''c'' \<notin> keys (o_branches demo_state)" by (simp add: demo_keys)
  have "case fst (create_parent demo_config ''c'' [7] None demo_state) of Inl _ \<Rightarrow> False | Inr _ \<Rightarrow> True"
    by code_simp
  then show ?thesis
    using create_parent_all_or_nothing [OF reliable_is_orchestrated [OF demo_reliable] demo_started demo_reach_ok ok,
        of "[7]" None]
    by (auto split: prod.splits sum.splits)
qed

text \<open>
  C10: \<open>fork\<close> returns exactly \<open>n\<close> live children of the parent under distinct ids that were free, all
  other records unchanged; if it raises, the old records are unchanged and every new one is a
  live child or a child in state \<open>forking\<close> that \<open>reconcile\<close> collects.
\<close>

theorem fork_children:
  assumes "orch_init kv sb registry dl ri free file = Inr s0" "orch_reach (\<lambda>_. True) E s0 s"
  shows "case fork E p n ids l s of (r, s') \<Rightarrow> quiet s' \<and>
    (case r of Inr bs \<Rightarrow> forked (dget (o_branches s)) p n bs s'
     | Inl e \<Rightarrow> fork_residue (dget (o_branches s)) p s')"
proof -
  obtain r s' where c: "fork E p n ids l s = (r, s')" by fastforce
  have "reg_inv s \<and> dget (o_branches s) = dget (o_branches s)"
    using orch_reach_reg [OF assms(2) orch_init_reg [OF assms(1)]] by simp
  from tripleD [OF fork_outcome [of _ E p n ids l] this] c
  have "case r of Inr bs \<Rightarrow> forked (dget (o_branches s)) p n bs s' | Inl e \<Rightarrow> fork_residue (dget (o_branches s)) p s'"
    by (auto split: sum.split)
  moreover have "quiet s'"
    using keeps_snd [OF quiet_fork orch_reach_quiet [OF assms(2) orch_init_quiet [OF assms(1)]]] c by (metis snd_conv)
  ultimately show ?thesis by (simp add: c)
qed

theorem fork_children_witness:
  "\<exists>bs s'. fork demo_config ''a'' 2 (Some [''x'', ''y'']) None demo_state = (Inr bs, s') \<and> length bs = 2 \<and>
     (\<forall>b \<in> set bs. made (Some ''a'') (br_id b) b s')"
proof -
  have "case fst (fork demo_config ''a'' 2 (Some [''x'', ''y'']) None demo_state) of Inl _ \<Rightarrow> False | Inr _ \<Rightarrow> True"
    by code_simp
  then show ?thesis
    using fork_children [OF demo_init demo_reach, of "''a''" 2 "Some [''x'', ''y'']" None]
    by (auto simp: forked_def split: prod.splits sum.splits)
qed

text \<open>
  C11: \<open>kill\<close> of a recorded branch either returns a receipt saying it was reaped, and then its record,
  KV tree and sandbox are gone, or raises, and then the record is still there, not in flight, so
  the kill can be repeated.
\<close>

theorem kill_complete_or_retryable:
  assumes "orchestrated E trees kinv boxes binv" "orch_started trees kinv boxes binv s0"
    and "orch_reach (call_ok ends) E s0 s" "x \<in> keys (o_branches s)"
  shows "case orch_kill E x s of
      (Inr r, s') \<Rightarrow> rc_branch r = x \<and> rc_reaped r \<and> x \<notin> keys (o_branches s') \<and> x \<notin> trees (o_kv s') \<and> x \<notin> boxes (o_sb s')
    | (Inl e, s') \<Rightarrow> x \<in> keys (o_branches s') \<and> \<not> in_flight s' x"
proof -
  obtain r s' where c: "orch_kill E x s = (r, s')" by fastforce
  then have reach: "orch_reach (call_ok ends) E s0 s'"
    by (intro orch_reach.step [OF assms(3), of "CallKill x"]) simp_all
  note now = reached_good [OF assms(1-3)] and new = reached_good [OF assms(1,2) reach]
  have "killable x s" using now(2) assms(4) by (simp add: killable_def flight_def)
  then have "case r of Inl e \<Rightarrow> killable x s' | Inr r \<Rightarrow> rc_branch r = x \<and> rc_reaped r \<and> x \<notin> keys (o_branches s')"
    using c tripleD [OF kill_outcome [of x E False]] by (auto simp: orch_kill_def split: sum.split)
  then show ?thesis
    using new(1) by (auto simp: c killable_def in_flight_def sys_inv_def covered_def split: sum.splits)
qed

theorem kill_complete_or_retryable_witness:
  "\<exists>r s'. orch_kill demo_config ''a/2'' demo_state = (Inr r, s') \<and> rc_reaped r \<and> ''a/2'' \<notin> keys (kv_trees (o_kv s'))"
proof -
  have ok: "''a/2'' \<in> keys (o_branches demo_state)" by (simp add: demo_keys)
  have "case fst (orch_kill demo_config ''a/2'' demo_state) of Inl _ \<Rightarrow> False | Inr _ \<Rightarrow> True" by code_simp
  then show ?thesis
    using kill_complete_or_retryable [OF reliable_is_orchestrated [OF demo_reliable] demo_started demo_reach_ok ok]
    by (auto split: prod.splits sum.splits)
qed

section \<open>Collecting and closing\<close>

text \<open>
  C12: With reliable backends and disk, \<open>reconcile\<close> on an open orchestrator returns and removes
  exactly the branches left mid-operation (\<open>forking\<close> or \<open>killing\<close>), those loaded from a previous
  process and those whose lease has lapsed; every other record is unchanged.
\<close>

theorem reconcile_exact:
  assumes "reliable_orch E trees kinv boxes binv" "orch_started trees kinv boxes binv s0"
    and "orch_reach (call_ok ends) E s0 s" "\<not> o_closed s"
  shows "\<exists>rs s'. reconcile E s = (Inr rs, s') \<and> o_loaded s' = [] \<and>
    dget (o_branches s') = (\<lambda>k. case dget (o_branches s) k of None \<Rightarrow> None
      | Some b \<Rightarrow> if br_state b = STATE_FORKING \<or> br_state b = STATE_KILLING \<or> k \<in> set (o_loaded s) \<or>
                       lapsed (cf_clock E (o_reads s)) b then None else Some b)"
proof -
  note now = reached_good [OF reliable_is_orchestrated [OF assms(1)] assms(2,3)]
  have idle: "idle s" using now(2) assms(4) by (simp add: idle_quiet)
  let ?now = "cf_clock E (o_reads s)"
  obtain rs s' where r: "reconcile E s = (Inr rs, s')" and "sys_inv trees kinv boxes binv ends s'" "idle s'"
    and d: "dget (o_branches s') = (\<lambda>k. if k \<in> set (stuck_branches s) \<union>
       set (expired_branches ?now (stuck_branches s) s) then None else dget (o_branches s) k)"
    and l: "o_loaded s' = []"
    by (rule reliable_orch.reconcile_settles [OF assms(1) now(1) idle])
  have reg: "ids_ok (o_branches s)" "set (o_loaded s) \<subseteq> keys (o_branches s)"
    using now(3) by (simp_all add: reg_inv_def)
  note takes = reliable_orch.reconcile_takes [OF assms(1) reg idle, of _ ?now]
  show ?thesis
    using r l unfolding d takes
    by (intro exI [of _ rs] exI [of _ s'] conjI) (auto simp: d [unfolded takes] fun_eq_iff split: option.split)
qed

theorem reconcile_exact_witness:
  "\<exists>rs s'. reconcile demo_config demo_state = (Inr rs, s') \<and> o_loaded s' = []"
  using reconcile_exact [OF demo_reliable demo_started demo_reach_ok conjunct1 [OF demo_open]] by blast

text \<open>
  \<open>reap_expired\<close> returns and removes exactly the branches whose lease has lapsed at the time it
  reads; branches without a lease are never removed by it.
\<close>

theorem reap_expired_exact:
  assumes "reliable_orch E trees kinv boxes binv" "orch_started trees kinv boxes binv s0"
    and "orch_reach (call_ok ends) E s0 s" "\<not> o_closed s"
  shows "\<exists>rs s'. reap_expired E s = (Inr rs, s') \<and>
    dget (o_branches s') = (\<lambda>k. case dget (o_branches s) k of None \<Rightarrow> None
      | Some b \<Rightarrow> if lapsed (cf_clock E (o_reads s)) b then None else Some b)"
proof -
  note now = reached_good [OF reliable_is_orchestrated [OF assms(1)] assms(2,3)]
  have idle: "idle s" using now(2) assms(4) by (simp add: idle_quiet)
  show ?thesis by (rule reliable_orch.reap_settles [OF assms(1) now(1) idle]) blast
qed

theorem reap_expired_exact_witness:
  "\<exists>rs s'. reap_expired demo_config demo_state = (Inr rs, s') \<and> dget (o_branches s') ''b'' = None \<and>
     dget (o_branches s') ''a/3'' \<noteq> None"
proof -
  have "case dget (o_branches demo_state) ''b'' of None \<Rightarrow> False
      | Some b \<Rightarrow> lapsed (cf_clock demo_config (o_reads demo_state)) b"
    "case dget (o_branches demo_state) ''a/3'' of None \<Rightarrow> False
      | Some b \<Rightarrow> \<not> lapsed (cf_clock demo_config (o_reads demo_state)) b"
    by code_simp+
  then show ?thesis
    using reap_expired_exact [OF demo_reliable demo_started demo_reach_ok conjunct1 [OF demo_open]]
    by (auto split: option.splits)
qed

text \<open>
  C13: \<open>kill_losers\<close> of a live winner returns, reaps every branch that is not the winner or one of its
  ancestors, with one receipt for each in registry order, and leaves the records of that chain
  as they were.
\<close>

theorem kill_losers_exact:
  assumes "reliable_orch E trees kinv boxes binv" "orch_started trees kinv boxes binv s0"
    and "orch_reach (call_ok ends) E s0 s" "\<not> o_closed s" "is_live s w"
  shows "\<exists>rs s'. kill_losers E w s = Some (Inr rs, s') \<and>
    dget (o_branches s') = (\<lambda>k. if k \<in> ancestors (o_branches s) w then dget (o_branches s) k else None) \<and>
    map rc_branch rs = filter (\<lambda>k. k \<notin> ancestors (o_branches s) w) (map fst (o_branches s)) \<and>
    (\<forall>r \<in> set rs. rc_reaped r)"
proof -
  note now = reached_good [OF reliable_is_orchestrated [OF assms(1)] assms(2,3)]
  have idle: "idle s" using now(2) assms(4) by (simp add: idle_quiet)
  show ?thesis by (rule reliable_orch.kill_losers_settles [OF assms(1) now(1) idle assms(5)]) blast
qed

theorem kill_losers_exact_witness:
  "\<exists>rs s'. kill_losers demo_config ''a/2'' demo_state = Some (Inr rs, s') \<and> map rc_branch rs = [''a/3'', ''b''] \<and>
     dget (o_branches s') ''a'' \<noteq> None"
proof -
  have live: "is_live demo_state ''a/2''" by code_simp
  have "keep_chain (o_branches demo_state) (Some ''a/2'') [] = [''a'', ''a/2'']" by code_simp
  then have anc: "ancestors (o_branches demo_state) ''a/2'' = {''a'', ''a/2''}"
    using keep_chain_ancestors [of "o_branches demo_state" "''a/2''"] by simp
  have "dget (o_branches demo_state) ''a'' \<noteq> None" by (simp add: dget_None_iff demo_keys)
  then show ?thesis
    using kill_losers_exact [OF demo_reliable demo_started demo_reach_ok conjunct1 [OF demo_open] live]
    by (auto simp: anc demo_branches)
qed



text \<open>
  Once an orchestrator is closed, every method that would change or use a branch raises
  \<open>RuntimeError\<close> and changes nothing, and a further \<open>close\<close> returns at once.
\<close>

theorem closed_refuses:
  assumes "o_closed s"
  shows "create_parent E x toks l s = (Inl RuntimeError, s) \<and>
    fork E p n ids l s = (Inl RuntimeError, s) \<and>
    orch_extend E x toks s = (Inl RuntimeError, s) \<and>
    orch_generate E x pr sp fin rv s = (Inl RuntimeError, s) \<and>
    orch_exec E x argv tmo inp s = (Inl RuntimeError, s) \<and>
    orch_exec_detached E x argv s = (Inl RuntimeError, s) \<and>
    export_artifact E x src dst s = (Inl RuntimeError, s) \<and>
    orch_kill E x s = (Inl RuntimeError, s) \<and>
    kill_losers E x s = Some (Inl RuntimeError, s) \<and>
    renew_lease E x len s = (Inl RuntimeError, s) \<and>
    reap_expired E s = (Inl RuntimeError, s) \<and>
    reconcile E s = (Inl RuntimeError, s) \<and>
    (0 < i \<longrightarrow> start_reaper i s = (Inl RuntimeError, s)) \<and>
    close E s = Some (Inr (), s\<lparr>o_reaper := False\<rparr>)"
  using assms
  by (simp add: create_parent_def create_begin_def fork_def fork_begin_def orch_extend_def orch_generate_def
      orch_exec_def orch_exec_detached_def export_artifact_def orch_kill_def kill_branch_def kill_begin_def
      kill_losers_def losers_begin_def renew_lease_def reap_expired_def reconcile_def start_reaper_def close_def
      stop_reaper_def need_live_def ensure_open_def op_defs)

theorem closed_refuses_witness:
  "\<exists>s :: (kv_cache, unit) orch. o_closed s \<and> fork demo_config ''a'' 1 None None s = (Inl RuntimeError, s)"
proof -
  have "o_closed (demo_start\<lparr>o_closed := True\<rparr>)" by simp
  then show ?thesis
    using closed_refuses by (intro exI [of _ "demo_start\<lparr>o_closed := True\<rparr>"]) blast
qed

text \<open>
  C15: A turn of the background reaper never raises, whatever the backends and the disk do, and the
  reaper stops only when the orchestrator is closed.
\<close>

theorem reaper_survives:
  "\<exists>go s'. reaper_pass E restart_dead s = (Inr go, s') \<and> (go \<or> o_closed s')"
  by (cases "seqp (reaper_body E restart_dead) (\<lambda>_. ret True) s"; cases "fst (seqp (reaper_body E restart_dead) (\<lambda>_. ret True) s)")
    (auto simp: reaper_pass_def try_except_def readp_def ret_def, auto simp: seqp_def ret_def split: prod.splits sum.splits)

section \<open>Ids and the registry file\<close>

text \<open>
  \<open>_next_child_id\<close> returns, for every registry: the id is the parent's with the least number above
  the counter that is free, so it is never one in use, and the counter moves up to it.
\<close>

theorem next_child_id_fresh:
  "\<exists>n. next_child_id parent s = (Inr (child_id parent n), s\<lparr>o_seq := n\<rparr>) \<and> o_seq s < n \<and>
     child_id parent n \<notin> keys (o_branches s) \<and>
     (\<forall>m. o_seq s < m \<and> m < n \<longrightarrow> child_id parent m \<in> keys (o_branches s))"
proof -
  have "sq < next_child_seq bs parent sq \<and> child_id parent (next_child_seq bs parent sq) \<notin> keys bs \<and>
      (\<forall>m. sq < m \<and> m < next_child_seq bs parent sq \<longrightarrow> child_id parent m \<in> keys bs)" for bs sq
  proof (induction bs parent sq rule: next_child_seq.induct)
    case (1 bs parent sq)
    show ?case
    proof (cases "child_id parent (Suc sq) \<in> keys bs")
      case True
      have "child_id parent m \<in> keys bs" if "sq < m" "m < next_child_seq bs parent (Suc sq)" for m
        using 1 [OF True] True that by (cases "m = Suc sq") auto
      then show ?thesis using 1 [OF True] True by (subst (1 2 3) next_child_seq.simps) auto
    next
      case False
      then show ?thesis by (subst (1 2 3) next_child_seq.simps) (auto simp: less_Suc_eq)
    qed
  qed
  then show ?thesis by (auto simp: next_child_id_def Let_def)
qed

text \<open>
  C16: The registry document round-trips: what \<open>_persist\<close> writes, \<open>__init__\<close> reads back as the same
  records in the same order.
\<close>

theorem registry_round_trip: "ids_ok bs \<Longrightarrow> load_doc (registry_doc bs) = Inr bs"
  by (simp add: ids_ok_def load_registry_doc)

theorem registry_round_trip_witness:
  "load_doc (registry_doc (o_branches demo_state)) = Inr (o_branches demo_state)"
proof -
  have "ids_ok (o_branches demo_state)"
    using orch_reach_reg [OF demo_reach orch_init_reg [OF demo_init]] by (simp add: reg_inv_def)
  then show ?thesis by (rule registry_round_trip)
qed

lemma numeric_suffixes_mem:
  "numeric_suffixes ids = Inr ns \<Longrightarrow> child_id p n \<in> set ids \<Longrightarrow> n \<in> set ns"
proof (induction ids arbitrary: ns)
  case (Cons b bs)
  show ?case
  proof (cases "b = child_id p n")
    case True
    then have "CHR ''/'' \<in> set b" "after_slash b = str_nat n"
      using after_slash_child [of p n] by (simp_all add: child_id_def)
    then show ?thesis
      using Cons.prems(1) by (auto simp: isdigit_str_nat py_int_str_nat and_then_def split: sum.splits)
  next
    case False
    then show ?thesis
      using Cons by (auto simp: and_then_def split: if_splits sum.splits)
  qed
qed simp

text \<open>
  The counter that \<open>__init__\<close> restores from the loaded ids is at least every generated number in
  them, so a child named after a restart never reuses an id of the previous process.
\<close>

theorem restored_counter_bounds:
  assumes "initial_seq bs = Inr m" "child_id p n \<in> keys bs"
  shows "n \<le> m"
proof -
  obtain ns where ns: "numeric_suffixes (map fst bs) = Inr ns" "m = fold max ns 0"
    using assms(1) by (auto simp: initial_seq_def and_then_def split: sum.splits)
  have "x \<le> fold max xs (a :: nat)" if "x \<in> set xs \<or> x \<le> a" for x a and xs :: "nat list"
    using that by (induction xs arbitrary: a) (auto simp: le_max_iff_disj)
  moreover have "n \<in> set ns" using numeric_suffixes_mem [OF ns(1)] assms(2) by simp
  ultimately show ?thesis using ns(2) by blast
qed

theorem restored_counter_bounds_witness:
  "initial_seq (o_branches demo_state) = Inr 3 \<and> child_id ''a'' 2 \<in> keys (o_branches demo_state) \<and> (2 :: nat) \<le> 3"
proof -
  have m: "initial_seq (o_branches demo_state) = Inr 3" by code_simp
  have "child_id ''a'' 2 = ''a/2''" by code_simp
  then have "child_id ''a'' 2 \<in> keys (o_branches demo_state)" by (simp add: demo_keys)
  then show ?thesis using restored_counter_bounds [OF m] m by blast
qed

section \<open>Two ways out of the guarantees\<close>

text \<open>
  \<open>fork\<close> accepts the empty child id, for which \<open>TreeKVCache\<close> makes up another id: a run with
  default backends and no fault ends with every branch killed and a KV tree still held.
\<close>

theorem empty_child_id_leaks:
  "\<exists>s. orch_reach (\<lambda>_. True) demo_config demo_start s \<and> o_branches s = [] \<and> kv_trees (o_kv s) \<noteq> []"
proof -
  have "case orch_run demo_config empty_id_calls demo_start of None \<Rightarrow> False
      | Some s \<Rightarrow> o_branches s = [] \<and> kv_trees (o_kv s) \<noteq> []"
    by code_simp
  then show ?thesis by (auto split: option.splits intro: orch_run_reach [OF _ orch_reach.start])
qed

text \<open>
  A branch may be created under an id whose suffix is a superscript digit; the registry file that
  holds it can then not be loaded again: the next construction raises \<open>ValueError\<close>.
\<close>

theorem superscript_id_blocks_restart:
  "\<exists>s. orch_reach (call_ok {}) demo_config demo_start s \<and> is_live s superscript_id \<and>
     orch_init (o_kv s) (o_sb s) True None None True (o_disk s) = Inl ValueError"
proof -
  let ?s = "snd (create_parent demo_config superscript_id [] None demo_start)"
  have "is_live ?s superscript_id" by code_simp
  moreover have "case orch_init (o_kv ?s) (o_sb ?s) True None None True (o_disk ?s) of
      Inl e \<Rightarrow> e = ValueError | Inr _ \<Rightarrow> False"
    by code_simp
  moreover have "orch_reach (call_ok {}) demo_config demo_start ?s"
    by (rule orch_reach.step [OF orch_reach.start, where c = "CallCreate superscript_id [] None"]) simp_all
  ultimately show ?thesis by (intro exI [of _ ?s]) (auto split: sum.splits)
qed

end
