(* ===== verification/Python_Text.thy ===== *)
theory Python_Text
  imports Registry
begin

text \<open>
  The string operations of the standard library that several components use: \<open>int(text)\<close>, \<open>strip\<close>,
  \<open>lower\<close> and the substring test.
\<close>

text \<open>
  \<open>int(text)\<close>: surrounding white space, a sign, decimal digits with single underscores between
  them.
\<close>

definition py_space :: "char \<Rightarrow> bool" where
  "py_space c \<longleftrightarrow> (let n = (of_char c :: nat) in 9 \<le> n \<and> n \<le> 13 \<or> 28 \<le> n \<and> n \<le> 32 \<or> n = 133 \<or> n = 160)"

definition py_strip :: "string \<Rightarrow> string" where
  "py_strip s = rev (dropWhile py_space (rev (dropWhile py_space s)))"

fun int_digits :: "nat \<Rightarrow> string \<Rightarrow> nat option" where
  "int_digits acc [] = None"
| "int_digits acc (c # cs) =
     (if \<not> decimal_char c then None
      else let acc' = 10 * acc + (of_char c - 48) in
        case cs of
          [] \<Rightarrow> Some acc'
        | d # ds \<Rightarrow> if d = CHR ''_'' then int_digits acc' ds else int_digits acc' (d # ds))"

definition int_of_str :: "string \<Rightarrow> exc + int" where
  "int_of_str text =
     (let s = py_strip text;
          (neg, body) = (case s of [] \<Rightarrow> (False, []) | c # cs \<Rightarrow>
             if c = CHR ''-'' then (True, cs) else if c = CHR ''+'' then (False, cs) else (False, s))
      in case int_digits 0 body of None \<Rightarrow> Inl ValueError | Some n \<Rightarrow> Inr (if neg then - int n else int n))"

text \<open>Lower case for ASCII letters, and \<open>sub in s\<close>.\<close>

definition ascii_lower :: "char \<Rightarrow> char" where
  "ascii_lower c = (let n = (of_char c :: nat) in if 65 \<le> n \<and> n \<le> 90 then char_of (n + 32) else c)"

definition str_lower :: "string \<Rightarrow> string" where
  "str_lower s = map ascii_lower s"

fun contains :: "string \<Rightarrow> string \<Rightarrow> bool" where
  "contains sub [] = (sub = [])"
| "contains sub (c # cs) = (prefix sub (c # cs) \<or> contains sub cs)"

text \<open>\<open>int\<close> reads back what \<open>str\<close> wrote.\<close>

lemma int_digits_decimal:
  "cs \<noteq> [] \<Longrightarrow> list_all decimal_char cs \<Longrightarrow> int_digits acc cs = Some (foldl (\<lambda>n c. 10 * n + (of_char c - 48)) acc cs)"
proof (induction cs arbitrary: acc)
  case (Cons c cs)
  have "d \<noteq> CHR ''_''" if "decimal_char d" for d using that by (auto simp: decimal_char_def)
  with Cons show ?case by (cases cs) (simp_all add: Let_def)
qed simp

lemma py_strip_id: "(\<And>c. c \<in> set s \<Longrightarrow> \<not> py_space c) \<Longrightarrow> py_strip s = s"
proof -
  assume s: "\<And>c. c \<in> set s \<Longrightarrow> \<not> py_space c"
  have "dropWhile py_space xs = xs" if "set xs \<subseteq> set s" for xs
    using that s by (cases xs) auto
  then show ?thesis by (simp add: py_strip_def)
qed

lemma decimal_not_space: "decimal_char c \<Longrightarrow> \<not> py_space c"
  by (auto simp: decimal_char_def py_space_def Let_def)

lemma int_of_str_int: "int_of_str (str_int n) = Inr n"
proof -
  have dec: "list_all decimal_char (str_nat k)" for k by (simp add: list_all_iff decimal_str_nat)
  have val: "int_digits 0 (str_nat k) = Some k" for k
    using int_digits_decimal [OF str_nat_nonempty(1) dec] py_int_str_nat [of k] dec
    by (simp add: py_int_def split: if_splits)
  have first: "case str_nat k of [] \<Rightarrow> False | c # cs \<Rightarrow> c \<noteq> CHR ''-'' \<and> c \<noteq> CHR ''+''" for k
    using dec [of k] by (cases "str_nat k") (auto simp: decimal_char_def)
  have strip: "py_strip (str_nat k) = str_nat k" for k
    by (rule py_strip_id) (metis decimal_not_space decimal_str_nat)
  have strip': "py_strip (CHR ''-'' # str_nat k) = CHR ''-'' # str_nat k" for k
  proof (rule py_strip_id)
    fix c assume "c \<in> set (CHR ''-'' # str_nat k)"
    then consider "c = CHR ''-''" | "decimal_char c" using decimal_str_nat by auto
    then show "\<not> py_space c" by cases (simp add: py_space_def, rule decimal_not_space)
  qed
  show ?thesis
  proof (cases "n < 0")
    case True
    then show ?thesis by (simp add: int_of_str_def str_int_def strip' val)
  next
    case False
    then show ?thesis
      using first [of "nat n"] val [of "nat n"]
      by (auto simp: int_of_str_def str_int_def strip split: list.splits simp del: int_digits.simps)
  qed
qed

end
