(* ===== verification/Reaper.thy ===== *)
theory Reaper
  imports Backends Python_Text
begin

text \<open>
  \<open>kill/reaper.py\<close>: the class \<open>BranchReaper\<close> over a model of the child processes of the
  supervisor, the launcher \<open>kill/_pdeathsig.py\<close>, and \<open>ReaperSandbox\<close> of \<open>orchestrator.py\<close> as a
  sandbox backend.  A process is running, a zombie (dead and not waited for) or reaped; a pidfd
  stays bound to its process whatever becomes of the pid number.  Which system calls fail is a
  parameter, as is the time.  \<open>Popen.kill\<close> of an own child does not fail.  A wait for a process that
  is running does not return: the flag \<open>rp_stuck\<close> records that the supervisor entered one, and the
  child stays as it is.
\<close>

section \<open>Child processes\<close>

datatype child_state = Running | Zombie | Reaped

record child =
  ch_argv :: "string list"
  ch_preexec :: "int option"
  ch_state :: child_state

text \<open>
  \<open>re_kv\<close> is the kill of the KV cache given to the reaper, if any; \<open>re_fault\<close> says for each \<open>Popen\<close>,
  \<open>pidfd_open\<close> and \<open>pidfd_send_signal\<close> what it raises, if anything; \<open>re_ns\<close> are the readings of
  \<open>perf_counter_ns\<close>.
\<close>

record 'k reaper_env =
  re_supported :: bool
  re_kv :: "(string \<Rightarrow> ('k, int) proc) option"
  re_getpid :: int
  re_executable :: string
  re_fault :: "nat \<Rightarrow> exc option"
  re_ns :: "nat \<Rightarrow> int"

record 'k reaper =
  rp_kv :: 'k
  rp_pdeathsig :: json
  rp_branches :: "(string, nat \<times> nat) dict"
  rp_children :: "(nat, child) dict"
  rp_pidfds :: "(nat, nat) dict"
  rp_next_pid :: nat
  rp_next_fd :: nat
  rp_calls :: nat
  rp_reads :: nat
  rp_stuck :: bool

definition child_running :: "'k reaper \<Rightarrow> nat \<Rightarrow> bool" where
  "child_running s pid \<longleftrightarrow> (case dget (rp_children s) pid of None \<Rightarrow> False | Some c \<Rightarrow> ch_state c = Running)"

definition set_child_state :: "nat \<Rightarrow> child_state \<Rightarrow> 'k reaper \<Rightarrow> 'k reaper" where
  "set_child_state pid st s =
     (case dget (rp_children s) pid of
        None \<Rightarrow> s
      | Some c \<Rightarrow> s\<lparr>rp_children := dset pid (c\<lparr>ch_state := st\<rparr>) (rp_children s)\<rparr>)"

text \<open>A system call that may fail.\<close>

definition sys_call :: "'k reaper_env \<Rightarrow> ('k reaper, 'a) proc \<Rightarrow> ('k reaper, 'a) proc" where
  "sys_call R m s =
     (case re_fault R (rp_calls s) of
        Some e \<Rightarrow> (Inl e, s\<lparr>rp_calls := Suc (rp_calls s)\<rparr>)
      | None \<Rightarrow> m (s\<lparr>rp_calls := Suc (rp_calls s)\<rparr>))"

definition popen :: "'k reaper_env \<Rightarrow> string list \<Rightarrow> int option \<Rightarrow> ('k reaper, nat) proc" where
  "popen R argv preexec =
     sys_call R (\<lambda>s. (Inr (rp_next_pid s),
       s\<lparr>rp_children := dset (rp_next_pid s) \<lparr>ch_argv = argv, ch_preexec = preexec, ch_state = Running\<rparr>
           (rp_children s), rp_next_pid := Suc (rp_next_pid s)\<rparr>))"

definition pidfd_open :: "'k reaper_env \<Rightarrow> nat \<Rightarrow> ('k reaper, nat) proc" where
  "pidfd_open R pid =
     sys_call R (\<lambda>s. (Inr (rp_next_fd s),
       s\<lparr>rp_pidfds := dset (rp_next_fd s) pid (rp_pidfds s), rp_next_fd := Suc (rp_next_fd s)\<rparr>))"

text \<open>SIGKILL: a running process dies, a zombie stays one.\<close>

definition sigkill :: "nat \<Rightarrow> 'k reaper \<Rightarrow> 'k reaper" where
  "sigkill pid s = (if child_running s pid then set_child_state pid Zombie s else s)"

text \<open>
  \<open>pidfd_send_signal\<close> answers ESRCH (\<open>ProcessLookupError\<close>) only when the process has been waited for:
  of the faults of the environment, that one is left to the state.
\<close>

definition no_spurious_lookup :: "(nat \<Rightarrow> exc option) \<Rightarrow> nat \<Rightarrow> exc option" where
  "no_spurious_lookup f n = (if f n = Some ProcessLookupError then None else f n)"

definition pidfd_send_sigkill :: "'k reaper_env \<Rightarrow> nat \<Rightarrow> ('k reaper, unit) proc" where
  "pidfd_send_sigkill R fd =
     sys_call (R\<lparr>re_fault := no_spurious_lookup (re_fault R)\<rparr>) (\<lambda>s.
       case dget (rp_pidfds s) fd of
         None \<Rightarrow> (Inl OSError, s)
       | Some pid \<Rightarrow>
          (case dget (rp_children s) pid of
             None \<Rightarrow> (Inl ProcessLookupError, s)
           | Some c \<Rightarrow> if ch_state c = Reaped then (Inl ProcessLookupError, s) else (Inr (), sigkill pid s)))"

text \<open>
  A wait for a process returns when it is dead and leaves it reaped; on a running process the
  caller hangs.
\<close>

definition await_child :: "nat \<Rightarrow> 'k reaper \<Rightarrow> 'k reaper" where
  "await_child pid s =
     (if child_running s pid then s\<lparr>rp_stuck := True\<rparr> else set_child_state pid Reaped s)"

text \<open>\<open>waitid\<close> on a pidfd.\<close>

definition waitid_pidfd :: "nat \<Rightarrow> ('k reaper, unit) proc" where
  "waitid_pidfd fd s =
     (case dget (rp_pidfds s) fd of
        None \<Rightarrow> (Inl OSError, s)
      | Some pid \<Rightarrow>
         (case dget (rp_children s) pid of
            None \<Rightarrow> (Inl ChildProcessError, s)
          | Some c \<Rightarrow> if ch_state c = Reaped then (Inl ChildProcessError, s)
                      else (Inr (), await_child pid s)))"

text \<open>\<open>Popen.wait\<close>; \<open>Popen.poll\<close> reaps a zombie and does not block.\<close>

definition popen_wait :: "nat \<Rightarrow> ('k reaper, unit) proc" where
  "popen_wait pid = modp (await_child pid)"

definition popen_poll_none :: "nat \<Rightarrow> ('k reaper, bool) proc" where
  "popen_poll_none pid s =
     (if child_running s pid then (Inr True, s) else (Inr False, set_child_state pid Reaped s))"

definition popen_kill :: "nat \<Rightarrow> ('k reaper, unit) proc" where
  "popen_kill pid = modp (sigkill pid)"

definition close_fd :: "nat \<Rightarrow> ('k reaper, unit) proc" where
  "close_fd fd = modp (\<lambda>s. s\<lparr>rp_pidfds := ddel fd (rp_pidfds s)\<rparr>)"

definition perf_counter :: "'k reaper_env \<Rightarrow> ('k reaper, int) proc" where
  "perf_counter R s = (Inr (re_ns R (rp_reads s)), s\<lparr>rp_reads := Suc (rp_reads s)\<rparr>)"

section \<open>\<open>BranchReaper\<close>\<close>

record kill_result =
  kr_pid :: nat
  kr_signal_us :: real
  kr_reaped_us :: real
  kr_kv_freed :: int
  kr_kv_free_us :: real

definition total_ms :: "kill_result \<Rightarrow> real" where
  "total_ms r = (kr_reaped_us r + kr_kv_free_us r) / 1000"

text \<open>\<open>pdeathsig not in (True, False, "shim")\<close> compares with \<open>==\<close>; \<open>is True\<close> is the boolean only.\<close>

definition pdeathsig_valid :: "json \<Rightarrow> bool" where
  "pdeathsig_valid v \<longleftrightarrow> v \<in> {JBool True, JInt 1, JNum 1, JBool False, JInt 0, JNum 0, JStr ''shim''}"

definition reaper_init :: "'k \<Rightarrow> json \<Rightarrow> exc + 'k reaper" where
  "reaper_init kv pdeathsig =
     (if \<not> pdeathsig_valid pdeathsig then Inl ValueError
      else Inr \<lparr>rp_kv = kv, rp_pdeathsig = pdeathsig, rp_branches = [], rp_children = [], rp_pidfds = [],
             rp_next_pid = 0, rp_next_fd = 0, rp_calls = 0, rp_reads = 0, rp_stuck = False\<rparr>)"

definition thread_safe :: "'k reaper \<Rightarrow> bool" where
  "thread_safe s \<longleftrightarrow> rp_pdeathsig s \<noteq> JBool True"

definition shim_argv :: "'k reaper_env \<Rightarrow> string list \<Rightarrow> string list" where
  "shim_argv R argv = [re_executable R, ''-m'', ''agentfork.kill._pdeathsig'', str_int (re_getpid R)] @ argv"

definition reaper_spawn :: "'k reaper_env \<Rightarrow> string \<Rightarrow> string list \<Rightarrow> ('k reaper, nat) proc" where
  "reaper_spawn R tree argv =
     seqp (raise_if (\<lambda>_. \<not> re_supported R) RuntimeError) (\<lambda>_.
     seqp (raise_if (\<lambda>s. tree \<in> keys (rp_branches s)) ValueError) (\<lambda>_.
     seqp (raise_if (\<lambda>_. argv = []) ValueError) (\<lambda>_.
     seqp (readp rp_pdeathsig) (\<lambda>mode.
     seqp (if mode = JStr ''shim'' then popen R (shim_argv R argv) None
           else if mode = JBool True then popen R argv (Some (re_getpid R))
           else popen R argv None) (\<lambda>pid.
     seqp (try_except (pidfd_open R pid)
             (reraise (seqp (popen_kill pid) (\<lambda>_. popen_wait pid)))) (\<lambda>fd.
     seqp (modp (\<lambda>s. s\<lparr>rp_branches := dset tree (pid, fd) (rp_branches s)\<rparr>)) (\<lambda>_.
       ret pid)))))))"

definition ignoring :: "exc \<Rightarrow> ('s, unit) proc \<Rightarrow> ('s, unit) proc" where
  "ignoring e m = try_except m (\<lambda>x. if x = e then ret () else raise x)"

text \<open>The \<open>finally\<close> block of \<open>kill\<close>.\<close>

definition kill_cleanup :: "string \<Rightarrow> nat \<Rightarrow> nat \<Rightarrow> ('k reaper, unit) proc" where
  "kill_cleanup tree pid fd =
     seqp (popen_poll_none pid) (\<lambda>running.
     seqp (whenp running (seqp (popen_kill pid) (\<lambda>_. popen_wait pid))) (\<lambda>_.
     seqp (close_fd fd) (\<lambda>_.
       modp (\<lambda>s. s\<lparr>rp_branches := ddel tree (rp_branches s)\<rparr>))))"

definition kill_process :: "'k reaper_env \<Rightarrow> nat \<Rightarrow> nat \<Rightarrow> ('k reaper, int \<times> int) proc" where
  "kill_process R pid fd =
     seqp (ignoring ProcessLookupError (pidfd_send_sigkill R fd)) (\<lambda>_.
     seqp (perf_counter R) (\<lambda>t1.
     seqp (ignoring ChildProcessError (waitid_pidfd fd)) (\<lambda>_.
     seqp (popen_wait pid) (\<lambda>_.
     seqp (perf_counter R) (\<lambda>t2. ret (t1, t2))))))"

definition on_reaper_kv :: "('k, 'a) proc \<Rightarrow> ('k reaper, 'a) proc" where
  "on_reaper_kv m s = (case m (rp_kv s) of (r, k) \<Rightarrow> (r, s\<lparr>rp_kv := k\<rparr>))"

definition reaper_kill :: "'k reaper_env \<Rightarrow> string \<Rightarrow> ('k reaper, kill_result) proc" where
  "reaper_kill R tree =
     seqp (readp (\<lambda>s. dget (rp_branches s) tree)) (\<lambda>found.
     case found of
       None \<Rightarrow> raise (KeyError tree)
     | Some (pid, fd) \<Rightarrow>
        seqp (perf_counter R) (\<lambda>t0.
        seqp (try_finally (kill_process R pid fd) (kill_cleanup tree pid fd)) (\<lambda>(t1, t2).
        seqp (perf_counter R) (\<lambda>t3.
        seqp (case re_kv R of None \<Rightarrow> ret 0 | Some kv_kill \<Rightarrow> on_reaper_kv (kv_kill tree)) (\<lambda>freed.
        seqp (perf_counter R) (\<lambda>t4.
          ret \<lparr>kr_pid = pid, kr_signal_us = of_int (t1 - t0) / 1000, kr_reaped_us = of_int (t2 - t0) / 1000,
               kr_kv_freed = freed, kr_kv_free_us = of_int (t4 - t3) / 1000\<rparr>))))))"

definition reaper_alive :: "string \<Rightarrow> ('k reaper, bool) proc" where
  "reaper_alive tree =
     seqp (readp (\<lambda>s. dget (rp_branches s) tree)) (\<lambda>found.
     case found of None \<Rightarrow> raise (KeyError tree) | Some (pid, fd) \<Rightarrow> popen_poll_none pid)"

text \<open>\<open>close\<close> kills every branch and raises the first error after the last.\<close>

fun close_loop :: "('x \<Rightarrow> ('s, 'a) proc) \<Rightarrow> 'x list \<Rightarrow> exc option \<Rightarrow> ('s, unit) proc" where
  "close_loop f [] err = (case err of None \<Rightarrow> ret () | Some e \<Rightarrow> raise e)"
| "close_loop f (x # xs) err =
     seqp (try_except (seqp (f x) (\<lambda>_. ret err)) (\<lambda>e. ret (case err of None \<Rightarrow> Some e | Some e' \<Rightarrow> Some e')))
       (close_loop f xs)"

definition reaper_close :: "'k reaper_env \<Rightarrow> ('k reaper, unit) proc" where
  "reaper_close R = seqp (readp (\<lambda>s. map fst (rp_branches s))) (\<lambda>trees. close_loop (reaper_kill R) trees None)"

section \<open>\<open>ReaperSandbox\<close>\<close>

definition reaper_sandbox_init :: "string list \<Rightarrow> exc + string list" where
  "reaper_sandbox_init argv = (if argv = [] then Inl ValueError else Inr argv)"

definition ReaperSandbox :: "'k reaper_env \<Rightarrow> string list \<Rightarrow> 'k reaper sandbox_backend" where
  "ReaperSandbox R argv =
     \<lparr>sb_spawn = \<lambda>b _. drop_value (reaper_spawn R b argv),
      sb_kill = \<lambda>b. try_except (drop_value (reaper_kill R b)) (\<lambda>e. if is_key_error e then ret () else raise e),
      sb_alive = \<lambda>b. try_except (reaper_alive b) (\<lambda>e. if is_key_error e then ret False else raise e),
      sb_wait_ready = None, sb_exec = None, sb_exec_detached = None, sb_export = None,
      sb_sweep_dead = None, sb_restart = None\<rparr>"

section \<open>The launcher\<close>

datatype launch = Exit int | Exec "string list" | Raised exc

text \<open>
  \<open>main\<close> of the launcher: \<open>prctl_ok\<close> and \<open>exec_ok\<close> say whether the two system calls work, \<open>ppid\<close> is the
  parent at the time of the check.  \<open>Exec\<close> is the process running the command with the death
  signal armed.
\<close>

definition launcher_main :: "bool \<Rightarrow> int \<Rightarrow> bool \<Rightarrow> string list \<Rightarrow> launch" where
  "launcher_main prctl_ok ppid exec_ok argv =
     (case argv of
        expected # c # cs \<Rightarrow>
          (case int_of_str expected of
             Inl e \<Rightarrow> Raised e
           | Inr n \<Rightarrow> if \<not> prctl_ok then Exit 127
                      else if ppid \<noteq> n then Exit 128
                      else if \<not> exec_ok then Exit 126
                      else Exec (c # cs))
      | _ \<Rightarrow> Exit 2)"

text \<open>\<open>_preexec_pdeathsig\<close> in the forked child: \<open>None\<close> lets \<open>Popen\<close> go on to the command.\<close>

datatype preexec_end = ExitChild int | KilledChild

definition preexec_pdeathsig :: "bool \<Rightarrow> int \<Rightarrow> int \<Rightarrow> preexec_end option" where
  "preexec_pdeathsig prctl_ok ppid parent_pid =
     (if \<not> prctl_ok then Some (ExitChild 127) else if ppid \<noteq> parent_pid then Some KilledChild else None)"

end
