(* ===== verification/Reaper_Laws.thy ===== *)
theory Reaper_Laws
  imports Reaper
begin

text \<open>
  Every running or zombie child and every open pidfd belongs to a branch of the reaper; spawning
  and killing keep that on every path, so a killed branch leaves neither process nor descriptor;
  no call waits for a process that is running.
\<close>

section \<open>The invariant\<close>

definition reaper_inv :: "'k reaper \<Rightarrow> bool" where
  "reaper_inv s \<longleftrightarrow> \<not> rp_stuck s \<and>
     (\<forall>t pid fd. dget (rp_branches s) t = Some (pid, fd) \<longrightarrow>
        dget (rp_pidfds s) fd = Some pid \<and> dget (rp_children s) pid \<noteq> None) \<and>
     (\<forall>pid c. dget (rp_children s) pid = Some c \<and> ch_state c \<noteq> Reaped \<longrightarrow>
        (\<exists>t fd. dget (rp_branches s) t = Some (pid, fd))) \<and>
     (\<forall>fd pid. dget (rp_pidfds s) fd = Some pid \<longrightarrow> (\<exists>t. dget (rp_branches s) t = Some (pid, fd))) \<and>
     (\<forall>t u pid fd fd'. dget (rp_branches s) t = Some (pid, fd) \<longrightarrow> dget (rp_branches s) u = Some (pid, fd') \<longrightarrow> t = u) \<and>
     (\<forall>pid. dget (rp_children s) pid \<noteq> None \<longrightarrow> pid < rp_next_pid s) \<and>
     (\<forall>fd. dget (rp_pidfds s) fd \<noteq> None \<longrightarrow> fd < rp_next_fd s)"

lemma reaper_invD:
  assumes "reaper_inv s"
  shows "dget (rp_branches s) t = Some (pid, fd) \<Longrightarrow> dget (rp_pidfds s) fd = Some pid"
    and "dget (rp_branches s) t = Some (pid, fd) \<Longrightarrow> \<exists>c. dget (rp_children s) pid = Some c"
    and "dget (rp_children s) pid = Some c \<Longrightarrow> ch_state c \<noteq> Reaped \<Longrightarrow> \<exists>t fd. dget (rp_branches s) t = Some (pid, fd)"
    and "dget (rp_pidfds s) fd = Some pid \<Longrightarrow> \<exists>t. dget (rp_branches s) t = Some (pid, fd)"
    and "dget (rp_branches s) t = Some (pid, fd) \<Longrightarrow> dget (rp_branches s) u = Some (pid, fd') \<Longrightarrow> t = u"
    and "dget (rp_children s) pid = Some c \<Longrightarrow> pid < rp_next_pid s"
    and "dget (rp_pidfds s) fd = Some pid \<Longrightarrow> fd < rp_next_fd s"
    and "\<not> rp_stuck s"
  using assms unfolding reaper_inv_def by blast+

lemma reaper_invI:
  assumes "\<And>t pid fd. dget (rp_branches s) t = Some (pid, fd) \<Longrightarrow> dget (rp_pidfds s) fd = Some pid"
    and "\<And>t pid fd. dget (rp_branches s) t = Some (pid, fd) \<Longrightarrow> dget (rp_children s) pid \<noteq> None"
    and "\<And>pid c. dget (rp_children s) pid = Some c \<Longrightarrow> ch_state c \<noteq> Reaped \<Longrightarrow>
      \<exists>t fd. dget (rp_branches s) t = Some (pid, fd)"
    and "\<And>fd pid. dget (rp_pidfds s) fd = Some pid \<Longrightarrow> \<exists>t. dget (rp_branches s) t = Some (pid, fd)"
    and "\<And>t u pid fd fd'. dget (rp_branches s) t = Some (pid, fd) \<Longrightarrow> dget (rp_branches s) u = Some (pid, fd') \<Longrightarrow> t = u"
    and "\<And>pid c. dget (rp_children s) pid = Some c \<Longrightarrow> pid < rp_next_pid s"
    and "\<And>fd pid. dget (rp_pidfds s) fd = Some pid \<Longrightarrow> fd < rp_next_fd s"
    and "\<not> rp_stuck s"
  shows "reaper_inv s"
  unfolding reaper_inv_def using assms by blast

lemma reaper_inv_frame [simp]:
  "reaper_inv (s\<lparr>rp_kv := k\<rparr>) = reaper_inv s" "reaper_inv (s\<lparr>rp_calls := n\<rparr>) = reaper_inv s"
  "reaper_inv (s\<lparr>rp_reads := n\<rparr>) = reaper_inv s"
  by (simp_all add: reaper_inv_def)

lemma reaper_init_inv: "reaper_init kv v = Inr s \<Longrightarrow> reaper_inv s"
  by (auto simp: reaper_init_def reaper_inv_def split: if_splits)

text \<open>A child may exit by itself at any time.\<close>

lemma set_child_state_sel [simp]:
  "rp_branches (set_child_state pid st s) = rp_branches s" "rp_pidfds (set_child_state pid st s) = rp_pidfds s"
  "rp_next_pid (set_child_state pid st s) = rp_next_pid s" "rp_next_fd (set_child_state pid st s) = rp_next_fd s"
  "rp_stuck (set_child_state pid st s) = rp_stuck s"
  "dget (rp_children (set_child_state pid st s)) q =
     (if q = pid then map_option (\<lambda>c. c\<lparr>ch_state := st\<rparr>) (dget (rp_children s) pid) else dget (rp_children s) q)"
  by (auto simp: set_child_state_def split: option.split)

lemma set_child_state_inv:
  assumes "reaper_inv s" "st = Reaped \<or> (\<exists>t fd. dget (rp_branches s) t = Some (pid, fd)) \<or> dget (rp_children s) pid = None"
  shows "reaper_inv (set_child_state pid st s)"
  using assms unfolding reaper_inv_def by (auto split: if_splits)

definition child_exits :: "nat \<Rightarrow> 'k reaper \<Rightarrow> 'k reaper" where
  "child_exits pid s = sigkill pid s"

lemma child_exits_inv: "reaper_inv s \<Longrightarrow> reaper_inv (child_exits pid s)"
  unfolding child_exits_def sigkill_def child_running_def
  by (auto split: option.splits intro!: set_child_state_inv dest: reaper_invD(3))

section \<open>Spawning\<close>

lemma reaper_spawn_cases:
  fixes s :: "'k reaper"
  assumes inv: "reaper_inv s"
  obtains (unchanged) e calls where "reaper_spawn R t argv s = (Inl e, s\<lparr>rp_calls := calls\<rparr>)"
  | (no_pidfd) e c calls where "reaper_spawn R t argv s = (Inl e, s\<lparr>rp_children := dset (rp_next_pid s) c (rp_children s),
      rp_next_pid := Suc (rp_next_pid s), rp_calls := calls\<rparr>)" "ch_state c = Reaped"
  | (ok) c calls where "reaper_spawn R t argv s = (Inr (rp_next_pid s),
      s\<lparr>rp_children := dset (rp_next_pid s) c (rp_children s), rp_next_pid := Suc (rp_next_pid s),
        rp_pidfds := dset (rp_next_fd s) (rp_next_pid s) (rp_pidfds s), rp_next_fd := Suc (rp_next_fd s),
        rp_branches := dset t (rp_next_pid s, rp_next_fd s) (rp_branches s), rp_calls := calls\<rparr>)"
      "ch_state c = Running" "t \<notin> keys (rp_branches s)"
proof (cases "re_supported R \<and> t \<notin> keys (rp_branches s) \<and> argv \<noteq> []")
  case False
  then show ?thesis
    by (intro unchanged [where calls = "rp_calls s" and e = "if re_supported R then ValueError else RuntimeError"])
      (auto simp: reaper_spawn_def proc_defs)
next
  case True
  define a where "a = (if rp_pdeathsig s = JStr ''shim'' then shim_argv R argv else argv)"
  define p where "p = (if rp_pdeathsig s = JBool True then Some (re_getpid R) else None)"
  have launch: "(if rp_pdeathsig s = JStr ''shim'' then popen R (shim_argv R argv) None
           else if rp_pdeathsig s = JBool True then popen R argv (Some (re_getpid R))
           else popen R argv None) = popen R a p"
    by (simp add: a_def p_def)
  let ?c = "\<lparr>ch_argv = a, ch_preexec = p, ch_state = Running\<rparr>"
  show ?thesis
  proof (cases "re_fault R (rp_calls s)")
    case (Some e)
    then show ?thesis
      using True launch
      by (intro unchanged [where calls = "Suc (rp_calls s)" and e = e])
        (simp add: reaper_spawn_def proc_defs popen_def sys_call_def)
  next
    case None
    show ?thesis
    proof (cases "re_fault R (Suc (rp_calls s))")
      case (Some e)
      then show ?thesis
        using True launch None
        by (intro no_pidfd [where calls = "Suc (Suc (rp_calls s))" and e = e and c = "?c\<lparr>ch_state := Reaped\<rparr>"])
          (simp_all add: reaper_spawn_def proc_defs popen_def pidfd_open_def sys_call_def popen_kill_def popen_wait_def
            await_child_def sigkill_def child_running_def set_child_state_def)
    next
      case ok': None
      then show ?thesis
        using True launch None
        by (intro ok [where calls = "Suc (Suc (rp_calls s))" and c = ?c])
          (simp_all add: reaper_spawn_def proc_defs popen_def pidfd_open_def sys_call_def)
    qed
  qed
qed

lemma reaper_spawn_inv:
  assumes "reaper_inv s"
  shows "reaper_inv (snd (reaper_spawn R t argv s))"
  using assms
proof (cases rule: reaper_spawn_cases [where R = R and t = t and argv = argv])
  case (no_pidfd e c calls)
  then show ?thesis
    using assms unfolding reaper_inv_def by (auto split: if_splits dest: less_SucI)
next
  case (ok c calls)
  have "dget (rp_children s) (rp_next_pid s) = None" "dget (rp_pidfds s) (rp_next_fd s) = None"
    using reaper_invD(6,7) [OF assms] by (metis less_irrefl not_None_eq)+
  moreover from this have "dget (rp_branches s) u \<noteq> Some (rp_next_pid s, fd)" for u fd
    using reaper_invD(2) [OF assms] by fastforce
  moreover have "dget (rp_branches s) t = None" using ok(3) by (simp add: dget_None_iff)
  ultimately have new: "dget (rp_children s) (rp_next_pid s) = None" "dget (rp_pidfds s) (rp_next_fd s) = None"
    "\<And>u fd. dget (rp_branches s) u \<noteq> Some (rp_next_pid s, fd)" "dget (rp_branches s) t = None"
    by blast+
  note D = reaper_invD [OF assms]
  have old: "\<exists>u. u \<noteq> t \<and> dget (rp_branches s) u = Some (q, f)" if "dget (rp_pidfds s) f = Some q" for q f
    using D(4) [OF that] new(4) by (metis option.distinct(1))
  have old': "\<exists>u f. u \<noteq> t \<and> dget (rp_branches s) u = Some (q, f)"
    if "dget (rp_children s) q = Some d" "ch_state d \<noteq> Reaped" for q d
    using D(3) [OF that] new(4) by (metis option.distinct(1))
  show ?thesis
  proof (rule reaper_invI)
    fix q d assume "dget (rp_children (snd (reaper_spawn R t argv s))) q = Some d" "ch_state d \<noteq> Reaped"
    then show "\<exists>u f. dget (rp_branches (snd (reaper_spawn R t argv s))) u = Some (q, f)"
      using ok(1) old' [of q d] by (cases "q = rp_next_pid s") auto
  next
    fix f q assume "dget (rp_pidfds (snd (reaper_spawn R t argv s))) f = Some q"
    then show "\<exists>u. dget (rp_branches (snd (reaper_spawn R t argv s))) u = Some (q, f)"
      using ok(1) old [of f q] by (cases "f = rp_next_fd s") auto
  qed (use ok(1) D new in \<open>auto simp: less_Suc_eq split: if_splits\<close>)
qed (use assms in simp)

lemma reaper_spawn_keys:
  assumes "reaper_inv s"
  shows "keys (rp_branches (snd (reaper_spawn R t argv s))) = keys (rp_branches s) \<or>
    keys (rp_branches (snd (reaper_spawn R t argv s))) = insert t (keys (rp_branches s))"
  using assms by (cases rule: reaper_spawn_cases [where R = R and t = t and argv = argv]) auto

section \<open>Killing\<close>

definition reaped :: "string \<Rightarrow> 'k reaper \<Rightarrow> 'k reaper \<Rightarrow> bool" where
  "reaped t s s' \<longleftrightarrow> (\<exists>pid fd. dget (rp_branches s) t = Some (pid, fd) \<and>
     rp_branches s' = ddel t (rp_branches s) \<and> rp_pidfds s' = ddel fd (rp_pidfds s) \<and>
     dget (rp_children s') = (dget (rp_children s))(pid := map_option (\<lambda>c. c\<lparr>ch_state := Reaped\<rparr>) (dget (rp_children s) pid)) \<and>
     rp_next_pid s' = rp_next_pid s \<and> rp_next_fd s' = rp_next_fd s \<and> rp_stuck s' = rp_stuck s)"

lemma reaped_inv:
  assumes "reaper_inv s" "reaped t s s'"
  shows "reaper_inv s'"
proof -
  from assms(2) obtain pid fd where b: "dget (rp_branches s) t = Some (pid, fd)"
    and s': "rp_branches s' = ddel t (rp_branches s)" "rp_pidfds s' = ddel fd (rp_pidfds s)"
      "dget (rp_children s') = (dget (rp_children s))(pid := map_option (\<lambda>c. c\<lparr>ch_state := Reaped\<rparr>) (dget (rp_children s) pid))"
      "rp_next_pid s' = rp_next_pid s" "rp_next_fd s' = rp_next_fd s" "rp_stuck s' = rp_stuck s"
    unfolding reaped_def by blast
  note D = reaper_invD [OF assms(1)]
  have other: "q \<noteq> pid \<and> f \<noteq> fd" if "dget (rp_branches s) u = Some (q, f)" "u \<noteq> t" for u q f
    using that D(1) D(5) b by (metis option.inject)
  have owner: "\<exists>u f. u \<noteq> t \<and> dget (rp_branches s) u = Some (q, f)"
    if "q \<noteq> pid" "dget (rp_children s) q = Some d" "ch_state d \<noteq> Reaped" for q d
    using D(3) [OF that(2,3)] that(1) b by (metis fst_conv option.inject)
  have owner': "\<exists>u. u \<noteq> t \<and> dget (rp_branches s) u = Some (q, f)" if "f \<noteq> fd" "dget (rp_pidfds s) f = Some q" for q f
    using D(4) [OF that(2)] that(1) b by (metis snd_conv option.inject)
  show ?thesis
  proof (rule reaper_invI)
    fix q d assume "dget (rp_children s') q = Some d" "ch_state d \<noteq> Reaped"
    then show "\<exists>u f. dget (rp_branches s') u = Some (q, f)"
      using owner [of q d] by (cases "q = pid") (auto simp: s')
  next
    fix f q assume "dget (rp_pidfds s') f = Some q"
    then show "\<exists>u. dget (rp_branches s') u = Some (q, f)"
      using owner' [of f q] by (auto simp: s' split: if_splits)
  next
    fix q d assume "dget (rp_children s') q = Some d"
    then show "q < rp_next_pid s'" using D(6) by (auto simp: s' split: if_splits)
  next
    fix u v q f f' assume "dget (rp_branches s') u = Some (q, f)" "dget (rp_branches s') v = Some (q, f')"
    then show "u = v" using D(5) by (auto simp: s' split: if_splits)
  qed (use D other in \<open>fastforce simp: s' split: if_splits\<close>)+
qed

text \<open>States that differ from \<open>s\<close> in the life of one child only.\<close>

definition near :: "nat \<Rightarrow> nat \<Rightarrow> 'k reaper \<Rightarrow> 'k reaper \<Rightarrow> bool" where
  "near pid fd s s' \<longleftrightarrow> dget (rp_pidfds s) fd = Some pid \<and>
     rp_branches s' = rp_branches s \<and> rp_pidfds s' = rp_pidfds s \<and>
     (\<forall>q. q \<noteq> pid \<longrightarrow> dget (rp_children s') q = dget (rp_children s) q) \<and>
     map_option (\<lambda>c. c\<lparr>ch_state := Reaped\<rparr>) (dget (rp_children s') pid) =
       map_option (\<lambda>c. c\<lparr>ch_state := Reaped\<rparr>) (dget (rp_children s) pid) \<and>
     rp_next_pid s' = rp_next_pid s \<and> rp_next_fd s' = rp_next_fd s \<and> rp_kv s' = rp_kv s \<and>
     rp_stuck s' = rp_stuck s"

lemma near_frame [simp]:
  "near pid fd s (s'\<lparr>rp_calls := n\<rparr>) = near pid fd s s'" "near pid fd s (s'\<lparr>rp_reads := n\<rparr>) = near pid fd s s'"
  by (simp_all add: near_def)

lemma near_set_state [simp]: "near pid fd s s' \<Longrightarrow> near pid fd s (set_child_state pid st s')"
  by (auto simp: near_def set_child_state_def option.map_comp comp_def split: option.splits)

lemma near_sigkill [simp]: "near pid fd s s' \<Longrightarrow> near pid fd s (sigkill pid s')"
  by (simp add: sigkill_def)

lemma near_pidfd: "near pid fd s s' \<Longrightarrow> dget (rp_pidfds s') fd = Some pid"
  by (simp add: near_def)

lemma near_steps [keeps]:
  "keeps (near pid fd s) (pidfd_send_sigkill R fd)" "keeps (near pid fd s) (popen_kill pid)"
  "keeps (near pid fd s) (popen_poll_none pid)" "keeps (near pid fd s) (perf_counter R)"
  by (rule keepsI; auto simp: pidfd_send_sigkill_def sys_call_def popen_kill_def popen_poll_none_def
      perf_counter_def modp_def near_pidfd split: option.splits)+

lemma keeps_ignoring [keeps]: "keeps P m \<Longrightarrow> keeps P (ignoring e m)"
  unfolding ignoring_def by (intro keeps)

text \<open>Once the child is dead the waits return and leave it reaped.\<close>

definition near_dead :: "nat \<Rightarrow> nat \<Rightarrow> 'k reaper \<Rightarrow> 'k reaper \<Rightarrow> bool" where
  "near_dead pid fd s s' \<longleftrightarrow> near pid fd s s' \<and> \<not> child_running s' pid"

lemma child_running_set_state [simp]:
  "child_running (set_child_state pid st s) pid \<longleftrightarrow> st = Running \<and> dget (rp_children s) pid \<noteq> None"
  by (auto simp: child_running_def split: option.split)

lemma child_running_sigkill [simp]: "\<not> child_running (sigkill pid s) pid"
  by (simp add: sigkill_def)

lemma child_running_frame [simp]:
  "child_running (s\<lparr>rp_calls := n\<rparr>) = child_running s" "child_running (s\<lparr>rp_reads := n\<rparr>) = child_running s"
  by (simp_all add: child_running_def fun_eq_iff)

lemma near_dead_await: "near_dead pid fd s s' \<Longrightarrow> near_dead pid fd s (await_child pid s')"
  by (simp add: near_dead_def await_child_def)

lemma near_dead_frame [simp]: "near_dead pid fd s (s'\<lparr>rp_reads := n\<rparr>) = near_dead pid fd s s'"
  by (simp add: near_dead_def)

lemma near_dead_pidfd: "near_dead pid fd s s' \<Longrightarrow> dget (rp_pidfds s') fd = Some pid"
  by (auto simp: near_dead_def dest: near_pidfd)

lemma near_dead_steps [keeps]:
  "keeps (near_dead pid fd s) (waitid_pidfd fd)" "keeps (near_dead pid fd s) (popen_wait pid)"
  "keeps (near_dead pid fd s) (perf_counter R)"
  by (rule keepsI; auto simp: waitid_pidfd_def popen_wait_def perf_counter_def modp_def near_dead_await
      near_dead_pidfd split: option.splits)+

text \<open>After a signal that got through, or that found the process gone, the child is dead.\<close>

lemma signalled_dead:
  assumes "near pid fd s s0" "ignoring ProcessLookupError (pidfd_send_sigkill R fd) s0 = (Inr u, s1)"
  shows "near_dead pid fd s s1"
  using assms near_pidfd [OF assms(1)]
  by (auto simp: ignoring_def try_except_def pidfd_send_sigkill_def sys_call_def no_spurious_lookup_def ret_def raise_def
      near_dead_def child_running_def [of s0] split: option.splits if_splits prod.splits sum.splits)

lemma kill_process_near:
  assumes "near pid fd s s0"
  shows "near pid fd s (snd (kill_process R pid fd s0))"
proof -
  let ?rest = "seqp (perf_counter R) (\<lambda>t1. seqp (ignoring ChildProcessError (waitid_pidfd fd)) (\<lambda>_.
     seqp (popen_wait pid) (\<lambda>_. seqp (perf_counter R) (\<lambda>t2. ret (t1, t2)))))"
  have rest: "keeps (near_dead pid fd s) ?rest" by (intro keeps)
  obtain r s1 where sent: "ignoring ProcessLookupError (pidfd_send_sigkill R fd) s0 = (r, s1)" by fastforce
  show ?thesis
  proof (cases r)
    case (Inl e)
    have "near pid fd s s1"
      using keeps_snd [OF keeps_ignoring [OF near_steps(1)] assms, of ProcessLookupError R] sent by simp
    then show ?thesis using Inl sent by (simp add: kill_process_def seqp_def)
  next
    case (Inr u)
    then have "near_dead pid fd s (snd (?rest s1))"
      using keeps_snd [OF rest] signalled_dead [OF assms] sent by blast
    then show ?thesis using Inr sent by (simp add: kill_process_def seqp_def near_dead_def)
  qed
qed

lemma kill_cleanup_reaps:
  assumes "reaper_inv s" "dget (rp_branches s) t = Some (pid, fd)" "near pid fd s s1"
  shows "\<exists>s'. kill_cleanup t pid fd s1 = (Inr (), s') \<and> reaped t s s' \<and> rp_kv s' = rp_kv s"
proof -
  obtain c where c: "dget (rp_children s1) pid = Some c"
    "c\<lparr>ch_state := Reaped\<rparr> = (the (dget (rp_children s) pid))\<lparr>ch_state := Reaped\<rparr>"
    using reaper_invD(2) [OF assms(1,2)] assms(3) by (auto simp: near_def)
  have "kill_cleanup t pid fd s1 = (Inr (), (set_child_state pid Reaped s1)\<lparr>rp_pidfds := ddel fd (rp_pidfds s1),
      rp_branches := ddel t (rp_branches s1)\<rparr>)"
    using c by (auto simp: kill_cleanup_def proc_defs popen_poll_none_def popen_kill_def popen_wait_def close_fd_def
        await_child_def sigkill_def child_running_def set_child_state_def)
  moreover have "reaped t s ((set_child_state pid Reaped s1)\<lparr>rp_pidfds := ddel fd (rp_pidfds s1),
      rp_branches := ddel t (rp_branches s1)\<rparr>)"
    using assms(2,3) unfolding reaped_def
    by (intro exI [of _ pid] exI [of _ fd]) (auto simp: near_def fun_eq_iff set_child_state_def split: option.splits)
  moreover have "rp_kv (set_child_state pid Reaped s1) = rp_kv s"
    using assms(3) by (auto simp: near_def set_child_state_def split: option.split)
  ultimately show ?thesis by simp
qed

lemma reaped_frame [simp]:
  "reaped t s (s'\<lparr>rp_kv := k\<rparr>) = reaped t s s'" "reaped t s (s'\<lparr>rp_reads := n\<rparr>) = reaped t s s'"
  "reaped t (s\<lparr>rp_reads := n\<rparr>) s' = reaped t s s'"
  by (simp_all add: reaped_def)

text \<open>
  \<open>kill\<close> of a branch leaves its process reaped, its pidfd closed and its entry removed, on every
  outcome: a failed signal and a failed release of the KV pages included.
\<close>

lemma reaper_kill_reaps:
  assumes "reaper_inv s" "dget (rp_branches s) t = Some (pid, fd)"
  shows "reaped t s (snd (reaper_kill R t s))"
proof -
  let ?s0 = "s\<lparr>rp_reads := Suc (rp_reads s)\<rparr>"
  obtain r s1 where p: "kill_process R pid fd ?s0 = (r, s1)" by fastforce
  have "near pid fd s s" using reaper_invD(1) [OF assms] by (simp add: near_def)
  then have "near pid fd s s1" using kill_process_near [of pid fd s ?s0 R] p by simp
  from kill_cleanup_reaps [OF assms this] obtain s' where s': "kill_cleanup t pid fd s1 = (Inr (), s')" "reaped t s s'" by blast
  then have fin: "try_finally (kill_process R pid fd) (kill_cleanup t pid fd) ?s0 = (r, s')"
    by (simp add: try_finally_def p)
  have kv: "keeps (reaped t s) (case re_kv R of None \<Rightarrow> ret 0 | Some kv_kill \<Rightarrow> on_reaper_kv (kv_kill t))"
    by (intro keeps keepsI) (auto simp: on_reaper_kv_def split: prod.split)
  have pc: "keeps (reaped t s) (perf_counter R)" by (rule keepsI) (simp add: perf_counter_def)
  let ?rest = "\<lambda>(t1, t2). seqp (perf_counter R) (\<lambda>t3.
        seqp (case re_kv R of None \<Rightarrow> ret 0 | Some kv_kill \<Rightarrow> on_reaper_kv (kv_kill t)) (\<lambda>freed.
        seqp (perf_counter R) (\<lambda>t4.
          ret \<lparr>kr_pid = pid, kr_signal_us = of_int (t1 - re_ns R (rp_reads s)) / 1000,
               kr_reaped_us = of_int (t2 - re_ns R (rp_reads s)) / 1000,
               kr_kv_freed = freed, kr_kv_free_us = of_int (t4 - t3) / 1000\<rparr>)))"
  have "keeps (reaped t s) (?rest x)" for x by (cases x) (simp, intro keeps pc kv)
  note rest = keeps_snd [OF this s'(2)]
  have "reaper_kill R t s = (case r of Inl e \<Rightarrow> (Inl e, s') | Inr x \<Rightarrow> ?rest x s')"
    using assms(2) fin
    by (simp add: reaper_kill_def seqp_def readp_def perf_counter_def split: sum.split)
  then show ?thesis using rest s'(2) by (simp split: sum.split)
qed

lemma reaper_kill_unknown: "dget (rp_branches s) t = None \<Longrightarrow> reaper_kill R t s = (Inl (KeyError t), s)"
  by (simp add: reaper_kill_def proc_defs)

lemma reaped_keys: "reaped t s s' \<Longrightarrow> keys (rp_branches s') = keys (rp_branches s) - {t}"
  unfolding reaped_def by (elim exE conjE) simp

lemma reaper_alive_inv:
  assumes "reaper_inv s"
  shows "reaper_inv (snd (reaper_alive t s)) \<and> rp_branches (snd (reaper_alive t s)) = rp_branches s"
  using assms
  by (auto simp: reaper_alive_def proc_defs popen_poll_none_def intro: set_child_state_inv split: option.split)

section \<open>\<open>ReaperSandbox\<close> keeps the sandbox contract\<close>

lemma ReaperSandbox_kill:
  assumes "reaper_inv s"
  shows "reaper_inv (snd (sb_kill (ReaperSandbox R argv) t s)) \<and>
    keys (rp_branches (snd (sb_kill (ReaperSandbox R argv) t s))) = keys (rp_branches s) - {t}"
proof (cases "dget (rp_branches s) t")
  case None
  then show ?thesis
    using assms
    by (simp add: ReaperSandbox_def try_except_def drop_value_def seqp_def reaper_kill_unknown is_key_error_def ret_def
        dget_None_iff)
next
  case (Some x)
  then have r: "reaped t s (snd (reaper_kill R t s))" using reaper_kill_reaps [OF assms] by (cases x) auto
  have "snd (sb_kill (ReaperSandbox R argv) t s) = snd (reaper_kill R t s)"
    by (auto simp: ReaperSandbox_def try_except_def drop_value_def proc_defs split: prod.split sum.split)
  then show ?thesis using reaped_inv [OF assms r] reaped_keys [OF r] by simp
qed

lemma snd_catch: "(\<And>e s. snd (h e s) = s) \<Longrightarrow> snd (try_except m h s) = snd (m s)"
  by (auto simp: try_except_def split: prod.split sum.split)

interpretation reaper_box: sandbox_contract "ReaperSandbox R argv" "\<lambda>s. keys (rp_branches s)" reaper_inv for R argv
proof unfold_locales
  fix s :: "'a reaper" and t p
  assume inv: "reaper_inv s"
  show "reaper_inv (snd (sb_spawn (ReaperSandbox R argv) t p s))"
    using reaper_spawn_inv [OF inv] by (simp add: ReaperSandbox_def)
  show "touches_only t (keys (rp_branches s)) (keys (rp_branches (snd (sb_spawn (ReaperSandbox R argv) t p s))))"
    using reaper_spawn_keys [OF inv, of R t argv] by (auto simp: ReaperSandbox_def)
  show "reaper_inv (snd (sb_kill (ReaperSandbox R argv) t s))" using ReaperSandbox_kill [OF inv] by blast
  show "touches_only t (keys (rp_branches s)) (keys (rp_branches (snd (sb_kill (ReaperSandbox R argv) t s))))"
    using ReaperSandbox_kill [OF inv, of R argv t] by simp
  show "t \<notin> keys (rp_branches s')" if "sb_kill (ReaperSandbox R argv) t s = (Inr u, s')" for u s'
    using ReaperSandbox_kill [OF inv, of R argv t] that by simp
  show "reaper_inv (snd (sb_alive (ReaperSandbox R argv) t s)) \<and>
      keys (rp_branches (snd (sb_alive (ReaperSandbox R argv) t s))) = keys (rp_branches s)"
    using reaper_alive_inv [OF inv, of t] by (simp add: ReaperSandbox_def snd_catch ret_def raise_def)
qed (simp_all add: ReaperSandbox_def)

end
