(* ===== verification/Reaper_Props.thy ===== *)
theory Reaper_Props
  imports Reaper_Laws Orchestrator_Recovery
begin

text \<open>
  The properties of \<open>BranchReaper\<close>, of the launcher and of the orchestrator over \<open>ReaperSandbox\<close>.
\<close>

section \<open>Reachable reapers\<close>

inductive reaper_reach :: "'k reaper_env \<Rightarrow> 'k reaper \<Rightarrow> bool" for R where
  init: "reaper_init kv v = Inr s \<Longrightarrow> reaper_reach R s"
| spawn: "reaper_reach R s \<Longrightarrow> reaper_reach R (snd (reaper_spawn R t argv s))"
| kill: "reaper_reach R s \<Longrightarrow> reaper_reach R (snd (reaper_kill R t s))"
| alive: "reaper_reach R s \<Longrightarrow> reaper_reach R (snd (reaper_alive t s))"
| exits: "reaper_reach R s \<Longrightarrow> reaper_reach R (child_exits pid s)"

lemma reaper_kill_inv: "reaper_inv s \<Longrightarrow> reaper_inv (snd (reaper_kill R t s))"
  using reaped_inv [OF _ reaper_kill_reaps] reaper_kill_unknown [of s t R]
  by (cases "dget (rp_branches s) t") auto

lemma reaper_reach_inv: "reaper_reach R s \<Longrightarrow> reaper_inv s"
  by (induction rule: reaper_reach.induct)
    (auto intro: reaper_init_inv reaper_spawn_inv reaper_kill_inv child_exits_inv dest: reaper_alive_inv)

text \<open>\<open>close\<close> attempts every branch, whatever fails.\<close>

lemma reaper_kill_keys:
  "reaper_inv s \<Longrightarrow> keys (rp_branches (snd (reaper_kill R t s))) = keys (rp_branches s) - {t}"
proof (cases "dget (rp_branches s) t")
  case None
  then show ?thesis by (simp add: reaper_kill_unknown dget_None_iff)
next
  case (Some x)
  assume "reaper_inv s"
  with Some show ?thesis by (cases x) (simp add: reaped_keys [OF reaper_kill_reaps])
qed

lemma close_loop_all:
  assumes "reaper_inv s"
  shows "reaper_inv (snd (close_loop (reaper_kill R) ts err s)) \<and>
    keys (rp_branches (snd (close_loop (reaper_kill R) ts err s))) = keys (rp_branches s) - set ts"
  using assms
proof (induction ts arbitrary: err s)
  case (Cons t ts)
  let ?s1 = "snd (reaper_kill R t s)"
  have "\<exists>err'. close_loop (reaper_kill R) (t # ts) err s = close_loop (reaper_kill R) ts err' ?s1"
    by (cases "reaper_kill R t s"; cases "fst (reaper_kill R t s)") (auto simp: proc_defs)
  then obtain err' where "close_loop (reaper_kill R) (t # ts) err s = close_loop (reaper_kill R) ts err' ?s1" by blast
  moreover note Cons.IH [OF reaper_kill_inv [OF Cons.prems], where err = err']
  moreover have "keys (rp_branches ?s1) - set ts = keys (rp_branches s) - set (t # ts)"
    using reaper_kill_keys [OF Cons.prems] by auto
  ultimately show ?case by simp
qed (simp add: proc_defs split: option.split)

section \<open>A sample reaper\<close>

definition demo_env :: "unit reaper_env" where
  "demo_env = \<lparr>re_supported = True, re_kv = None, re_getpid = 7, re_executable = ''python3'',
     re_fault = (\<lambda>n. if n = 4 then Some OSError else None), re_ns = int\<rparr>"

definition demo_reaper :: "unit reaper" where
  "demo_reaper = snd (reaper_spawn demo_env ''y'' [''sleep''] (snd (reaper_spawn demo_env ''x'' [''sleep'']
     (projr (reaper_init () (JStr ''shim''))))))"

lemma demo_reaper_reach: "reaper_reach demo_env demo_reaper"
proof -
  have "reaper_init () (JStr ''shim'') = Inr (projr (reaper_init () (JStr ''shim'')))"
    by (simp add: reaper_init_def pdeathsig_valid_def)
  then show ?thesis unfolding demo_reaper_def by (intro reaper_reach.spawn reaper_reach.init)
qed

lemma demo_reaper_branches: "rp_branches demo_reaper = [(''x'', (0, 0)), (''y'', (1, 1))]"
  by code_simp

text \<open>The orchestrator over the reference KV cache and supervised processes.\<close>

definition proc_config :: "unit reaper_env \<Rightarrow> string list \<Rightarrow> (nat \<Rightarrow> real) \<Rightarrow> (nat \<Rightarrow> real) \<Rightarrow> (nat \<Rightarrow> exc option) \<Rightarrow>
    (kv_cache, unit reaper) config" where
  "proc_config R argv mono_clk wall io =
     \<lparr>cf_kv = tree_cache_backend mono_clk, cf_sb = ReaperSandbox R argv, cf_clock = wall, cf_io = io\<rparr>"

interpretation procs: orchestrated "proc_config R argv m w io" "\<lambda>s. keys (kv_trees s)" cache_dicts
  "\<lambda>s. keys (rp_branches s)" reaper_inv ends for R argv m w io ends
  unfolding orchestrated_def
  by (simp add: proc_config_def tree_kv.kv_contract_axioms reaper_box.sandbox_contract_axioms)

definition proc_demo_config :: "(kv_cache, unit reaper) config" where
  "proc_demo_config = proc_config demo_env [''sleep''] real real (\<lambda>_. None)"

definition proc_demo_start :: "(kv_cache, unit reaper) orch" where
  "proc_demo_start = projr (orch_init (projr (kv_init 100 None)) (projr (reaper_init () (JBool False)))
     False None None True None)"

lemma proc_demo_started:
  "orch_started (\<lambda>s. keys (kv_trees s)) cache_dicts (\<lambda>s. keys (rp_branches s)) reaper_inv proc_demo_start"
proof -
  let ?kv = "projr (kv_init 100 None)" and ?rp = "projr (reaper_init () (JBool False))"
  have r: "reaper_init () (JBool False) = Inr ?rp" by (simp add: reaper_init_def pdeathsig_valid_def)
  have "orch_init ?kv ?rp False None None True None = Inr proc_demo_start"
    by (simp add: proc_demo_start_def orch_init_def not_positive_def load_registry_def orch_new_def seqp_def ret_def)
  moreover have "cache_dicts ?kv \<and> keys (kv_trees ?kv) = {}" by (simp add: kv_init_def cache_dicts_def)
  moreover have "reaper_inv ?rp \<and> keys (rp_branches ?rp) = {}"
    using reaper_init_inv [OF r] by (simp add: reaper_init_def pdeathsig_valid_def)
  ultimately show ?thesis
    unfolding orch_started_def
    by (intro exI [of _ ?kv] exI [of _ ?rp] exI [of _ False] exI [of _ "None :: real option"]
        exI [of _ "None :: json option"]) simp
qed

section \<open>Properties\<close>

text \<open>
  C17: In every reachable reaper each child that has not been waited for and each open pidfd belongs
  to exactly one branch, also after failed spawns and kills and after children exited by
  themselves.
\<close>

theorem reaper_owns_children:
  assumes "reaper_reach R s"
  shows "(\<forall>pid c. dget (rp_children s) pid = Some c \<and> ch_state c \<noteq> Reaped \<longrightarrow>
      (\<exists>!t. \<exists>fd. dget (rp_branches s) t = Some (pid, fd))) \<and>
    (\<forall>fd pid. dget (rp_pidfds s) fd = Some pid \<longrightarrow> (\<exists>!t. dget (rp_branches s) t = Some (pid, fd)))"
proof (intro conjI allI impI)
  note D = reaper_invD [OF reaper_reach_inv [OF assms]]
  fix pid c assume "dget (rp_children s) pid = Some c \<and> ch_state c \<noteq> Reaped"
  then obtain t fd where "dget (rp_branches s) t = Some (pid, fd)" using D(3) by blast
  then show "\<exists>!t. \<exists>fd. dget (rp_branches s) t = Some (pid, fd)" using D(5) by blast
next
  note D = reaper_invD [OF reaper_reach_inv [OF assms]]
  fix fd pid assume "dget (rp_pidfds s) fd = Some pid"
  then obtain t where "dget (rp_branches s) t = Some (pid, fd)" using D(4) by blast
  then show "\<exists>!t. dget (rp_branches s) t = Some (pid, fd)" using D(5) by blast
qed

theorem reaper_owns_children_witness:
  "\<exists>!t. dget (rp_branches demo_reaper) t = Some (1, 1)"
proof -
  have "dget (rp_pidfds demo_reaper) 1 = Some 1" by code_simp
  then show ?thesis using reaper_owns_children [OF demo_reaper_reach] by blast
qed

text \<open>
  C18: \<open>BranchReaper.kill\<close> of a branch, whatever it returns or raises (a failed signal and a failed KV
  release included), leaves the child dead and reaped, its pidfd closed and its entry removed,
  and no other branch touched.  It waits for the child only after a signal has ended it, so it
  does not hang on a running one: when the signal through the pidfd fails, the \<open>finally\<close> block
  kills it before it waits.
\<close>

theorem reaper_kill_complete:
  assumes "reaper_reach R s" "dget (rp_branches s) t = Some (pid, fd)"
  shows "case snd (reaper_kill R t s) of s' \<Rightarrow>
    (\<exists>c. dget (rp_children s') pid = Some c \<and> ch_state c = Reaped) \<and> dget (rp_pidfds s') fd = None \<and>
    rp_branches s' = ddel t (rp_branches s) \<and>
    (\<forall>q. q \<noteq> pid \<longrightarrow> dget (rp_children s') q = dget (rp_children s) q) \<and> \<not> rp_stuck s'"
proof -
  note inv = reaper_reach_inv [OF assms(1)]
  obtain c where "dget (rp_children s) pid = Some c" using reaper_invD(2) [OF inv assms(2)] by blast
  then show ?thesis using reaper_kill_reaps [OF inv assms(2), of R] assms(2) reaper_invD(8) [OF inv]
    by (auto simp: reaped_def)
qed

theorem reaper_kill_complete_witness:
  "fst (reaper_kill demo_env ''x'' demo_reaper) = Inl OSError \<and>
   rp_branches (snd (reaper_kill demo_env ''x'' demo_reaper)) = [(''y'', (1, 1))] \<and>
   \<not> rp_stuck (snd (reaper_kill demo_env ''x'' demo_reaper))"
proof -
  have "dget (rp_branches demo_reaper) ''x'' = Some (0, 0)" by (simp add: demo_reaper_branches)
  moreover have "case fst (reaper_kill demo_env ''x'' demo_reaper) of Inl e \<Rightarrow> e = OSError | Inr _ \<Rightarrow> False" by code_simp
  ultimately show ?thesis
    using reaper_kill_complete [OF demo_reaper_reach, of "''x''" 0 0]
    by (simp add: demo_reaper_branches split: sum.splits)
qed

text \<open>
  C19: \<open>BranchReaper.close\<close> attempts every branch: afterwards no branch is left, every child is reaped
  and every pidfd closed, whether or not an error is raised at the end, and it never waited for a
  child that was running.
\<close>

theorem reaper_close_complete:
  assumes "reaper_reach R s"
  shows "case snd (reaper_close R s) of s' \<Rightarrow> rp_branches s' = [] \<and> rp_pidfds s' = [] \<and>
    (\<forall>pid c. dget (rp_children s') pid = Some c \<longrightarrow> ch_state c = Reaped) \<and> \<not> rp_stuck s'"
proof -
  let ?s' = "snd (reaper_close R s)"
  have "?s' = snd (close_loop (reaper_kill R) (map fst (rp_branches s)) None s)"
    by (simp add: reaper_close_def seqp_def readp_def)
  then have k: "reaper_inv ?s'" "keys (rp_branches ?s') = {}"
    using close_loop_all [OF reaper_reach_inv [OF assms], of R "map fst (rp_branches s)" None] by simp_all
  then have none: "rp_branches ?s' = []" by simp
  have "dget (rp_pidfds ?s') fd = None" for fd
    using reaper_invD(4) [OF k(1), of fd] none by (cases "dget (rp_pidfds ?s') fd") auto
  then have "rp_pidfds ?s' = []" by (metis dget_None_iff image_is_empty set_empty2 subset_empty subsetI)
  then show ?thesis using none reaper_invD(3,8) [OF k(1)] by force
qed

theorem reaper_close_complete_witness: "rp_branches (snd (reaper_close demo_env demo_reaper)) = []"
  using reaper_close_complete [OF demo_reaper_reach] by (simp add: Let_def)

text \<open>
  The launcher, started with the arguments the reaper builds in \<open>shim\<close> mode, runs exactly the
  branch's command with the death signal armed if its parent is still the supervisor, and exits
  without running it otherwise.
\<close>

theorem launcher_runs_command:
  assumes "argv \<noteq> []"
  shows "launcher_main True ppid True (drop 3 (shim_argv R argv)) =
    (if ppid = re_getpid R then Exec argv else Exit 128)"
  using assms by (cases argv) (simp_all add: shim_argv_def launcher_main_def int_of_str_int)

theorem launcher_runs_command_witness:
  "launcher_main True 7 True (drop 3 (shim_argv demo_env [''sleep'', ''9''])) = Exec [''sleep'', ''9'']"
  using launcher_runs_command [of "[''sleep'', ''9'']" 7 demo_env] by (simp add: demo_env_def)

text \<open>
  C20: With the reference KV cache and supervised processes, after any sequence of orchestrator calls
  in which no child id given to \<open>fork\<close> is empty every child process that has not been waited for belongs to a branch in the registry.
\<close>

theorem processes_are_recorded:
  assumes "orch_started (\<lambda>s. keys (kv_trees s)) cache_dicts (\<lambda>s. keys (rp_branches s)) reaper_inv s0"
    and "orch_reach (call_ok ends) (proc_config R argv m w io) s0 s"
    and "dget (rp_children (o_sb s)) pid = Some c" "ch_state c \<noteq> Reaped"
  shows "\<exists>t fd. dget (rp_branches (o_sb s)) t = Some (pid, fd) \<and> t \<in> keys (o_branches s)"
proof -
  have good: "sys_inv (\<lambda>s. keys (kv_trees s)) cache_dicts (\<lambda>s. keys (rp_branches s)) reaper_inv ends s"
    by (rule reached_good(1) [OF procs.orchestrated_axioms assms(1,2)])
  then obtain t fd where t: "dget (rp_branches (o_sb s)) t = Some (pid, fd)"
    using reaper_invD(3) [OF _ assms(3,4)] by (auto simp: sys_inv_def covered_def)
  then have "t \<in> keys (rp_branches (o_sb s))" by (rule dget_Some_keys)
  with t good show ?thesis unfolding sys_inv_def covered_def by blast
qed

theorem processes_are_recorded_witness:
  "\<exists>s t fd. orch_reach (call_ok {}) proc_demo_config proc_demo_start s \<and>
     dget (rp_branches (o_sb s)) t = Some (0, fd) \<and> t \<in> keys (o_branches s)"
proof -
  let ?s = "snd (create_parent proc_demo_config ''a'' [1] None proc_demo_start)"
  have reach: "orch_reach (call_ok {}) proc_demo_config proc_demo_start ?s"
    by (rule orch_reach.step [OF orch_reach.start, where c = "CallCreate ''a'' [1] None"]) simp_all
  have c: "dget (rp_children (o_sb ?s)) 0 = Some \<lparr>ch_argv = [''sleep''], ch_preexec = None, ch_state = Running\<rparr>"
    by code_simp
  have "\<exists>t fd. dget (rp_branches (o_sb ?s)) t = Some (0, fd) \<and> t \<in> keys (o_branches ?s)"
    by (rule processes_are_recorded [OF proc_demo_started reach [unfolded proc_demo_config_def],
          folded proc_demo_config_def, OF c]) simp
  with reach show ?thesis by blast
qed

text \<open>
  The value \<open>1\<close> for \<open>pdeathsig\<close> passes the validation (it equals \<open>True\<close>) but is not \<open>True\<close> itself:
  children are then started without any death signal.
\<close>

lemma pdeathsig_one_is_unarmed:
  assumes "reaper_init kv (JInt 1) = Inr s" "reaper_spawn R t argv s = (Inr pid, s')"
  shows "\<exists>c. dget (rp_children s') pid = Some c \<and> ch_argv c = argv \<and> ch_preexec c = None"
  using assms
  by (auto simp: reaper_init_def pdeathsig_valid_def reaper_spawn_def proc_defs popen_def pidfd_open_def sys_call_def
      split: if_splits option.splits prod.splits sum.splits)

lemma pdeathsig_one_accepted: "\<exists>s. reaper_init kv (JInt 1) = Inr s"
  by (simp add: reaper_init_def pdeathsig_valid_def)

end
