(* ===== verification/SGLang_Backend.thy ===== *)
theory SGLang_Backend
  imports Backends
begin

text \<open>
  \<open>kv/sglang_backend.py\<close>: the adapter \<open>SGLangKVBackend\<close> over an engine, a \<open>TreeRadixCache\<close> of a
  patched SGLang.  The engine is a parameter, a record of the four methods the adapter calls;
  the locale states what its documentation promises.  The adapter keeps the contract of a KV
  backend over every such engine, and over an engine that behaves like \<open>TreeKVCache\<close> it returns
  exactly what \<open>TreeKVCache\<close> returns.
\<close>

section \<open>The adapter\<close>

text \<open>\<open>en_fork\<close> gives the id of the branch it made, \<open>en_extend\<close> the length of the cached prefix.\<close>

record 'e tree_engine =
  en_create :: "string \<Rightarrow> ('e, unit) proc"
  en_fork :: "string \<Rightarrow> string option \<Rightarrow> ('e, string) proc"
  en_kill :: "string \<Rightarrow> ('e, int) proc"
  en_extend :: "string \<Rightarrow> int list \<Rightarrow> ('e, int) proc"

record 'e sglang =
  sg_engine :: 'e
  sg_lengths :: "(string, int) dict"

definition sg_new :: "'e \<Rightarrow> 'e sglang" where
  "sg_new e = \<lparr>sg_engine = e, sg_lengths = []\<rparr>"

definition on_engine :: "('e, 'a) proc \<Rightarrow> ('e sglang, 'a) proc" where
  "on_engine m s = (case m (sg_engine s) of (r, e) \<Rightarrow> (r, s\<lparr>sg_engine := e\<rparr>))"

definition set_length :: "string \<Rightarrow> int \<Rightarrow> ('e sglang, unit) proc" where
  "set_length t n = modp (\<lambda>s. s\<lparr>sg_lengths := dset t n (sg_lengths s)\<rparr>)"

text \<open>\<open>self._lengths[tree_id]\<close>.\<close>

definition tracked_length :: "string \<Rightarrow> ('e sglang, int) proc" where
  "tracked_length t s = (case dget (sg_lengths s) t of None \<Rightarrow> (Inl (KeyError t), s) | Some n \<Rightarrow> (Inr n, s))"

definition sg_create :: "'e tree_engine \<Rightarrow> string \<Rightarrow> ('e sglang, unit) proc" where
  "sg_create En t = seqp (on_engine (en_create En t)) (\<lambda>_. set_length t 0)"

definition sg_fork :: "'e tree_engine \<Rightarrow> string \<Rightarrow> string option \<Rightarrow> ('e sglang, string) proc" where
  "sg_fork En parent child =
     seqp (tracked_length parent) (\<lambda>n.
     seqp (on_engine (en_fork En parent child)) (\<lambda>b.
     seqp (set_length b n) (\<lambda>_. ret b)))"

definition sg_kill :: "'e tree_engine \<Rightarrow> string \<Rightarrow> ('e sglang, int) proc" where
  "sg_kill En t =
     seqp (on_engine (en_kill En t)) (\<lambda>freed.
     seqp (modp (\<lambda>s. s\<lparr>sg_lengths := ddel t (sg_lengths s)\<rparr>)) (\<lambda>_. ret freed))"

definition sg_extend :: "'e tree_engine \<Rightarrow> string \<Rightarrow> int list \<Rightarrow> ('e sglang, int) proc" where
  "sg_extend En t tokens =
     seqp (tracked_length t) (\<lambda>old_len.
     seqp (on_engine (en_extend En t tokens)) (\<lambda>hit.
       let new_total = old_len + int (length tokens); charged = new_total - max hit old_len
       in seqp (set_length t new_total) (\<lambda>_. ret charged)))"

definition sg_has_tree :: "string \<Rightarrow> 'e sglang \<Rightarrow> bool" where
  "sg_has_tree t s \<longleftrightarrow> t \<in> keys (sg_lengths s)"

definition sglang_backend :: "'e tree_engine \<Rightarrow> 'e sglang kv_backend" where
  "sglang_backend En =
     \<lparr>kb_create = sg_create En, kb_fork = \<lambda>p t. drop_value (sg_fork En p (Some t)), kb_kill = sg_kill En,
      kb_extend = sg_extend En, kb_external = False, kb_generate = None,
      kb_has_tree = Some (\<lambda>t. readp (sg_has_tree t))\<rparr>"

section \<open>Engines that keep their promises\<close>

locale engine_contract =
  fixes En :: "'e tree_engine" and etrees :: "'e \<Rightarrow> string set" and einv :: "'e \<Rightarrow> bool"
  assumes en_inv: "einv e \<Longrightarrow> einv (snd (en_create En t e)) \<and> einv (snd (en_fork En p c e)) \<and>
      einv (snd (en_kill En t e)) \<and> einv (snd (en_extend En t toks e))"
    and en_create_touches: "einv e \<Longrightarrow> touches_only t (etrees e) (etrees (snd (en_create En t e)))"
    and en_create_made: "einv e \<Longrightarrow> en_create En t e = (Inr x, e') \<Longrightarrow> t \<in> etrees e'"
    and en_fork_touches: "einv e \<Longrightarrow> t \<noteq> [] \<Longrightarrow> touches_only t (etrees e) (etrees (snd (en_fork En p (Some t) e)))"
    and en_fork_made: "einv e \<Longrightarrow> t \<noteq> [] \<Longrightarrow> en_fork En p (Some t) e = (Inr b, e') \<Longrightarrow> b = t \<and> t \<in> etrees e'"
    and en_kill_touches: "einv e \<Longrightarrow> touches_only t (etrees e) (etrees (snd (en_kill En t e)))"
    and en_kill_gone: "einv e \<Longrightarrow> en_kill En t e = (Inr n, e') \<Longrightarrow> t \<notin> etrees e'"
    and en_extend_same: "einv e \<Longrightarrow> etrees (snd (en_extend En t toks e)) = etrees e"
begin

text \<open>The engine part of each method's effect; the lengths play no part in it.\<close>

lemma engine_effects:
  "sg_engine (snd (sg_create En t s)) = snd (en_create En t (sg_engine s))"
  "sg_engine (snd (sg_kill En t s)) = snd (en_kill En t (sg_engine s))"
  "sg_engine (snd (sg_fork En p c s)) \<in> {sg_engine s, snd (en_fork En p c (sg_engine s))}"
  "sg_engine (snd (sg_extend En t toks s)) \<in> {sg_engine s, snd (en_extend En t toks (sg_engine s))}"
  by (auto simp: sg_create_def sg_kill_def sg_fork_def sg_extend_def tracked_length_def set_length_def on_engine_def
      proc_defs Let_def split: prod.split sum.split option.split)

lemma engine_success:
  "sg_create En t s = (Inr x, s') \<Longrightarrow> \<exists>y. en_create En t (sg_engine s) = (Inr y, sg_engine s')"
  "sg_kill En t s = (Inr n, s') \<Longrightarrow> en_kill En t (sg_engine s) = (Inr n, sg_engine s')"
  "sg_fork En p c s = (Inr b, s') \<Longrightarrow> en_fork En p c (sg_engine s) = (Inr b, sg_engine s')"
  by (auto simp: sg_create_def sg_kill_def sg_fork_def tracked_length_def set_length_def on_engine_def
      proc_defs split: prod.splits sum.splits option.splits)

end

sublocale engine_contract \<subseteq> adapter: kv_contract "sglang_backend En" "\<lambda>s. etrees (sg_engine s)" "\<lambda>s. einv (sg_engine s)"
proof unfold_locales
  fix k :: "'e sglang" and t p toks
  assume inv: "einv (sg_engine k)"
  note ef = engine_effects(1,2) [of t k]
  show "einv (sg_engine (snd (kb_create (sglang_backend En) t k)))"
    "einv (sg_engine (snd (kb_kill (sglang_backend En) t k)))"
    using en_inv [OF inv] ef(1,2) by (simp_all add: sglang_backend_def)
  show "einv (sg_engine (snd (kb_fork (sglang_backend En) p t k)))"
    using en_inv [OF inv] inv engine_effects(3) [of p "Some t" k] by (auto simp: sglang_backend_def)
  show "einv (sg_engine (snd (kb_extend (sglang_backend En) t toks k)))"
    using en_inv [OF inv] inv engine_effects(4) [of t toks k] by (auto simp: sglang_backend_def)
  show "touches_only t (etrees (sg_engine k)) (etrees (sg_engine (snd (kb_create (sglang_backend En) t k))))"
    "touches_only t (etrees (sg_engine k)) (etrees (sg_engine (snd (kb_kill (sglang_backend En) t k))))"
    using en_create_touches [OF inv] en_kill_touches [OF inv] ef(1,2) by (simp_all add: sglang_backend_def)
  show "touches_only t (etrees (sg_engine k)) (etrees (sg_engine (snd (kb_fork (sglang_backend En) p t k))))" if "t \<noteq> []"
  proof -
    have "sg_engine (snd (sg_fork En p (Some t) k)) \<in> {sg_engine k, snd (en_fork En p (Some t) (sg_engine k))}"
      by (rule engine_effects)
    then show ?thesis using en_fork_touches [OF inv that, of p] by (elim insertE) (simp_all add: sglang_backend_def)
  qed
  show "etrees (sg_engine (snd (kb_extend (sglang_backend En) t toks k))) = etrees (sg_engine k)"
  proof -
    have "sg_engine (snd (sg_extend En t toks k)) \<in> {sg_engine k, snd (en_extend En t toks (sg_engine k))}"
      by (rule engine_effects)
    then show ?thesis using en_extend_same [OF inv, of t toks] by (elim insertE) (simp_all add: sglang_backend_def)
  qed
  show "t \<in> etrees (sg_engine k')" if "kb_create (sglang_backend En) t k = (Inr x, k')" for x k'
  proof -
    have "sg_create En t k = (Inr x, k')" using that by (simp add: sglang_backend_def)
    then obtain y where "en_create En t (sg_engine k) = (Inr y, sg_engine k')" using engine_success(1) by blast
    then show ?thesis by (rule en_create_made [OF inv])
  qed
  show "t \<in> etrees (sg_engine k')" if ne: "t \<noteq> []" and run: "kb_fork (sglang_backend En) p t k = (Inr x, k')" for x k'
  proof -
    obtain b where "sg_fork En p (Some t) k = (Inr b, k')"
      using run by (auto simp: sglang_backend_def drop_value_Inr)
    from engine_success(3) [OF this] show ?thesis using en_fork_made [OF inv ne] by blast
  qed
  show "t \<notin> etrees (sg_engine k')" if "kb_kill (sglang_backend En) t k = (Inr n, k')" for n k'
  proof -
    have "sg_kill En t k = (Inr n, k')" using that by (simp add: sglang_backend_def)
    from engine_success(2) [OF this] show ?thesis by (rule en_kill_gone [OF inv])
  qed
qed (auto simp: sglang_backend_def readp_def)

section \<open>\<open>TreeKVCache\<close> in the place of the engine\<close>

definition cache_engine :: "(nat \<Rightarrow> real) \<Rightarrow> kv_cache tree_engine" where
  "cache_engine clk =
     \<lparr>en_create = \<lambda>t. drop_value (create_tree clk t),
      en_fork = \<lambda>p c. seqp (fork_branch p c) (\<lambda>tid. ret (tid_tree_id tid)),
      en_kill = kill,
      en_extend = \<lambda>t toks. seqp (extend_kv clk t toks) (\<lambda>charged.
        seqp (readp (\<lambda>s. case dget (kv_seqs s) t of None \<Rightarrow> 0 | Some sq \<Rightarrow> int (length sq))) (\<lambda>n. ret (n - charged)))\<rparr>"

lemma snd_cache_engine:
  "snd (en_create (cache_engine clk) t s) = snd (create_tree clk t s)"
  "snd (en_fork (cache_engine clk) p c s) = snd (fork_branch p c s)"
  "snd (en_kill (cache_engine clk) t s) = snd (kill t s)"
  "snd (en_extend (cache_engine clk) t toks s) = snd (extend_kv clk t toks s)"
  by (auto simp: cache_engine_def seqp_def readp_def ret_def split: prod.split sum.split)

interpretation cache_en: engine_contract "cache_engine clk" "\<lambda>s. keys (kv_trees s)" cache_dicts for clk
proof unfold_locales
  fix e :: kv_cache and t p c toks
  assume inv: "cache_dicts e"
  show "cache_dicts (snd (en_create (cache_engine clk) t e)) \<and> cache_dicts (snd (en_fork (cache_engine clk) p c e)) \<and>
      cache_dicts (snd (en_kill (cache_engine clk) t e)) \<and> cache_dicts (snd (en_extend (cache_engine clk) t toks e))"
    unfolding snd_cache_engine
    using inv cache_dicts_create cache_dicts_fork cache_dicts_kill same_dicts_inv [OF same_dicts_extend] by blast
  show "touches_only t (keys (kv_trees e)) (keys (kv_trees (snd (en_create (cache_engine clk) t e))))"
    "touches_only t (keys (kv_trees e)) (keys (kv_trees (snd (en_kill (cache_engine clk) t e))))"
    using tree_kv.kv_create_touches [OF inv, of t clk] tree_kv.kv_kill_touches [OF inv, of t clk]
    by (simp_all add: snd_cache_engine tree_cache_backend_def)
  show "touches_only t (keys (kv_trees e)) (keys (kv_trees (snd (en_fork (cache_engine clk) p (Some t) e))))" if "t \<noteq> []"
    using tree_kv.kv_fork_touches [OF inv that, of clk p] by (simp add: snd_cache_engine tree_cache_backend_def)
  show "keys (kv_trees (snd (en_extend (cache_engine clk) t toks e))) = keys (kv_trees e)"
    using tree_kv.kv_extend_same [OF inv, of clk t toks] by (simp add: snd_cache_engine tree_cache_backend_def)
  show "t \<in> keys (kv_trees e')" if "en_create (cache_engine clk) t e = (Inr x, e')" for x e'
    using tree_kv.kv_create_made [OF inv, of clk t x e'] that by (simp add: cache_engine_def tree_cache_backend_def)
  show "t \<notin> keys (kv_trees e')" if "en_kill (cache_engine clk) t e = (Inr n, e')" for n e'
    using tree_kv.kv_kill_gone [OF inv, of clk t n e'] that by (simp add: cache_engine_def tree_cache_backend_def)
  show "b = t \<and> t \<in> keys (kv_trees e')" if "t \<noteq> []" "en_fork (cache_engine clk) p (Some t) e = (Inr b, e')" for b e'
  proof -
    note ne = that(1) and run = that(2)
    obtain tid where tid: "fork_branch p (Some t) e = (Inr tid, e')" "b = tid_tree_id tid"
      using run by (auto simp: cache_engine_def seqp_def ret_def split: prod.splits sum.splits)
    obtain tid' where "kv_trees e' = dset t tid' (kv_trees e)" using fork_branch_trees(2) [OF inv ne tid(1)] by blast
    then have "t \<in> keys (kv_trees e')" by simp
    moreover have "tid_tree_id tid = t"
      using tid(1) ne
      by (auto simp: fork_branch_def Let_def child_name_def set_root_def split: option.splits prod.splits if_splits)
    ultimately show ?thesis using tid(2) by simp
  qed
qed

section \<open>Equivalence with \<open>TreeKVCache\<close>\<close>

text \<open>The tracked lengths are those of the sequences the cache holds.\<close>

definition synced :: "kv_cache sglang \<Rightarrow> bool" where
  "synced s \<longleftrightarrow> (\<forall>t. dget (sg_lengths s) t = map_option (\<lambda>(ns, sq). int (length sq)) (sp_trees (kv_abs (sg_engine s)) t))"

lemma card_le_add: "finite A \<Longrightarrow> finite B \<Longrightarrow> C \<subseteq> A \<union> B \<Longrightarrow> card C \<le> card A + card B"
  by (meson card_Un_le card_mono finite_Un le_trans)

text \<open>Extending a tree stores at most one new prefix per token.\<close>

lemma spec_extend_charge:
  assumes "finite (stored A)" "spec_extend cap bud t toks A = (Inr c, A')"
  shows "c \<le> int (length toks)"
proof -
  obtain ns sq where t: "sp_trees A t = Some (ns, sq)"
    and A': "A' = A\<lparr>sp_trees := (sp_trees A)(t \<mapsto> (ns, sq @ toks))\<rparr>"
    and c: "c = int (card (stored A')) - int (card (stored A))"
    using assms(2) by (auto simp: spec_extend_def Let_def split: option.splits if_splits)
  let ?B = "(\<lambda>k. (ns, sq @ take (Suc k) toks)) ` {..<length toks}"
  have "stored A' \<subseteq> stored A \<union> ?B"
  proof
    fix x assume "x \<in> stored A'"
    then obtain n p u q where x: "x = (n, p)" "p \<noteq> []" "sp_trees A' u = Some (n, q)" "prefix p q"
      unfolding stored_def by auto
    show "x \<in> stored A \<union> ?B"
    proof (cases "u = t")
      case False
      then show ?thesis using x unfolding stored_def by (auto simp: A')
    next
      case True
      then have q: "n = ns" "q = sq @ toks" using x(3) by (simp_all add: A')
      then consider "prefix p sq" | zs where "p = sq @ zs" "prefix zs toks" "zs \<noteq> []"
        using x(4) by (metis append_Nil2 prefix_append prefix_order.order_refl)
      then show ?thesis
      proof cases
        case 1
        then show ?thesis using x(1,2) t q unfolding stored_def by auto
      next
        case 2
        then have "zs = take (Suc (length zs - 1)) toks" "length zs - 1 < length toks"
          using prefix_length_le [OF 2(2)] 2(2,3) by (cases zs; simp add: prefix_iff_take)+
        then show ?thesis using 2(1) x(1) q by blast
      qed
    qed
  qed
  then have "card (stored A') \<le> card (stored A) + card ?B" by (intro card_le_add assms(1)) auto
  also have "card ?B \<le> length toks" using card_image_le [of "{..<length toks}"] by auto
  finally show ?thesis using c by linarith
qed

lemma spec_of_run:
  "map_prod f kv_abs (m s) = (r, A) \<Longrightarrow> m s = (x, s') \<Longrightarrow> f x = r \<and> kv_abs s' = A"
  by simp

lemma sg_create_same:
  assumes "cache_inv (sg_engine s)" "synced s"
  shows "map_prod id sg_engine (sg_create (cache_engine clk) t s) = drop_value (create_tree clk t) (sg_engine s) \<and>
    synced (snd (sg_create (cache_engine clk) t s))"
proof -
  obtain r e where run: "create_tree clk t (sg_engine s) = (r, e)" by fastforce
  have "map_sum id tid_tree_id r = fst (spec_create t (kv_abs (sg_engine s)))" "kv_abs e = snd (spec_create t (kv_abs (sg_engine s)))"
    using create_tree_refines [OF assms(1), of clk t] run by (simp_all add: prod_eq_iff)
  then show ?thesis
    using assms(2) run
    by (cases r) (auto simp: sg_create_def cache_engine_def on_engine_def set_length_def drop_value_def proc_defs
        synced_def spec_create_def split: if_splits)
qed

lemma sg_fork_same:
  assumes "cache_inv (sg_engine s)" "synced s"
  shows "map_prod id sg_engine (sg_fork (cache_engine clk) p c s) =
      seqp (fork_branch p c) (\<lambda>tid. ret (tid_tree_id tid)) (sg_engine s) \<and>
    synced (snd (sg_fork (cache_engine clk) p c s))"
proof (cases "sp_trees (kv_abs (sg_engine s)) p")
  case None
  then have "dget (kv_trees (sg_engine s)) p = None"
    using kv_abs_None [of "sg_engine s" p] assms(1) by (simp add: cache_inv_def dget_None_iff)
  moreover have "dget (sg_lengths s) p = None" using None assms(2) by (simp add: synced_def)
  ultimately show ?thesis
    using assms(2) by (simp add: sg_fork_def tracked_length_def seqp_def fork_branch_def)
next
  case (Some x)
  obtain ns sq where x: "x = (ns, sq)" by fastforce
  obtain r e where run: "fork_branch p c (sg_engine s) = (r, e)" by fastforce
  have "map_sum id tid_tree_id r = fst (spec_fork p c (kv_abs (sg_engine s)))" "kv_abs e = snd (spec_fork p c (kv_abs (sg_engine s)))"
    using fork_branch_refines [OF assms(1), of p c] run by (simp_all add: prod_eq_iff)
  moreover have "dget (sg_lengths s) p = Some (int (length sq))" using Some x assms(2) by (simp add: synced_def)
  ultimately show ?thesis
    using assms(2) run Some x
    by (cases r) (auto simp: sg_fork_def cache_engine_def on_engine_def set_length_def tracked_length_def proc_defs
        synced_def spec_fork_def Let_def split: if_splits)
qed

lemma sg_kill_same:
  assumes "cache_inv (sg_engine s)" "synced s"
  shows "map_prod id sg_engine (sg_kill (cache_engine clk) t s) = kill t (sg_engine s) \<and>
    synced (snd (sg_kill (cache_engine clk) t s))"
proof -
  obtain r e where run: "kill t (sg_engine s) = (r, e)" by fastforce
  have "r = fst (spec_kill t (kv_abs (sg_engine s)))" "kv_abs e = snd (spec_kill t (kv_abs (sg_engine s)))"
    using kill_refines [OF assms(1), of t] run by (simp_all add: prod_eq_iff)
  then show ?thesis
    using assms(2) run
    by (auto simp: sg_kill_def cache_engine_def on_engine_def proc_defs synced_def spec_kill_def Let_def)
qed

lemma sg_extend_same:
  assumes "cache_inv (sg_engine s)" "synced s"
  shows "map_prod id sg_engine (sg_extend (cache_engine clk) t toks s) = extend_kv clk t toks (sg_engine s) \<and>
    synced (snd (sg_extend (cache_engine clk) t toks s))"
proof (cases "sp_trees (kv_abs (sg_engine s)) t")
  case None
  then have "dget (kv_trees (sg_engine s)) t = None"
    using kv_abs_None [of "sg_engine s" t] assms(1) by (simp add: cache_inv_def dget_None_iff)
  moreover have "dget (sg_lengths s) t = None" using None assms(2) by (simp add: synced_def)
  ultimately show ?thesis
    using assms(2) by (simp add: sg_extend_def tracked_length_def seqp_def extend_kv_def)
next
  case (Some x)
  obtain ns sq where x: "x = (ns, sq)" by fastforce
  let ?spec = "spec_extend (kv_capacity (sg_engine s)) (kv_budget (sg_engine s)) t toks (kv_abs (sg_engine s))"
  obtain r e where run: "extend_kv clk t toks (sg_engine s) = (r, e)" by fastforce
  have ref: "?spec = (r, kv_abs e)" using extend_refines [OF assms(1), of clk t toks] run by simp
  have len: "dget (sg_lengths s) t = Some (int (length sq))" using Some x assms(2) by (simp add: synced_def)
  show ?thesis
  proof (cases r)
    case (Inl exn)
    then have "sp_trees (kv_abs e) = sp_trees (kv_abs (sg_engine s))"
      using ref Some x by (auto simp: spec_extend_def Let_def split: if_splits)
    moreover have "sg_extend (cache_engine clk) t toks s = (Inl exn, s\<lparr>sg_engine := e\<rparr>)"
      using run len Inl by (simp add: sg_extend_def cache_engine_def on_engine_def tracked_length_def proc_defs)
    ultimately show ?thesis using assms(2) run Inl by (simp add: synced_def)
  next
    case (Inr c)
    have fin: "finite (stored (kv_abs (sg_engine s)))" using assms(1) by (simp add: cache_inv_def card_stored)
    have "c \<le> int (length toks)" using spec_extend_charge [OF fin] ref Inr by blast
    moreover have tr: "sp_trees (kv_abs e) = (sp_trees (kv_abs (sg_engine s)))(t \<mapsto> (ns, sq @ toks))"
    proof -
      have "kv_abs e = kv_abs (sg_engine s)\<lparr>sp_trees := (sp_trees (kv_abs (sg_engine s)))(t \<mapsto> (ns, sq @ toks))\<rparr>"
        using ref Some x Inr by (auto simp: spec_extend_def Let_def split: if_splits)
      then show ?thesis by simp
    qed
    then have "dget (kv_seqs e) t = Some (sq @ toks)"
      by (auto simp: kv_abs_def fun_eq_iff split: option.splits dest!: spec [of _ t])
    ultimately have "sg_extend (cache_engine clk) t toks s =
        (Inr c, s\<lparr>sg_engine := e, sg_lengths := dset t (int (length sq) + int (length toks)) (sg_lengths s)\<rparr>)"
      using run len Inr
      by (simp add: sg_extend_def cache_engine_def on_engine_def tracked_length_def set_length_def proc_defs)
    then show ?thesis using assms(2) run Inr tr by (simp add: synced_def)
  qed
qed

text \<open>The adapter over the reference cache, started empty and driven by calls that \<open>ok\<close> allows.\<close>

inductive sg_reach :: "(kv_op \<Rightarrow> kv_cache \<Rightarrow> bool) \<Rightarrow> (nat \<Rightarrow> real) \<Rightarrow> int \<Rightarrow> int option \<Rightarrow> kv_cache sglang \<Rightarrow> bool" for ok clk cap bud where
  new: "kv_init cap bud = Inr e \<Longrightarrow> sg_reach ok clk cap bud (sg_new e)"
| create: "sg_reach ok clk cap bud s \<Longrightarrow> ok (CreateTree t) (sg_engine s) \<Longrightarrow>
    sg_reach ok clk cap bud (snd (sg_create (cache_engine clk) t s))"
| fork: "sg_reach ok clk cap bud s \<Longrightarrow> sg_reach ok clk cap bud (snd (sg_fork (cache_engine clk) p c s))"
| kill: "sg_reach ok clk cap bud s \<Longrightarrow> sg_reach ok clk cap bud (snd (sg_kill (cache_engine clk) t s))"
| extend: "sg_reach ok clk cap bud s \<Longrightarrow> sg_reach ok clk cap bud (snd (sg_extend (cache_engine clk) t toks s))"

lemma snd_map_prod_id: "map_prod id f x = y \<Longrightarrow> f (snd x) = snd y"
  by auto

lemma sg_reach_synced: "sg_reach no_recreate clk cap bud s \<Longrightarrow> cache_inv (sg_engine s) \<and> synced s"
proof (induction rule: sg_reach.induct)
  case (new e)
  then show ?case
    using cache_inv_init by (auto simp: sg_new_def synced_def kv_abs_def kv_init_def split: if_splits)
next
  case (create s t)
  then show ?case
    using sg_create_same [of s clk t] create_tree_ok [of "sg_engine s" t clk]
    by (auto dest: snd_map_prod_id)
next
  case (fork s p c)
  have "snd (seqp (fork_branch p c) (\<lambda>tid. ret (tid_tree_id tid)) (sg_engine s)) = snd (fork_branch p c (sg_engine s))"
    by (auto simp: seqp_def ret_def split: prod.split sum.split)
  then show ?case
    using fork sg_fork_same [of s clk p c] fork_branch_inv [of "sg_engine s"] by (auto dest: snd_map_prod_id)
next
  case (kill s t)
  then show ?case
    using sg_kill_same [of s clk t] kill_inv [of "sg_engine s"] by (auto dest: snd_map_prod_id)
next
  case (extend s t toks)
  then show ?case
    using sg_extend_same [of s clk t toks] extend_inv [of "sg_engine s"] by (auto dest: snd_map_prod_id)
qed

section \<open>Properties\<close>

definition sg_demo :: "kv_cache sglang" where
  "sg_demo = snd (sg_extend (cache_engine real) ''a'' [1, 2, 3] (snd (sg_create (cache_engine real) ''a''
     (sg_new (projr (kv_init 100 None))))))"

lemma sg_demo_reach: "sg_reach no_recreate real 100 None sg_demo"
proof -
  have "kv_init 100 None = Inr (projr (kv_init 100 None))" by (simp add: kv_init_def)
  moreover have "no_recreate (CreateTree ''a'') (sg_engine (sg_new (projr (kv_init 100 None))))"
    by (simp add: sg_new_def kv_init_def)
  ultimately show ?thesis unfolding sg_demo_def by (intro sg_reach.extend sg_reach.create sg_reach.new)
qed

text \<open>
  C21: Over an engine that behaves like \<open>TreeKVCache\<close>, as long as no killed root is created again while
  its forks live (\<open>no_recreate\<close>), every method of \<open>SGLangKVBackend\<close> returns or
  raises what the method of \<open>TreeKVCache\<close> does and leaves the engine in the same state: the token
  count it derives from the cache-hit length is the charge.
\<close>

theorem sglang_backend_equals_reference:
  assumes "sg_reach no_recreate clk cap bud s"
  shows "map_prod id sg_engine (sg_create (cache_engine clk) t s) = drop_value (create_tree clk t) (sg_engine s) \<and>
    map_prod id sg_engine (sg_fork (cache_engine clk) p c s) =
      seqp (fork_branch p c) (\<lambda>tid. ret (tid_tree_id tid)) (sg_engine s) \<and>
    map_prod id sg_engine (sg_kill (cache_engine clk) t s) = kill t (sg_engine s) \<and>
    map_prod id sg_engine (sg_extend (cache_engine clk) t toks s) = extend_kv clk t toks (sg_engine s) \<and>
    sg_has_tree t s = has_tree t (sg_engine s)"
proof -
  have inv: "cache_inv (sg_engine s)" and syn: "synced s" using sg_reach_synced [OF assms] by simp_all
  have "t \<in> keys (sg_lengths s) \<longleftrightarrow> sp_trees (kv_abs (sg_engine s)) t \<noteq> None"
    using syn dget_None_iff [of "sg_lengths s" t] by (auto simp: synced_def)
  then have "sg_has_tree t s = has_tree t (sg_engine s)"
    using kv_abs_None [of "sg_engine s" t] inv by (auto simp: sg_has_tree_def has_tree_def cache_inv_def)
  then show ?thesis
    using sg_create_same [OF inv syn] sg_fork_same [OF inv syn] sg_kill_same [OF inv syn] sg_extend_same [OF inv syn]
    by blast
qed

theorem sglang_backend_equals_reference_witness:
  "fst (sg_extend (cache_engine real) ''a'' [7, 8] sg_demo) = Inr 2"
proof -
  have "fst (extend_kv real ''a'' [7, 8] (sg_engine sg_demo)) = Inr 2" by code_simp
  then show ?thesis
    using sglang_backend_equals_reference [OF sg_demo_reach] by (metis fst_map_prod id_apply)
qed

text \<open>
  Whatever prefix the engine reports as cached, the charge of \<open>extend\<close> lies between 0 and the
  number of new tokens, is never more because a cached prefix was evicted, and the tracked
  length grows by exactly the new tokens.
\<close>

theorem sglang_charge_bounds:
  assumes "dget (sg_lengths s) t = Some n" "en_extend En t tokens (sg_engine s) = (Inr hit, e)"
    and "hit \<le> n + int (length tokens)"
  shows "\<exists>c. sg_extend En t tokens s = (Inr c, s\<lparr>sg_engine := e, sg_lengths := dset t (n + int (length tokens)) (sg_lengths s)\<rparr>) \<and>
    0 \<le> c \<and> c \<le> int (length tokens) \<and> (hit \<le> n \<longrightarrow> c = int (length tokens))"
  using assms
  by (auto simp: sg_extend_def tracked_length_def on_engine_def set_length_def proc_defs Let_def)

theorem sglang_charge_bounds_witness:
  "\<exists>c. fst (sg_extend (cache_engine real) ''a'' [7, 8] sg_demo) = Inr c \<and> c \<le> 2"
proof -
  have l: "dget (sg_lengths sg_demo) ''a'' = Some 3" by code_simp
  have h: "fst (en_extend (cache_engine real) ''a'' [7, 8] (sg_engine sg_demo)) = Inr 3" by code_simp
  obtain e where "en_extend (cache_engine real) ''a'' [7, 8] (sg_engine sg_demo) = (Inr 3, e)"
    using h by (metis prod.collapse)
  from sglang_charge_bounds [OF l this] show ?thesis by auto
qed

end
