(* ===== verification/SGLang_HTTP.thy ===== *)
theory SGLang_HTTP
  imports Backends Python_Text
begin

text \<open>
  \<open>kv/sglang_http_backend.py\<close>: the class \<open>SGLangHTTPBackend\<close>, which drives a remote tree cache over
  HTTP.  The server is a parameter: it answers a request with a reply and moves to a new state.
  A reply is what \<open>urlopen\<close> can end in: a response, an HTTP error, a failure that \<open>urllib\<close> reports
  as \<open>URLError\<close> or a timeout, or a connection dropped while the response is awaited, which it
  reports as a bare \<open>OSError\<close>.  Bodies are given by what \<open>json.loads\<close> makes of the decoded text; an
  error body is decoded with replacement characters, so \<open>NotUtf8\<close> occurs in responses only.
\<close>

section \<open>Requests and replies\<close>

record request =
  rq_url :: string
  rq_body :: "(string \<times> json) list"
  rq_auth :: "string option"

datatype body = NotUtf8 | NotJson | Json json

datatype reply =
    Response body
  | HTTPError int body
  | URLError
  | Dropped

type_synonym 's server = "request \<Rightarrow> 's \<Rightarrow> reply \<times> 's"

record http_config =
  hc_base_url :: string
  hc_api_key :: "string option"
  hc_admin_key :: "string option"
  hc_max_retries :: nat
  hc_retry_delay :: real

text \<open>
  \<open>hb_sent\<close> is the list of requests sent so far and \<open>hb_sleeps\<close> that of the pauses between retries;
  the rest are the attributes of the object and the remote state.
\<close>

record 's http_backend =
  hb_server :: 's
  hb_active :: "(string, int) dict"
  hb_closing :: "string set"
  hb_namespaces :: "(string, string) dict"
  hb_parents :: "(string, string option) dict"
  hb_sent :: "request list"
  hb_sleeps :: "real list"

type_synonym ('s, 'a) hop = "('s http_backend, 'a) proc"

section \<open>Construction\<close>

text \<open>
  \<open>urlparse(url).scheme\<close> and \<open>.hostname\<close> for ASCII URLs, as \<open>urllib.parse\<close> computes them; \<open>ip_ok\<close> says
  which bracketed hosts \<open>ipaddress\<close> accepts.
\<close>

definition ascii_alpha :: "char \<Rightarrow> bool" where
  "ascii_alpha c \<longleftrightarrow> (let n = (of_char c :: nat) in 65 \<le> n \<and> n \<le> 90 \<or> 97 \<le> n \<and> n \<le> 122)"

definition scheme_char :: "char \<Rightarrow> bool" where
  "scheme_char c \<longleftrightarrow> ascii_alpha c \<or> decimal_char c \<or> c = CHR ''+'' \<or> c = CHR ''-'' \<or> c = CHR ''.''"

definition url_clean :: "string \<Rightarrow> string" where
  "url_clean url = filter (\<lambda>c. (of_char c :: nat) \<notin> {9, 10, 13}) (dropWhile (\<lambda>c. (of_char c :: nat) \<le> 32) url)"

definition url_scheme :: "string \<Rightarrow> string \<times> string" where
  "url_scheme url =
     (let s = takeWhile (\<lambda>c. c \<noteq> CHR '':'') url; rest = drop (length s) url in
      if rest \<noteq> [] \<and> s \<noteq> [] \<and> ascii_alpha (hd s) \<and> list_all scheme_char s then (str_lower s, tl rest) else ([], url))"

definition url_netloc :: "string \<Rightarrow> string" where
  "url_netloc rest =
     (if take 2 rest = ''//'' then takeWhile (\<lambda>c. c \<notin> {CHR ''/'', CHR ''?'', CHR ''#''}) (drop 2 rest) else [])"

definition after_last :: "char \<Rightarrow> string \<Rightarrow> string" where
  "after_last c s = (if c \<in> set s then rev (takeWhile (\<lambda>x. x \<noteq> c) (rev s)) else s)"

definition netloc_hostname :: "string \<Rightarrow> string option" where
  "netloc_hostname netloc =
     (let info = after_last CHR ''@'' netloc;
          host = (if CHR ''['' \<in> set info
                  then takeWhile (\<lambda>c. c \<noteq> CHR '']'') (tl (dropWhile (\<lambda>c. c \<noteq> CHR ''['') info))
                  else takeWhile (\<lambda>c. c \<noteq> CHR '':'') info)
      in if host = [] then None else Some (str_lower host))"

definition urlparse :: "(string \<Rightarrow> bool) \<Rightarrow> string \<Rightarrow> exc + string \<times> string option" where
  "urlparse ip_ok url =
     (let (scheme, rest) = url_scheme (url_clean url); netloc = url_netloc rest;
          br = CHR ''['' \<in> set netloc
      in if br \<noteq> (CHR '']'' \<in> set netloc) then Inl ValueError
         else if br \<and> (case netloc_hostname netloc of None \<Rightarrow> True | Some h \<Rightarrow> \<not> ip_ok h) then Inl ValueError
         else Inr (scheme, netloc_hostname netloc))"

definition rstrip_slash :: "string \<Rightarrow> string" where
  "rstrip_slash s = rev (dropWhile (\<lambda>c. c = CHR ''/'') (rev s))"

text \<open>\<open>a or b\<close> on optional strings, and truth of an optional string.\<close>

definition given :: "string option \<Rightarrow> bool" where
  "given x \<longleftrightarrow> x \<noteq> None \<and> x \<noteq> Some []"

definition str_or :: "string option \<Rightarrow> string option \<Rightarrow> string option" where
  "str_or a b = (if given a then a else b)"

definition http_init :: "(string \<Rightarrow> bool) \<Rightarrow> string \<Rightarrow> string option \<Rightarrow> string option \<Rightarrow> int \<Rightarrow> real \<Rightarrow> bool \<Rightarrow>
    exc + http_config" where
  "http_init ip_ok base_url api_key admin_api_key max_retries retry_delay allow_insecure =
     (let base = rstrip_slash base_url; admin = str_or admin_api_key api_key in
      if base = [] then Inl ValueError
      else case urlparse ip_ok base of
          Inl e \<Rightarrow> Inl e
        | Inr (scheme, host) \<Rightarrow>
           if scheme \<notin> {''http'', ''https''} \<or> host = None then Inl ValueError
           else
             let local = host \<in> {Some ''localhost'', Some ''127.0.0.1'', Some ''::1''} in
             if \<not> local \<and> \<not> allow_insecure \<and> scheme \<noteq> ''https'' then Inl ValueError
             else if \<not> local \<and> \<not> allow_insecure \<and> \<not> given admin then Inl ValueError
             else if max_retries < 0 then Inl ValueError
             else Inr \<lparr>hc_base_url = base, hc_api_key = api_key, hc_admin_key = admin,
                    hc_max_retries = nat max_retries, hc_retry_delay = retry_delay\<rparr>)"

definition hb_new :: "'s \<Rightarrow> 's http_backend" where
  "hb_new srv = \<lparr>hb_server = srv, hb_active = [], hb_closing = {}, hb_namespaces = [], hb_parents = [],
     hb_sent = [], hb_sleeps = []\<rparr>"

section \<open>\<open>_request_json\<close>\<close>

text \<open>A computed outcome as a procedure.\<close>

definition of_sum :: "exc + 'a \<Rightarrow> ('t, 'a) proc" where
  "of_sum r s = (r, s)"

definition send :: "'s server \<Rightarrow> request \<Rightarrow> ('s, reply) hop" where
  "send srv rq s =
     (case srv rq (hb_server s) of (r, t) \<Rightarrow> (Inr r, s\<lparr>hb_server := t, hb_sent := hb_sent s @ [rq]\<rparr>))"

definition sleep :: "real \<Rightarrow> ('s, unit) hop" where
  "sleep x = modp (\<lambda>s. s\<lparr>hb_sleeps := hb_sleeps s @ [x]\<rparr>)"

definition retryable_status :: "int \<Rightarrow> bool" where
  "retryable_status code \<longleftrightarrow> code \<in> {429, 502, 503, 504}"

text \<open>A 400 with a structured body is the result of the operation.\<close>

definition op_result :: "bool \<Rightarrow> int \<Rightarrow> body \<Rightarrow> (string \<times> json) list option" where
  "op_result expect_op_result code b =
     (if expect_op_result \<and> code = 400
      then (case b of Json (JObj fs) \<Rightarrow> if ''success'' \<in> keys fs then Some fs else None | _ \<Rightarrow> None)
      else None)"

text \<open>What one attempt ends in: a result, an exception, or \<open>None\<close> when it may be repeated.\<close>

definition attempt_result :: "bool \<Rightarrow> reply \<Rightarrow> (exc + (string \<times> json) list) option" where
  "attempt_result expect r =
     (case r of
        Response (Json (JObj fs)) \<Rightarrow> Some (Inr fs)
      | Response NotUtf8 \<Rightarrow> Some (Inl ValueError)
      | Response _ \<Rightarrow> Some (Inl RuntimeError)
      | HTTPError code b \<Rightarrow>
          (case op_result expect code b of
             Some fs \<Rightarrow> Some (Inr fs)
           | None \<Rightarrow> if \<not> retryable_status code then Some (Inl RuntimeError) else None)
      | URLError \<Rightarrow> None
      | Dropped \<Rightarrow> Some (Inl OSError))"

text \<open>The attempts: \<open>left\<close> are the retries that remain, \<open>attempt\<close> is the number of this one.\<close>

fun request_loop :: "http_config \<Rightarrow> 's server \<Rightarrow> request \<Rightarrow> bool \<Rightarrow> nat \<Rightarrow> nat \<Rightarrow>
    ('s, (string \<times> json) list) hop" where
  "request_loop C srv rq expect attempt left =
     seqp (send srv rq) (\<lambda>r.
     case attempt_result expect r of
       Some outcome \<Rightarrow> of_sum outcome
     | None \<Rightarrow>
        (case left of
           0 \<Rightarrow> raise RuntimeError
         | Suc n \<Rightarrow> seqp (sleep (hc_retry_delay C * 2 ^ attempt))
                    (\<lambda>_. request_loop C srv rq expect (Suc attempt) n)))"

declare request_loop.simps [simp del]

definition request_json :: "http_config \<Rightarrow> 's server \<Rightarrow> string \<Rightarrow> (string \<times> json) list \<Rightarrow> bool \<Rightarrow> bool \<Rightarrow>
    ('s, (string \<times> json) list) hop" where
  "request_json C srv path extra retry expect =
     (let key = (if path \<in> {''/tree_cache'', ''/tree_generate''} then hc_admin_key C else hc_api_key C)
      in request_loop C srv
           \<lparr>rq_url = hc_base_url C @ path, rq_body = extra,
            rq_auth = (if given key then map_option (\<lambda>k. ''Bearer '' @ k) key else None)\<rparr>
           expect 0 (if retry then hc_max_retries C else 0))"

section \<open>\<open>_operation\<close>\<close>

fun truthy :: "json \<Rightarrow> bool" where
  "truthy JNull = False"
| "truthy (JBool b) = b"
| "truthy (JInt n) = (n \<noteq> 0)"
| "truthy (JNum x) = (x \<noteq> 0)"
| "truthy (JStr s) = (s \<noteq> [])"
| "truthy (JArr xs) = (xs \<noteq> [])"
| "truthy (JObj fs) = (fs \<noteq> [])"

definition truthy_field :: "string \<Rightarrow> (string \<times> json) list \<Rightarrow> bool" where
  "truthy_field k fs = (case map_of fs k of None \<Rightarrow> False | Some v \<Rightarrow> truthy v)"

definition says_no_such :: "(string \<times> json) list \<Rightarrow> bool" where
  "says_no_such fs \<longleftrightarrow>
     (case map_of fs ''message'' of Some (JStr m) \<Rightarrow> contains ''no such'' (str_lower m) | _ \<Rightarrow> False)"

text \<open>\<open>message.lower()\<close> of a message that is not a string is an \<open>AttributeError\<close>.\<close>

definition bad_message :: "(string \<times> json) list \<Rightarrow> bool" where
  "bad_message fs \<longleftrightarrow> (case map_of fs ''message'' of None \<Rightarrow> False | Some (JStr _) \<Rightarrow> False | Some _ \<Rightarrow> True)"

definition operation :: "http_config \<Rightarrow> 's server \<Rightarrow> string \<Rightarrow> string \<Rightarrow> (string \<times> json) list \<Rightarrow>
    ('s, (string \<times> json) list) hop" where
  "operation C srv op branch extra =
     seqp (request_json C srv ''/tree_cache''
             ([(''operation'', JStr op), (''branch_id'', JStr branch)] @ extra)
             (op \<in> {''kill'', ''telemetry'', ''invalidate''}) True) (\<lambda>payload.
       if truthy_field ''success'' payload then ret payload
       else if op = ''kill'' \<and> bad_message payload then raise AttributeError
       else if op = ''kill'' \<and> says_no_such payload then ret payload
       else raise SGLangTreeCacheError)"

section \<open>The methods\<close>

definition http_create :: "http_config \<Rightarrow> 's server \<Rightarrow> string \<Rightarrow> ('s, unit) hop" where
  "http_create C srv t =
     seqp (operation C srv ''create'' t [(''tree_id'', JStr t)]) (\<lambda>_.
       modp (\<lambda>s. s\<lparr>hb_namespaces := dset t t (hb_namespaces s), hb_parents := dset t None (hb_parents s)\<rparr>))"

text \<open>Registering a request against a branch, and its \<open>finally\<close>.\<close>

definition enter :: "string \<Rightarrow> ('s, unit) hop" where
  "enter b = modp (\<lambda>s. s\<lparr>hb_active :=
     dset b ((case dget (hb_active s) b of None \<Rightarrow> 0 | Some n \<Rightarrow> n) + 1) (hb_active s)\<rparr>)"

definition leave :: "string \<Rightarrow> ('s, unit) hop" where
  "leave b s =
     (case dget (hb_active s) b of
        None \<Rightarrow> (Inl (KeyError b), s)
      | Some n \<Rightarrow> (Inr (), s\<lparr>hb_active := (if n - 1 \<noteq> 0 then dset b (n - 1) (hb_active s) else ddel b (hb_active s))\<rparr>))"

definition http_fork :: "http_config \<Rightarrow> 's server \<Rightarrow> string \<Rightarrow> string option \<Rightarrow> ('s, string) hop" where
  "http_fork C srv parent child =
     (case child of
        None \<Rightarrow> raise ValueError
      | Some c \<Rightarrow>
         seqp (raise_if (\<lambda>s. parent \<in> hb_closing s) RuntimeError) (\<lambda>_.
         seqp (readp (\<lambda>s. dget (hb_namespaces s) parent)) (\<lambda>found.
         case found of
           None \<Rightarrow> raise (KeyError parent)
         | Some namespace \<Rightarrow>
            seqp (enter parent) (\<lambda>_.
            seqp (try_finally (operation C srv ''fork'' c [(''parent_id'', JStr parent)]) (leave parent)) (\<lambda>_.
            seqp (modp (\<lambda>s. s\<lparr>hb_namespaces := dset c namespace (hb_namespaces s),
                              hb_parents := dset c (Some parent) (hb_parents s)\<rparr>)) (\<lambda>_.
              ret c))))))"

text \<open>\<open>int(value or 0)\<close>.\<close>

fun json_int :: "json \<Rightarrow> exc + int" where
  "json_int (JBool b) = Inr (if b then 1 else 0)"
| "json_int (JInt n) = Inr n"
| "json_int (JNum x) = Inr (if 0 \<le> x then \<lfloor>x\<rfloor> else \<lceil>x\<rceil>)"
| "json_int (JStr s) = int_of_str s"
| "json_int _ = Inl TypeError"

definition int_or_zero :: "json option \<Rightarrow> exc + int" where
  "int_or_zero v = (case v of None \<Rightarrow> Inr 0 | Some j \<Rightarrow> if truthy j then json_int j else Inr 0)"

text \<open>
  \<open>kill\<close>: without another thread nothing notifies the condition, so a wait for a concurrent kill or
  for a request in flight lasts until the deadline.
\<close>

definition http_kill :: "http_config \<Rightarrow> 's server \<Rightarrow> string \<Rightarrow> ('s, int) hop" where
  "http_kill C srv t =
     seqp (raise_if (\<lambda>s. t \<in> hb_closing s) TimeoutError) (\<lambda>_.
     seqp (raise_if (\<lambda>s. case dget (hb_active s) t of None \<Rightarrow> False | Some n \<Rightarrow> n \<noteq> 0) TimeoutError) (\<lambda>_.
     seqp (modp (\<lambda>s. s\<lparr>hb_closing := insert t (hb_closing s)\<rparr>)) (\<lambda>_.
       try_finally
         (seqp (operation C srv ''kill'' t []) (\<lambda>payload.
          seqp (modp (\<lambda>s. s\<lparr>hb_namespaces := ddel t (hb_namespaces s), hb_parents := ddel t (hb_parents s)\<rparr>)) (\<lambda>_.
            of_sum (int_or_zero (map_of payload ''value'')))))
         (modp (\<lambda>s. s\<lparr>hb_closing := hb_closing s - {t}\<rparr>)))))"

definition http_extend :: "string \<Rightarrow> int list \<Rightarrow> ('s, int) hop" where
  "http_extend t tokens = raise RuntimeError"

definition http_reserve :: "http_config \<Rightarrow> 's server \<Rightarrow> string \<Rightarrow> int \<Rightarrow> ('s, unit) hop" where
  "http_reserve C srv t tokens =
     seqp (raise_if (\<lambda>_. tokens < 0) ValueError) (\<lambda>_.
       drop_value (operation C srv ''reserve'' t [(''tokens'', JInt tokens)]))"

definition telemetry :: "http_config \<Rightarrow> 's server \<Rightarrow> string \<Rightarrow> ('s, json) hop" where
  "telemetry C srv t =
     seqp (operation C srv ''telemetry'' t []) (\<lambda>payload.
       ret (case map_of payload ''value'' of None \<Rightarrow> JObj [] | Some v \<Rightarrow> if truthy v then v else JObj []))"

definition http_has_tree :: "http_config \<Rightarrow> 's server \<Rightarrow> string \<Rightarrow> ('s, bool) hop" where
  "http_has_tree C srv t =
     try_except (seqp (telemetry C srv t) (\<lambda>_. ret True))
       (\<lambda>e. if e = SGLangTreeCacheError then ret False else raise e)"

definition generate_body :: "string \<Rightarrow> string \<Rightarrow> string option \<Rightarrow> json \<Rightarrow> json \<Rightarrow> bool \<Rightarrow> int option \<Rightarrow> (string \<times> json) list" where
  "generate_body branch namespace parent prompt params branch_end reserve =
     [(''sampling_params'', params), (''tree_id'', JStr namespace), (''branch_id'', JStr branch),
      (''branch_end'', JBool branch_end)]
     @ (case parent of None \<Rightarrow> [] | Some p \<Rightarrow> [(''parent_id'', JStr p)])
     @ (case reserve of None \<Rightarrow> [] | Some n \<Rightarrow> [(''branch_reserve_tokens'', JInt n)])
     @ (case prompt of JStr text \<Rightarrow> [(''text'', JStr text)] | _ \<Rightarrow> [(''input_ids'', prompt)])"

definition http_generate :: "http_config \<Rightarrow> 's server \<Rightarrow> string \<Rightarrow> json \<Rightarrow> json \<Rightarrow> bool \<Rightarrow> int option \<Rightarrow> ('s, json) hop" where
  "http_generate C srv branch prompt params branch_end reserve =
     seqp (raise_if (\<lambda>_. case reserve of None \<Rightarrow> False | Some n \<Rightarrow> n < 0) ValueError) (\<lambda>_.
     seqp (raise_if (\<lambda>s. branch \<in> hb_closing s) RuntimeError) (\<lambda>_.
     seqp (readp (\<lambda>s. (dget (hb_namespaces s) branch, dget (hb_parents s) branch))) (\<lambda>found.
     case found of
       (None, _) \<Rightarrow> raise (KeyError branch)
     | (Some _, None) \<Rightarrow> raise (KeyError branch)
     | (Some namespace, Some parent) \<Rightarrow>
        seqp (enter branch) (\<lambda>_.
          try_finally
            (seqp (request_json C srv ''/tree_generate''
                     (generate_body branch namespace parent prompt params branch_end reserve) False False) (\<lambda>fs.
               ret (JObj fs)))
            (leave branch)))))"

definition http_kv_backend :: "http_config \<Rightarrow> 's server \<Rightarrow> 's http_backend kv_backend" where
  "http_kv_backend C srv =
     \<lparr>kb_create = http_create C srv, kb_fork = \<lambda>p t. drop_value (http_fork C srv p (Some t)),
      kb_kill = http_kill C srv, kb_extend = http_extend, kb_external = True,
      kb_generate = Some (http_generate C srv), kb_has_tree = Some (http_has_tree C srv)\<rparr>"

end
