(* ===== verification/SGLang_HTTP_Laws.thy ===== *)
theory SGLang_HTTP_Laws
  imports SGLang_HTTP
begin

text \<open>
  What the HTTP backend guarantees over any tree-cache server that keeps its protocol: its calls
  touch only the branch they name, a kill that returns has removed the branch although requests
  are repeated and replies lost, and the in-flight bookkeeping is balanced on every outcome.
\<close>

section \<open>The protocol of the server\<close>

definition is_op :: "string \<Rightarrow> string \<Rightarrow> request \<Rightarrow> bool" where
  "is_op op b rq \<longleftrightarrow> map_of (rq_body rq) ''operation'' = Some (JStr op) \<and> map_of (rq_body rq) ''branch_id'' = Some (JStr b)"

definition is_generate :: "string \<Rightarrow> bool \<Rightarrow> request \<Rightarrow> bool" where
  "is_generate b fin rq \<longleftrightarrow> map_of (rq_body rq) ''operation'' = None \<and>
     map_of (rq_body rq) ''branch_id'' = Some (JStr b) \<and> map_of (rq_body rq) ''branch_end'' = Some (JBool fin)"

text \<open>The payload the client takes from a reply to an operation.\<close>

definition reply_payload :: "reply \<Rightarrow> (string \<times> json) list option" where
  "reply_payload r = (case r of Response (Json (JObj fs)) \<Rightarrow> Some fs | HTTPError code b \<Rightarrow> op_result True code b | _ \<Rightarrow> None)"

locale tree_server =
  fixes srv :: "'s server" and strees :: "'s \<Rightarrow> string set" and sinv :: "'s \<Rightarrow> bool"
  assumes srv_inv: "sinv t \<Longrightarrow> sinv (snd (srv rq t))"
    and srv_touches: "sinv t \<Longrightarrow> is_op op b rq \<Longrightarrow> op \<in> {''create'', ''fork'', ''kill''} \<Longrightarrow> b \<noteq> [] \<or> op \<noteq> ''fork'' \<Longrightarrow>
      touches_only b (strees t) (strees (snd (srv rq t)))"
    and srv_same: "sinv t \<Longrightarrow> is_op op b rq \<Longrightarrow> op \<in> {''reserve'', ''telemetry''} \<Longrightarrow> strees (snd (srv rq t)) = strees t"
    and srv_made: "sinv t \<Longrightarrow> is_op op b rq \<Longrightarrow> op \<in> {''create'', ''fork''} \<Longrightarrow> b \<noteq> [] \<or> op \<noteq> ''fork'' \<Longrightarrow>
      srv rq t = (r, t') \<Longrightarrow> reply_payload r = Some fs \<Longrightarrow> truthy_field ''success'' fs \<Longrightarrow> b \<in> strees t'"
    and srv_killed: "sinv t \<Longrightarrow> is_op ''kill'' b rq \<Longrightarrow> srv rq t = (r, t') \<Longrightarrow> reply_payload r = Some fs \<Longrightarrow>
      truthy_field ''success'' fs \<or> says_no_such fs \<Longrightarrow> b \<notin> strees t'"
    and srv_generate: "sinv t \<Longrightarrow> is_generate b fin rq \<Longrightarrow>
      strees t - (if fin then {b} else {}) \<subseteq> strees (snd (srv rq t)) \<and> strees (snd (srv rq t)) \<subseteq> insert b (strees t)"

section \<open>The request loop\<close>

text \<open>A property of the remote state that every answer keeps is kept by all the attempts.\<close>

lemma request_loop_step:
  assumes "srv rq (hb_server s) = (r, t)"
  shows "request_loop C srv rq expect attempt left s =
    (let s1 = s\<lparr>hb_server := t, hb_sent := hb_sent s @ [rq]\<rparr> in
     case attempt_result expect r of
       Some outcome \<Rightarrow> (outcome, s1)
     | None \<Rightarrow> (case left of 0 \<Rightarrow> (Inl RuntimeError, s1)
         | Suc n \<Rightarrow> request_loop C srv rq expect (Suc attempt) n
             (s1\<lparr>hb_sleeps := hb_sleeps s @ [hc_retry_delay C * 2 ^ attempt]\<rparr>)))"
  by (subst request_loop.simps) (simp add: proc_defs send_def sleep_def of_sum_def assms split: option.split nat.split)

lemma request_loop_server:
  assumes "\<And>t. P t \<Longrightarrow> P (snd (srv rq t))" "P (hb_server s)"
  shows "P (hb_server (snd (request_loop C srv rq expect attempt left s)))"
  using assms(2)
proof (induction left arbitrary: attempt s)
  case 0
  obtain r t where run: "srv rq (hb_server s) = (r, t)" by fastforce
  then show ?case
    using assms(1) [OF 0] by (simp add: request_loop_step [where srv = srv and rq = rq and s = s, OF run] Let_def split: option.split)
next
  case (Suc left)
  obtain r t where run: "srv rq (hb_server s) = (r, t)" by fastforce
  then have "P t" using assms(1) [OF Suc.prems] by simp
  then show ?case using Suc.IH by (simp add: request_loop_step [where srv = srv and rq = rq and s = s, OF run] Let_def split: option.split)
qed

text \<open>A loop that returns has its result from the last answer.\<close>

lemma request_loop_result:
  assumes "\<And>t. P t \<Longrightarrow> P (snd (srv rq t))" "P (hb_server s)"
    and "request_loop C srv rq expect attempt left s = (Inr fs, s')"
  shows "\<exists>t r. P t \<and> srv rq t = (r, hb_server s') \<and> attempt_result expect r = Some (Inr fs)"
  using assms(2,3)
proof (induction left arbitrary: attempt s)
  case 0
  obtain r t where run: "srv rq (hb_server s) = (r, t)" by fastforce
  then show ?case
    using 0 by (auto simp: request_loop_step [where srv = srv and rq = rq and s = s, OF run] Let_def split: option.splits)
next
  case (Suc left)
  obtain r t where run: "srv rq (hb_server s) = (r, t)" by fastforce
  have "P t" using assms(1) [OF Suc.prems(1)] run by simp
  note step = request_loop_step [where srv = srv and rq = rq and s = s, OF run]
  show ?case
  proof (cases "attempt_result expect r")
    case None
    then show ?thesis
      using Suc.prems(2) \<open>P t\<close> by (intro Suc.IH [of _ "Suc attempt"]) (simp_all add: step Let_def)
  next
    case (Some a)
    then show ?thesis using Suc.prems run by (auto simp: step Let_def)
  qed
qed

text \<open>What the loop does not change.\<close>

definition same_books :: "'s http_backend \<Rightarrow> 's http_backend \<Rightarrow> bool" where
  "same_books s s' \<longleftrightarrow> hb_active s' = hb_active s \<and> hb_closing s' = hb_closing s \<and>
     hb_namespaces s' = hb_namespaces s \<and> hb_parents s' = hb_parents s"

lemma same_books_refl [simp]: "same_books s s"
  by (simp add: same_books_def)

lemma request_loop_books: "same_books s (snd (request_loop C srv rq expect attempt left s))"
proof (induction left arbitrary: attempt s)
  case 0
  obtain r t where run: "srv rq (hb_server s) = (r, t)" by fastforce
  show ?case by (simp add: request_loop_step [where srv = srv and rq = rq and s = s, OF run] Let_def same_books_def split: option.split)
next
  case (Suc left)
  obtain r t where run: "srv rq (hb_server s) = (r, t)" by fastforce
  show ?case
    using Suc.IH [of "s\<lparr>hb_server := t, hb_sent := hb_sent s @ [rq],
        hb_sleeps := hb_sleeps s @ [hc_retry_delay C * 2 ^ attempt]\<rparr>" "Suc attempt"]
    by (simp add: request_loop_step [where srv = srv and rq = rq and s = s, OF run] Let_def same_books_def split: option.split)
qed

text \<open>The number of requests is bounded and the pauses double.\<close>

lemma request_loop_sent:
  "\<exists>k \<le> left. hb_sent (snd (request_loop C srv rq expect attempt left s)) = hb_sent s @ replicate (Suc k) rq \<and>
     hb_sleeps (snd (request_loop C srv rq expect attempt left s)) =
       hb_sleeps s @ map (\<lambda>i. hc_retry_delay C * 2 ^ (attempt + i)) [0..<k]"
proof (induction left arbitrary: attempt s)
  case 0
  obtain r t where run: "srv rq (hb_server s) = (r, t)" by fastforce
  show ?case by (simp add: request_loop_step [where srv = srv and rq = rq and s = s, OF run] Let_def split: option.split)
next
  case (Suc left)
  obtain r t where run: "srv rq (hb_server s) = (r, t)" by fastforce
  let ?s1 = "s\<lparr>hb_server := t, hb_sent := hb_sent s @ [rq], hb_sleeps := hb_sleeps s @ [hc_retry_delay C * 2 ^ attempt]\<rparr>"
  show ?case
  proof (cases "attempt_result expect r")
    case None
    obtain k where k: "k \<le> left"
      "hb_sent (snd (request_loop C srv rq expect (Suc attempt) left ?s1)) = hb_sent ?s1 @ replicate (Suc k) rq"
      "hb_sleeps (snd (request_loop C srv rq expect (Suc attempt) left ?s1)) =
         hb_sleeps ?s1 @ map (\<lambda>i. hc_retry_delay C * 2 ^ (Suc attempt + i)) [0..<k]"
      using Suc.IH by blast
    have "map (\<lambda>i. hc_retry_delay C * 2 ^ (attempt + i)) [0..<Suc k] =
        hc_retry_delay C * 2 ^ attempt # map (\<lambda>i. hc_retry_delay C * 2 ^ (Suc attempt + i)) [0..<k]"
      by (simp add: upt_conv_Cons map_Suc_upt [symmetric] del: upt_Suc)
    then show ?thesis
      using k None by (intro exI [of _ "Suc k"]) (simp add: request_loop_step [where srv = srv and rq = rq and s = s, OF run] Let_def del: upt_Suc)
  next
    case (Some o)
    then show ?thesis by (intro exI [of _ 0]) (simp add: request_loop_step [where srv = srv and rq = rq and s = s, OF run] Let_def)
  qed
qed

section \<open>One operation\<close>

lemma attempt_result_payload: "attempt_result True r = Some (Inr fs) \<Longrightarrow> reply_payload r = Some fs"
  by (auto simp: attempt_result_def reply_payload_def op_result_def split: reply.splits body.splits json.splits
      option.splits if_splits)

lemma request_loop_triple:
  assumes step: "\<And>t. P t \<Longrightarrow> P (snd (srv rq t))"
  shows "triple (\<lambda>s. P (hb_server s)) (request_loop C srv rq expect attempt left)
    (\<lambda>fs s. P (hb_server s) \<and> (\<exists>t r. P t \<and> srv rq t = (r, hb_server s) \<and> attempt_result expect r = Some (Inr fs)))
    (\<lambda>s. P (hb_server s))"
proof (rule tripleI)
  fix s e s' assume P: "P (hb_server s)" and run: "request_loop C srv rq expect attempt left s = (Inl e, s')"
  have "P (hb_server (snd (request_loop C srv rq expect attempt left s)))"
    by (rule request_loop_server [where P = P]) (use step P in auto)
  then show "P (hb_server s')" using run by simp
next
  fix s fs s' assume P: "P (hb_server s)" and run: "request_loop C srv rq expect attempt left s = (Inr fs, s')"
  obtain t r where tr: "P t" "srv rq t = (r, hb_server s')" "attempt_result expect r = Some (Inr fs)"
    using request_loop_result [where P = P and srv = srv and rq = rq and s = s, OF _ _ run] step P by blast
  then show "P (hb_server s') \<and> (\<exists>t r. P t \<and> srv rq t = (r, hb_server s') \<and> attempt_result expect r = Some (Inr fs))"
    using step [of t] by auto
qed

text \<open>
  An operation keeps every property of the remote state that each answer to it keeps, and when it
  returns, the answer it returns was a success, or for a kill the report that there is no such branch.
\<close>

definition op_request :: "http_config \<Rightarrow> string \<Rightarrow> string \<Rightarrow> (string \<times> json) list \<Rightarrow> request" where
  "op_request C op b extra =
     \<lparr>rq_url = hc_base_url C @ ''/tree_cache'', rq_body = [(''operation'', JStr op), (''branch_id'', JStr b)] @ extra,
      rq_auth = (if given (hc_admin_key C) then map_option (\<lambda>k. ''Bearer '' @ k) (hc_admin_key C) else None)\<rparr>"

lemma is_op_request [simp]: "is_op op b (op_request C op b extra)"
  by (simp add: is_op_def op_request_def)

definition op_retries :: "http_config \<Rightarrow> string \<Rightarrow> nat" where
  "op_retries C op = (if op \<in> {''kill'', ''telemetry'', ''invalidate''} then hc_max_retries C else 0)"

lemma operation_alt:
  "operation C srv op b extra =
     seqp (request_loop C srv (op_request C op b extra) True 0 (op_retries C op)) (\<lambda>payload.
       if truthy_field ''success'' payload then ret payload
       else if op = ''kill'' \<and> bad_message payload then raise AttributeError
       else if op = ''kill'' \<and> says_no_such payload then ret payload
       else raise SGLangTreeCacheError)"
  by (simp add: operation_def request_json_def op_request_def op_retries_def)

lemma operation_triple:
  assumes step: "\<And>t rq. P t \<Longrightarrow> is_op op b rq \<Longrightarrow> P (snd (srv rq t))"
    and last: "\<And>t rq r t' fs. P t \<Longrightarrow> is_op op b rq \<Longrightarrow> srv rq t = (r, t') \<Longrightarrow> reply_payload r = Some fs \<Longrightarrow>
      truthy_field ''success'' fs \<or> op = ''kill'' \<and> says_no_such fs \<Longrightarrow> Q t'"
  shows "triple (\<lambda>s. P (hb_server s)) (operation C srv op b extra)
    (\<lambda>_ s. P (hb_server s) \<and> Q (hb_server s)) (\<lambda>s. P (hb_server s))"
proof -
  let ?rq = "op_request C op b extra"
  show ?thesis
    unfolding operation_alt
  proof (rule triple_seqp)
    show "triple (\<lambda>s. P (hb_server s)) (request_loop C srv ?rq True 0 (op_retries C op))
      (\<lambda>fs s. P (hb_server s) \<and> (\<exists>t r. P t \<and> srv ?rq t = (r, hb_server s) \<and> attempt_result True r = Some (Inr fs)))
      (\<lambda>s. P (hb_server s))"
      by (rule request_loop_triple) (simp add: step)
  next
    fix fs
    let ?M = "\<lambda>s. P (hb_server s) \<and> (\<exists>t r. P t \<and> srv ?rq t = (r, hb_server s) \<and> attempt_result True r = Some (Inr fs))"
    have "Q (hb_server s)" if M: "?M s" and ok: "truthy_field ''success'' fs \<or> op = ''kill'' \<and> says_no_such fs" for s
      using M last [OF _ is_op_request _ attempt_result_payload ok] by blast
    then show "triple ?M (if truthy_field ''success'' fs then ret fs
        else if op = ''kill'' \<and> bad_message fs then raise AttributeError
        else if op = ''kill'' \<and> says_no_such fs then ret fs else raise SGLangTreeCacheError)
      (\<lambda>_ s. P (hb_server s) \<and> Q (hb_server s)) (\<lambda>s. P (hb_server s))"
      by (auto intro!: triple_ret triple_raise)
  qed
qed

lemma keeps_operation:
  assumes "\<And>t rq. P t \<Longrightarrow> is_op op b rq \<Longrightarrow> P (snd (srv rq t))"
  shows "keeps (\<lambda>s. P (hb_server s)) (operation C srv op b extra)"
  by (rule triple_conseq [OF operation_triple [where Q = "\<lambda>_. True"]]) (simp_all add: assms)

lemma keeps_books_server [keeps]:
  "keeps (\<lambda>s. P (hb_server s)) (enter b)" "keeps (\<lambda>s. P (hb_server s)) (leave b)"
  "keeps (\<lambda>s. P (hb_server s)) (of_sum r)"
  by (auto simp: keeps_iff enter_def leave_def of_sum_def modp_def split: option.split)

lemma keeps_methods:
  "(\<And>t rq. P t \<Longrightarrow> is_op ''create'' b rq \<Longrightarrow> P (snd (srv rq t))) \<Longrightarrow> keeps (\<lambda>s. P (hb_server s)) (http_create C srv b)"
  "(\<And>t rq. P t \<Longrightarrow> is_op ''fork'' b rq \<Longrightarrow> P (snd (srv rq t))) \<Longrightarrow> keeps (\<lambda>s. P (hb_server s)) (http_fork C srv p (Some b))"
  "(\<And>t rq. P t \<Longrightarrow> is_op ''kill'' b rq \<Longrightarrow> P (snd (srv rq t))) \<Longrightarrow> keeps (\<lambda>s. P (hb_server s)) (http_kill C srv b)"
  "(\<And>t rq. P t \<Longrightarrow> is_op ''telemetry'' b rq \<Longrightarrow> P (snd (srv rq t))) \<Longrightarrow> keeps (\<lambda>s. P (hb_server s)) (http_has_tree C srv b)"
  "(\<And>t rq. P t \<Longrightarrow> is_op ''reserve'' b rq \<Longrightarrow> P (snd (srv rq t))) \<Longrightarrow> keeps (\<lambda>s. P (hb_server s)) (http_reserve C srv b n)"
  unfolding http_create_def http_fork_def http_kill_def http_has_tree_def telemetry_def http_reserve_def drop_value_def
  by (intro keeps keeps_operation; simp)+

lemma keeps_generate:
  assumes "\<And>t rq. P t \<Longrightarrow> is_generate b fin rq \<Longrightarrow> P (snd (srv rq t))"
  shows "keeps (\<lambda>s. P (hb_server s)) (http_generate C srv b prompt params fin rsv)"
proof -
  have "keeps (\<lambda>s. P (hb_server s)) (request_json C srv ''/tree_generate''
      (generate_body b ns par prompt params fin rsv) False False)" for ns par
    unfolding request_json_def Let_def
    by (rule triple_conseq [OF request_loop_triple [where P = P]])
      (auto intro!: assms simp: is_generate_def generate_body_def split: option.split json.split)
  then show ?thesis
    unfolding http_generate_def
    by (intro keeps_seqp keeps_simple) (auto split: option.split prod.split intro!: keeps)
qed

text \<open>A create, fork or kill that returns has its effect on the remote state.\<close>

lemma server_then:
  "triple P m (\<lambda>_ s. Q (hb_server s)) (\<lambda>_. True) \<Longrightarrow> (\<And>x. keeps (\<lambda>s. Q (hb_server s)) (f x)) \<Longrightarrow>
   triple P (seqp m f) (\<lambda>_ s. Q (hb_server s)) (\<lambda>_. True)"
  by (rule triple_seqp) (assumption | rule keeps_weaken | simp)+

lemma server_finally:
  "triple P m (\<lambda>_ s. Q (hb_server s)) (\<lambda>_. True) \<Longrightarrow> keeps (\<lambda>s. Q (hb_server s)) f \<Longrightarrow>
   triple P (try_finally m f) (\<lambda>_ s. Q (hb_server s)) (\<lambda>_. True)"
  by (rule triple_try_finally, assumption, rule keeps_weaken) (auto intro: tripleI)

lemma server_after:
  "keeps (\<lambda>s. P (hb_server s)) m \<Longrightarrow> (\<And>x. triple (\<lambda>s. P (hb_server s)) (f x) Q (\<lambda>_. True)) \<Longrightarrow>
   triple (\<lambda>s. P (hb_server s)) (seqp m f) Q (\<lambda>_. True)"
  by (rule triple_seqp) (assumption | rule keeps_weaken | simp)+

lemma returns_after:
  assumes "\<And>extra. triple (\<lambda>s. P (hb_server s)) (operation C srv op b extra) (\<lambda>_ s. Q (hb_server s)) (\<lambda>_. True)"
  shows "op = ''create'' \<Longrightarrow> triple (\<lambda>s. P (hb_server s)) (http_create C srv b) (\<lambda>_ s. Q (hb_server s)) (\<lambda>_. True)"
    and "op = ''fork'' \<Longrightarrow> triple (\<lambda>s. P (hb_server s)) (http_fork C srv p (Some b)) (\<lambda>_ s. Q (hb_server s)) (\<lambda>_. True)"
    and "op = ''kill'' \<Longrightarrow> triple (\<lambda>s. P (hb_server s)) (http_kill C srv b) (\<lambda>_ s. Q (hb_server s)) (\<lambda>_. True)"
proof -
  have bind: "triple R (case x of None \<Rightarrow> raise e | Some y \<Rightarrow> f y) S (\<lambda>_. True)"
    if "\<And>y. triple R (f y) S (\<lambda>_. True)" for x :: "string option" and R e and f :: "string \<Rightarrow> ('a, string) hop" and S
    using that by (cases x) (auto intro: triple_raise)
  show "triple (\<lambda>s. P (hb_server s)) (http_create C srv b) (\<lambda>_ s. Q (hb_server s)) (\<lambda>_. True)" if "op = ''create''"
    using assms that unfolding http_create_def by (intro server_then keeps) auto
  show "triple (\<lambda>s. P (hb_server s)) (http_fork C srv p (Some b)) (\<lambda>_ s. Q (hb_server s)) (\<lambda>_. True)" if "op = ''fork''"
    unfolding http_fork_def option.case
    by (rule server_after, rule keeps, rule server_after, rule keeps, rule bind, rule server_after, rule keeps,
        intro server_then server_finally keeps) (use assms that in auto)
  show "triple (\<lambda>s. P (hb_server s)) (http_kill C srv b) (\<lambda>_ s. Q (hb_server s)) (\<lambda>_. True)" if "op = ''kill''"
    unfolding http_kill_def
    by (rule server_after, rule keeps, rule server_after, rule keeps, rule server_after, (rule keeps; simp),
        intro server_then server_finally keeps) (use assms that in auto)
qed

lemma touches_only_trans: "touches_only t A B \<Longrightarrow> touches_only t B C \<Longrightarrow> touches_only t A C"
  unfolding touches_only_def by blast

context tree_server
begin

text \<open>Each attempt moves the remote trees as the operation may, so all the attempts together do.\<close>

lemma op_touches:
  assumes "op \<in> {''create'', ''fork'', ''kill''} \<and> (b \<noteq> [] \<or> op \<noteq> ''fork'')" "sinv t \<and> touches_only b A (strees t)" "is_op op b rq"
  shows "sinv (snd (srv rq t)) \<and> touches_only b A (strees (snd (srv rq t)))"
  using assms srv_inv srv_touches [of t op b rq] by (auto intro: touches_only_trans)

lemma method_touches:
  assumes "sinv (hb_server s)"
  shows "sinv (hb_server (snd (http_create C srv b s))) \<and>
      touches_only b (strees (hb_server s)) (strees (hb_server (snd (http_create C srv b s))))"
    and "b \<noteq> [] \<Longrightarrow> sinv (hb_server (snd (http_fork C srv p (Some b) s))) \<and>
      touches_only b (strees (hb_server s)) (strees (hb_server (snd (http_fork C srv p (Some b) s))))"
    and "sinv (hb_server (snd (http_kill C srv b s))) \<and>
      touches_only b (strees (hb_server s)) (strees (hb_server (snd (http_kill C srv b s))))"
proof -
  let ?P = "\<lambda>t. sinv t \<and> touches_only b (strees (hb_server s)) (strees t)"
  have P: "?P (hb_server s)" using assms by simp
  show "?P (hb_server (snd (http_create C srv b s)))"
    by (rule keeps_snd [OF keeps_methods(1) [where P = ?P]]) (use P op_touches [where op = "''create''" and b = b and A = "strees (hb_server s)"] in simp_all)
  show "?P (hb_server (snd (http_fork C srv p (Some b) s)))" if "b \<noteq> []"
    by (rule keeps_snd [OF keeps_methods(2) [where P = ?P]]) (use P that op_touches [where op = "''fork''" and b = b and A = "strees (hb_server s)"] in simp_all)
  show "?P (hb_server (snd (http_kill C srv b s)))"
    by (rule keeps_snd [OF keeps_methods(3) [where P = ?P]]) (use P op_touches [where op = "''kill''" and b = b and A = "strees (hb_server s)"] in simp_all)
qed

lemma method_returns:
  assumes "sinv (hb_server s)"
  shows "http_create C srv b s = (Inr u, s') \<Longrightarrow> b \<in> strees (hb_server s')"
    and "b \<noteq> [] \<Longrightarrow> http_fork C srv p (Some b) s = (Inr c, s') \<Longrightarrow> b \<in> strees (hb_server s')"
    and "http_kill C srv b s = (Inr n, s') \<Longrightarrow> b \<notin> strees (hb_server s')"
proof -
  have made: "triple (\<lambda>s. sinv (hb_server s)) (operation C srv op b extra) (\<lambda>_ s. b \<in> strees (hb_server s)) (\<lambda>_. True)"
    if "op \<in> {''create'', ''fork''}" "b \<noteq> [] \<or> op \<noteq> ''fork''" for op extra
    by (rule triple_conseq [OF operation_triple [where P = sinv and Q = "\<lambda>t. b \<in> strees t"]])
      (use that in \<open>auto intro: srv_inv srv_made\<close>)
  have gone: "triple (\<lambda>s. sinv (hb_server s)) (operation C srv ''kill'' b extra) (\<lambda>_ s. b \<notin> strees (hb_server s)) (\<lambda>_. True)"
    for extra
    by (rule triple_conseq [OF operation_triple [where P = sinv and Q = "\<lambda>t. b \<notin> strees t"]])
      (auto intro: srv_inv dest: srv_killed)
  show "http_create C srv b s = (Inr u, s') \<Longrightarrow> b \<in> strees (hb_server s')"
    by (rule tripleD(2) [OF returns_after(1) [where P = sinv and Q = "\<lambda>t. b \<in> strees t"]]) (use made assms in auto)
  show "http_fork C srv p (Some b) s = (Inr c, s') \<Longrightarrow> b \<in> strees (hb_server s')" if "b \<noteq> []"
    by (rule tripleD(2) [OF returns_after(2) [where P = sinv and Q = "\<lambda>t. b \<in> strees t"]]) (use made assms that in auto)
  show "http_kill C srv b s = (Inr n, s') \<Longrightarrow> b \<notin> strees (hb_server s')"
    by (rule tripleD(2) [OF returns_after(3) [where P = sinv and Q = "\<lambda>t. b \<notin> strees t"]]) (use gone assms in auto)
qed

lemma fork_inv: "sinv (hb_server s) \<Longrightarrow> sinv (hb_server (snd (http_fork C srv p (Some b) s)))"
  by (rule keeps_snd [OF keeps_methods(2) [where P = sinv]]) (auto intro: srv_inv)

lemma query_same:
  assumes "sinv (hb_server s)"
  shows "sinv (hb_server (snd (http_has_tree C srv b s))) \<and> strees (hb_server (snd (http_has_tree C srv b s))) = strees (hb_server s)"
    and "sinv (hb_server (snd (http_reserve C srv b n s))) \<and> strees (hb_server (snd (http_reserve C srv b n s))) = strees (hb_server s)"
proof -
  let ?P = "\<lambda>t. sinv t \<and> strees t = strees (hb_server s)"
  have P: "?P (hb_server s)" using assms by simp
  have step: "?P (snd (srv rq t))" if "?P t" "is_op op b rq" "op \<in> {''reserve'', ''telemetry''}" for t rq op
    using that srv_inv [of t rq] srv_same [of t op b rq] by simp
  show "?P (hb_server (snd (http_has_tree C srv b s)))"
    by (rule keeps_snd [OF keeps_methods(4) [where P = ?P]]) (use P step in auto)
  show "?P (hb_server (snd (http_reserve C srv b n s)))"
    by (rule keeps_snd [OF keeps_methods(5) [where P = ?P]]) (use P step in auto)
qed

lemma generate_trees:
  assumes "sinv (hb_server s)"
  shows "sinv (hb_server (snd (http_generate C srv b prompt params fin rsv s))) \<and>
    strees (hb_server s) - (if fin then {b} else {}) \<subseteq> strees (hb_server (snd (http_generate C srv b prompt params fin rsv s))) \<and>
    strees (hb_server (snd (http_generate C srv b prompt params fin rsv s))) \<subseteq> insert b (strees (hb_server s))"
proof -
  let ?P = "\<lambda>t. sinv t \<and> strees (hb_server s) - (if fin then {b} else {}) \<subseteq> strees t \<and> strees t \<subseteq> insert b (strees (hb_server s))"
  have "?P (snd (srv rq t))" if "?P t" "is_generate b fin rq" for t rq
    using that srv_inv [of t rq] srv_generate [of t b fin rq] by (auto split: if_splits)
  then have "keeps (\<lambda>s. ?P (hb_server s)) (http_generate C srv b prompt params fin rsv)"
    by (rule keeps_generate [where P = ?P])
  moreover have "?P (hb_server s)" using assms by auto
  ultimately show ?thesis by (rule keeps_snd)
qed

end

sublocale tree_server \<subseteq> remote: kv_contract "http_kv_backend C srv" "\<lambda>s. strees (hb_server s)" "\<lambda>s. sinv (hb_server s)" for C
proof unfold_locales
  fix k k' :: "'s http_backend" and t p x n g h prompt params fin rsv
  assume inv: "sinv (hb_server k)"
  show "t \<in> strees (hb_server k')" if "t \<noteq> []" "kb_fork (http_kv_backend C srv) p t k = (Inr x, k')"
    using that(2) method_returns(2) [OF inv that(1)] by (auto simp: http_kv_backend_def drop_value_Inr)
  show "sinv (hb_server (snd (g t prompt params fin rsv k))) \<and>
      strees (hb_server k) - (if fin then {t} else {}) \<subseteq> strees (hb_server (snd (g t prompt params fin rsv k))) \<and>
      strees (hb_server (snd (g t prompt params fin rsv k))) \<subseteq> insert t (strees (hb_server k))"
    if "kb_generate (http_kv_backend C srv) = Some g"
    using that generate_trees [OF inv, of C t prompt params fin rsv] by (simp add: http_kv_backend_def)
  show "sinv (hb_server (snd (h t k))) \<and> strees (hb_server (snd (h t k))) = strees (hb_server k)"
    if "kb_has_tree (http_kv_backend C srv) = Some h"
    using that query_same(1) [OF inv, of C t] by (simp add: http_kv_backend_def)
qed (simp_all add: http_kv_backend_def method_touches fork_inv method_returns(1,3) http_extend_def raise_def)

context tree_server
begin

lemma http_contract: "kv_contract (http_kv_backend C srv) (\<lambda>s. strees (hb_server s)) (\<lambda>s. sinv (hb_server s))"
  by (rule remote.kv_contract_axioms)

end

end
