(* ===== verification/Tree_Server.thy ===== *)
theory Tree_Server
  imports SGLang_HTTP_Laws
begin

text \<open>
  \<open>demo/sglang_tree_server.py\<close>: the HTTP server with the endpoints of the patched SGLang, the peer of
  \<open>SGLangHTTPBackend\<close>.  The parts it imports from SGLang are a parameter, the record \<open>radix_engine\<close>:
  the tree cache, the slot allocator, the lifecycle handler and the authorisation decision.
  An exception that leaves \<open>do_POST\<close> ends the connection without a response.
\<close>

section \<open>The parts imported from SGLang\<close>

datatype auth_level = NORMAL | ADMIN_FORCE

record agent_branch =
  ab_namespace :: json
  ab_parent :: json
  ab_tokens :: "int list"

datatype op_output = OpSuccess json | OpFailure string

record 'c radix_engine =
  rx_handle :: "json \<Rightarrow> json \<Rightarrow> json \<Rightarrow> json \<Rightarrow> json \<Rightarrow> ('c, op_output) proc"
  rx_has_branch :: "json \<Rightarrow> ('c, bool) proc"
  rx_branch :: "json \<Rightarrow> ('c, agent_branch) proc"
  rx_reserve :: "json \<Rightarrow> json \<Rightarrow> ('c, unit) proc"
  rx_match_prefix :: "int list \<Rightarrow> json \<Rightarrow> ('c, int list) proc"
  rx_alloc :: "int \<Rightarrow> ('c, int list option) proc"
  rx_extend_tree :: "json \<Rightarrow> int list \<Rightarrow> int list \<Rightarrow> ('c, int) proc"
  rx_decide_auth :: "string \<Rightarrow> string option \<Rightarrow> auth_level \<Rightarrow> int option"

section \<open>Values\<close>

text \<open>Equality of a value with a scalar, where numbers of different types compare by value.\<close>

fun json_number :: "json \<Rightarrow> real option" where
  "json_number (JBool b) = Some (if b then 1 else 0)"
| "json_number (JInt n) = Some (of_int n)"
| "json_number (JNum x) = Some x"
| "json_number _ = None"

definition json_eq :: "json \<Rightarrow> json \<Rightarrow> bool" where
  "json_eq a b = (case (json_number a, json_number b) of (Some x, Some y) \<Rightarrow> x = y | _ \<Rightarrow> a = b)"

definition json_get :: "string \<Rightarrow> (string \<times> json) list \<Rightarrow> json" where
  "json_get k fs = (case map_of fs k of None \<Rightarrow> JNull | Some v \<Rightarrow> v)"

text \<open>The bytes of a character below 256 in UTF-8.\<close>

definition utf8_char :: "char \<Rightarrow> int list" where
  "utf8_char c = (let n = (of_char c :: int) in if n < 128 then [n] else [192 + n div 64, 128 + n mod 64])"

definition utf8 :: "string \<Rightarrow> int list" where
  "utf8 s = concat (map utf8_char s)"

fun sequence :: "(exc + 'a) list \<Rightarrow> exc + 'a list" where
  "sequence [] = Inr []"
| "sequence (Inl e # xs) = Inl e"
| "sequence (Inr x # xs) = (case sequence xs of Inl e \<Rightarrow> Inl e | Inr ys \<Rightarrow> Inr (x # ys))"

definition tokenize :: "json \<Rightarrow> exc + int list" where
  "tokenize prompt =
     (case prompt of
        JArr xs \<Rightarrow> sequence (map json_int xs)
      | JStr s \<Rightarrow> Inr (utf8 s)
      | _ \<Rightarrow> Inl AttributeError)"

section \<open>\<open>/tree_cache\<close>\<close>

type_synonym status_payload = "int \<times> json"

definition error_body :: "string \<Rightarrow> json" where
  "error_body text = JObj [(''error'', JStr text)]"

definition tree_cache_op :: "'c radix_engine \<Rightarrow> json \<Rightarrow> ('c, status_payload) proc" where
  "tree_cache_op E body =
     (let bad = (400, JObj [(''success'', JBool False), (''message'', JStr ''bad request'')]) in
      case body of
        JObj fs \<Rightarrow>
          (case (map_of fs ''operation'', map_of fs ''branch_id'') of
             (Some op, Some b) \<Rightarrow>
               seqp (rx_handle E op b (json_get ''tree_id'' fs) (json_get ''parent_id'' fs) (json_get ''tokens'' fs)) (\<lambda>result.
                 case result of
                   OpFailure m \<Rightarrow> ret (400, JObj [(''success'', JBool False), (''message'', JStr m)])
                 | OpSuccess v \<Rightarrow> ret (200, JObj [(''success'', JBool True), (''value'', v)]))
           | _ \<Rightarrow> ret bad)
      | _ \<Rightarrow> ret bad)"

section \<open>\<open>/tree_generate\<close>\<close>

text \<open>\<open>array("q", tokens)\<close> raises on a token that is not a 64-bit integer.\<close>

definition fits_int64 :: "int \<Rightarrow> bool" where
  "fits_int64 n \<longleftrightarrow> - (2 ^ 63) \<le> n \<and> n < 2 ^ 63"

definition prefill :: "'c radix_engine \<Rightarrow> json \<Rightarrow> json \<Rightarrow> json \<Rightarrow> int list \<Rightarrow> json \<Rightarrow> ('c, int \<times> int \<times> int) proc" where
  "prefill E b namespace parent toks reserve =
     seqp (rx_has_branch E b) (\<lambda>known.
     if \<not> known then raise (KeyError [])
     else seqp (rx_branch E b) (\<lambda>br.
       if \<not> json_eq (ab_namespace br) namespace then raise ValueError
       else if parent \<noteq> JNull \<and> \<not> json_eq (ab_parent br) parent then raise ValueError
       else seqp (whenp (truthy reserve) (rx_reserve E b reserve)) (\<lambda>_.
         let committed = ab_tokens br in
         if take (length committed) toks \<noteq> committed then raise ValueError
         else if \<not> list_all fits_int64 toks then raise OverflowError
         else let suffix = drop (length committed) toks in
         seqp (rx_match_prefix E toks (ab_namespace br)) (\<lambda>resident.
           let charged = int (length toks) - int (max (length resident) (length committed)) in
           if charged < 0 then raise ValueError
           else seqp
             (if charged = 0 then ret resident
              else seqp (rx_alloc E charged) (\<lambda>slots.
                case slots of None \<Rightarrow> raise MemoryError | Some new \<Rightarrow> ret (resident @ new))) (\<lambda>full.
           seqp (rx_extend_tree E b suffix full) (\<lambda>hit.
             ret (hit, charged, int (length toks))))))))"

text \<open>\<open>reserve < 0\<close>, defined for numbers only.\<close>

definition json_negative :: "json \<Rightarrow> exc + bool" where
  "json_negative v = (case json_number v of None \<Rightarrow> Inl TypeError | Some x \<Rightarrow> Inr (x < 0))"

definition generate_reply :: "int \<Rightarrow> int \<Rightarrow> int \<Rightarrow> int \<Rightarrow> json" where
  "generate_reply hit charged prompt_tokens max_new =
     JObj [(''text'', JStr (''[no-model stub output; max_new_tokens='' @ str_int max_new @ '']'')),
       (''meta_info'', JObj [(''cached_tokens'', JInt hit), (''charged_tokens'', JInt charged),
          (''prompt_tokens'', JInt prompt_tokens), (''completion_tokens'', JInt max_new),
          (''finish_reason'', JObj [(''type'', JStr ''length''), (''length'', JInt max_new)]),
          (''model_output'', JBool False)]),
       (''index'', JInt 0)]"

text \<open>The prompt of a request: \<open>None\<close> when it has neither \<open>input_ids\<close> nor \<open>text\<close>.\<close>

definition prompt_tokens :: "(string \<times> json) list \<Rightarrow> (exc + int list) option" where
  "prompt_tokens fs =
     (case map_of fs ''input_ids'' of
        Some v \<Rightarrow> Some (tokenize v)
      | None \<Rightarrow> (case map_of fs ''text'' of Some v \<Rightarrow> Some (tokenize v) | None \<Rightarrow> None))"

definition max_new_tokens :: "(string \<times> json) list \<Rightarrow> exc + int" where
  "max_new_tokens fs =
     (case map_of fs ''sampling_params'' of
        None \<Rightarrow> Inr 0
      | Some (JObj ps) \<Rightarrow> (case map_of ps ''max_new_tokens'' of None \<Rightarrow> Inr 0 | Some v \<Rightarrow> json_int v)
      | Some _ \<Rightarrow> Inl AttributeError)"

definition tree_generate :: "'c radix_engine \<Rightarrow> json \<Rightarrow> ('c, status_payload) proc" where
  "tree_generate E body =
     (case body of
        JObj fs \<Rightarrow>
          let b = json_get ''branch_id'' fs; reserve = json_get ''branch_reserve_tokens'' fs in
          if b = JNull then ret (400, error_body ''branch_id is required for /tree_generate'')
          else seqp (of_sum (if reserve = JNull then Inr False else json_negative reserve)) (\<lambda>negative.
          if negative then ret (400, error_body ''branch_reserve_tokens must be nonnegative'')
          else case prompt_tokens fs of
            None \<Rightarrow> ret (400, error_body ''text or input_ids is required'')
          | Some prompt \<Rightarrow>
              seqp (of_sum prompt) (\<lambda>toks.
              let namespace = (if truthy (json_get ''tree_id'' fs) then json_get ''tree_id'' fs else b) in
              seqp (of_sum (max_new_tokens fs)) (\<lambda>max_new.
              try_except
                (seqp (prefill E b namespace (json_get ''parent_id'' fs) toks reserve) (\<lambda>(hit, charged, n).
                   ret (200, generate_reply hit charged n max_new)))
                (\<lambda>e. if is_key_error e then ret (400, error_body ''unknown branch'')
                     else if is_value_error e \<or> e = MemoryError then ret (400, error_body ''refused'')
                     else raise e))))
      | _ \<Rightarrow> raise AttributeError)"

section \<open>\<open>do_POST\<close>\<close>

definition auth_levels :: "string \<Rightarrow> auth_level" where
  "auth_levels path = (if path \<in> {''/tree_cache'', ''/tree_generate''} then ADMIN_FORCE else NORMAL)"

definition authorize :: "'c radix_engine \<Rightarrow> string \<Rightarrow> string option \<Rightarrow> int option" where
  "authorize E path authorization = rx_decide_auth E path authorization (auth_levels path)"

definition do_POST :: "'c radix_engine \<Rightarrow> string \<Rightarrow> string option \<Rightarrow> body \<Rightarrow> ('c, status_payload) proc" where
  "do_POST E target authorization raw =
     (let path = takeWhile (\<lambda>c. c \<noteq> CHR ''?'') target in
      case authorize E path authorization of
        Some code \<Rightarrow> ret (code, error_body (if code = 401 then ''Unauthorized'' else ''Forbidden''))
      | None \<Rightarrow>
        (case raw of
           NotUtf8 \<Rightarrow> raise ValueError
         | NotJson \<Rightarrow> ret (400, error_body ''invalid JSON'')
         | Json body \<Rightarrow>
            if path = ''/tree_cache'' then tree_cache_op E body
            else if path = ''/tree_generate'' then tree_generate E body
            else if path = ''/generate'' then
              (case body of
                 JObj fs \<Rightarrow>
                   if json_get ''branch_id'' fs \<noteq> JNull
                   then ret (403, error_body ''agent-tree fields require the admin /tree_generate endpoint'')
                   else ret (200, JObj [(''text'', JStr ''[no-model stub]''),
                              (''meta_info'', JObj [(''model_output'', JBool False)])])
               | _ \<Rightarrow> raise AttributeError)
            else ret (404, error_body ''not found'')))"

text \<open>
  \<open>do_GET\<close>: the health probe and the view of the slot pool.  The free slots and the live branches are read from the
  allocator and the cache.
\<close>

definition POOL_TOKENS :: int where "POOL_TOKENS = 65536"

definition pool_used :: "int \<Rightarrow> int" where
  "pool_used available = POOL_TOKENS - available"

definition do_GET :: "('c \<Rightarrow> int) \<Rightarrow> ('c \<Rightarrow> json) \<Rightarrow> int \<Rightarrow> string \<Rightarrow> ('c, status_payload) proc" where
  "do_GET available live_branches baseline target =
     (let path = takeWhile (\<lambda>c. c \<noteq> CHR ''?'') target in
      if prefix ''/health'' path then ret (200, JObj [(''status'', JStr ''ok'')])
      else if path = ''/pool_stats'' then
        seqp (readp available) (\<lambda>free. seqp (readp live_branches) (\<lambda>live.
          ret (200, JObj [(''pool_tokens'', JInt POOL_TOKENS), (''used'', JInt (pool_used free)), (''available'', JInt free),
            (''baseline_available'', JInt baseline), (''live_branches'', live)])))
      else ret (404, error_body ''not found''))"

text \<open>What the client sees of the handler's outcome.\<close>

definition reply_of :: "exc + status_payload \<Rightarrow> reply" where
  "reply_of r =
     (case r of Inl _ \<Rightarrow> Dropped
      | Inr (status, payload) \<Rightarrow> if status = 200 then Response (Json payload) else HTTPError status (Json payload))"

definition post_server :: "string \<Rightarrow> 'c radix_engine \<Rightarrow> 'c server" where
  "post_server base E rq c =
     (case do_POST E (drop (length base) (rq_url rq)) (rq_auth rq) (Json (JObj (rq_body rq))) c of
        (r, c') \<Rightarrow> (reply_of r, c'))"

text \<open>
  A network in front of a server: each request meets the next entry of a script and is delivered
  when the script is used up.  A reply may be lost after the request took effect.
\<close>

datatype fault = Deliver | LostRequest | LostReply | ConnectionReset | Overloaded

fun over_network :: "'c server \<Rightarrow> (fault list \<times> 'c) server" where
  "over_network srv rq ([], c) = (case srv rq c of (r, c') \<Rightarrow> (r, [], c'))"
| "over_network srv rq (f # fs, c) =
     (case f of
        Deliver \<Rightarrow> (case srv rq c of (r, c') \<Rightarrow> (r, fs, c'))
      | LostRequest \<Rightarrow> (URLError, fs, c)
      | LostReply \<Rightarrow> (URLError, fs, snd (srv rq c))
      | ConnectionReset \<Rightarrow> (Dropped, fs, snd (srv rq c))
      | Overloaded \<Rightarrow> (HTTPError 503 NotJson, fs, c))"

text \<open>Reading leaves the cache as it is.\<close>

lemma do_GET_reads: "snd (do_GET available live_branches baseline target c) = c"
  by (simp add: do_GET_def Let_def proc_defs)

end
