(* ===== verification/Tree_Server_Laws.thy ===== *)
theory Tree_Server_Laws
  imports Tree_Server SGLang_Backend
begin

text \<open>
  The tree server keeps the protocol that the HTTP backend relies on, over every engine with the
  documented behaviour and over a network that loses requests and replies.  The locale
  \<open>radix_contract\<close> states that behaviour; \<open>TreeKVCache\<close> with a pool of slots satisfies it.
\<close>

section \<open>The engine\<close>

text \<open>
  \<open>ctrees\<close> are the branches the cache holds.  The handler changes only the branch it names, what
  it reports as done is done, and it reports an absent branch of a kill in no other way than as
  absent; the other calls change no branch.
\<close>

text \<open>Payloads that are not the result of an operation.\<close>

definition plain :: "status_payload \<Rightarrow> bool" where
  "plain x \<longleftrightarrow> (\<exists>fs. snd x = JObj fs \<and> map_of fs ''success'' = None \<and> map_of fs ''message'' = None)"

lemma plain_bodies [simp]: "plain (n, error_body m)" "plain (n, generate_reply h c p k)"
  by (simp_all add: plain_def error_body_def generate_reply_def)

lemma tree_generate_plain: "tree_generate E body c = (Inr x, c') \<Longrightarrow> plain x"
  by (auto simp: tree_generate_def proc_defs of_sum_def Let_def
      split: json.splits prod.splits sum.splits option.splits if_splits)

lemma plain_payload:
  assumes "plain x" "reply_payload (reply_of (Inr x)) = Some fs"
  shows "\<not> truthy_field ''success'' fs \<and> \<not> says_no_such fs"
  using assms by (cases x) (auto simp: plain_def reply_payload_def reply_of_def op_result_def truthy_field_def
      says_no_such_def split: if_splits)

lemma dropped_payload: "reply_payload (reply_of (Inl e)) = None"
  by (simp add: reply_payload_def reply_of_def)

locale radix_contract =
  fixes E :: "'c radix_engine" and ctrees :: "'c \<Rightarrow> string set" and cinv :: "'c \<Rightarrow> bool"
  assumes rx_inv: "cinv c \<Longrightarrow> cinv (snd (rx_handle E j b tr p n c)) \<and> cinv (snd (rx_has_branch E b c)) \<and>
      cinv (snd (rx_branch E b c)) \<and> cinv (snd (rx_reserve E b n c)) \<and> cinv (snd (rx_match_prefix E toks ns c)) \<and>
      cinv (snd (rx_alloc E k c)) \<and> cinv (snd (rx_extend_tree E b toks sl c))"
    and rx_same: "cinv c \<Longrightarrow> ctrees (snd (rx_has_branch E b c)) = ctrees c \<and>
      ctrees (snd (rx_branch E b c)) = ctrees c \<and> ctrees (snd (rx_reserve E b n c)) = ctrees c \<and>
      ctrees (snd (rx_match_prefix E toks ns c)) = ctrees c \<and> ctrees (snd (rx_alloc E k c)) = ctrees c \<and>
      ctrees (snd (rx_extend_tree E b toks sl c)) = ctrees c"
    and rx_touches: "cinv c \<Longrightarrow> op \<in> {''create'', ''fork'', ''kill''} \<Longrightarrow> t \<noteq> [] \<or> op \<noteq> ''fork'' \<Longrightarrow>
      touches_only t (ctrees c) (ctrees (snd (rx_handle E (JStr op) (JStr t) tr p n c)))"
    and rx_reads: "cinv c \<Longrightarrow> op \<in> {''reserve'', ''telemetry''} \<Longrightarrow>
      ctrees (snd (rx_handle E (JStr op) (JStr t) tr p n c)) = ctrees c"
    and rx_made: "cinv c \<Longrightarrow> op \<in> {''create'', ''fork''} \<Longrightarrow> t \<noteq> [] \<or> op \<noteq> ''fork'' \<Longrightarrow>
      rx_handle E (JStr op) (JStr t) tr p n c = (Inr (OpSuccess v), c') \<Longrightarrow> t \<in> ctrees c'"
    and rx_killed: "cinv c \<Longrightarrow> rx_handle E (JStr ''kill'') (JStr t) tr p n c = (Inr (OpSuccess v), c') \<Longrightarrow> t \<notin> ctrees c'"
    and rx_absent: "cinv c \<Longrightarrow> rx_handle E (JStr ''kill'') (JStr t) tr p n c = (Inr (OpFailure m), c') \<Longrightarrow>
      contains ''no such'' (str_lower m) \<Longrightarrow> t \<notin> ctrees c'"
begin

text \<open>What every call but the handler keeps, \<open>/tree_generate\<close> keeps.\<close>

lemma engine_keeps:
  "keeps (\<lambda>c. cinv c \<and> ctrees c = A) (rx_has_branch E b)" "keeps (\<lambda>c. cinv c \<and> ctrees c = A) (rx_branch E b)"
  "keeps (\<lambda>c. cinv c \<and> ctrees c = A) (rx_reserve E b n)" "keeps (\<lambda>c. cinv c \<and> ctrees c = A) (rx_match_prefix E toks ns)"
  "keeps (\<lambda>c. cinv c \<and> ctrees c = A) (rx_alloc E k)" "keeps (\<lambda>c. cinv c \<and> ctrees c = A) (rx_extend_tree E b toks sl)"
  by (simp_all add: keeps_iff rx_inv rx_same)

lemma prefill_keeps: "keeps (\<lambda>c. cinv c \<and> ctrees c = A) (prefill E b ns p toks rsv)"
  unfolding prefill_def Let_def by (intro keeps engine_keeps)

lemma keeps_of_sum: "keeps P (of_sum r)"
  by (auto simp: keeps_iff of_sum_def)

lemma tree_generate_keeps: "keeps (\<lambda>c. cinv c \<and> ctrees c = A) (tree_generate E body)"
proof -
  have pre: "keeps (\<lambda>c. cinv c \<and> ctrees c = A)
      (seqp (prefill E b ns p toks rsv) (\<lambda>(hit, charged, n). ret (200, generate_reply hit charged n k)))" for b ns p toks rsv k
    by (rule keeps_seqp [OF prefill_keeps]) (auto split: prod.split intro: keeps)
  show ?thesis
    unfolding tree_generate_def Let_def
    by (cases body) (simp_all only: json.case, (intro keeps keeps_of_sum pre)+)
qed


text \<open>A request either is an operation that the handler answers, or it leaves the branches and reports no result.\<close>

definition inert :: "'c \<Rightarrow> reply \<Rightarrow> 'c \<Rightarrow> bool" where
  "inert c r c' \<longleftrightarrow> cinv c' \<and> ctrees c' = ctrees c \<and>
     (\<forall>fs. reply_payload r = Some fs \<longrightarrow> \<not> truthy_field ''success'' fs \<and> \<not> says_no_such fs)"

definition op_reply :: "exc + op_output \<Rightarrow> reply" where
  "op_reply out =
     (case out of Inl _ \<Rightarrow> Dropped
      | Inr (OpFailure m) \<Rightarrow> HTTPError 400 (Json (JObj [(''success'', JBool False), (''message'', JStr m)]))
      | Inr (OpSuccess v) \<Rightarrow> Response (Json (JObj [(''success'', JBool True), (''value'', v)])))"

lemma post_cases:
  assumes "cinv c" "post_server base E rq c = (r, c')"
  obtains "inert c r c'"
  | j b tr p n out where "map_of (rq_body rq) ''operation'' = Some j" "map_of (rq_body rq) ''branch_id'' = Some b"
      "rx_handle E j b tr p n c = (out, c')" "r = op_reply out"
proof -
  let ?path = "takeWhile (\<lambda>c. c \<noteq> CHR ''?'') (drop (length base) (rq_url rq))"
  have inert: "inert c (reply_of out) c'" if "out = Inl e \<or> (\<exists>x. out = Inr x \<and> plain x)" "cinv c'" "ctrees c' = ctrees c" for out e
    using that plain_payload dropped_payload by (auto simp: inert_def)
  obtain out where run: "do_POST E (drop (length base) (rq_url rq)) (rq_auth rq) (Json (JObj (rq_body rq))) c = (out, c')"
    and r: "r = reply_of out"
    using assms(2) by (auto simp: post_server_def split: prod.splits)
  show thesis
  proof (cases "authorize E ?path (rq_auth rq) = None \<and> ?path \<in> {''/tree_cache'', ''/tree_generate''}")
    case False
    then have "c' = c \<and> (out = Inl AttributeError \<or> (\<exists>x. out = Inr x \<and> plain x))"
      using run by (auto simp: do_POST_def Let_def proc_defs plain_def error_body_def split: option.splits if_splits)
    then show thesis using that(1) inert [of out AttributeError] assms(1) r by blast
  next
    case True
    then consider (op) "?path = ''/tree_cache''" | (gen) "?path = ''/tree_generate''" by blast
    then show thesis
    proof cases
      case gen
      then have g: "tree_generate E (JObj (rq_body rq)) c = (out, c')"
        using run True by (simp add: do_POST_def Let_def)
      have "cinv c' \<and> ctrees c' = ctrees c"
        using keeps_snd [OF tree_generate_keeps, of c "ctrees c"] g assms(1) by (metis snd_conv)
      moreover have "out = Inl (projl out) \<or> (\<exists>x. out = Inr x \<and> plain x)"
        using tree_generate_plain g by (cases out) auto
      ultimately show thesis using that(1) inert r by blast
    next
      case op
      then have g: "tree_cache_op E (JObj (rq_body rq)) c = (out, c')"
        using run True by (simp add: do_POST_def Let_def)
      show thesis
      proof (cases "map_of (rq_body rq) ''operation'' = None \<or> map_of (rq_body rq) ''branch_id'' = None")
        case True
        then have "c' = c" "r = HTTPError 400 (Json (JObj [(''success'', JBool False), (''message'', JStr ''bad request'')]))"
          using g r by (auto simp: tree_cache_op_def Let_def ret_def reply_of_def split: option.splits)
        moreover have "\<not> contains ''no such'' (str_lower ''bad request'')" by code_simp
        ultimately have "inert c r c'"
          using assms(1) by (auto simp: inert_def reply_payload_def op_result_def truthy_field_def says_no_such_def)
        then show thesis by (rule that(1))
      next
        case False
        then obtain j b where jb: "map_of (rq_body rq) ''operation'' = Some j" "map_of (rq_body rq) ''branch_id'' = Some b" by auto
        obtain o' d where h: "rx_handle E j b (json_get ''tree_id'' (rq_body rq)) (json_get ''parent_id'' (rq_body rq))
            (json_get ''tokens'' (rq_body rq)) c = (o', d)" by fastforce
        then have "d = c' \<and> r = op_reply o'"
          using g r jb by (auto simp: tree_cache_op_def Let_def proc_defs reply_of_def op_reply_def split: sum.splits op_output.splits)
        with h jb that(2) show thesis by blast
      qed
    qed
  qed
qed


text \<open>The outcome of an operation on a branch, as the protocol states it.\<close>

lemma op_reply_success:
  "reply_payload (op_reply out) = Some fs \<Longrightarrow> truthy_field ''success'' fs \<Longrightarrow> \<exists>v. out = Inr (OpSuccess v)"
  "reply_payload (op_reply out) = Some fs \<Longrightarrow> says_no_such fs \<Longrightarrow>
     \<exists>m. out = Inr (OpFailure m) \<and> contains ''no such'' (str_lower m)"
  by (auto simp: op_reply_def reply_payload_def op_result_def truthy_field_def says_no_such_def
      split: sum.splits op_output.splits if_splits)

lemma post_op:
  assumes "cinv c" "is_op op t rq" "post_server base E rq c = (r, c')"
  obtains "inert c r c'"
  | tr p n out where "rx_handle E (JStr op) (JStr t) tr p n c = (out, c')" "r = op_reply out"
proof (rule post_cases [OF assms(1,3)])
  fix j b tr p n out
  assume "map_of (rq_body rq) ''operation'' = Some j" "map_of (rq_body rq) ''branch_id'' = Some b"
    and run: "rx_handle E j b tr p n c = (out, c')" "r = op_reply out"
  then have "j = JStr op" "b = JStr t" using assms(2) by (simp_all add: is_op_def)
  with run that(2) show thesis by blast
qed (rule that(1))

lemma post_tree_server: "tree_server (post_server base E) ctrees cinv"
proof
  fix c rq op t fin r c' fs
  assume inv: "cinv c"
  obtain r0 c0 where run0: "post_server base E rq c = (r0, c0)" by fastforce
  show "cinv (snd (post_server base E rq c))"
    using post_cases [OF inv run0] rx_inv [OF inv] run0 by (metis inert_def snd_conv)
  show "ctrees c - (if fin then {t} else {}) \<subseteq> ctrees (snd (post_server base E rq c)) \<and>
      ctrees (snd (post_server base E rq c)) \<subseteq> insert t (ctrees c)" if "is_generate t fin rq"
    by (rule post_cases [OF inv run0]) (use that run0 in \<open>auto simp: is_generate_def inert_def\<close>)
  show "touches_only t (ctrees c) (ctrees (snd (post_server base E rq c)))"
    if "is_op op t rq" "op \<in> {''create'', ''fork'', ''kill''}" "t \<noteq> [] \<or> op \<noteq> ''fork''"
  proof (rule post_op [OF inv that(1) run0])
    fix tr p n out assume "rx_handle E (JStr op) (JStr t) tr p n c = (out, c0)"
    then show ?thesis using rx_touches [OF inv that(2,3), of tr p n] run0 by simp
  qed (use run0 in \<open>simp add: inert_def\<close>)
  show "ctrees (snd (post_server base E rq c)) = ctrees c"
    if "is_op op t rq" "op \<in> {''reserve'', ''telemetry''}"
  proof (rule post_op [OF inv that(1) run0])
    fix tr p n out assume "rx_handle E (JStr op) (JStr t) tr p n c = (out, c0)"
    then show ?thesis using rx_reads [OF inv that(2), of t tr p n] run0 by simp
  qed (use run0 in \<open>simp add: inert_def\<close>)
  show "t \<in> ctrees c'"
    if "is_op op t rq" "op \<in> {''create'', ''fork''}" "t \<noteq> [] \<or> op \<noteq> ''fork''" "post_server base E rq c = (r, c')"
      "reply_payload r = Some fs" "truthy_field ''success'' fs"
  proof (rule post_op [OF inv that(1,4)])
    fix tr p n out assume h: "rx_handle E (JStr op) (JStr t) tr p n c = (out, c')" and "r = op_reply out"
    then have "\<exists>v. out = Inr (OpSuccess v)" using op_reply_success(1) that(5,6) by blast
    then show ?thesis using rx_made [OF inv that(2,3)] h by blast
  qed (use that(5,6) in \<open>simp add: inert_def\<close>)
  show "t \<notin> ctrees c'"
    if "is_op ''kill'' t rq" "post_server base E rq c = (r, c')" "reply_payload r = Some fs"
      "truthy_field ''success'' fs \<or> says_no_such fs"
  proof (rule post_op [OF inv that(1,2)])
    fix tr p n out assume h: "rx_handle E (JStr ''kill'') (JStr t) tr p n c = (out, c')" and "r = op_reply out"
    then have "(\<exists>v. out = Inr (OpSuccess v)) \<or> (\<exists>m. out = Inr (OpFailure m) \<and> contains ''no such'' (str_lower m))"
      using op_reply_success that(3,4) by blast
    then show ?thesis using rx_killed [OF inv] rx_absent [OF inv] h by blast
  qed (use that(3,4) in \<open>auto simp: inert_def\<close>)
qed

end

section \<open>The network\<close>

context tree_server
begin

lemma network_cases:
  assumes "over_network srv rq (fs, t) = (r, fs', t')"
  shows "(r, t') = srv rq t \<or> (t' = t \<or> t' = snd (srv rq t)) \<and> reply_payload r = None"
  using assms by (cases fs) (auto simp: reply_payload_def op_result_def split: fault.splits prod.splits)

text \<open>A network that loses requests and replies keeps the protocol.\<close>

lemma network_tree_server: "tree_server (over_network srv) (\<lambda>x. strees (snd x)) (\<lambda>x. sinv (snd x))"
proof
  fix x :: "fault list \<times> 's" and rq op t fin r x' fs
  assume inv: "sinv (snd x)"
  obtain f c where x: "x = (f, c)" by fastforce
  obtain r0 f0 c0 where run0: "over_network srv rq x = (r0, f0, c0)" by (metis prod_cases3)
  have inv: "sinv c" using inv x by simp
  have c0: "c0 = c \<or> c0 = snd (srv rq c)" using network_cases run0 x by (metis snd_conv)
  show "sinv (snd (snd (over_network srv rq x)))" using c0 inv srv_inv run0 by auto
  show "touches_only t (strees (snd x)) (strees (snd (snd (over_network srv rq x))))"
    if "is_op op t rq" "op \<in> {''create'', ''fork'', ''kill''}" "t \<noteq> [] \<or> op \<noteq> ''fork''"
    using c0 run0 x srv_touches [OF inv that] by auto
  show "strees (snd (snd (over_network srv rq x))) = strees (snd x)" if "is_op op t rq" "op \<in> {''reserve'', ''telemetry''}"
    using c0 run0 x srv_same [OF inv that] by auto
  show "strees (snd x) - (if fin then {t} else {}) \<subseteq> strees (snd (snd (over_network srv rq x))) \<and>
      strees (snd (snd (over_network srv rq x))) \<subseteq> insert t (strees (snd x))" if "is_generate t fin rq"
    using c0 run0 x srv_generate [OF inv that] by auto
  have answered: "srv rq c = (r, snd x')" if "over_network srv rq x = (r, x')" "reply_payload r = Some fs"
    using network_cases [of rq f c r "fst x'" "snd x'"] that x by auto
  show "t \<in> strees (snd x')"
    if "is_op op t rq" "op \<in> {''create'', ''fork''}" "t \<noteq> [] \<or> op \<noteq> ''fork''" "over_network srv rq x = (r, x')"
      "reply_payload r = Some fs" "truthy_field ''success'' fs"
    by (rule srv_made [OF inv that(1-3) answered that(5,6)]) (use that in auto)
  show "t \<notin> strees (snd x')"
    if "is_op ''kill'' t rq" "over_network srv rq x = (r, x')" "reply_payload r = Some fs"
      "truthy_field ''success'' fs \<or> says_no_such fs"
    by (rule srv_killed [OF inv that(1) answered that(3,4)]) (use that in auto)
qed

end

section \<open>\<open>TreeKVCache\<close> behind the server\<close>

text \<open>\<open>TreeKVCache\<close> in the place of \<open>TreeRadixCache\<close>, with a pool of free slots.\<close>

record pooled_cache =
  pc_cache :: kv_cache
  pc_free :: int

definition on_cache :: "(kv_cache, 'a) proc \<Rightarrow> (pooled_cache, 'a) proc" where
  "on_cache m c = (case m (pc_cache c) of (r, s) \<Rightarrow> (r, c\<lparr>pc_cache := s\<rparr>))"

text \<open>
  The handler's \<open>except (KeyError, TreeQuotaExceeded, ValueError)\<close>.  A branch that is absent, which is
  what a repeated kill finds, is reported as such.
\<close>

definition handled :: "(pooled_cache, json) proc \<Rightarrow> (pooled_cache, op_output) proc" where
  "handled m =
     try_except (seqp m (\<lambda>v. ret (OpSuccess v)))
       (\<lambda>e. if is_key_error e \<or> is_value_error e \<or> e = MemoryError
            then ret (OpFailure (if is_key_error e then ''no such branch'' else ''refused'')) else raise e)"

definition pooled_handle :: "(nat \<Rightarrow> real) \<Rightarrow> json \<Rightarrow> json \<Rightarrow> json \<Rightarrow> json \<Rightarrow> json \<Rightarrow> (pooled_cache, op_output) proc" where
  "pooled_handle clk op b tree parent tokens =
     handled
       (case (op, b) of
          (JStr o', JStr t) \<Rightarrow>
            if o' = ''create'' then
              (if tree \<in> {JNull, JStr t} then seqp (on_cache (create_tree clk t)) (\<lambda>_. ret JNull) else raise ValueError)
            else if o' = ''fork'' then
              (case parent of JStr p \<Rightarrow> seqp (on_cache (fork_branch p (Some t))) (\<lambda>_. ret JNull) | _ \<Rightarrow> raise ValueError)
            else if o' = ''kill'' then
              seqp (raise_if (\<lambda>c. \<not> has_tree t (pc_cache c)) (KeyError t)) (\<lambda>_. seqp (on_cache (kill t)) (\<lambda>n. ret (JInt n)))
            else if o' \<in> {''reserve'', ''telemetry''} then
              seqp (raise_if (\<lambda>c. \<not> has_tree t (pc_cache c)) (KeyError t)) (\<lambda>_. ret JNull)
            else raise ValueError
        | _ \<Rightarrow> raise TypeError)"

definition json_id :: "json \<Rightarrow> string" where
  "json_id j = (case j of JStr t \<Rightarrow> t | _ \<Rightarrow> [])"

definition pooled_branch :: "json \<Rightarrow> (pooled_cache, agent_branch) proc" where
  "pooled_branch j c =
     (case (dget (kv_trees (pc_cache c)) (json_id j), dget (kv_seqs (pc_cache c)) (json_id j)) of
        (Some tid, Some sq) \<Rightarrow>
          (Inr \<lparr>ab_namespace = JStr (tid_namespace tid),
                ab_parent = (case tid_parent_id tid of None \<Rightarrow> JNull | Some p \<Rightarrow> JStr p), ab_tokens = sq\<rparr>, c)
      | _ \<Rightarrow> (Inl (KeyError (json_id j)), c))"

definition pooled_alloc :: "int \<Rightarrow> (pooled_cache, int list option) proc" where
  "pooled_alloc k c =
     (if k \<le> pc_free c then (Inr (Some (replicate (nat k) 0)), c\<lparr>pc_free := pc_free c - k\<rparr>) else (Inr None, c))"

definition pooled_engine :: "(nat \<Rightarrow> real) \<Rightarrow> pooled_cache radix_engine" where
  "pooled_engine clk =
     \<lparr>rx_handle = pooled_handle clk,
      rx_has_branch = \<lambda>b. readp (\<lambda>c. has_tree (json_id b) (pc_cache c)),
      rx_branch = pooled_branch,
      rx_reserve = \<lambda>b n. raise_if (\<lambda>c. \<not> has_tree (json_id b) (pc_cache c)) (KeyError (json_id b)),
      rx_match_prefix = \<lambda>toks ns. seqp (on_cache (match_prefix clk toks)) (\<lambda>m. ret (replicate m 0)),
      rx_alloc = pooled_alloc,
      rx_extend_tree = \<lambda>b toks slots. on_cache (extend_kv clk (json_id b) toks),
      rx_decide_auth = \<lambda>path auth level. None\<rparr>"

lemma same_dicts_match: "same_dicts s (snd (match_prefix clk toks s))"
proof -
  have "same_dicts s (snd (match_prefix_loop clk toks nss best s))" for nss best s
  proof (induction clk toks nss best s rule: match_prefix_loop.induct)
    case (2 clk toks ns nss best s)
    show ?case
    proof (cases "dget (kv_root s) ns")
      case (Some r)
      obtain path m s1 where w: "walk_ns clk ns r toks s = (path, m, s1)" by (metis prod_cases3)
      then have "same_dicts s s1" using same_dicts_parts(2) [of s clk ns r toks] by simp
      then show ?thesis using 2(2) [OF Some w [symmetric] refl] Some w by (auto intro: same_dicts_trans)
    qed (use 2(1) in simp)
  qed simp
  then show ?thesis by (simp add: match_prefix_def split: prod.split) (metis snd_conv)
qed

lemma snd_on_cache [simp]: "pc_cache (snd (on_cache m c)) = snd (m (pc_cache c))"
  by (simp add: on_cache_def split: prod.split)

lemma snd_handled [simp]: "snd (handled m c) = snd (m c)"
  by (auto simp: handled_def proc_defs split: prod.split sum.split)

lemma snd_seqp_ret [simp]: "snd (seqp m (\<lambda>x. ret (f x)) c) = snd (m c)"
  by (auto simp: proc_defs split: prod.split sum.split)

lemma kill_absent: "\<not> has_tree t s \<Longrightarrow> kill t s = (Inr 0, s)"
  using dget_None_iff [of "kv_trees s" t] by (simp add: kill_def has_tree_def)

lemma pooled_handle_state:
  "pc_cache (snd (pooled_handle clk (JStr op) (JStr t) tr p n c)) =
     (if op = ''create'' \<and> tr \<in> {JNull, JStr t} then snd (create_tree clk t (pc_cache c))
      else if op = ''fork'' then (case p of JStr q \<Rightarrow> snd (fork_branch q (Some t) (pc_cache c)) | _ \<Rightarrow> pc_cache c)
      else if op = ''kill'' then snd (kill t (pc_cache c)) else pc_cache c)"
  by (cases p) (simp_all add: pooled_handle_def raise_def raise_if_def seqp_def [of "raise_if _ _"] ret_def kill_absent)

lemma pooled_handle_other:
  "\<nexists>o' t. op = JStr o' \<and> b = JStr t \<Longrightarrow> snd (pooled_handle clk op b tr p n c) = c"
  unfolding pooled_handle_def snd_handled by (cases op; cases b; simp add: raise_def)

lemma handled_success: "handled m c = (Inr (OpSuccess v), c') \<Longrightarrow> m c = (Inr v, c')"
  by (auto simp: handled_def proc_defs split: prod.splits sum.splits if_splits)

lemma handled_failure: "handled m c = (Inr (OpFailure e), c') \<Longrightarrow> \<exists>x. m c = (Inl x, c')"
  by (auto simp: handled_def proc_defs split: prod.splits sum.splits if_splits)

lemma pooled_handle_success:
  assumes "pooled_handle clk (JStr op) (JStr t) tr p n c = (Inr (OpSuccess v), c')"
  shows "op = ''create'' \<Longrightarrow> \<exists>x. create_tree clk t (pc_cache c) = (Inr x, pc_cache c')"
    and "op = ''fork'' \<Longrightarrow> \<exists>q x. fork_branch q (Some t) (pc_cache c) = (Inr x, pc_cache c')"
    and "op = ''kill'' \<Longrightarrow> \<exists>x. kill t (pc_cache c) = (Inr x, pc_cache c')"
  using handled_success [OF assms [unfolded pooled_handle_def]]
  by (auto 4 4 simp: on_cache_def proc_defs split: json.splits prod.splits sum.splits if_splits)

interpretation pooled: radix_contract "pooled_engine clk" "\<lambda>c. keys (kv_trees (pc_cache c))" "\<lambda>c. cache_dicts (pc_cache c)" for clk
proof unfold_locales
  fix c c' :: pooled_cache and j b tr p n toks ns k sl op t v
  assume inv: "cache_dicts (pc_cache c)"
  note kept = cache_dicts_create [OF inv] cache_dicts_fork [OF inv] cache_dicts_kill [OF inv]
    same_dicts_inv [OF same_dicts_extend inv] same_dicts_inv [OF same_dicts_match inv]
  have "cache_dicts (pc_cache (snd (pooled_handle clk j b tr p n c)))"
  proof (cases "\<exists>o' t. j = JStr o' \<and> b = JStr t")
    case True
    then show ?thesis using kept(1-3) inv by (auto simp: pooled_handle_state split: json.split)
  qed (use inv in \<open>simp add: pooled_handle_other\<close>)
  then show "cache_dicts (pc_cache (snd (rx_handle (pooled_engine clk) j b tr p n c))) \<and>
      cache_dicts (pc_cache (snd (rx_has_branch (pooled_engine clk) b c))) \<and>
      cache_dicts (pc_cache (snd (rx_branch (pooled_engine clk) b c))) \<and>
      cache_dicts (pc_cache (snd (rx_reserve (pooled_engine clk) b n c))) \<and>
      cache_dicts (pc_cache (snd (rx_match_prefix (pooled_engine clk) toks ns c))) \<and>
      cache_dicts (pc_cache (snd (rx_alloc (pooled_engine clk) k c))) \<and>
      cache_dicts (pc_cache (snd (rx_extend_tree (pooled_engine clk) b toks sl c)))"
    using inv kept(4,5)
    by (simp add: pooled_engine_def pooled_branch_def pooled_alloc_def readp_def raise_if_def split: option.split)
  show "keys (kv_trees (pc_cache (snd (rx_has_branch (pooled_engine clk) b c)))) = keys (kv_trees (pc_cache c)) \<and>
      keys (kv_trees (pc_cache (snd (rx_branch (pooled_engine clk) b c)))) = keys (kv_trees (pc_cache c)) \<and>
      keys (kv_trees (pc_cache (snd (rx_reserve (pooled_engine clk) b n c)))) = keys (kv_trees (pc_cache c)) \<and>
      keys (kv_trees (pc_cache (snd (rx_match_prefix (pooled_engine clk) toks ns c)))) = keys (kv_trees (pc_cache c)) \<and>
      keys (kv_trees (pc_cache (snd (rx_alloc (pooled_engine clk) k c)))) = keys (kv_trees (pc_cache c)) \<and>
      keys (kv_trees (pc_cache (snd (rx_extend_tree (pooled_engine clk) b toks sl c)))) = keys (kv_trees (pc_cache c))"
    using same_dicts_extend [of "pc_cache c" clk] same_dicts_match [of "pc_cache c" clk]
    by (simp add: pooled_engine_def pooled_branch_def pooled_alloc_def readp_def raise_if_def same_dicts_def split: option.split)
  note tree = tree_kv.kv_create_touches [where t = t and clk = clk, OF inv] tree_kv.kv_kill_touches [where t = t and clk = clk, OF inv]
    tree_kv.kv_fork_touches [where t = t and clk = clk, OF inv]
  show "touches_only t (keys (kv_trees (pc_cache c))) (keys (kv_trees (pc_cache
      (snd (rx_handle (pooled_engine clk) (JStr op) (JStr t) tr p n c)))))"
    if "op \<in> {''create'', ''fork'', ''kill''}" "t \<noteq> [] \<or> op \<noteq> ''fork''"
    using that tree by (auto simp: pooled_engine_def pooled_handle_state tree_cache_backend_def split: json.split)
  show "keys (kv_trees (pc_cache (snd (rx_handle (pooled_engine clk) (JStr op) (JStr t) tr p n c)))) = keys (kv_trees (pc_cache c))"
    if "op \<in> {''reserve'', ''telemetry''}"
    using that by (auto simp: pooled_engine_def pooled_handle_state)
  show "t \<in> keys (kv_trees (pc_cache c'))"
    if op: "op \<in> {''create'', ''fork''}" and t: "t \<noteq> [] \<or> op \<noteq> ''fork''"
      and run: "rx_handle (pooled_engine clk) (JStr op) (JStr t) tr p n c = (Inr (OpSuccess v), c')"
  proof -
    note ok = pooled_handle_success [OF run [unfolded pooled_engine_def, simplified]]
    have "t \<in> keys (kv_trees k')" if "create_tree clk t (pc_cache c) = (Inr x, k')" for x k'
      using tree_kv.kv_create_made [where t = t and clk = clk, OF inv] that
      by (simp add: tree_cache_backend_def drop_value_Inr)
    moreover have "t \<in> keys (kv_trees k')" if "t \<noteq> []" "fork_branch q (Some t) (pc_cache c) = (Inr x, k')" for q x k'
      using tree_kv.kv_fork_made [where t = t and clk = clk, OF inv] that
      by (simp add: tree_cache_backend_def drop_value_Inr) blast
    ultimately show ?thesis using op t ok(1,2) by blast
  qed
  show "t \<notin> keys (kv_trees (pc_cache c'))"
    if run: "rx_handle (pooled_engine clk) (JStr ''kill'') (JStr t) tr p n c = (Inr (OpSuccess v), c')"
    using pooled_handle_success(3) [OF run [unfolded pooled_engine_def, simplified]]
      tree_kv.kv_kill_gone [where t = t and clk = clk, OF inv] by (auto simp: tree_cache_backend_def)
  show "t \<notin> keys (kv_trees (pc_cache c'))"
    if run: "rx_handle (pooled_engine clk) (JStr ''kill'') (JStr t) tr p n c = (Inr (OpFailure m), c')" for m
  proof -
    obtain x where "seqp (raise_if (\<lambda>c. \<not> has_tree t (pc_cache c)) (KeyError t)) (\<lambda>_. seqp (on_cache (kill t)) (\<lambda>n. ret (JInt n))) c
        = (Inl x, c')"
      using run handled_failure by (fastforce simp: pooled_engine_def pooled_handle_def)
    then have "\<not> has_tree t (pc_cache c) \<and> c' = c"
      using kill_total [OF inv, of t] by (auto simp: proc_defs on_cache_def split: prod.splits if_splits)
    then show ?thesis by (simp add: has_tree_def)
  qed
qed

end
