(* ===== verification/SGLang_HTTP_Props.thy ===== *)
theory SGLang_HTTP_Props
  imports Tree_Server_Laws
begin

text \<open>
  The properties of \<open>SGLangHTTPBackend\<close> and of its composition with the tree server over a network
  that loses requests and replies.
\<close>

section \<open>The in-flight bookkeeping\<close>

lemma request_json_books: "same_books s (snd (request_json C srv path extra rt ex s))"
  by (simp add: request_json_def Let_def request_loop_books)

lemma operation_books: "same_books s (snd (operation C srv op b extra s))"
proof -
  obtain r s1 where run: "request_json C srv ''/tree_cache'' ([(''operation'', JStr op), (''branch_id'', JStr b)] @ extra)
      (op \<in> {''kill'', ''telemetry'', ''invalidate''}) True s = (r, s1)" by fastforce
  then have "same_books s s1" using request_json_books [of s] by (metis snd_conv)
  then show ?thesis using run by (cases r) (simp_all add: operation_def seqp_def ret_def raise_def)
qed

lemma operation_run:
  obtains r s1 where "operation C srv op b extra s = (r, s1)" "same_books s s1"
  using operation_books [of s C srv op b extra] by (cases "operation C srv op b extra s") auto

text \<open>The requests in flight and the branches being killed, as the other threads see them.\<close>

definition flight_view :: "'s http_backend \<Rightarrow> (string \<rightharpoonup> int) \<times> string set" where
  "flight_view s = (dget (hb_active s), hb_closing s)"

definition counts_ok :: "'s http_backend \<Rightarrow> bool" where
  "counts_ok s \<longleftrightarrow> (\<forall>b n. dget (hb_active s) b = Some n \<longrightarrow> 0 < n)"

lemma same_books_flight: "same_books s s' \<Longrightarrow> flight_view s' = flight_view s"
  by (simp add: same_books_def flight_view_def)

text \<open>A request that enters and leaves leaves the counts as they were.\<close>

lemma enter_leave:
  assumes "counts_ok s" "enter b s = (Inr (), s1)" "same_books s1 s2" "leave b s2 = (r, s3)"
  shows "r = Inr () \<and> flight_view s3 = flight_view s"
  using assms by (fastforce simp: enter_def modp_def leave_def counts_ok_def same_books_def flight_view_def
      split: option.splits if_splits)

lemma enter_ok: "\<exists>s1. enter b s = (Inr (), s1) \<and> hb_closing s1 = hb_closing s"
  by (simp add: enter_def modp_def)

lemma guarded_request:
  assumes "counts_ok s" "\<And>s1. same_books s1 (snd (m s1))"
  shows "flight_view (snd (seqp (enter b) (\<lambda>_. try_finally m (leave b)) s)) = flight_view s"
proof -
  obtain s1 where s1: "enter b s = (Inr (), s1)" using enter_ok by blast
  obtain r s2 where m: "m s1 = (r, s2)" by fastforce
  obtain q s3 where l: "leave b s2 = (q, s3)" by fastforce
  have "same_books s1 s2" using assms(2) [of s1] m by simp
  then show ?thesis using enter_leave [OF assms(1) s1 _ l] s1 m l by (simp add: seqp_def try_finally_def)
qed

lemma flight_view_seqp:
  "(\<And>x s. flight_view (snd (f x s)) = flight_view s) \<Longrightarrow> flight_view (snd (seqp m f s)) = flight_view (snd (m s))"
  by (auto simp: seqp_def split: prod.split sum.split)

lemma view_fork: "counts_ok s \<Longrightarrow> flight_view (snd (http_fork C srv p c s)) = flight_view s"
proof (cases c)
  case (Some t)
  assume ok: "counts_ok s"
  let ?req = "\<lambda>ns. seqp (seqp (enter p) (\<lambda>_. try_finally (operation C srv ''fork'' t [(''parent_id'', JStr p)]) (leave p)))
    (\<lambda>_. seqp (modp (\<lambda>s. s\<lparr>hb_namespaces := dset t ns (hb_namespaces s),
        hb_parents := dset t (Some p) (hb_parents s)\<rparr>)) (\<lambda>_. ret t))"
  have "flight_view (snd (?req ns s)) = flight_view s" for ns
    by (subst flight_view_seqp) (simp add: seqp_def modp_def ret_def flight_view_def, rule guarded_request [OF ok operation_books])
  then show ?thesis
    unfolding Some http_fork_def option.case by (simp add: seqp_assoc) (simp add: proc_defs split: option.split)
qed (simp add: http_fork_def raise_def)

lemma view_generate: "counts_ok s \<Longrightarrow> flight_view (snd (http_generate C srv b pr ps fin rsv s)) = flight_view s"
proof -
  assume ok: "counts_ok s"
  have "same_books s1 (snd (seqp (request_json C srv ''/tree_generate'' body False False) (\<lambda>fs. ret (JObj fs)) s1))" for body s1
    using request_json_books [of s1 C srv "''/tree_generate''" body False False]
    by (auto simp: seqp_def ret_def split: prod.split sum.split)
  note guarded_request [OF ok this]
  then show ?thesis
    unfolding http_generate_def by (simp add: readp_def raise_if_def raise_def seqp_def [of "raise_if _ _"] seqp_def [of "readp _"]
        split: option.split prod.split)
qed

lemma view_kill: "flight_view (snd (http_kill C srv b s)) = flight_view s"
proof -
  let ?s1 = "s\<lparr>hb_closing := insert b (hb_closing s)\<rparr>"
  obtain r s2 where op: "operation C srv ''kill'' b [] ?s1 = (r, s2)" "same_books ?s1 s2" by (rule operation_run)
  then show ?thesis
    by (cases r) (auto simp: http_kill_def proc_defs of_sum_def same_books_def flight_view_def split: option.split)
qed

lemma view_others:
  "flight_view (snd (http_create C srv b s)) = flight_view s"
  "flight_view (snd (http_reserve C srv b n s)) = flight_view s"
  "flight_view (snd (http_has_tree C srv b s)) = flight_view s"
proof -
  have op: "flight_view (snd (operation C srv op b extra s)) = flight_view s" for op extra
    by (rule same_books_flight [OF operation_books])
  show "flight_view (snd (http_create C srv b s)) = flight_view s"
    unfolding http_create_def by (subst flight_view_seqp) (simp_all add: op, simp add: modp_def flight_view_def)
  show "flight_view (snd (http_reserve C srv b n s)) = flight_view s"
    by (simp add: http_reserve_def drop_value_def raise_if_def seqp_def [of "raise_if _ _"] flight_view_seqp ret_def op)
  show "flight_view (snd (http_has_tree C srv b s)) = flight_view s"
    using op [of "''telemetry''" "[]"]
    by (auto simp: http_has_tree_def telemetry_def proc_defs split: prod.splits sum.splits)
qed

section \<open>Retrying through a failing network\<close>

lemma operation_sent:
  "\<exists>k \<le> op_retries C op.
     hb_sent (snd (operation C srv op b extra s)) = hb_sent s @ replicate (Suc k) (op_request C op b extra) \<and>
     hb_sleeps (snd (operation C srv op b extra s)) = hb_sleeps s @ map (\<lambda>i. hc_retry_delay C * 2 ^ i) [0..<k]"
proof -
  have "snd (operation C srv op b extra s) =
      snd (request_loop C srv (op_request C op b extra) True 0 (op_retries C op) s)"
    by (auto simp: operation_alt seqp_def ret_def raise_def split: prod.split sum.split)
  then show ?thesis
    using request_loop_sent [of "op_retries C op" C srv "op_request C op b extra" True 0 s] by simp
qed


text \<open>A server that gives a result to a request every time is reached when the failures run out.\<close>

lemma loop_through:
  assumes answers: "\<And>c. P c \<Longrightarrow> \<exists>r c' fs. srv rq c = (r, c') \<and> attempt_result True r = Some (Inr fs) \<and> Q fs \<and> P c'"
    and "set fs \<subseteq> {LostRequest, LostReply, Overloaded}" "length fs \<le> left" "hb_server s = (fs, c)" "P c"
  shows "\<exists>fs s'. request_loop C (over_network srv) rq True attempt left s = (Inr fs, s') \<and> Q fs"
  using assms(2-)
proof (induction fs arbitrary: s c attempt left)
  case Nil
  obtain r c' fs where a: "srv rq c = (r, c')" "attempt_result True r = Some (Inr fs)" "Q fs"
    using answers [OF Nil(4)] by blast
  then have "over_network srv rq (hb_server s) = (r, [], c')" using Nil(3) by simp
  note request_loop_step [where srv = "over_network srv" and rq = rq and s = s, OF this]
  then show ?case using a(2,3) by (simp add: Let_def)
next
  case (Cons f fs)
  obtain r0 c0 where a: "srv rq c = (r0, c0)" "P c0" using answers [OF Cons.prems(4)] by blast
  have "\<exists>r c'. over_network srv rq (hb_server s) = (r, fs, c') \<and> attempt_result True r = None \<and> P c'"
    using Cons.prems a by (auto simp: attempt_result_def op_result_def retryable_status_def)
  then obtain r c' where r: "over_network srv rq (hb_server s) = (r, fs, c')" "attempt_result True r = None" "P c'"
    by blast
  obtain n where n: "left = Suc n" "length fs \<le> n" using Cons.prems(2) by (cases left) auto
  let ?s1 = "s\<lparr>hb_server := (fs, c'), hb_sent := hb_sent s @ [rq], hb_sleeps := hb_sleeps s @ [hc_retry_delay C * 2 ^ attempt]\<rparr>"
  have "request_loop C (over_network srv) rq True attempt left s = request_loop C (over_network srv) rq True (Suc attempt) n ?s1"
    by (simp add: request_loop_step [where srv = "over_network srv" and rq = rq and s = s, OF r(1)] n(1) r(2) Let_def)
  then show ?case using Cons.IH [of n ?s1 c' "Suc attempt"] Cons.prems(1) n(2) r(3) by simp
qed

text \<open>What a kill may be answered with: the pages freed, or that there is no such branch.\<close>

definition kill_answer :: "(string \<times> json) list \<Rightarrow> bool" where
  "kill_answer fs \<longleftrightarrow> (\<exists>v. fs = [(''success'', JBool True), (''value'', JInt v)]) \<or>
     (\<exists>m. fs = [(''success'', JBool False), (''message'', JStr m)] \<and> contains ''no such'' (str_lower m))"

lemma kill_answer_accepted:
  assumes "request_loop C srv (op_request C ''kill'' b []) True 0 (hc_max_retries C) s = (Inr fs, s')" "kill_answer fs"
  shows "operation C srv ''kill'' b [] s = (Inr fs, s')" "\<exists>n. int_or_zero (map_of fs ''value'') = Inr n"
  using assms
  by (auto simp: operation_alt op_retries_def seqp_def ret_def truthy_field_def says_no_such_def bad_message_def kill_answer_def
      int_or_zero_def)

lemma post_kill:
  assumes "radix_contract E ctrees cinv" "cinv c" "rx_decide_auth E ''/tree_cache'' auth ADMIN_FORCE = None"
    and "b \<in> ctrees c \<Longrightarrow> \<exists>v. fst (rx_handle E (JStr ''kill'') (JStr b) JNull JNull JNull c) = Inr (OpSuccess (JInt v))"
    and "b \<notin> ctrees c \<Longrightarrow> \<exists>m. fst (rx_handle E (JStr ''kill'') (JStr b) JNull JNull JNull c) = Inr (OpFailure m) \<and>
      contains ''no such'' (str_lower m)"
    and "rq = \<lparr>rq_url = base @ ''/tree_cache'', rq_body = [(''operation'', JStr ''kill''), (''branch_id'', JStr b)], rq_auth = auth\<rparr>"
  shows "\<exists>r c' fs. post_server base E rq c = (r, c') \<and> attempt_result True r = Some (Inr fs) \<and> kill_answer fs \<and> cinv c'"
proof -
  obtain out c' where h: "rx_handle E (JStr ''kill'') (JStr b) JNull JNull JNull c = (Inr out, c')"
    "(\<exists>v. out = OpSuccess (JInt v)) \<or> (\<exists>m. out = OpFailure m \<and> contains ''no such'' (str_lower m))"
    using assms(4,5) by (metis prod.collapse)
  then have "cinv c'" using radix_contract.rx_inv [OF assms(1,2)] by (metis snd_conv)
  then show ?thesis
    using h assms(3) by (auto simp: assms(6) post_server_def do_POST_def authorize_def auth_levels_def Let_def tree_cache_op_def
        json_get_def seqp_def ret_def reply_of_def attempt_result_def op_result_def kill_answer_def)
qed

section \<open>The deployed backend\<close>

text \<open>The client, the network, the server and its engine together.\<close>

definition remote_kv :: "http_config \<Rightarrow> 'c radix_engine \<Rightarrow> (fault list \<times> 'c) server" where
  "remote_kv C E = over_network (post_server (hc_base_url C) E)"

lemma remote_tree_server:
  "radix_contract E ctrees cinv \<Longrightarrow> tree_server (remote_kv C E) (\<lambda>x. ctrees (snd x)) (\<lambda>x. cinv (snd x))"
  unfolding remote_kv_def by (intro tree_server.network_tree_server radix_contract.post_tree_server)

text \<open>In particular over the server of the repository with \<open>TreeKVCache\<close> as its engine.\<close>

interpretation net_cache: tree_server "remote_kv C (pooled_engine clk)" "\<lambda>x. keys (kv_trees (pc_cache (snd x)))"
  "\<lambda>x. cache_dicts (pc_cache (snd x))" for C clk
  by (rule remote_tree_server [OF pooled.radix_contract_axioms])

lemma remote_kv_contract:
  assumes "radix_contract E ctrees cinv"
  shows "kv_contract (http_kv_backend C (remote_kv C E)) (\<lambda>s. ctrees (snd (hb_server s))) (\<lambda>s. cinv (snd (hb_server s)))"
  by (rule tree_server.http_contract [OF remote_tree_server [OF assms]])

lemma remote_kill_trees:
  assumes "radix_contract E ctrees cinv" "cinv (snd (hb_server s))"
    and "http_kill C (remote_kv C E) b s = (Inr n, s')"
  shows "ctrees (snd (hb_server s')) = ctrees (snd (hb_server s)) - {b}"
proof -
  note remote = remote_tree_server [OF assms(1), of C]
  have "b \<notin> ctrees (snd (hb_server s'))"
    using tree_server.method_returns(3) [OF remote] assms(2,3) by blast
  moreover have "touches_only b (ctrees (snd (hb_server s))) (ctrees (snd (hb_server s')))"
    using tree_server.method_touches(3) [OF remote, of s C b] assms(2,3) by simp
  ultimately show ?thesis by (auto simp: touches_only_def)
qed

section \<open>A sample deployment\<close>

text \<open>A server on this host that holds the branches \<open>a\<close> and \<open>a/1\<close>, behind a network that fails twice.\<close>

definition remote_config :: http_config where
  "remote_config = \<lparr>hc_base_url = ''http://localhost'', hc_api_key = None, hc_admin_key = Some ''k'',
     hc_max_retries = 2, hc_retry_delay = 1\<rparr>"

definition demo_cache :: kv_cache where
  "demo_cache = snd (fork_branch ''a'' (Some ''a/1'') (snd (extend_kv real ''a'' [1, 2] (snd (create_tree real ''a''
     (case kv_init 8 None of Inr s \<Rightarrow> s | Inl _ \<Rightarrow> undefined))))))"

definition demo_remote :: "fault list \<Rightarrow> (fault list \<times> pooled_cache) http_backend" where
  "demo_remote fs = hb_new (fs, \<lparr>pc_cache = demo_cache, pc_free = 6\<rparr>)"

lemma demo_cache_ok: "cache_dicts demo_cache"
proof -
  have "cache_dicts s" if "kv_init 8 None = Inr s" for s using that by (auto simp: kv_init_def cache_dicts_def)
  then have "cache_dicts (case kv_init 8 None of Inr s \<Rightarrow> s | Inl _ \<Rightarrow> undefined)" by (simp add: kv_init_def)
  then show ?thesis
    unfolding demo_cache_def by (intro cache_dicts_fork same_dicts_inv [OF same_dicts_extend] cache_dicts_create)
qed

lemma demo_trees: "keys (kv_trees demo_cache) = {''a'', ''a/1''}"
  "keys (kv_trees demo_cache) - {''a/1''} = {''a''}" "keys (kv_trees demo_cache) - {''a''} = {''a/1''}"
  by code_simp+

section \<open>Properties\<close>

text \<open>
  C22: A kill that returns has removed its branch from the server, and no other branch, whatever
  requests and replies the network lost on the way: the retries and the reading of \<open>no such\<close> as
  success are sound.
\<close>

theorem http_kill_removes:
  assumes "radix_contract E ctrees cinv" "cinv (snd (hb_server s))"
    and "http_kill C (remote_kv C E) b s = (Inr n, s')"
  shows "ctrees (snd (hb_server s')) = ctrees (snd (hb_server s)) - {b}"
  by (rule remote_kill_trees [OF assms])

theorem http_kill_removes_witness:
  "\<exists>n s'. http_kill remote_config (remote_kv remote_config (pooled_engine real)) ''a'' (demo_remote [LostReply, Overloaded]) = (Inr n, s') \<and>
    keys (kv_trees (pc_cache (snd (hb_server s')))) = {''a/1''}"
proof -
  let ?s = "demo_remote [LostReply, Overloaded]"
  have "fst (http_kill remote_config (remote_kv remote_config (pooled_engine real)) ''a'' ?s) = Inr 0" by code_simp
  then obtain s' where run: "http_kill remote_config (remote_kv remote_config (pooled_engine real)) ''a'' ?s = (Inr 0, s')"
    by (metis prod.collapse)
  have "keys (kv_trees (pc_cache (snd (hb_server s')))) = keys (kv_trees (pc_cache (snd (hb_server ?s)))) - {''a''}"
    by (rule http_kill_removes [OF pooled.radix_contract_axioms _ run]) (simp add: demo_remote_def hb_new_def demo_cache_ok)
  then show ?thesis using run demo_trees by (auto simp: demo_remote_def hb_new_def)
qed

text \<open>
  C23: When the network fails at most \<open>max_retries\<close> times, by losing the request, losing the reply
  or answering 503, a kill of a branch with nothing in flight returns and the branch is gone.  The
  engine kills a branch it holds and answers \<open>no such\<close> for one it does not: after a lost reply the
  retry is answered so, and \<open>_operation\<close> reads that as success.
\<close>

theorem http_kill_gets_through:
  assumes "radix_contract E ctrees cinv" "cinv c" "hb_server s = (fs, c)"
    and "set fs \<subseteq> {LostRequest, LostReply, Overloaded}" "length fs \<le> hc_max_retries C"
    and "b \<notin> hb_closing s" "dget (hb_active s) b = None"
    and "rx_decide_auth E ''/tree_cache'' (rq_auth (op_request C ''kill'' b [])) ADMIN_FORCE = None"
    and "\<And>c. cinv c \<Longrightarrow> b \<in> ctrees c \<Longrightarrow>
      \<exists>v. fst (rx_handle E (JStr ''kill'') (JStr b) JNull JNull JNull c) = Inr (OpSuccess (JInt v))"
    and "\<And>c. cinv c \<Longrightarrow> b \<notin> ctrees c \<Longrightarrow>
      \<exists>m. fst (rx_handle E (JStr ''kill'') (JStr b) JNull JNull JNull c) = Inr (OpFailure m) \<and> contains ''no such'' (str_lower m)"
  shows "\<exists>n s'. http_kill C (remote_kv C E) b s = (Inr n, s') \<and> ctrees (snd (hb_server s')) = ctrees c - {b}"
proof -
  let ?s1 = "s\<lparr>hb_closing := insert b (hb_closing s)\<rparr>" and ?rq = "op_request C ''kill'' b []"
  have "\<exists>r c' fs. post_server (hc_base_url C) E ?rq c = (r, c') \<and> attempt_result True r = Some (Inr fs) \<and> kill_answer fs \<and> cinv c'"
    if "cinv c" for c
    by (rule post_kill [OF assms(1) that assms(8) assms(9) [OF that] assms(10) [OF that]]) (simp_all add: op_request_def)
  note through = loop_through [where P = cinv and Q = kill_answer and s = ?s1 and srv = "post_server (hc_base_url C) E" and rq = ?rq,
      OF this assms(4,5) _ assms(2)]
  then obtain fs s2 where loop: "request_loop C (remote_kv C E) ?rq True 0 (hc_max_retries C) ?s1 = (Inr fs, s2)" "kill_answer fs"
    unfolding remote_kv_def using assms(3) by fastforce
  then obtain n where "operation C (remote_kv C E) ''kill'' b [] ?s1 = (Inr fs, s2)" "int_or_zero (map_of fs ''value'') = Inr n"
    using kill_answer_accepted [OF loop] by blast
  then obtain s' where run: "http_kill C (remote_kv C E) b s = (Inr n, s')"
    using assms(6,7) by (auto simp: http_kill_def proc_defs of_sum_def)
  then show ?thesis using remote_kill_trees [OF assms(1) _ run] assms(2,3) by auto
qed

theorem http_kill_gets_through_witness:
  "\<exists>n s'. http_kill remote_config (remote_kv remote_config (pooled_engine real)) ''a/1'' (demo_remote [LostReply, LostRequest]) = (Inr n, s') \<and>
    keys (kv_trees (pc_cache (snd (hb_server s')))) = {''a''}"
proof -
  let ?answer = "\<lambda>c. fst (rx_handle (pooled_engine real) (JStr ''kill'') (JStr ''a/1'') JNull JNull JNull c)"
  have held: "\<exists>v. ?answer c = Inr (OpSuccess (JInt v))" if "cache_dicts (pc_cache c)" "''a/1'' \<in> keys (kv_trees (pc_cache c))" for c
    using kill_total [OF that(1), of "''a/1''"] that(2)
    by (auto simp: pooled_engine_def pooled_handle_def handled_def on_cache_def has_tree_def proc_defs)
  have auth: "rx_decide_auth (pooled_engine real) p k l = None" for p k l by (simp add: pooled_engine_def)
  have absent: "\<exists>m. ?answer c = Inr (OpFailure m) \<and> contains ''no such'' (str_lower m)"
    if "''a/1'' \<notin> keys (kv_trees (pc_cache c))" for c
  proof -
    have "?answer c = Inr (OpFailure ''no such branch'')"
      using that by (simp add: pooled_engine_def pooled_handle_def handled_def has_tree_def is_key_error_def proc_defs)
    moreover have "contains ''no such'' (str_lower ''no such branch'')" by code_simp
    ultimately show ?thesis by blast
  qed
  have "\<exists>n s'. http_kill remote_config (remote_kv remote_config (pooled_engine real)) ''a/1'' (demo_remote [LostReply, LostRequest]) =
      (Inr n, s') \<and> keys (kv_trees (pc_cache (snd (hb_server s')))) = keys (kv_trees demo_cache) - {''a/1''}"
    using http_kill_gets_through [OF pooled.radix_contract_axioms, of "\<lparr>pc_cache = demo_cache, pc_free = 6\<rparr>"
        "demo_remote [LostReply, LostRequest]" "[LostReply, LostRequest]" remote_config "''a/1''" real, OF _ _ _ _ _ _ _ held absent]
      auth demo_cache_ok unfolding demo_remote_def hb_new_def remote_config_def by simp
  then show ?thesis unfolding demo_trees(2) .
qed

text \<open>
  C24: An operation sends one request, or for \<open>kill\<close>, \<open>telemetry\<close> and \<open>invalidate\<close> at most
  \<open>max_retries\<close> more, all of them the same, with pauses that double; \<open>create\<close>, \<open>fork\<close> and \<open>reserve\<close>, which are
  not idempotent, are never repeated.
\<close>

theorem http_request_bound:
  "\<exists>k. k \<le> (if op \<in> {''kill'', ''telemetry'', ''invalidate''} then hc_max_retries C else 0) \<and>
     hb_sent (snd (operation C srv op b extra s)) = hb_sent s @ replicate (Suc k) (op_request C op b extra) \<and>
     hb_sleeps (snd (operation C srv op b extra s)) = hb_sleeps s @ map (\<lambda>i. hc_retry_delay C * 2 ^ i) [0..<k]"
  using operation_sent [of C op srv b extra s] unfolding op_retries_def by blast

text \<open>
  A backend that \<open>__init__\<close> accepts for a host other than this one, without \<open>allow_insecure\<close>, sends
  every operation to an HTTPS URL and with a non-empty bearer token.
\<close>

theorem http_credentials:
  assumes "http_init ip_ok url api_key admin_key retries delay False = Inr C"
    and "urlparse ip_ok (hc_base_url C) = Inr (scheme, host)"
    and "host \<notin> {Some ''localhost'', Some ''127.0.0.1'', Some ''::1''}"
    and "rq \<in> set (drop (length (hb_sent s)) (hb_sent (snd (operation C srv op b extra s))))"
  shows "scheme = ''https'' \<and> rq_url rq = hc_base_url C @ ''/tree_cache'' \<and>
    (\<exists>k. k \<noteq> [] \<and> rq_auth rq = Some (''Bearer '' @ k))"
proof -
  obtain k where "hb_sent (snd (operation C srv op b extra s)) = hb_sent s @ replicate (Suc k) (op_request C op b extra)"
    using operation_sent by blast
  then have rq: "rq = op_request C op b extra" using assms(4) by auto
  have "scheme = ''https''" "given (hc_admin_key C)"
    using assms(1-3) by (auto simp: http_init_def Let_def split: if_splits sum.splits)
  then show ?thesis by (auto simp: rq op_request_def given_def)
qed

text \<open>
  No call leaves a trace in the in-flight counts or among the branches being killed, whether
  it returns or raises, so a later kill waits only for calls that are still running.
\<close>

theorem http_books_balanced:
  assumes "counts_ok s"
    and "s' \<in> {snd (http_create C srv b s), snd (http_fork C srv p c s), snd (http_kill C srv b s),
      snd (http_reserve C srv b n s), snd (http_has_tree C srv b s), snd (http_generate C srv b prompt params fin rsv s)}"
  shows "dget (hb_active s') = dget (hb_active s) \<and> hb_closing s' = hb_closing s"
proof -
  have "flight_view s' = flight_view s"
    using assms(2) by (elim insertE emptyE)
      (simp_all only: view_fork [OF assms(1)] view_generate [OF assms(1)] view_kill view_others)
  then show ?thesis by (simp add: flight_view_def)
qed

text \<open>A fork of \<open>a\<close> while two requests on it are in flight.\<close>

theorem http_books_balanced_witness:
  "dget (hb_active (snd (http_fork remote_config (remote_kv remote_config (pooled_engine real)) ''a'' (Some ''c'')
     ((demo_remote [])\<lparr>hb_active := [(''a'', 2)], hb_namespaces := [(''a'', ''a'')]\<rparr>)))) ''a'' = Some 2"
proof -
  let ?s = "(demo_remote [])\<lparr>hb_active := [(''a'', 2)], hb_namespaces := [(''a'', ''a'')]\<rparr>"
  have "counts_ok ?s" by (simp add: counts_ok_def)
  from http_books_balanced [OF this, where s' = "snd (http_fork remote_config (remote_kv remote_config (pooled_engine real)) ''a'' (Some ''c'') ?s)"]
  show ?thesis by fastforce
qed

theorem http_credentials_witness:
  "rq_auth (hd (hb_sent (snd (operation (case http_init (\<lambda>_. True) ''https://h'' (Some ''k'') None 1 1 False of Inr C \<Rightarrow> C)
     (\<lambda>rq s. (URLError, s)) ''fork'' ''c'' [] (hb_new ()))))) = Some ''Bearer k''"
proof -
  let ?C = "\<lparr>hc_base_url = ''https://h'', hc_api_key = Some ''k'', hc_admin_key = Some ''k'', hc_max_retries = 1, hc_retry_delay = 1\<rparr>"
  have init: "http_init (\<lambda>_. True) ''https://h'' (Some ''k'') None 1 1 False = Inr ?C" by code_simp
  have url: "urlparse (\<lambda>_. True) (hc_base_url ?C) = Inr (''https'', Some ''h'')" by code_simp
  let ?rq = "op_request ?C ''fork'' ''c'' []"
  have sent: "hb_sent (snd (operation ?C (\<lambda>rq s. (URLError, s)) ''fork'' ''c'' [] (hb_new ()))) = [?rq]"
    using operation_sent [of ?C "''fork''" "\<lambda>rq s. (URLError, s)" "''c''" "[]" "hb_new ()"]
    by (simp add: op_retries_def hb_new_def)
  have "\<exists>k. k \<noteq> [] \<and> rq_auth ?rq = Some (''Bearer '' @ k)"
    using http_credentials [OF init url, of ?rq "hb_new ()" "\<lambda>rq s. (URLError, s)" "''fork''" "''c''" "[]"] sent
    by (simp add: hb_new_def)
  then show ?thesis using init sent by (simp add: op_request_def given_def)
qed

section \<open>Observations\<close>

text \<open>
  A connection that drops while the response is awaited is not retried: the kill raises although
  the branch is gone, unlike with a lost reply.
\<close>

lemma dropped_connection_not_retried:
  "fst (http_kill remote_config (remote_kv remote_config (pooled_engine real)) ''a'' (demo_remote [ConnectionReset])) = Inl OSError"
  "fst (http_kill remote_config (remote_kv remote_config (pooled_engine real)) ''a'' (demo_remote [LostReply])) = Inr 0"
  by code_simp+

text \<open>
  A generate that the cache refuses for lack of room keeps the slots that were allocated for it:
  three of the six free slots are gone and no branch holds them.
\<close>

definition full_cache :: pooled_cache where
  "full_cache = \<lparr>pc_cache = demo_cache\<lparr>kv_capacity := 2\<rparr>, pc_free = 6\<rparr>"

lemma refused_generate_leaks_slots:
  "let r = tree_generate (pooled_engine real)
       (JObj [(''branch_id'', JStr ''a''), (''tree_id'', JStr ''a''), (''input_ids'', JArr (map JInt [1, 2, 3, 4, 5]))]) full_cache
   in fst r = Inr (400, error_body ''refused'') \<and> pc_free (snd r) = 3 \<and>
      dget (kv_seqs (pc_cache (snd r))) ''a'' = Some [1, 2]"
  by code_simp

end
