(* ===== verification/SGLang_HTTP_Threads.thy ===== *)
theory SGLang_HTTP_Threads
  imports SGLang_HTTP_Props
begin

text \<open>
  \<open>SGLangHTTPBackend\<close> under concurrent callers.  The blocks under \<open>with self._condition\<close> are atomic
  and what happens between them is one step of the calling thread, so an execution is an
  interleaving of the steps below.  A thread in a wait has no step until its condition holds or its
  deadline passes.
\<close>

section \<open>Steps\<close>

datatype pc =
    Idle
  | Requesting string
  | Draining string
  | Deleting string

type_synonym 's world = "'s http_backend \<times> (nat \<Rightarrow> pc)"

definition active_count :: "'s http_backend \<Rightarrow> string \<Rightarrow> int" where
  "active_count s b = (case dget (hb_active s) b of None \<Rightarrow> 0 | Some n \<Rightarrow> n)"

text \<open>
  \<open>start\<close> and \<open>finish\<close> are the two critical sections of \<open>fork_branch\<close> (on the parent) and of \<open>generate\<close>;
  \<open>claim\<close>, \<open>give_up\<close>, \<open>drained\<close> and \<open>release\<close> those of \<open>kill\<close>.  \<open>remote\<close> is everything that changes the server
  or the table of branches outside them: requests on the wire, \<open>create_tree\<close>, the end of a fork.
\<close>

inductive http_step :: "'s world \<Rightarrow> 's world \<Rightarrow> bool" where
  start: "pc i = Idle \<Longrightarrow> b \<notin> hb_closing s \<Longrightarrow> b \<in> keys (hb_namespaces s) \<Longrightarrow> enter b s = (Inr (), s') \<Longrightarrow>
    http_step (s, pc) (s', pc(i := Requesting b))"
| finish: "pc i = Requesting b \<Longrightarrow> leave b s = (r, s') \<Longrightarrow> http_step (s, pc) (s', pc(i := Idle))"
| claim: "pc i = Idle \<Longrightarrow> t \<notin> hb_closing s \<Longrightarrow>
    http_step (s, pc) (s\<lparr>hb_closing := insert t (hb_closing s)\<rparr>, pc(i := Draining t))"
| give_up: "pc i = Draining t \<Longrightarrow> active_count s t \<noteq> 0 \<Longrightarrow>
    http_step (s, pc) (s\<lparr>hb_closing := hb_closing s - {t}\<rparr>, pc(i := Idle))"
| drained: "pc i = Draining t \<Longrightarrow> active_count s t = 0 \<Longrightarrow> http_step (s, pc) (s, pc(i := Deleting t))"
| release: "pc i = Deleting t \<Longrightarrow>
    http_step (s, pc) (s\<lparr>hb_closing := hb_closing s - {t}\<rparr>, pc(i := Idle))"
| remote: "hb_active s' = hb_active s \<Longrightarrow> hb_closing s' = hb_closing s \<Longrightarrow> http_step (s, pc) (s', pc)"

inductive_cases http_stepE: "http_step (s, pc) (s', pc')"

inductive http_reach :: "'s world \<Rightarrow> bool" where
  init: "http_reach (hb_new srv, \<lambda>_. Idle)"
| step: "http_reach w \<Longrightarrow> http_step w w' \<Longrightarrow> http_reach w'"

section \<open>The invariant\<close>

definition requesters :: "(nat \<Rightarrow> pc) \<Rightarrow> string \<Rightarrow> nat set" where
  "requesters pc b = {i. pc i = Requesting b}"

definition killers :: "(nat \<Rightarrow> pc) \<Rightarrow> string \<Rightarrow> nat set" where
  "killers pc t = {i. pc i = Draining t \<or> pc i = Deleting t}"

definition counted :: "'s world \<Rightarrow> bool" where
  "counted w \<longleftrightarrow> (\<forall>b. finite (requesters (snd w) b) \<and> dget (hb_active (fst w)) b =
     (if requesters (snd w) b = {} then None else Some (int (card (requesters (snd w) b)))))"

definition owned :: "'s world \<Rightarrow> bool" where
  "owned w \<longleftrightarrow> (\<forall>t. t \<in> hb_closing (fst w) \<longleftrightarrow> killers (snd w) t \<noteq> {}) \<and>
     (\<forall>t i j. i \<in> killers (snd w) t \<longrightarrow> j \<in> killers (snd w) t \<longrightarrow> i = j)"

definition exclusive :: "'s world \<Rightarrow> bool" where
  "exclusive w \<longleftrightarrow> (\<forall>t i. snd w i = Deleting t \<longrightarrow> requesters (snd w) t = {})"

lemma requesters_upd:
  "requesters (pc(i := Requesting b)) c = (if c = b then insert i (requesters pc c) else requesters pc c - {i})"
  "requesters (pc(i := Idle)) c = requesters pc c - {i}"
  "requesters (pc(i := Draining t)) c = requesters pc c - {i}"
  "requesters (pc(i := Deleting t)) c = requesters pc c - {i}"
  by (auto simp: requesters_def)

lemma killers_upd:
  "killers (pc(i := Requesting b)) c = killers pc c - {i}"
  "killers (pc(i := Idle)) c = killers pc c - {i}"
  "killers (pc(i := Draining t)) c = (if c = t then insert i (killers pc c) else killers pc c - {i})"
  "killers (pc(i := Deleting t)) c = (if c = t then insert i (killers pc c) else killers pc c - {i})"
  by (auto simp: killers_def)

lemma not_requesting: "(\<And>b. pc i \<noteq> Requesting b) \<Longrightarrow> requesters pc c - {i} = requesters pc c"
  by (auto simp: requesters_def)

lemma not_killing: "(\<And>t. pc i \<noteq> Draining t \<and> pc i \<noteq> Deleting t) \<Longrightarrow> killers pc c - {i} = killers pc c"
  by (auto simp: killers_def)

lemma active_count_counted: "counted (s, pc) \<Longrightarrow> active_count s b = int (card (requesters pc b))"
  by (auto simp: counted_def active_count_def)

lemma counted_frame:
  assumes "counted (s, pc)" "hb_active s' = hb_active s" "\<And>b. requesters pc' b = requesters pc b"
  shows "counted (s', pc')"
  using assms by (simp add: counted_def)

lemma counted_start:
  assumes "counted (s, pc)" "pc i = Idle" "enter b s = (Inr (), s')"
  shows "counted (s', pc(i := Requesting b))"
proof -
  have i: "i \<notin> requesters pc c" for c using assms(2) by (simp add: requesters_def)
  then show ?thesis
    using assms(1,3) by (auto simp: counted_def enter_def modp_def requesters_upd card_insert_if split: if_splits)
qed

lemma counted_finish:
  assumes "counted (s, pc)" "pc i = Requesting b" "leave b s = (r, s')"
  shows "r = Inr () \<and> counted (s', pc(i := Idle))"
proof -
  let ?R = "requesters pc b"
  have i: "i \<in> ?R" "i \<notin> requesters pc c" if "c \<noteq> b" for c using assms(2) that by (auto simp: requesters_def)
  have iR: "i \<in> ?R" using assms(2) by (simp add: requesters_def)
  have act: "finite ?R" "dget (hb_active s) b = Some (int (card ?R))" using assms(1) iR by (auto simp: counted_def)
  then have card: "card (?R - {i}) = card ?R - 1" "0 < card ?R" using iR by (auto simp: card_gt_0_iff)
  have s': "r = Inr ()" "s' = s\<lparr>hb_active := (if int (card ?R) - 1 \<noteq> 0 then dset b (int (card ?R) - 1) (hb_active s) else ddel b (hb_active s))\<rparr>"
    using assms(3) act by (simp_all add: leave_def)
  have "dget (hb_active s') c = (if requesters (pc(i := Idle)) c = {} then None else Some (int (card (requesters (pc(i := Idle)) c))))" for c
  proof (cases "c = b")
    case True
    have "?R - {i} = {} \<longleftrightarrow> card ?R = 1" using card act(1) by (metis One_nat_def card_0_eq diff_Suc_1 finite_Diff Suc_diff_1 zero_less_one)
    then show ?thesis using True card s' by (auto simp: requesters_upd of_nat_diff)
  next
    case False
    then show ?thesis using i(2) [OF False] assms(1) s' by (simp add: requesters_upd counted_def)
  qed
  then show ?thesis using s'(1) assms(1) by (simp add: counted_def requesters_upd)
qed

lemma step_counted: "http_step w w' \<Longrightarrow> counted w \<Longrightarrow> counted w'"
proof (induction rule: http_step.induct)
  case (start pc i b s s')
  then show ?case using counted_start by blast
next
  case (finish pc i b s r s')
  then show ?case using counted_finish by blast
next
  case (remote s' s pc)
  then show ?case using counted_frame by blast
qed (auto elim!: counted_frame simp: requesters_upd not_requesting)

lemma step_owned: "http_step w w' \<Longrightarrow> owned w \<Longrightarrow> owned w'"
proof (induction rule: http_step.induct)
  case (start pc i b s s')
  have "killers (pc(i := Requesting b)) t = killers pc t" for t using start(1) by (simp add: killers_upd not_killing)
  moreover have "hb_closing s' = hb_closing s" using start(4) by (auto simp: enter_def modp_def)
  ultimately show ?case using start(5) by (simp add: owned_def)
next
  case (finish pc i b s r s')
  have "killers (pc(i := Idle)) t = killers pc t" for t using finish(1) by (simp add: killers_upd not_killing)
  moreover have "hb_closing s' = hb_closing s" using finish(2) by (auto simp: leave_def split: option.splits)
  ultimately show ?case using finish(3) by (simp add: owned_def)
next
  case (claim pc i t s)
  then have "killers (pc(i := Draining t)) c = (if c = t then {i} else killers pc c)" for c
    by (auto simp: killers_upd not_killing owned_def)
  then show ?case using claim(3) by (auto simp: owned_def)
next
  case (drained pc i t s)
  then have "killers (pc(i := Deleting t)) c = killers pc c" for c by (auto simp: killers_def)
  then show ?case using drained(3) by (simp add: owned_def)
next
  case (give_up pc i t s)
  then have i: "killers pc t = {i}" "\<And>c. c \<noteq> t \<Longrightarrow> i \<notin> killers pc c" by (auto simp: owned_def killers_def)
  then have "killers (pc(i := Idle)) c = (if c = t then {} else killers pc c)" for c by (auto simp: killers_upd)
  then show ?case using give_up(3) by (auto simp: owned_def)
next
  case (release pc i t s)
  then have i: "killers pc t = {i}" "\<And>c. c \<noteq> t \<Longrightarrow> i \<notin> killers pc c" by (auto simp: owned_def killers_def)
  then have "killers (pc(i := Idle)) c = (if c = t then {} else killers pc c)" for c by (auto simp: killers_upd)
  then show ?case using release(2) by (auto simp: owned_def)
qed (simp add: owned_def)

lemma step_exclusive:
  assumes "http_step w w'" "counted w" "owned w" "exclusive w"
  shows "exclusive w'"
  using assms
proof (induction rule: http_step.induct)
  case (start pc i b s s')
  then have "killers pc b = {}" by (simp add: owned_def)
  then have "pc j \<noteq> Deleting b" for j by (auto simp: killers_def)
  then show ?case using start(7) by (auto simp: exclusive_def requesters_upd)
next
  case (drained pc i t s)
  have "requesters pc t = {}"
    using drained active_count_counted [OF drained(3), of t] by (auto simp: counted_def)
  then show ?case using drained(5) by (auto simp: exclusive_def requesters_upd)
qed (auto simp: exclusive_def requesters_upd)

lemma reach_inv: "http_reach w \<Longrightarrow> counted w \<and> owned w \<and> exclusive w"
proof (induction rule: http_reach.induct)
  case (init srv)
  show ?case by (simp add: counted_def owned_def exclusive_def hb_new_def requesters_def killers_def)
next
  case (step w w')
  then show ?case using step_counted step_owned step_exclusive by blast
qed

section \<open>Properties\<close>

text \<open>A kill that drains stays in the way of new requests on its branch.\<close>

lemma draining_shrinks:
  assumes "http_reach (s, pc)" "http_step (s, pc) (s', pc')" "i \<in> killers pc t"
  shows "requesters pc' t \<subseteq> requesters pc t"
proof -
  have "t \<in> hb_closing s" using reach_inv [OF assms(1)] assms(3) by (auto simp: owned_def)
  with assms(2) show ?thesis by (cases rule: http_stepE) (auto simp: requesters_upd split: if_splits)
qed

text \<open>It gets to delete once the requests in flight have returned.\<close>

lemma draining_ends:
  "http_reach (s, pc) \<Longrightarrow> pc i = Draining t \<Longrightarrow> \<exists>s' pc'. http_step\<^sup>*\<^sup>* (s, pc) (s', pc') \<and> pc' i = Deleting t"
proof (induction "card (requesters pc t)" arbitrary: s pc)
  case 0
  then have "active_count s t = 0" using reach_inv active_count_counted [of s pc t] by fastforce
  then have "http_step (s, pc) (s, pc(i := Deleting t))" using 0 by (auto intro: http_step.drained)
  then show ?case by (intro exI conjI, rule r_into_rtranclp) auto
next
  case (Suc n)
  then obtain j where j: "j \<in> requesters pc t" by (metis card.empty ex_in_conv nat.distinct(1))
  then have pj: "pc j = Requesting t" by (simp add: requesters_def)
  obtain r s1 where l: "leave t s = (r, s1)" by fastforce
  have step: "http_step (s, pc) (s1, pc(j := Idle))" using pj l by (rule http_step.finish)
  have "finite (requesters pc t)" using reach_inv [OF Suc.prems(1)] by (auto simp: counted_def)
  then have "n = card (requesters (pc(j := Idle)) t)" using Suc(2) j by (simp add: requesters_upd)
  moreover have "(pc(j := Idle)) i = Draining t" using Suc.prems(2) pj by auto
  ultimately obtain s' pc' where "http_step\<^sup>*\<^sup>* (s1, pc(j := Idle)) (s', pc')" "pc' i = Deleting t"
    using Suc(1) http_reach.step [OF Suc.prems(1) step] by blast
  then show ?case using step by (meson converse_rtranclp_into_rtranclp)
qed

text \<open>
  Under every interleaving of callers, while a kill has its delete request on the wire no
  fork from its branch and no generate on it is in flight, and no other kill of the branch is under way.
\<close>

theorem http_kill_exclusive:
  assumes "http_reach (s, pc)" "pc i = Deleting t"
  shows "(\<forall>j. pc j \<noteq> Requesting t) \<and> (\<forall>j. j \<noteq> i \<longrightarrow> pc j \<noteq> Draining t \<and> pc j \<noteq> Deleting t) \<and>
    t \<in> hb_closing s"
proof -
  note inv = reach_inv [OF assms(1)]
  have "requesters pc t = {}" using inv assms(2) by (auto simp: exclusive_def)
  moreover have "i \<in> killers pc t" using assms(2) by (simp add: killers_def)
  ultimately show ?thesis using inv by (auto simp: owned_def requesters_def killers_def)
qed

text \<open>
  Thread 1 kills \<open>a\<close> while thread 0 has a request on \<open>b\<close> in flight.
\<close>

definition two_branches :: "unit http_backend" where
  "two_branches = (hb_new ())\<lparr>hb_namespaces := [(''a'', ''a''), (''b'', ''b'')]\<rparr>"

lemma two_branches_run:
  "http_reach (two_branches\<lparr>hb_active := [(''b'', 1)], hb_closing := {''a''}\<rparr>, (\<lambda>_. Idle)(0 := Requesting ''b'', 1 := Deleting ''a''))"
proof -
  have 0: "http_reach (two_branches, \<lambda>_. Idle)"
    by (rule http_reach.step [OF http_reach.init http_step.remote]) (simp_all add: two_branches_def)
  have 1: "http_reach (two_branches\<lparr>hb_active := [(''b'', 1)]\<rparr>, (\<lambda>_. Idle)(0 := Requesting ''b''))"
    by (rule http_reach.step [OF 0 http_step.start]) (simp_all add: two_branches_def hb_new_def enter_def modp_def)
  have 2: "http_reach (two_branches\<lparr>hb_active := [(''b'', 1)], hb_closing := insert ''a'' {}\<rparr>,
      ((\<lambda>_. Idle)(0 := Requesting ''b''))(1 := Draining ''a''))"
    using http_reach.step [OF 1 http_step.claim [where i = 1 and t = "''a''"]] by (simp add: two_branches_def hb_new_def)
  show ?thesis
    using http_reach.step [OF 2 http_step.drained [where i = 1 and t = "''a''"]]
    by (simp add: active_count_def two_branches_def)
qed

theorem http_kill_exclusive_witness:
  "(\<forall>j. ((\<lambda>_. Idle)(0 := Requesting ''b'', 1 := Deleting ''a'')) j \<noteq> Requesting ''a'')"
  using http_kill_exclusive [OF two_branches_run, of 1 "''a''"] by simp

text \<open>
  While a kill waits for the requests in flight, no step of any thread adds one on its branch,
  and the requests that are there can return, after which the kill proceeds to its delete request: it is never blocked for ever.
\<close>

theorem http_kill_not_blocked:
  assumes "http_reach (s, pc)" "pc i = Draining t"
  shows "(\<forall>s' pc'. http_step (s, pc) (s', pc') \<longrightarrow> requesters pc' t \<subseteq> requesters pc t) \<and>
    (\<exists>s' pc'. http_step\<^sup>*\<^sup>* (s, pc) (s', pc') \<and> pc' i = Deleting t)"
proof -
  have "i \<in> killers pc t" using assms(2) by (simp add: killers_def)
  then show ?thesis using draining_shrinks [OF assms(1)] draining_ends [OF assms] by blast
qed

theorem http_kill_not_blocked_witness:
  "\<exists>s' pc'. http_step\<^sup>*\<^sup>* (two_branches\<lparr>hb_active := [(''b'', 1)], hb_closing := {''b''}\<rparr>,
     (\<lambda>_. Idle)(0 := Requesting ''b'', 1 := Draining ''b'')) (s', pc') \<and> pc' 1 = Deleting ''b''"
proof -
  have 0: "http_reach (two_branches, \<lambda>_. Idle)"
    by (rule http_reach.step [OF http_reach.init http_step.remote]) (simp_all add: two_branches_def)
  have 1: "http_reach (two_branches\<lparr>hb_active := [(''b'', 1)]\<rparr>, (\<lambda>_. Idle)(0 := Requesting ''b''))"
    by (rule http_reach.step [OF 0 http_step.start]) (simp_all add: two_branches_def hb_new_def enter_def modp_def)
  have "http_reach (two_branches\<lparr>hb_active := [(''b'', 1)], hb_closing := {''b''}\<rparr>,
      (\<lambda>_. Idle)(0 := Requesting ''b'', 1 := Draining ''b''))"
    using http_reach.step [OF 1 http_step.claim [where i = 1 and t = "''b''"]] by (simp add: two_branches_def hb_new_def)
  from http_kill_not_blocked [OF this, of 1 "''b''"] show ?thesis by auto
qed

end
