(* ===== verification/Netns.thy ===== *)
theory Netns
  imports Backends
begin

text \<open>
  \<open>sandbox/netns.py\<close>: \<open>NetnsManager\<close>, which gives each branch a network namespace and a /30 of the
  host subnet.  The command runner is a parameter over a world of its own; SHA-256 is a
  parameter.  The host subnet is given parsed, as \<open>ipaddress.ip_network\<close> gives it for IPv4: the
  number of its first address and its prefix length.
\<close>

section \<open>Configuration and state\<close>

record network_config =
  nc_uplink :: string
  nc_base :: int
  nc_prefix :: nat

definition TAP_DEV :: string where "TAP_DEV = ''tap0''"

definition GUEST_GW :: string where "GUEST_GW = ''172.16.0.1''"

definition GUEST_MASK :: int where "GUEST_MASK = 30"

text \<open>The log \<open>nn_log\<close> lists the commands given to the runner, with their \<open>check\<close> flag.\<close>

record 'w netns =
  nn_world :: 'w
  nn_free :: "int list"
  nn_next :: int
  nn_log :: "(string list \<times> bool) list"

type_synonym 'w runner = "string list \<Rightarrow> bool \<Rightarrow> ('w, unit) proc"

definition num_addresses :: "network_config \<Rightarrow> int" where
  "num_addresses cfg = 2 ^ (32 - nc_prefix cfg)"

definition net_capacity :: "network_config \<Rightarrow> int" where
  "net_capacity cfg = num_addresses cfg div 4"

definition netns_init :: "'w \<Rightarrow> 'w netns" where
  "netns_init w = \<lparr>nn_world = w, nn_free = [], nn_next = 0, nn_log = []\<rparr>"

section \<open>The index allocator\<close>

definition net_allocate :: "network_config \<Rightarrow> ('w netns, int) proc" where
  "net_allocate cfg s =
     (if nn_free s \<noteq> [] then (Inr (last (nn_free s)), s\<lparr>nn_free := butlast (nn_free s)\<rparr>)
      else if nn_next s \<ge> net_capacity cfg then (Inl RuntimeError, s)
      else (Inr (nn_next s), s\<lparr>nn_next := nn_next s + 1\<rparr>))"

definition net_release :: "int \<Rightarrow> ('w netns, unit) proc" where
  "net_release index s =
     (if index \<in> set (nn_free s) then (Inr (), s) else (Inr (), s\<lparr>nn_free := nn_free s @ [index]\<rparr>))"

definition net_reserve :: "int \<Rightarrow> ('w netns, unit) proc" where
  "net_reserve index s =
     (if index < 0 then (Inl ValueError, s)
      else if index < nn_next s then
        (Inr (), if index \<in> set (nn_free s) then s\<lparr>nn_free := remove1 index (nn_free s)\<rparr> else s)
      else (Inr (), s\<lparr>nn_free := nn_free s @ filter (\<lambda>i. i \<notin> set (nn_free s)) [nn_next s..index - 1],
                      nn_next := index + 1\<rparr>))"

section \<open>Names and addresses\<close>

text \<open>\<open>str.isalnum\<close> below 256.\<close>

definition py_alnum :: "char \<Rightarrow> bool" where
  "py_alnum c \<longleftrightarrow> (let n = (of_char c :: nat) in
     48 \<le> n \<and> n \<le> 57 \<or> 65 \<le> n \<and> n \<le> 90 \<or> 97 \<le> n \<and> n \<le> 122 \<or>
     n \<in> {170, 178, 179, 181, 185, 186, 188, 189, 190} \<or> 192 \<le> n \<and> n \<noteq> 215 \<and> n \<noteq> 247)"

definition net_safe :: "string \<Rightarrow> string" where
  "net_safe b = map (\<lambda>c. if py_alnum c then c else CHR ''-'') b"

definition netns_name :: "(string \<Rightarrow> string) \<Rightarrow> string \<Rightarrow> string" where
  "netns_name sha b =
     (let safe = net_safe b in
      if safe = b \<and> length safe \<le> 40 then ''af-'' @ safe
      else ''af-'' @ take 31 safe @ ''-'' @ take 8 (sha b))"

text \<open>\<open>str\<close> of an IPv4 address.\<close>

definition ip_str :: "int \<Rightarrow> string" where
  "ip_str a = str_int (a div 2 ^ 24 mod 256) @ ''.'' @ str_int (a div 2 ^ 16 mod 256) @ ''.'' @
     str_int (a div 2 ^ 8 mod 256) @ ''.'' @ str_int (a mod 256)"

text \<open>
  \<open>list(network.subnets(new_prefix=30))[index]\<close>: the first address of the /30.  A negative index
  counts from the end, and a subnet smaller than a /30 has no such part with two hosts.
\<close>

definition veth_base :: "network_config \<Rightarrow> int \<Rightarrow> exc + int" where
  "veth_base cfg index =
     (if nc_prefix cfg > 30 then Inl (if nc_prefix cfg = 31 then ValueError else IndexError)
      else let n = net_capacity cfg; i = (if index < 0 then n + index else index) in
        if 0 \<le> i \<and> i < n then Inr (nc_base cfg + 4 * i) else Inl IndexError)"

definition veth_pair :: "network_config \<Rightarrow> int \<Rightarrow> exc + string \<times> string \<times> string \<times> string" where
  "veth_pair cfg index =
     (case veth_base cfg index of
        Inl e \<Rightarrow> Inl e
      | Inr a \<Rightarrow> Inr (''afh'' @ str_int index, ''afg'' @ str_int index, ip_str (a + 1), ip_str (a + 2)))"

definition veth_net :: "network_config \<Rightarrow> int \<Rightarrow> exc + string" where
  "veth_net cfg index = (case veth_base cfg index of Inl e \<Rightarrow> Inl e | Inr a \<Rightarrow> Inr (ip_str a @ ''/30''))"

section \<open>Commands\<close>

definition in_ns :: "string \<Rightarrow> string list \<Rightarrow> string list" where
  "in_ns ns argv = [''ip'', ''netns'', ''exec'', ns] @ argv"

definition setup_cmds :: "(string \<Rightarrow> string) \<Rightarrow> network_config \<Rightarrow> string \<Rightarrow> int \<Rightarrow> exc + string list list" where
  "setup_cmds sha cfg b index =
     (case (veth_pair cfg index, veth_net cfg index) of
        (Inr (h_veth, g_veth, h_ip, g_ip), Inr net) \<Rightarrow>
          let ns = netns_name sha b; up = nc_uplink cfg in
          Inr [[''ip'', ''netns'', ''add'', ns],
            in_ns ns [''ip'', ''tuntap'', ''add'', TAP_DEV, ''mode'', ''tap''],
            in_ns ns [''ip'', ''addr'', ''add'', GUEST_GW @ ''/'' @ str_int GUEST_MASK, ''dev'', TAP_DEV],
            in_ns ns [''ip'', ''link'', ''set'', TAP_DEV, ''up''],
            [''ip'', ''link'', ''add'', h_veth, ''type'', ''veth'', ''peer'', ''name'', g_veth],
            [''ip'', ''link'', ''set'', g_veth, ''netns'', ns],
            [''ip'', ''addr'', ''add'', h_ip @ ''/30'', ''dev'', h_veth],
            [''ip'', ''link'', ''set'', h_veth, ''up''],
            in_ns ns [''ip'', ''addr'', ''add'', g_ip @ ''/30'', ''dev'', g_veth],
            in_ns ns [''ip'', ''link'', ''set'', g_veth, ''up''],
            in_ns ns [''ip'', ''link'', ''set'', ''lo'', ''up''],
            in_ns ns [''ip'', ''route'', ''add'', ''default'', ''via'', h_ip],
            in_ns ns [''iptables'', ''-t'', ''nat'', ''-A'', ''POSTROUTING'', ''-o'', g_veth, ''-j'', ''MASQUERADE''],
            [''iptables'', ''-t'', ''nat'', ''-A'', ''POSTROUTING'', ''-s'', net, ''-o'', up, ''-j'', ''MASQUERADE''],
            [''iptables'', ''-A'', ''FORWARD'', ''-i'', h_veth, ''-o'', up, ''-j'', ''ACCEPT''],
            [''iptables'', ''-A'', ''FORWARD'', ''-i'', up, ''-o'', h_veth, ''-m'', ''state'', ''--state'',
             ''RELATED,ESTABLISHED'', ''-j'', ''ACCEPT'']]
      | (Inl e, _) \<Rightarrow> Inl e
      | (_, Inl e) \<Rightarrow> Inl e)"

definition teardown_cmds :: "(string \<Rightarrow> string) \<Rightarrow> network_config \<Rightarrow> string \<Rightarrow> int \<Rightarrow> exc + string list list" where
  "teardown_cmds sha cfg b index =
     (case (veth_pair cfg index, veth_net cfg index) of
        (Inr (h_veth, _, _, _), Inr net) \<Rightarrow>
          let ns = netns_name sha b; up = nc_uplink cfg in
          Inr [[''iptables'', ''-D'', ''FORWARD'', ''-i'', up, ''-o'', h_veth, ''-m'', ''state'', ''--state'',
             ''RELATED,ESTABLISHED'', ''-j'', ''ACCEPT''],
            [''iptables'', ''-D'', ''FORWARD'', ''-i'', h_veth, ''-o'', up, ''-j'', ''ACCEPT''],
            [''iptables'', ''-t'', ''nat'', ''-D'', ''POSTROUTING'', ''-s'', net, ''-o'', up, ''-j'', ''MASQUERADE''],
            [''ip'', ''link'', ''del'', h_veth],
            [''ip'', ''netns'', ''del'', ns]]
      | (Inl e, _) \<Rightarrow> Inl e
      | (_, Inl e) \<Rightarrow> Inl e)"

section \<open>Set-up and tear-down\<close>

definition net_run :: "'w runner \<Rightarrow> bool \<Rightarrow> string list \<Rightarrow> ('w netns, unit) proc" where
  "net_run run check cmd s =
     (case run cmd check (nn_world s) of (r, w) \<Rightarrow> (r, s\<lparr>nn_world := w, nn_log := nn_log s @ [(cmd, check)]\<rparr>))"

definition of_result :: "exc + 'a \<Rightarrow> ('s, 'a) proc" where
  "of_result r s = (r, s)"

definition net_teardown :: "(string \<Rightarrow> string) \<Rightarrow> network_config \<Rightarrow> 'w runner \<Rightarrow> string \<Rightarrow> int \<Rightarrow> ('w netns, unit) proc" where
  "net_teardown sha cfg run b index =
     seqp (of_result (teardown_cmds sha cfg b index)) (\<lambda>cmds.
     seqp (for_each cmds (\<lambda>cmd. try_except (net_run run False cmd) (\<lambda>_. ret ()))) (\<lambda>_.
       net_release index))"

definition net_setup :: "(string \<Rightarrow> string) \<Rightarrow> network_config \<Rightarrow> 'w runner \<Rightarrow> string \<Rightarrow> ('w netns, string \<times> int) proc" where
  "net_setup sha cfg run b =
     seqp (net_allocate cfg) (\<lambda>index.
     seqp (try_except
             (seqp (of_result (setup_cmds sha cfg b index)) (\<lambda>cmds. for_each cmds (net_run run True)))
             (reraise (net_teardown sha cfg run b index))) (\<lambda>_.
       ret (netns_name sha b, index)))"

end
