(* ===== verification/Netns_Props.thy ===== *)
theory Netns_Props
  imports Netns
begin

text \<open>
  The index allocator of \<open>NetnsManager\<close> refines a set of indices in use; distinct indices get
  disjoint networks; a set-up that fails is rolled back; the tear-down undoes every host rule of the
  set-up.
\<close>

section \<open>The allocator and its specification\<close>

text \<open>The specification: the indices in use.\<close>

definition used :: "'w netns \<Rightarrow> int set" where
  "used s = {0..<nn_next s} - set (nn_free s)"

definition netns_inv :: "'w netns \<Rightarrow> bool" where
  "netns_inv s \<longleftrightarrow> 0 \<le> nn_next s \<and> distinct (nn_free s) \<and> set (nn_free s) \<subseteq> {0..<nn_next s}"

locale index_pool =
  fixes alloc :: "('s, int) proc" and free reserve :: "int \<Rightarrow> ('s, unit) proc"
    and pinv :: "'s \<Rightarrow> bool" and in_use :: "'s \<Rightarrow> int set"
  assumes pool_alloc: "pinv s \<Longrightarrow> alloc s = (Inr i, s') \<Longrightarrow> pinv s' \<and> i \<notin> in_use s \<and> in_use s' = insert i (in_use s)"
    and pool_alloc_fails: "pinv s \<Longrightarrow> alloc s = (Inl e, s') \<Longrightarrow> s' = s"
    and pool_free: "pinv s \<Longrightarrow> i \<in> in_use s \<Longrightarrow> free i s = (Inr (), s') \<Longrightarrow> pinv s' \<and> in_use s' = in_use s - {i}"
    and pool_reserve: "pinv s \<Longrightarrow> reserve i s = (Inr (), s') \<Longrightarrow> pinv s' \<and> in_use s' = insert i (in_use s)"
begin

text \<open>Clients that hold indices from \<open>alloc\<close> and \<open>reserve\<close> and give them back hold pairwise different ones.\<close>

lemma alloc_free:
  assumes "pinv s" "alloc s = (Inr i, s1)" "free i s1 = (Inr (), s2)"
  shows "pinv s2 \<and> in_use s2 = in_use s"
  using pool_alloc [OF assms(1,2)] pool_free [of s1 i s2] assms(3) by auto

lemma alloc_after_reserve:
  assumes "pinv s" "reserve j s = (Inr (), s1)" "alloc s1 = (Inr i, s2)"
  shows "i \<noteq> j"
  using pool_reserve [OF assms(1,2)] pool_alloc [of s1 i s2] assms(3) by auto

end

lemma netns_allocate_ok:
  assumes "netns_inv s" "net_allocate cfg s = (Inr i, s')"
  shows "netns_inv s' \<and> i \<notin> used s \<and> used s' = insert i (used s)"
proof (cases "nn_free s = []")
  case True
  then show ?thesis using assms by (auto simp: net_allocate_def netns_inv_def used_def split: if_splits)
next
  case False
  obtain ys y where f: "nn_free s = ys @ [y]" by (metis False rev_exhaust)
  then have "i = y" "s' = s\<lparr>nn_free := ys\<rparr>" using assms(2) by (auto simp: net_allocate_def)
  then show ?thesis using assms(1) f by (auto simp: netns_inv_def used_def)
qed

lemma netns_reserve_ok:
  assumes "netns_inv s" "net_reserve i s = (Inr (), s')"
  shows "netns_inv s' \<and> used s' = insert i (used s)"
proof (cases "i < nn_next s")
  case True
  then show ?thesis using assms by (auto simp: net_reserve_def netns_inv_def used_def split: if_splits)
next
  case False
  then have i: "0 \<le> i" and s': "s' = s\<lparr>nn_free := nn_free s @ filter (\<lambda>i. i \<notin> set (nn_free s)) [nn_next s..i - 1], nn_next := i + 1\<rparr>"
    using assms(2) by (auto simp: net_reserve_def split: if_splits)
  show ?thesis using assms(1) False i by (auto simp: s' netns_inv_def used_def)
qed

interpretation netns_pool: index_pool "net_allocate cfg" net_release net_reserve netns_inv used for cfg
proof
  fix s s' :: "'a netns" and i e
  assume inv: "netns_inv s"
  show "net_allocate cfg s = (Inr i, s') \<Longrightarrow> netns_inv s' \<and> i \<notin> used s \<and> used s' = insert i (used s)"
    using netns_allocate_ok [OF inv] by blast
  show "net_allocate cfg s = (Inl e, s') \<Longrightarrow> s' = s" by (auto simp: net_allocate_def split: if_splits)
  show "i \<in> used s \<Longrightarrow> net_release i s = (Inr (), s') \<Longrightarrow> netns_inv s' \<and> used s' = used s - {i}"
    using inv by (auto simp: net_release_def netns_inv_def used_def)
  show "net_reserve i s = (Inr (), s') \<Longrightarrow> netns_inv s' \<and> used s' = insert i (used s)"
    using netns_reserve_ok [OF inv] by blast
qed

text \<open>
  An allocation is refused exactly when every index of the subnet is in use; it is within the
  subnet as long as the indices in the free list are.
\<close>

definition fits_subnet :: "network_config \<Rightarrow> 'w netns \<Rightarrow> bool" where
  "fits_subnet cfg s \<longleftrightarrow> nn_next s \<le> net_capacity cfg"

lemma last_free: "netns_inv s \<Longrightarrow> nn_free s \<noteq> [] \<Longrightarrow> last (nn_free s) \<in> {0..<nn_next s}"
  unfolding netns_inv_def using last_in_set [of "nn_free s"] by blast

lemma allocate_refused:
  assumes "netns_inv s" "fits_subnet cfg s"
  shows "(\<exists>e. fst (net_allocate cfg s) = Inl e) \<longleftrightarrow> used s = {0..<net_capacity cfg}"
proof
  assume "\<exists>e. fst (net_allocate cfg s) = Inl e"
  then show "used s = {0..<net_capacity cfg}"
    using assms by (auto simp: net_allocate_def used_def fits_subnet_def split: if_splits)
next
  assume u: "used s = {0..<net_capacity cfg}"
  have "nn_free s = []"
  proof (rule ccontr)
    assume ne: "nn_free s \<noteq> []"
    then have "last (nn_free s) \<in> {0..<net_capacity cfg}"
      using last_free [OF assms(1) ne] assms(2) by (simp add: fits_subnet_def)
    then have "last (nn_free s) \<in> used s" by (simp only: u)
    then show False using last_in_set [OF ne] by (simp add: used_def)
  qed
  moreover have "nn_next s \<ge> net_capacity cfg"
  proof (rule ccontr)
    assume "\<not> nn_next s \<ge> net_capacity cfg"
    then have "nn_next s \<in> {0..<net_capacity cfg}" using assms(1) by (simp add: netns_inv_def)
    then have "nn_next s \<in> used s" by (simp only: u)
    then show False by (simp add: used_def)
  qed
  ultimately show "\<exists>e. fst (net_allocate cfg s) = Inl e" by (simp add: net_allocate_def)
qed

lemma allocate_within:
  assumes "netns_inv s" "fits_subnet cfg s" "net_allocate cfg s = (Inr i, s')"
  shows "fits_subnet cfg s' \<and> 0 \<le> i \<and> i < net_capacity cfg"
proof (cases "nn_free s = []")
  case True
  then show ?thesis using assms by (auto simp: net_allocate_def fits_subnet_def netns_inv_def split: if_splits)
next
  case False
  then show ?thesis using assms last_free [OF assms(1)] by (auto simp: net_allocate_def fits_subnet_def)
qed

section \<open>Names and addresses\<close>

lemma split_unique: "c \<notin> set xs \<Longrightarrow> c \<notin> set ys \<Longrightarrow> xs @ c # r = ys @ c # r' \<longleftrightarrow> xs = ys \<and> r = r'"
proof (induction xs arbitrary: ys)
  case Nil
  then show ?case by (cases ys) auto
next
  case (Cons x xs)
  then show ?case by (cases ys) auto
qed

lemma str_int_inject: "0 \<le> m \<Longrightarrow> 0 \<le> n \<Longrightarrow> str_int m = str_int n \<longleftrightarrow> m = n"
  using str_nat_inject [of "nat m" "nat n"] by (auto simp: str_int_def)

lemma str_int_no_dot: "0 \<le> n \<Longrightarrow> CHR ''.'' \<notin> set (str_int n)"
  using decimal_str_nat [of "CHR ''.''" "nat n"] by (auto simp: str_int_def decimal_char_def)

lemma bytes_inject:
  fixes a b :: int
  assumes "0 \<le> a" "a < 2 ^ 32" "0 \<le> b" "b < 2 ^ 32"
    and "a div 2 ^ 24 mod 256 = b div 2 ^ 24 mod 256" "a div 2 ^ 16 mod 256 = b div 2 ^ 16 mod 256"
    and "a div 2 ^ 8 mod 256 = b div 2 ^ 8 mod 256" "a mod 256 = b mod 256"
  shows "a = b"
proof -
  have step: "x = y" if "x div 256 = y div 256" "x mod 256 = y mod 256" for x y :: int
    using that by (metis div_mult_mod_eq)
  have up: "x div 2 ^ 8 div 256 = x div 2 ^ 16" "x div 2 ^ 16 div 256 = x div 2 ^ 24" "x div 256 = x div 2 ^ 8" for x :: int
    by (simp_all add: div_mult2_eq [symmetric] flip: zdiv_zmult2_eq)
  have top: "x div 2 ^ 24 mod 256 = x div 2 ^ 24" if "0 \<le> x" "x < 2 ^ 32" for x :: int
  proof (rule mod_pos_pos_trivial)
    show "0 \<le> x div 2 ^ 24" using that(1) by simp
    show "x div 2 ^ 24 < 256" using that(2) by (simp add: div_less_iff_less_mult)
  qed
  have "a div 2 ^ 24 = b div 2 ^ 24" using assms(5) unfolding top [OF assms(1,2)] top [OF assms(3,4)] .
  then have "a div 2 ^ 16 = b div 2 ^ 16" by - (rule step [OF _ assms(6)], simp only: up(2))
  then have "a div 2 ^ 8 = b div 2 ^ 8" by - (rule step [OF _ assms(7)], simp only: up(1))
  then show ?thesis by - (rule step [OF _ assms(8)], simp only: up(3))
qed

lemma ip_str_inject:
  assumes "0 \<le> a" "a < 2 ^ 32" "0 \<le> b" "b < 2 ^ 32" "ip_str a = ip_str b"
  shows "a = b"
  by (rule bytes_inject [OF assms(1-4)])
    (use assms(5) in \<open>simp_all add: ip_str_def str_int_no_dot split_unique str_int_inject\<close>)

text \<open>
  What \<open>ip_network\<close> makes sure of (it refuses an address with host bits set), for a subnet with room for
  one branch.
\<close>

definition config_ok :: "network_config \<Rightarrow> bool" where
  "config_ok cfg \<longleftrightarrow> 0 \<le> nc_base cfg \<and> nc_base cfg + num_addresses cfg \<le> 2 ^ 32 \<and> nc_prefix cfg \<le> 30 \<and>
     nc_base cfg mod num_addresses cfg = 0"

text \<open>The addresses of the host subnet, and those of a network given in CIDR notation with 30 prefix bits.\<close>

definition subnet_addresses :: "network_config \<Rightarrow> int set" where
  "subnet_addresses cfg = {nc_base cfg..<nc_base cfg + num_addresses cfg}"

definition cidr30 :: "string \<Rightarrow> int set" where
  "cidr30 n = {x. \<exists>a. 0 \<le> a \<and> a < 2 ^ 32 \<and> n = ip_str a @ ''/30'' \<and> x div 4 = a div 4}"

lemma num_addresses_capacity: "config_ok cfg \<Longrightarrow> num_addresses cfg = 4 * net_capacity cfg"
proof -
  assume "config_ok cfg"
  then have "32 - nc_prefix cfg = (30 - nc_prefix cfg) + 2" unfolding config_ok_def by arith
  then show ?thesis by (simp add: net_capacity_def num_addresses_def power_add)
qed

lemma veth_base_ok:
  assumes "config_ok cfg" "0 \<le> i" "i < net_capacity cfg"
  shows "veth_base cfg i = Inr (nc_base cfg + 4 * i)" "0 \<le> nc_base cfg + 4 * i" "nc_base cfg + 4 * i + 3 < 2 ^ 32"
  using assms num_addresses_capacity [OF assms(1)] by (auto simp: veth_base_def config_ok_def)

lemma ip_str_neq:
  assumes "0 \<le> a" "a < 2 ^ 32" "0 \<le> b" "b < 2 ^ 32" "a \<noteq> b"
  shows "ip_str a \<noteq> ip_str b"
  using ip_str_inject assms by blast

section \<open>Running commands\<close>

lemma run_commands:
  assumes "for_each cmds (net_run run True) s = (r, s')"
  shows "nn_free s' = nn_free s \<and> nn_next s' = nn_next s \<and>
    (\<exists>k. nn_log s' = nn_log s @ map (\<lambda>c. (c, True)) (take k cmds) \<and> (r = Inr () \<longrightarrow> take k cmds = cmds))"
  using assms
proof (induction cmds arbitrary: s)
  case Nil
  then show ?case by (auto simp: ret_def)
next
  case (Cons c cmds)
  obtain q w where w: "run c True (nn_world s) = (q, w)" by fastforce
  let ?s1 = "s\<lparr>nn_world := w, nn_log := nn_log s @ [(c, True)]\<rparr>"
  show ?case
  proof (cases q)
    case (Inl e)
    then show ?thesis using Cons.prems w by (auto simp: seqp_def net_run_def intro: exI [of _ 1])
  next
    case (Inr u)
    then have "for_each cmds (net_run run True) ?s1 = (r, s')" using Cons.prems w by (simp add: seqp_def net_run_def [of run True c])
    from Cons.IH [OF this] obtain k where "nn_free s' = nn_free s" "nn_next s' = nn_next s"
      "nn_log s' = nn_log ?s1 @ map (\<lambda>c. (c, True)) (take k cmds)" "r = Inr () \<longrightarrow> take k cmds = cmds" by auto
    then show ?thesis by (auto intro!: exI [of _ "Suc k"])
  qed
qed

lemma run_teardown:
  "\<exists>w. for_each cmds (\<lambda>cmd. try_except (net_run run False cmd) (\<lambda>_. ret ())) s =
     (Inr (), s\<lparr>nn_world := w, nn_log := nn_log s @ map (\<lambda>c. (c, False)) cmds\<rparr>)"
proof (induction cmds arbitrary: s)
  case Nil
  then show ?case by (auto simp: ret_def intro: exI [of _ "nn_world s"])
next
  case (Cons c cmds)
  obtain q w where w: "run c False (nn_world s) = (q, w)" by fastforce
  have "try_except (net_run run False c) (\<lambda>_. ret ()) s = (Inr (), s\<lparr>nn_world := w, nn_log := nn_log s @ [(c, False)]\<rparr>)"
    using w by (cases q) (simp_all add: try_except_def net_run_def ret_def)
  then show ?case using Cons.IH [of "s\<lparr>nn_world := w, nn_log := nn_log s @ [(c, False)]\<rparr>"] by (auto simp: seqp_def)
qed

lemma commands_ok:
  assumes "config_ok cfg" "0 \<le> i" "i < net_capacity cfg"
  obtains cmds td where "setup_cmds sha cfg b i = Inr cmds" "teardown_cmds sha cfg b i = Inr td"
  using veth_base_ok(1) [OF assms] by (simp add: setup_cmds_def teardown_cmds_def veth_pair_def veth_net_def Let_def)

lemma teardown_ok:
  assumes "teardown_cmds sha cfg b i = Inr td"
  shows "\<exists>s'. net_teardown sha cfg run b i s = (Inr (), s') \<and> nn_next s' = nn_next s \<and>
    nn_free s' = (if i \<in> set (nn_free s) then nn_free s else nn_free s @ [i]) \<and>
    nn_log s' = nn_log s @ map (\<lambda>c. (c, False)) td"
proof -
  obtain w where "for_each td (\<lambda>cmd. try_except (net_run run False cmd) (\<lambda>_. ret ())) s =
     (Inr (), s\<lparr>nn_world := w, nn_log := nn_log s @ map (\<lambda>c. (c, False)) td\<rparr>)"
    using run_teardown [of td run s] by (elim exE)
  then show ?thesis by (simp add: net_teardown_def assms seqp_def of_result_def net_release_def)
qed

section \<open>Properties\<close>

lemma cidr30_block:
  assumes "0 \<le> a" "a < 2 ^ 32" "a mod 4 = 0"
  shows "cidr30 (ip_str a @ ''/30'') = {a..a + 3}"
proof -
  have "cidr30 (ip_str a @ ''/30'') = {x. x div 4 = a div 4}"
    using ip_str_inject [OF assms(1,2)] assms(1,2) unfolding cidr30_def by (auto dest: sym)
  also have "\<dots> = {a..a + 3}" using assms(3) by auto presburger+
  finally show ?thesis .
qed

text \<open>The /30 of an index: four addresses of the subnet that start at a multiple of four.\<close>

lemma veth_block:
  assumes "config_ok cfg" "0 \<le> i" "i < net_capacity cfg"
  shows "\<exists>n. veth_net cfg i = Inr n \<and> cidr30 n = {nc_base cfg + 4 * i..nc_base cfg + 4 * i + 3}"
    and "{nc_base cfg + 4 * i..nc_base cfg + 4 * i + 3} \<subseteq> subnet_addresses cfg"
proof -
  note b = veth_base_ok [OF assms] and n = num_addresses_capacity [OF assms(1)]
  have "nc_base cfg mod 4 = 0" using assms(1) n unfolding config_ok_def by (metis mod_mult_right_eq mult_zero_right mod_mod_cancel dvd_triv_left mod_0)
  then have "cidr30 (ip_str (nc_base cfg + 4 * i) @ ''/30'') = {nc_base cfg + 4 * i..nc_base cfg + 4 * i + 3}"
    using b(2,3) by (intro cidr30_block) simp_all
  then show "\<exists>n. veth_net cfg i = Inr n \<and> cidr30 n = {nc_base cfg + 4 * i..nc_base cfg + 4 * i + 3}"
    using b(1) by (simp add: veth_net_def)
  show "{nc_base cfg + 4 * i..nc_base cfg + 4 * i + 3} \<subseteq> subnet_addresses cfg"
    using assms(2,3) n by (auto simp: subnet_addresses_def)
qed

text \<open>
  C36: Every index within the subnet gets a /30 network inside the host subnet, whose second and third
  address are those of the two ends of its veth pair; two different indices get networks with no
  address in common, different addresses and different device names.
\<close>

theorem netns_addresses_disjoint:
  assumes "config_ok cfg" "0 \<le> i" "i < net_capacity cfg" "0 \<le> j" "j < net_capacity cfg" "i \<noteq> j"
  shows "\<exists>hv gv hi gi n hv' gv' hi' gi' n'. veth_pair cfg i = Inr (hv, gv, hi, gi) \<and> veth_net cfg i = Inr n \<and>
    veth_pair cfg j = Inr (hv', gv', hi', gi') \<and> veth_net cfg j = Inr n' \<and>
    cidr30 n \<inter> cidr30 n' = {} \<and> cidr30 n \<subseteq> subnet_addresses cfg \<and>
    (\<exists>a. cidr30 n = {a..a + 3} \<and> hi = ip_str (a + 1) \<and> gi = ip_str (a + 2)) \<and>
    {hv, gv} \<inter> {hv', gv'} = {} \<and> {hi, gi} \<inter> {hi', gi'} = {}"
proof -
  note bi = veth_base_ok [OF assms(1-3)] and bj = veth_base_ok [OF assms(1,4,5)]
  let ?a = "nc_base cfg + 4 * i" and ?b = "nc_base cfg + 4 * j"
  obtain n n' where n: "veth_net cfg i = Inr n" "cidr30 n = {?a..?a + 3}" and n': "veth_net cfg j = Inr n'" "cidr30 n' = {?b..?b + 3}"
    using veth_block(1) [OF assms(1-3)] veth_block(1) [OF assms(1,4,5)] by blast
  have apart: "{?a..?a + 3} \<inter> {?b..?b + 3} = {}" using \<open>i \<noteq> j\<close> by auto
  have ne: "ip_str (?a + x) \<noteq> ip_str (?b + y)" if "x \<in> {1, 2}" "y \<in> {1, 2}" for x y
    by (rule ip_str_neq) (use that bi bj \<open>i \<noteq> j\<close> in auto)
  have names: "str_int i \<noteq> str_int j" using assms by (simp add: str_int_inject)
  show ?thesis
  proof (intro exI conjI)
    show "veth_pair cfg i = Inr (''afh'' @ str_int i, ''afg'' @ str_int i, ip_str (?a + 1), ip_str (?a + 2))"
      "veth_pair cfg j = Inr (''afh'' @ str_int j, ''afg'' @ str_int j, ip_str (?b + 1), ip_str (?b + 2))"
      using bi(1) bj(1) by (simp_all add: veth_pair_def)
    show "{ip_str (?a + 1), ip_str (?a + 2)} \<inter> {ip_str (?b + 1), ip_str (?b + 2)} = {}"
      using ne by (simp only: Int_insert_left Int_empty_left insert_iff empty_iff if_False) simp
    show "{''afh'' @ str_int i, ''afg'' @ str_int i} \<inter> {''afh'' @ str_int j, ''afg'' @ str_int j} = {}"
      using names by simp
    show "cidr30 n \<inter> cidr30 n' = {}" "cidr30 n \<subseteq> subnet_addresses cfg" "cidr30 n = {?a..?a + 3}"
      unfolding n(2) n'(2) by (rule apart veth_block(2) [OF assms(1-3)] refl)+
  qed (rule n(1) n'(1) refl)+
qed

text \<open>
  \<open>setup\<close> takes one index that was not in use and runs its commands in order, or it raises, and then
  every index in use before is in use after and no other, and every tear-down command has been run after the commands that were.
\<close>

theorem netns_setup_all_or_nothing:
  assumes "netns_inv s" "fits_subnet cfg s" "config_ok cfg" "net_setup sha cfg run b s = (r, s')"
  shows "case r of
      Inr (name, i) \<Rightarrow> name = netns_name sha b \<and> i \<notin> used s \<and> used s' = insert i (used s) \<and> i < net_capacity cfg \<and>
        (\<exists>cmds. setup_cmds sha cfg b i = Inr cmds \<and> nn_log s' = nn_log s @ map (\<lambda>c. (c, True)) cmds)
    | Inl e \<Rightarrow> used s' = used s \<and> (s' = s \<or> (\<exists>i cmds td k. setup_cmds sha cfg b i = Inr cmds \<and>
        teardown_cmds sha cfg b i = Inr td \<and>
        nn_log s' = nn_log s @ map (\<lambda>c. (c, True)) (take k cmds) @ map (\<lambda>c. (c, False)) td))"
proof (cases "net_allocate cfg s")
  case (Pair q s1)
  show ?thesis
  proof (cases q)
    case (Inl e)
    then have "s1 = s" using netns_pool.pool_alloc_fails [OF assms(1)] Pair by simp
    then show ?thesis using assms(4) Pair Inl by (auto simp: net_setup_def seqp_def)
  next
    case (Inr i)
    note al = netns_allocate_ok [OF assms(1) Pair [unfolded Inr]] allocate_within [OF assms(1,2) Pair [unfolded Inr]]
    obtain cmds td where cmds: "setup_cmds sha cfg b i = Inr cmds" "teardown_cmds sha cfg b i = Inr td"
      using commands_ok assms(3) al(2) by blast
    obtain q2 s2 where run: "for_each cmds (net_run run True) s1 = (q2, s2)" by fastforce
    note rc = run_commands [OF run]
    have log1: "nn_log s1 = nn_log s" using Pair Inr by (auto simp: net_allocate_def split: if_splits)
    have used2: "used s2 = used s1" using rc by (simp add: used_def)
    show ?thesis
    proof (cases q2)
      case (Inr u)
      then have "r = Inr (netns_name sha b, i)" "s' = s2"
        using assms(4) Pair \<open>q = Inr i\<close> cmds(1) run by (simp_all add: net_setup_def seqp_def try_except_def of_result_def ret_def)
      then show ?thesis using al used2 rc log1 cmds(1) Inr by auto
    next
      case (Inl e)
      obtain s3 where td: "net_teardown sha cfg run b i s2 = (Inr (), s3)" "nn_next s3 = nn_next s2"
        "nn_free s3 = (if i \<in> set (nn_free s2) then nn_free s2 else nn_free s2 @ [i])"
        "nn_log s3 = nn_log s2 @ map (\<lambda>c. (c, False)) td" using teardown_ok [OF cmds(2)] by blast
      have "r = Inl e" "s' = s3"
        using assms(4) Pair \<open>q = Inr i\<close> cmds(1) run td(1) Inl
        by (simp_all add: net_setup_def seqp_def try_except_def of_result_def reraise_def raise_def)
      moreover have "used s3 = used s" using td(2,3) al(1) used2 rc by (auto simp: used_def)
      moreover have "\<exists>k. nn_log s3 = nn_log s @ map (\<lambda>c. (c, True)) (take k cmds) @ map (\<lambda>c. (c, False)) td"
        using td(4) rc log1 by auto
      ultimately show ?thesis using cmds by (simp only: sum.case) blast
    qed
  qed
qed

definition on_host :: "string list \<Rightarrow> bool" where
  "on_host cmd \<longleftrightarrow> hd cmd = ''iptables''"

definition delete_rule :: "string list \<Rightarrow> string list" where
  "delete_rule cmd = map (\<lambda>a. if a = ''-A'' then ''-D'' else a) cmd"

text \<open>
  The tear-down deletes exactly the rules that the set-up adds to the host's tables, last added
  first, and then the host device and the namespace the set-up made; what is inside the namespace goes with it.
\<close>

theorem netns_teardown_undoes_setup:
  assumes "setup_cmds sha cfg b i = Inr cmds" "nc_uplink cfg \<noteq> ''-A''"
  shows "\<exists>hv gv hi gi. veth_pair cfg i = Inr (hv, gv, hi, gi) \<and>
    [''ip'', ''netns'', ''add'', netns_name sha b] \<in> set cmds \<and>
    [''ip'', ''link'', ''add'', hv, ''type'', ''veth'', ''peer'', ''name'', gv] \<in> set cmds \<and>
    teardown_cmds sha cfg b i = Inr (rev (map delete_rule (filter on_host cmds)) @
      [[''ip'', ''link'', ''del'', hv], [''ip'', ''netns'', ''del'', netns_name sha b]])"
proof -
  obtain a where a: "veth_base cfg i = Inr a"
    using assms(1) by (auto simp: setup_cmds_def veth_pair_def split: sum.splits)
  have "ip_str a @ ''/30'' \<noteq> ''-A''" "''afh'' @ str_int i \<noteq> ''-A''" by auto
  then show ?thesis
    using assms(2) a assms(1) [symmetric]
    by (simp add: setup_cmds_def teardown_cmds_def veth_pair_def veth_net_def Let_def in_ns_def on_host_def delete_rule_def)
qed

section \<open>A sample run\<close>

definition demo_net :: network_config where
  "demo_net = \<lparr>nc_uplink = ''eth0'', nc_base = 10 * 2 ^ 24 + 200 * 2 ^ 16, nc_prefix = 28\<rparr>"

text \<open>A runner that fails on the \<open>n\<close>-th checked command.\<close>

definition failing_runner :: "nat runner" where
  "failing_runner cmd check n = (if check \<and> n = 0 then (Inl OSError, n) else (Inr (), n - 1))"

definition demo_netns :: "nat netns" where
  "demo_netns = \<lparr>nn_world = 3, nn_free = [1], nn_next = 3, nn_log = []\<rparr>"

lemma demo_netns_ok: "netns_inv demo_netns" "fits_subnet demo_net demo_netns" "config_ok demo_net"
  by (simp_all add: netns_inv_def demo_netns_def fits_subnet_def net_capacity_def num_addresses_def demo_net_def config_ok_def)

lemma demo_capacity: "net_capacity demo_net = 4"
  by (simp add: net_capacity_def num_addresses_def demo_net_def)

theorem netns_setup_all_or_nothing_witness:
  "\<exists>e s'. net_setup (\<lambda>_. ''0'') demo_net failing_runner ''a'' demo_netns = (Inl e, s') \<and> used s' = {0, 2}"
proof -
  have f: "fst (net_setup (\<lambda>_. ''0'') demo_net failing_runner ''a'' demo_netns) = Inl OSError" by code_simp
  obtain s' where run: "net_setup (\<lambda>_. ''0'') demo_net failing_runner ''a'' demo_netns = (Inl OSError, s')"
    using f by (metis prod.collapse)
  have "used demo_netns = {0, 2}" by (auto simp: used_def demo_netns_def)
  then show ?thesis using netns_setup_all_or_nothing [OF demo_netns_ok run] run by auto
qed

theorem netns_addresses_disjoint_witness:
  "veth_net demo_net 1 = Inr ''10.200.0.4/30'' \<and> veth_net demo_net 2 = Inr ''10.200.0.8/30'' \<and>
   cidr30 ''10.200.0.4/30'' \<inter> cidr30 ''10.200.0.8/30'' = {}"
proof -
  have "veth_net demo_net 1 = Inr ''10.200.0.4/30''" "veth_net demo_net 2 = Inr ''10.200.0.8/30''" by code_simp+
  then show ?thesis using netns_addresses_disjoint [OF demo_netns_ok(3), of 1 2] unfolding demo_capacity by auto
qed

theorem netns_teardown_undoes_setup_witness:
  "\<exists>td. teardown_cmds (\<lambda>_. ''0'') demo_net ''a'' 2 = Inr td \<and> last td = [''ip'', ''netns'', ''del'', ''af-a'']"
proof -
  obtain cmds td where "setup_cmds (\<lambda>_. ''0'') demo_net ''a'' 2 = Inr cmds"
    by (rule commands_ok [OF demo_netns_ok(3), of 2]) (simp_all add: demo_capacity)
  moreover have "netns_name (\<lambda>_. ''0'') ''a'' = ''af-a''" by code_simp
  ultimately show ?thesis
    using netns_teardown_undoes_setup [of "\<lambda>_. ''0''" demo_net "''a''" 2 cmds] by (auto simp: demo_net_def)
qed

text \<open>
  The allocator implements a set of indices in use: an allocation returns an index that was not
  in use and is within the subnet and adds it, and it is refused exactly when the whole subnet is in
  use; a release removes its index and a reservation adds it, so no index is ever held twice.
\<close>

theorem netns_allocator_refines:
  assumes "netns_inv s" "fits_subnet cfg s"
  shows "(case net_allocate cfg s of
      (Inr i, s') \<Rightarrow> netns_inv s' \<and> fits_subnet cfg s' \<and> i \<in> {0..<net_capacity cfg} - used s \<and> used s' = insert i (used s)
    | (Inl e, s') \<Rightarrow> s' = s \<and> used s = {0..<net_capacity cfg}) \<and>
    (i \<in> used s \<longrightarrow> netns_inv (snd (net_release i s)) \<and> used (snd (net_release i s)) = used s - {i}) \<and>
    (0 \<le> i \<longrightarrow> netns_inv (snd (net_reserve i s)) \<and> used (snd (net_reserve i s)) = insert i (used s))"
proof (intro conjI)
  show "case net_allocate cfg s of
      (Inr i, s') \<Rightarrow> netns_inv s' \<and> fits_subnet cfg s' \<and> i \<in> {0..<net_capacity cfg} - used s \<and> used s' = insert i (used s)
    | (Inl e, s') \<Rightarrow> s' = s \<and> used s = {0..<net_capacity cfg}"
  proof (cases "net_allocate cfg s")
    case (Pair r s')
    show ?thesis
    proof (cases r)
      case (Inl e)
      have "used s = {0..<net_capacity cfg}" using allocate_refused [OF assms] Pair Inl by (metis fst_conv)
      then show ?thesis using Pair Inl netns_pool.pool_alloc_fails [OF assms(1)] by simp
    next
      case (Inr i)
      then show ?thesis
        using netns_allocate_ok [OF assms(1)] allocate_within [OF assms] Pair by simp
    qed
  qed
  have "\<exists>s'. net_release i s = (Inr (), s')" by (simp add: net_release_def)
  then show "i \<in> used s \<longrightarrow> netns_inv (snd (net_release i s)) \<and> used (snd (net_release i s)) = used s - {i}"
    using netns_pool.pool_free [OF assms(1)] by auto
  have "\<exists>s'. net_reserve i s = (Inr (), s')" if "0 \<le> i" using that by (auto simp: net_reserve_def)
  then show "0 \<le> i \<longrightarrow> netns_inv (snd (net_reserve i s)) \<and> used (snd (net_reserve i s)) = insert i (used s)"
    using netns_reserve_ok [OF assms(1)] by auto
qed

theorem netns_allocator_refines_witness:
  "used (snd (net_reserve 7 demo_netns)) = insert 7 (used demo_netns) \<and> used demo_netns = {0, 2}"
  using netns_allocator_refines [OF demo_netns_ok(1,2), of 7] by (auto simp: used_def demo_netns_def)

section \<open>Names\<close>

definition unaltered :: "string \<Rightarrow> bool" where
  "unaltered b \<longleftrightarrow> net_safe b = b \<and> length b \<le> 40"

lemma netns_name_alt:
  "netns_name sha b = (if unaltered b then ''af-'' @ b else ''af-'' @ take 31 (net_safe b) @ ''-'' @ take 8 (sha b))"
  by (auto simp: netns_name_def unaltered_def Let_def)

text \<open>Two ids that are used as they are, or two that are not, are confused only if their digests agree.\<close>

lemma netns_name_distinct:
  assumes "netns_name sha b = netns_name sha c" "unaltered b = unaltered c" "\<And>x. length (sha x) = 64"
  shows "b = c \<or> take 8 (sha b) = take 8 (sha c)"
proof (cases "unaltered b")
  case True
  then show ?thesis using assms(1,2) by (simp add: netns_name_alt)
next
  case False
  then have "take 31 (net_safe b) @ ''-'' @ take 8 (sha b) = take 31 (net_safe c) @ ''-'' @ take 8 (sha c)"
    using assms(1,2) by (simp add: netns_name_alt)
  then have "rev (take 8 (sha b)) @ rev (take 31 (net_safe b) @ ''-'') = rev (take 8 (sha c)) @ rev (take 31 (net_safe c) @ ''-'')"
    by (metis append_assoc rev_append)
  then show ?thesis using assms(3) by simp
qed

text \<open>An id that is used as it is may look like one with a digest: the name of \<open>a/1\<close> is also that of another id.\<close>

lemma netns_name_collision:
  assumes "list_all py_alnum (sha ''a/1'')"
  shows "netns_name sha (''a-1-'' @ take 8 (sha ''a/1'')) = netns_name sha ''a/1''"
proof -
  have "net_safe (take 8 (sha ''a/1'')) = take 8 (sha ''a/1'')"
    using assms by (auto simp: net_safe_def list_all_iff intro!: map_idI dest: in_set_takeD)
  moreover have "net_safe ''a/1'' = ''a-1''" "net_safe ''a-1-'' = ''a-1-''" by code_simp+
  moreover have "net_safe (x @ y) = net_safe x @ net_safe y" for x y by (simp add: net_safe_def)
  ultimately have "net_safe (''a-1-'' @ take 8 (sha ''a/1'')) = ''a-1-'' @ take 8 (sha ''a/1'')" "net_safe ''a/1'' = ''a-1''"
    by (simp_all only:)
  then have "unaltered (''a-1-'' @ take 8 (sha ''a/1''))" "\<not> unaltered ''a/1''" "net_safe ''a/1'' = ''a-1''"
    by (simp_all add: unaltered_def)
  then show ?thesis by (simp add: netns_name_alt)
qed

text \<open>
  A reservation beyond the subnet (an index journalled under a wider one) puts indices on the free
  list that have no network: \<open>setup\<close> then raises and its rollback raises too, so the index stays taken.
\<close>

lemma reserve_beyond_subnet:
  "let s = snd (net_reserve 6 demo_netns); r = net_setup (\<lambda>_. ''0'') demo_net failing_runner ''a'' s
   in fst r = Inl IndexError \<and> nn_log (snd r) = [] \<and> 5 \<notin> used s \<and> 5 \<in> used (snd r)"
  by code_simp

end
