(* ===== verification/Base64.thy ===== *)
theory Base64
  imports Prelude
begin

text \<open>
  \<open>base64.b64encode\<close> and \<open>base64.b64decode\<close> of the standard library, on bytes as characters below 256.
  The decoder is the lenient one: it skips characters outside the alphabet and stops at a complete padding.
\<close>

definition b64_char :: "nat \<Rightarrow> char" where
  "b64_char v =
     (if v < 26 then char_of (65 + v) else if v < 52 then char_of (97 + (v - 26))
      else if v < 62 then char_of (48 + (v - 52)) else if v = 62 then CHR ''+'' else CHR ''/'')"

definition b64_val :: "char \<Rightarrow> nat option" where
  "b64_val c =
     (let n = (of_char c :: nat) in
      if 65 \<le> n \<and> n \<le> 90 then Some (n - 65) else if 97 \<le> n \<and> n \<le> 122 then Some (n - 97 + 26)
      else if 48 \<le> n \<and> n \<le> 57 then Some (n - 48 + 52) else if n = 43 then Some 62
      else if n = 47 then Some 63 else None)"

fun b64_quads :: "nat list \<Rightarrow> string" where
  "b64_quads [] = []"
| "b64_quads [a] = [b64_char (a div 4), b64_char (a mod 4 * 16), CHR ''='', CHR ''='']"
| "b64_quads [a, b] = [b64_char (a div 4), b64_char (a mod 4 * 16 + b div 16), b64_char (b mod 16 * 4), CHR ''='']"
| "b64_quads (a # b # c # r) =
     b64_char (a div 4) # b64_char (a mod 4 * 16 + b div 16) # b64_char (b mod 16 * 4 + c div 64) #
     b64_char (c mod 64) # b64_quads r"

definition b64encode :: "string \<Rightarrow> string" where
  "b64encode bytes = b64_quads (map of_char bytes)"

text \<open>The decoder: position in the quadruple, bits left over, padding seen, bytes so far.\<close>

fun b64_loop :: "nat \<Rightarrow> nat \<Rightarrow> nat \<Rightarrow> nat list \<Rightarrow> string \<Rightarrow> exc + nat list" where
  "b64_loop pos left pads out [] = (if pos = 0 then Inr out else Inl ValueError)"
| "b64_loop pos left pads out (c # cs) =
     (if c = CHR ''='' then
        (if pos \<ge> 2 \<and> pos + (pads + 1) \<ge> 4 then Inr out
         else b64_loop pos left (if pos \<ge> 2 then pads + 1 else pads) out cs)
      else case b64_val c of
          None \<Rightarrow> b64_loop pos left pads out cs
        | Some v \<Rightarrow>
           if pos = 0 then b64_loop 1 v 0 out cs
           else if pos = 1 then b64_loop 2 (v mod 16) 0 (out @ [left * 4 + v div 16]) cs
           else if pos = 2 then b64_loop 3 (v mod 4) 0 (out @ [left * 16 + v div 4]) cs
           else b64_loop 0 0 0 (out @ [left * 64 + v]) cs)"

definition b64decode :: "string \<Rightarrow> exc + string" where
  "b64decode text =
     (if \<exists>c \<in> set text. (of_char c :: nat) \<ge> 128 then Inl ValueError
      else case b64_loop 0 0 0 [] text of Inl e \<Rightarrow> Inl e | Inr bytes \<Rightarrow> Inr (map char_of bytes))"

section \<open>Round trip\<close>

lemma b64_val_char: "v < 64 \<Longrightarrow> b64_val (b64_char v) = Some v" "v < 64 \<Longrightarrow> b64_char v \<noteq> CHR ''=''"
  "(of_char (b64_char v) :: nat) < 128"
proof -
  show "v < 64 \<Longrightarrow> b64_val (b64_char v) = Some v"
    by (auto simp: b64_val_def b64_char_def take_bit_eq_mod Let_def)
  show "v < 64 \<Longrightarrow> b64_char v \<noteq> CHR ''=''"
    by (auto simp: b64_char_def char_of_eq_iff take_bit_eq_mod split: if_splits)
  show "(of_char (b64_char v) :: nat) < 128"
    by (auto simp: b64_char_def take_bit_eq_mod)
qed

lemma b64_loop_quads:
  "list_all (\<lambda>b. b < 256) bs \<Longrightarrow> b64_loop 0 0 0 out (b64_quads bs) = Inr (out @ bs)"
proof (induction bs arbitrary: out rule: b64_quads.induct)
  case (4 a b c r)
  have "a div 4 < 64" "a mod 4 * 16 + b div 16 < 64" "b mod 16 * 4 + c div 64 < 64" "c mod 64 < 64"
    "b div 16 < 16" "c div 64 < 4" using 4 by auto
  then show ?case
    using 4(1) [of "out @ [a, b, c]"] 4(2) by (simp add: b64_val_char mult.commute)
next
  case (2 a)
  then show ?case by (simp add: b64_val_char mult.commute)
next
  case (3 a b)
  have "a div 4 < 64" "a mod 4 * 16 + b div 16 < 64" "b mod 16 * 4 < 64" "b div 16 < 16" using 3 by auto
  then show ?case using 3 by (simp add: b64_val_char mult.commute)
qed simp

lemma b64_quads_ascii: "c \<in> set (b64_quads bs) \<Longrightarrow> (of_char c :: nat) < 128"
  by (induction bs rule: b64_quads.induct) (auto simp: b64_val_char(3))

text \<open>Decoding gives back what was encoded, for all bytes.\<close>

lemma b64_roundtrip: "b64decode (b64encode bytes) = Inr bytes"
proof -
  have "list_all (\<lambda>b. b < 256) (map of_char bytes :: nat list)" by (simp add: list_all_iff)
  from b64_loop_quads [OF this, of "[]"] show ?thesis
    using b64_quads_ascii [of _ "map of_char bytes"]
    by (auto simp: b64decode_def b64encode_def comp_def not_less [symmetric])
qed

lemma b64encode_empty: "b64encode s = [] \<longleftrightarrow> s = []"
  by (cases "map of_char s :: nat list" rule: b64_quads.cases) (auto simp: b64encode_def)

end
