(* ===== verification/Vsock.thy ===== *)
theory Vsock
  imports Base64 SGLang_HTTP
begin

text \<open>
  The exec channel between host and guest: \<open>sandbox/vsock.py\<close> (the client \<open>VsockExecClient\<close>) and
  \<open>sandbox/guest_agent.py\<close> (the agent).  A socket is the list of what its \<open>recv\<close> calls end in: bytes or an
  exception; past the end of the list the peer has closed.  The clock, the processes of the guest
  and the \<open>json\<close> module (\<open>dumps\<close> to bytes, \<open>loads\<close> from bytes) are parameters.
\<close>

section \<open>The client\<close>

definition MAX_LINE :: nat where "MAX_LINE = 64 * 1024 * 1024"

type_synonym stream = "(exc + string) list"

definition newline :: char where "newline = CHR 0x0A"

fun read_line :: "nat \<Rightarrow> string \<Rightarrow> stream \<Rightarrow> exc + string \<times> stream" where
  "read_line limit acc [] = Inl VsockError"
| "read_line limit acc (Inl e # rs) = Inl e"
| "read_line limit acc (Inr b # rs) =
     (if b = [] then Inl VsockError
      else if newline \<in> set b then
        (if tl (dropWhile (\<lambda>c. c \<noteq> newline) b) \<noteq> [] then Inl VsockError
         else Inr (acc @ takeWhile (\<lambda>c. c \<noteq> newline) b, rs))
      else if length (acc @ b) > limit then Inl VsockError
      else read_line limit (acc @ b) rs)"

text \<open>
  A connection after \<open>connect\<close>: what \<open>sendall\<close> raises, for the handshake and for the request, and what is received.
\<close>

record conn =
  cn_hello :: "exc option"
  cn_send :: "exc option"
  cn_recv :: stream

text \<open>One round of \<open>_connect\<close>: the connection, or the exception that ends the round.\<close>

definition handshake :: "exc + conn \<Rightarrow> exc + conn" where
  "handshake attempt =
     (case attempt of
        Inl e \<Rightarrow> Inl e
      | Inr c \<Rightarrow>
         (case cn_hello c of
            Some e \<Rightarrow> Inl e
          | None \<Rightarrow>
             (case read_line 256 [] (cn_recv c) of
                Inl e \<Rightarrow> Inl e
              | Inr (reply, rest) \<Rightarrow> if prefix ''OK '' reply then Inr (c\<lparr>cn_recv := rest\<rparr>) else Inl VsockError)))"

text \<open>
  \<open>_connect\<close>: round \<open>k\<close> meets \<open>attempts k\<close>, and \<open>clk k\<close> is the time after it.  The loop ends when the clock passes the
  deadline, so it is a partial function of the clock.
\<close>

partial_function (option) connect_loop :: "(nat \<Rightarrow> exc + conn) \<Rightarrow> (nat \<Rightarrow> real) \<Rightarrow> real \<Rightarrow> nat \<Rightarrow> (exc + conn) option" where
  "connect_loop attempts clk deadline k =
     (case handshake (attempts k) of
        Inr c \<Rightarrow> Some (Inr c)
      | Inl e \<Rightarrow>
         if \<not> (is_os_error e \<or> e = VsockError) then Some (Inl e)
         else if clk k \<ge> deadline then Some (Inl VsockError)
         else connect_loop attempts clk deadline (Suc k))"

definition vs_connect :: "(nat \<Rightarrow> exc + conn) \<Rightarrow> (nat \<Rightarrow> real) \<Rightarrow> real \<Rightarrow> real \<Rightarrow> (exc + conn) option" where
  "vs_connect attempts clk now handshake_timeout = connect_loop attempts clk (now + handshake_timeout) 0"

text \<open>What follows the request on an open connection.\<close>

definition read_reply :: "(string \<Rightarrow> body) \<Rightarrow> conn \<Rightarrow> exc + (string \<times> json) list" where
  "read_reply loads c =
     (case cn_send c of
        Some e \<Rightarrow> Inl e
      | None \<Rightarrow>
         (case read_line MAX_LINE [] (cn_recv c) of
            Inl e \<Rightarrow> Inl (if e = TimeoutError then VsockError else e)
          | Inr (line, _) \<Rightarrow>
             (case loads line of
                NotUtf8 \<Rightarrow> Inl ValueError
              | NotJson \<Rightarrow> Inl VsockError
              | Json (JObj fs) \<Rightarrow> if ''error'' \<in> keys fs then Inl VsockError else Inr fs
              | Json _ \<Rightarrow> Inl VsockError)))"

text \<open>
  \<open>_roundtrip\<close> over a channel: \<open>channel line\<close> is what the connection attempts meet when the line is sent on the
  connection that is made.
\<close>

definition vs_roundtrip :: "(json \<Rightarrow> string) \<Rightarrow> (string \<Rightarrow> body) \<Rightarrow> (string \<Rightarrow> nat \<Rightarrow> exc + conn) \<Rightarrow> (nat \<Rightarrow> real) \<Rightarrow> real \<Rightarrow> real \<Rightarrow>
    (string \<times> json) list \<Rightarrow> (exc + (string \<times> json) list) option" where
  "vs_roundtrip dumps loads channel clk now tmo request =
     (case vs_connect (channel (dumps (JObj request) @ [newline])) clk now tmo of
        None \<Rightarrow> None
      | Some (Inl e) \<Rightarrow> Some (Inl e)
      | Some (Inr c) \<Rightarrow> Some (read_reply loads c))"

record exec_result =
  er_exit_code :: json
  er_stdout :: string
  er_stderr :: string
  er_timed_out :: json

text \<open>\<open>base64.b64decode\<close> of a JSON value.\<close>

definition b64_json :: "json \<Rightarrow> exc + string" where
  "b64_json v = (case v of JStr s \<Rightarrow> b64decode s | _ \<Rightarrow> Inl TypeError)"

definition exec_reply :: "(string \<times> json) list \<Rightarrow> exc + exec_result" where
  "exec_reply fs =
     (case (map_of fs ''exit_code'', map_of fs ''stdout'', map_of fs ''stderr'') of
        (Some code, Some out, Some err) \<Rightarrow>
          (case (b64_json out, b64_json err) of
             (Inr out_bytes, Inr err_bytes) \<Rightarrow>
               Inr \<lparr>er_exit_code = code, er_stdout = out_bytes, er_stderr = err_bytes,
                    er_timed_out = (case map_of fs ''timed_out'' of None \<Rightarrow> JBool False | Some v \<Rightarrow> v)\<rparr>
           | _ \<Rightarrow> Inl VsockError)
      | _ \<Rightarrow> Inl VsockError)"

definition exec_request :: "string list \<Rightarrow> json \<Rightarrow> string option \<Rightarrow> (string \<times> json) list" where
  "exec_request argv timeout_s stdin =
     [(''argv'', JArr (map JStr argv)), (''timeout_s'', timeout_s)] @
     (case stdin of None \<Rightarrow> [] | Some b \<Rightarrow> [(''stdin'', JStr (b64encode b))])"

definition vs_exec :: "(json \<Rightarrow> string) \<Rightarrow> (string \<Rightarrow> body) \<Rightarrow> (string \<Rightarrow> nat \<Rightarrow> exc + conn) \<Rightarrow> (nat \<Rightarrow> real) \<Rightarrow> real \<Rightarrow> real \<Rightarrow>
    string list \<Rightarrow> json \<Rightarrow> string option \<Rightarrow> (exc + exec_result) option" where
  "vs_exec dumps loads channel clk now tmo argv timeout_s stdin =
     (if argv = [] then Some (Inl ValueError)
      else case vs_roundtrip dumps loads channel clk now tmo (exec_request argv timeout_s stdin) of
          None \<Rightarrow> None
        | Some (Inl e) \<Rightarrow> Some (Inl e)
        | Some (Inr reply) \<Rightarrow> Some (exec_reply reply))"

record detached_exec =
  de_pid :: json
  de_log_path :: json

definition vs_exec_detached :: "(json \<Rightarrow> string) \<Rightarrow> (string \<Rightarrow> body) \<Rightarrow> (string \<Rightarrow> nat \<Rightarrow> exc + conn) \<Rightarrow> (nat \<Rightarrow> real) \<Rightarrow> real \<Rightarrow> real \<Rightarrow>
    string list \<Rightarrow> (exc + detached_exec) option" where
  "vs_exec_detached dumps loads channel clk now tmo argv =
     (if argv = [] then Some (Inl ValueError)
      else case vs_roundtrip dumps loads channel clk now tmo [(''argv'', JArr (map JStr argv)), (''detach'', JBool True)] of
          None \<Rightarrow> None
        | Some (Inl e) \<Rightarrow> Some (Inl e)
        | Some (Inr reply) \<Rightarrow>
           (case (map_of reply ''pid'', map_of reply ''log'') of
              (Some pid, Some path) \<Rightarrow> Some (Inr \<lparr>de_pid = pid, de_log_path = path\<rparr>)
            | _ \<Rightarrow> Some (Inl VsockError)))"

section \<open>The agent\<close>

text \<open>\<open>_read_line\<close> of the agent: \<open>None\<close> at a clean end, and what came before the end counts as a line.\<close>

fun guest_read_line :: "nat \<Rightarrow> string \<Rightarrow> stream \<Rightarrow> exc + string option" where
  "guest_read_line limit acc [] = Inr (if acc = [] then None else Some acc)"
| "guest_read_line limit acc (Inl e # rs) = Inl e"
| "guest_read_line limit acc (Inr b # rs) =
     (if b = [] then Inr (if acc = [] then None else Some acc)
      else if newline \<in> set b then Inr (Some (acc @ takeWhile (\<lambda>c. c \<noteq> newline) b))
      else if length (acc @ b) > limit then Inl ValueError
      else guest_read_line limit (acc @ b) rs)"

text \<open>
  The processes of the guest: what \<open>Popen\<close> raises, and what a command ends in, given its input and its
  timeout: whether it was stopped, the exit code, and the two outputs.
\<close>

record guest_env =
  ge_popen :: "string list \<Rightarrow> exc option"
  ge_open_log :: "exc option"
  ge_run :: "string list \<Rightarrow> string option \<Rightarrow> json \<Rightarrow> bool \<times> int \<times> string \<times> string"
  ge_pid :: int
  ge_uuid :: string

datatype guest_request = RunCommand "string list" json "string option" | StartDetached "string list"

text \<open>A positive number that is not a boolean, or null.\<close>

definition timeout_ok :: "json \<Rightarrow> bool" where
  "timeout_ok v \<longleftrightarrow> (case v of JNull \<Rightarrow> True | JInt n \<Rightarrow> n > 0 | JNum x \<Rightarrow> x > 0 | _ \<Rightarrow> False)"

definition argv_ok :: "json \<Rightarrow> string list option" where
  "argv_ok v =
     (case v of
        JArr xs \<Rightarrow>
          if xs \<noteq> [] \<and> list_all (\<lambda>x. case x of JStr a \<Rightarrow> a \<noteq> [] | _ \<Rightarrow> False) xs
          then Some (map (\<lambda>x. case x of JStr a \<Rightarrow> a | _ \<Rightarrow> []) xs) else None
      | _ \<Rightarrow> None)"

definition field_or_null :: "string \<Rightarrow> (string \<times> json) list \<Rightarrow> json" where
  "field_or_null k fs = (case map_of fs k of None \<Rightarrow> JNull | Some v \<Rightarrow> v)"

text \<open>The validation of a request line; every \<open>ValueError\<close>, \<open>KeyError\<close> and \<open>TypeError\<close> in it is a bad request.\<close>

definition parse_request :: "(string \<Rightarrow> body) \<Rightarrow> string \<Rightarrow> guest_request option" where
  "parse_request loads line =
     (case loads line of
        Json (JObj fs) \<Rightarrow>
          (case map_of fs ''argv'' of
             None \<Rightarrow> None
           | Some argv \<Rightarrow>
              let timeout_s = field_or_null ''timeout_s'' fs;
                  detach = truthy (field_or_null ''detach'' fs);
                  stdin_b64 = field_or_null ''stdin'' fs in
              (case (if truthy stdin_b64 then map_option Some (case b64_json stdin_b64 of Inl _ \<Rightarrow> None | Inr b \<Rightarrow> Some b)
                     else Some None) of
                 None \<Rightarrow> None
               | Some stdin_bytes \<Rightarrow>
                  (case argv_ok argv of
                     None \<Rightarrow> None
                   | Some args \<Rightarrow>
                      if \<not> timeout_ok timeout_s then None
                      else if detach \<and> stdin_bytes \<noteq> None \<and> stdin_bytes \<noteq> Some [] then None
                      else Some (if detach then StartDetached args else RunCommand args timeout_s stdin_bytes))))
      | _ \<Rightarrow> None)"

definition agent_error :: "string \<Rightarrow> (string \<times> json) list" where
  "agent_error text = [(''error'', JStr text)]"

definition run_reply :: "bool \<times> int \<times> string \<times> string \<Rightarrow> (string \<times> json) list" where
  "run_reply r = (case r of (stopped, code, out, err) \<Rightarrow>
     [(''exit_code'', JInt code), (''stdout'', JStr (b64encode out)), (''stderr'', JStr (b64encode err)),
      (''timed_out'', JBool stopped)])"

text \<open>
  \<open>handle_connection\<close>: the line sent, or \<open>None\<close> when the connection is closed without one, or the exception
  that ends the thread.
\<close>

definition handle_connection :: "(json \<Rightarrow> string) \<Rightarrow> (string \<Rightarrow> body) \<Rightarrow> guest_env \<Rightarrow> stream \<Rightarrow> exc + string option" where
  "handle_connection dumps loads G input =
     (let reply = (\<lambda>fs. Inr (Some (dumps (JObj fs) @ [newline]))) in
      case guest_read_line MAX_LINE [] input of
        Inl e \<Rightarrow> if is_value_error e \<or> is_key_error e \<or> e = TypeError then reply (agent_error ''bad request'')
                 else if is_os_error e then Inr None else Inl e
      | Inr None \<Rightarrow> Inr None
      | Inr (Some line) \<Rightarrow>
         if line = [] then Inr None
         else case parse_request loads line of
           None \<Rightarrow> reply (agent_error ''bad request'')
         | Some (StartDetached argv) \<Rightarrow>
            (case (case ge_open_log G of Some e \<Rightarrow> Some e | None \<Rightarrow> ge_popen G argv) of
               Some e \<Rightarrow> if is_os_error e then reply (agent_error ''spawn failed'') else Inl e
             | None \<Rightarrow> reply [(''detached'', JBool True), (''pid'', JInt (ge_pid G)),
                        (''log'', JStr (''/tmp/agentfork-exec-'' @ ge_uuid G @ ''.log''))])
         | Some (RunCommand argv timeout_s stdin_bytes) \<Rightarrow>
            (case ge_popen G argv of
               Some e \<Rightarrow> if is_os_error e \<or> e = TypeError \<or> is_value_error e then reply (agent_error ''spawn failed'') else Inl e
             | None \<Rightarrow> reply (run_reply (ge_run G argv stdin_bytes timeout_s))))"

end
