(* ===== verification/Vsock_Props.thy ===== *)
theory Vsock_Props
  imports Vsock
begin

text \<open>
  The exec channel end to end: what a command in the guest produced is what the host receives,
  however the bytes are cut into packets and however many connection attempts fail first; connecting ends.
\<close>

section \<open>Lines\<close>

lemma newline_takeWhile [simp]:
  "newline \<notin> set l \<Longrightarrow> takeWhile (\<lambda>c. c \<noteq> newline) (l @ [newline]) = l"
  "newline \<notin> set l \<Longrightarrow> dropWhile (\<lambda>c. c \<noteq> newline) (l @ [newline]) = [newline]"
  by (auto simp: takeWhile_append dropWhile_append)

lemma chunk_cases:
  assumes "b @ concat bs = l @ [newline]" "newline \<notin> set l" "[] \<notin> set (b # bs)"
  obtains "b = l @ [newline]" "bs = []" | l' where "newline \<notin> set b" "l = b @ l'" "concat bs = l' @ [newline]"
proof (cases "concat bs = []")
  case True
  then have "bs = []" using assms(3) by (cases bs) auto
  then show ?thesis using that(1) assms(1) by simp
next
  case False
  then obtain xs x where "concat bs = xs @ [x]" by (metis rev_exhaust)
  then have "b @ xs = l" "x = newline" using assms(1) by (metis append_assoc append1_eq_conv)+
  then show ?thesis using that(2) assms(2) \<open>concat bs = xs @ [x]\<close> by auto
qed

text \<open>A line that is short enough is read whole, however it is cut.\<close>

lemma read_line_chunks:
  "concat bs = l @ [newline] \<Longrightarrow> newline \<notin> set l \<Longrightarrow> [] \<notin> set bs \<Longrightarrow> length (acc @ l) \<le> limit \<Longrightarrow>
   read_line limit acc (map Inr bs @ rs) = Inr (acc @ l, rs)"
proof (induction bs arbitrary: acc l)
  case (Cons b bs)
  from Cons.prems have "b @ concat bs = l @ [newline]" by simp
  then show ?case
  proof (rule chunk_cases [OF _ Cons.prems(2,3)])
    assume "b = l @ [newline]" "bs = []"
    then show ?thesis using Cons.prems by simp
  next
    fix l' assume l': "newline \<notin> set b" "l = b @ l'" "concat bs = l' @ [newline]"
    then show ?thesis using Cons.IH [of l' "acc @ b"] Cons.prems by auto
  qed
qed simp

lemma guest_read_line_chunks:
  "concat bs = l @ [newline] \<Longrightarrow> newline \<notin> set l \<Longrightarrow> [] \<notin> set bs \<Longrightarrow> length (acc @ l) \<le> limit \<Longrightarrow>
   guest_read_line limit acc (map Inr bs) = Inr (Some (acc @ l))"
proof (induction bs arbitrary: acc l)
  case (Cons b bs)
  from Cons.prems have "b @ concat bs = l @ [newline]" by simp
  then show ?case
  proof (rule chunk_cases [OF _ Cons.prems(2,3)])
    assume "b = l @ [newline]" "bs = []"
    then show ?thesis using Cons.prems by simp
  next
    fix l' assume l': "newline \<notin> set b" "l = b @ l'" "concat bs = l' @ [newline]"
    then show ?thesis using Cons.IH [of l' "acc @ b"] Cons.prems by auto
  qed
qed simp

section \<open>Connecting\<close>

lemma connect_skips:
  assumes "\<And>k. k < n \<Longrightarrow> \<exists>e. handshake (attempts k) = Inl e \<and> (is_os_error e \<or> e = VsockError) \<and> clk k < deadline"
    and "handshake (attempts n) = Inr c" "k \<le> n"
  shows "connect_loop attempts clk deadline k = Some (Inr c)"
  using assms(3)
proof (induction "n - k" arbitrary: k)
  case 0
  then show ?case using assms(2) by (simp add: connect_loop.simps)
next
  case (Suc m)
  then have k: "k < n" "m = n - Suc k" by auto
  obtain e where e: "handshake (attempts k) = Inl e" "is_os_error e \<or> e = VsockError" "clk k < deadline"
    using assms(1) [OF k(1)] by blast
  have "connect_loop attempts clk deadline (Suc k) = Some (Inr c)" using Suc k by auto
  then show ?case using e by (subst connect_loop.simps) auto
qed

lemma connect_ends:
  assumes "clk n \<ge> deadline" "k \<le> n"
  shows "\<exists>r. connect_loop attempts clk deadline k = Some r"
  using assms(2)
proof (induction "n - k" arbitrary: k)
  case 0
  then show ?case using assms(1) by (subst connect_loop.simps) (auto split: sum.split)
next
  case (Suc m)
  then obtain r where "connect_loop attempts clk deadline (Suc k) = Some r" by (metis Suc_diff_Suc Suc_inject Suc_leI zero_less_Suc zero_less_diff)
  then show ?case by (subst connect_loop.simps) (auto split: sum.split)
qed

section \<open>Requests\<close>

lemma map_json_strings: "map (\<lambda>x. case x of JStr a \<Rightarrow> a | _ \<Rightarrow> []) (map JStr xs) = xs"
  by (induction xs) auto

text \<open>The agent reads back the request the client wrote; empty input is no input.\<close>

lemma parse_exec_request:
  assumes "loads line = Json (JObj (exec_request argv t stdin))" "argv \<noteq> []" "[] \<notin> set argv" "timeout_ok t"
  shows "parse_request loads line = Some (RunCommand argv t (if stdin = Some [] then None else stdin))"
proof -
  have argv: "argv_ok (JArr (map JStr argv)) = Some argv"
    using assms(2,3) by (auto simp: argv_ok_def list_all_iff map_json_strings simp del: map_map)
  show ?thesis
    using assms(1,4) argv by (cases stdin) (auto simp: parse_request_def exec_request_def field_or_null_def b64_json_def
        b64_roundtrip b64encode_empty Let_def)
qed

lemma exec_reply_run: "exec_reply (run_reply (stopped, code, out, err)) =
    Inr \<lparr>er_exit_code = JInt code, er_stdout = out, er_stderr = err, er_timed_out = JBool stopped\<rparr>"
  by (simp add: exec_reply_def run_reply_def b64_json_def b64_roundtrip)

section \<open>Host and guest together\<close>

text \<open>
  The channel to an agent: the first \<open>fails\<close> attempts are refused, then the muxer accepts and the
  agent answers the line; \<open>pk\<close> says how each side's bytes are cut into packets.
\<close>

definition agent_channel :: "(json \<Rightarrow> string) \<Rightarrow> (string \<Rightarrow> body) \<Rightarrow> guest_env \<Rightarrow> (string \<Rightarrow> string list) \<Rightarrow> nat \<Rightarrow>
    string \<Rightarrow> nat \<Rightarrow> exc + conn" where
  "agent_channel dumps loads G pk fails line k =
     (if k < fails then Inl OSError
      else Inr \<lparr>cn_hello = None, cn_send = None,
        cn_recv = Inr (''OK 7'' @ [newline]) #
          (case handle_connection dumps loads G (map Inr (pk line)) of
             Inr (Some r) \<Rightarrow> map Inr (pk r) | _ \<Rightarrow> [])\<rparr>)"

definition cuts :: "(string \<Rightarrow> string list) \<Rightarrow> bool" where
  "cuts pk \<longleftrightarrow> (\<forall>s. concat (pk s) = s \<and> [] \<notin> set (pk s))"

text \<open>What the \<open>json\<close> module does on a document: its text is one line within the limit and reads back.\<close>

definition json_ok :: "(json \<Rightarrow> string) \<Rightarrow> (string \<Rightarrow> body) \<Rightarrow> json \<Rightarrow> bool" where
  "json_ok dumps loads j \<longleftrightarrow>
     loads (dumps j) = Json j \<and> newline \<notin> set (dumps j) \<and> dumps j \<noteq> [] \<and> length (dumps j) \<le> MAX_LINE"

lemma handshake_agent:
  "handshake (agent_channel dumps loads G pk fails line k) =
     (if k < fails then Inl OSError
      else Inr \<lparr>cn_hello = None, cn_send = None, cn_recv = (case handle_connection dumps loads G (map Inr (pk line)) of
             Inr (Some r) \<Rightarrow> map Inr (pk r) | _ \<Rightarrow> [])\<rparr>)"
proof -
  have "read_line 256 [] (Inr (''OK 7'' @ [newline]) # rs) = Inr (''OK 7'', rs)" for rs
    using read_line_chunks [of "[''OK 7'' @ [newline]]" "''OK 7''" "[]" 256 rs] by (simp add: newline_def)
  then show ?thesis by (simp add: agent_channel_def handshake_def)
qed

lemma agent_answers:
  assumes "cuts pk" "json_ok dumps loads (JObj rq)"
    and "parse_request loads (dumps (JObj rq)) = Some (RunCommand argv t stdin)" "ge_popen G argv = None"
  shows "handle_connection dumps loads G (map Inr (pk (dumps (JObj rq) @ [newline]))) =
    Inr (Some (dumps (JObj (run_reply (ge_run G argv stdin t))) @ [newline]))"
proof -
  have "guest_read_line MAX_LINE [] (map Inr (pk (dumps (JObj rq) @ [newline]))) = Inr (Some (dumps (JObj rq)))"
    using guest_read_line_chunks [of "pk (dumps (JObj rq) @ [newline])" "dumps (JObj rq)" "[]" MAX_LINE] assms(1,2)
    by (auto simp: cuts_def json_ok_def)
  then show ?thesis using assms by (simp add: handle_connection_def json_ok_def)
qed

section \<open>Properties\<close>

text \<open>
  C34: \<open>exec\<close> returns the exit code and exactly the output bytes of the command that ran in the guest
  with the given arguments, input and timeout, however the bytes of both directions are cut into
  packets and although the first connection attempts are refused; empty input reaches the guest as no input.
\<close>

theorem vsock_exec_end_to_end:
  assumes "cuts pk" "argv \<noteq> []" "[] \<notin> set argv" "timeout_ok t"
    and "ge_popen G argv = None" "ge_run G argv (if stdin = Some [] then None else stdin) t = (stopped, code, out, err)"
    and "json_ok dumps loads (JObj (exec_request argv t stdin))" "json_ok dumps loads (JObj (run_reply (stopped, code, out, err)))"
    and "\<And>k. k < fails \<Longrightarrow> clk k < now + tmo"
  shows "vs_exec dumps loads (agent_channel dumps loads G pk fails) clk now tmo argv t stdin =
    Some (Inr \<lparr>er_exit_code = JInt code, er_stdout = out, er_stderr = err, er_timed_out = JBool stopped\<rparr>)"
proof -
  let ?rq = "exec_request argv t stdin" and ?rp = "run_reply (stopped, code, out, err)"
  let ?c = "\<lparr>cn_hello = None, cn_send = None, cn_recv = map Inr (pk (dumps (JObj ?rp) @ [newline]))\<rparr>"
  have "parse_request loads (dumps (JObj ?rq)) = Some (RunCommand argv t (if stdin = Some [] then None else stdin))"
    using assms(2-4,7) by (intro parse_exec_request) (auto simp: json_ok_def)
  note ans = agent_answers [OF assms(1,7) this assms(5), unfolded assms(6)]
  have "vs_connect (agent_channel dumps loads G pk fails (dumps (JObj ?rq) @ [newline])) clk now tmo = Some (Inr ?c)"
    unfolding vs_connect_def
    by (rule connect_skips [where n = fails]) (use assms(9) ans in \<open>auto simp: handshake_agent is_os_error_def\<close>)
  moreover have "read_line MAX_LINE [] (cn_recv ?c) = Inr (dumps (JObj ?rp), [])"
    using read_line_chunks [of "pk (dumps (JObj ?rp) @ [newline])" "dumps (JObj ?rp)" "[]" MAX_LINE "[]"] assms(1,8)
    by (auto simp: cuts_def json_ok_def)
  moreover have "''error'' \<notin> keys ?rp" by (simp add: run_reply_def)
  ultimately show ?thesis
    using assms(2,8) by (simp add: vs_exec_def vs_roundtrip_def read_reply_def json_ok_def exec_reply_run)
qed

text \<open>
  C35: When every round of \<open>_connect\<close> takes a tenth of a second, the time it sleeps, connecting returns
  or raises, whatever the peer does.
\<close>

theorem vsock_connect_terminates:
  assumes "\<And>k. clk k \<ge> now + real k / 10"
  shows "\<exists>r. vs_connect attempts clk now tmo = Some r"
proof -
  obtain n :: nat where "10 * tmo \<le> real n" using real_arch_simple by blast
  then have "clk n \<ge> now + tmo" using assms [of n] by linarith
  then show ?thesis unfolding vs_connect_def by (rule connect_ends) simp
qed

theorem vsock_connect_terminates_witness:
  "\<exists>r. vs_connect (\<lambda>_. Inl OSError) (\<lambda>k. 5 + real k / 10) 5 3 = Some r"
  by (rule vsock_connect_terminates) simp

text \<open>
  A guest with one command, \<open>cat\<close>, reached at the third attempt through a channel that carries one byte per packet.
  The two documents of the exchange stand for their own texts.
\<close>

definition cat_guest :: guest_env where
  "cat_guest = \<lparr>ge_popen = \<lambda>_. None, ge_open_log = None,
     ge_run = \<lambda>argv stdin _. (False, 0, (case stdin of None \<Rightarrow> [] | Some b \<Rightarrow> b), []), ge_pid = 9, ge_uuid = ''u''\<rparr>"

definition cat_request :: json where
  "cat_request = JObj (exec_request [''cat''] JNull (Some ''hi''))"

definition cat_reply :: json where
  "cat_reply = JObj (run_reply (False, 0, ''hi'', []))"

definition demo_dumps :: "json \<Rightarrow> string" where
  "demo_dumps j = (if j = cat_request then ''request'' else ''reply'')"

definition demo_loads :: "string \<Rightarrow> body" where
  "demo_loads s = (if s = ''request'' then Json cat_request else if s = ''reply'' then Json cat_reply else NotJson)"

theorem vsock_exec_end_to_end_witness:
  "vs_exec demo_dumps demo_loads (agent_channel demo_dumps demo_loads cat_guest (map (\<lambda>c. [c])) 2) real 0 5
     [''cat''] JNull (Some ''hi'') =
   Some (Inr \<lparr>er_exit_code = JInt 0, er_stdout = ''hi'', er_stderr = [], er_timed_out = JBool False\<rparr>)"
proof (rule vsock_exec_end_to_end)
  show "cuts (map (\<lambda>c. [c]))" by (auto simp: cuts_def concat_map_singleton)
  have ne: "cat_reply \<noteq> cat_request" by (simp add: cat_reply_def cat_request_def run_reply_def exec_request_def)
  then show "json_ok demo_dumps demo_loads (JObj (exec_request [''cat''] JNull (Some ''hi'')))"
    "json_ok demo_dumps demo_loads (JObj (run_reply (False, 0, ''hi'', [])))"
    by (simp_all add: json_ok_def demo_dumps_def demo_loads_def newline_def MAX_LINE_def flip: cat_request_def cat_reply_def)
qed (auto simp: cat_guest_def timeout_ok_def)

section \<open>Observations\<close>

text \<open>
  A command given empty input is started without an input of its own: the request carries the empty
  text, which the agent takes for none.
\<close>

lemma empty_stdin_is_dropped:
  assumes "loads line = Json (JObj (exec_request argv t (Some [])))" "argv \<noteq> []" "[] \<notin> set argv" "timeout_ok t"
  shows "parse_request loads line = Some (RunCommand argv t None)"
  using parse_exec_request [where loads = loads and line = line, OF assms] by simp

text \<open>
  A detached command that \<open>Popen\<close> rejects with \<open>ValueError\<close> (an embedded null byte) ends the agent's thread
  without a reply; the same command run in the foreground is answered with an error.
\<close>

lemma detached_value_error_unanswered:
  assumes "json_ok dumps loads (JObj rq)" "ge_popen G argv = Some ValueError" "ge_open_log G = None"
    and "parse_request loads (dumps (JObj rq)) = Some (StartDetached argv)"
  shows "handle_connection dumps loads G [Inr (dumps (JObj rq) @ [newline])] = Inl ValueError"
proof -
  have "guest_read_line MAX_LINE [] [Inr (dumps (JObj rq) @ [newline])] = Inr (Some (dumps (JObj rq)))"
    using guest_read_line_chunks [of "[dumps (JObj rq) @ [newline]]" "dumps (JObj rq)" "[]" MAX_LINE] assms(1)
    by (simp add: json_ok_def)
  then show ?thesis using assms by (simp add: handle_connection_def json_ok_def is_os_error_def)
qed

end
