(* ===== verification/Tree_Agent.thy ===== *)
theory Tree_Agent
  imports Orchestrator_Methods Tree_Server
begin

text \<open>
  \<open>harness/agent.py\<close>: \<open>TreeAgent\<close>, the agent loop over a \<open>ForkOrchestrator\<close>.  The orchestrator is the model of
  \<open>orchestrator.py\<close>; the work on a branch, which may use the orchestrator, and the evaluator are parameters.
  A prefix is text or a list of tokens, as the KV backend takes it.
\<close>

section \<open>Data\<close>

datatype ctx = Text string | Tokens "int list"

fun ctx_length :: "ctx \<Rightarrow> nat" where
  "ctx_length (Text s) = length s"
| "ctx_length (Tokens ts) = length ts"

text \<open>\<open>None\<close> for the score is minus infinity.\<close>

record 'o branch_result =
  res_branch :: string
  res_prefix :: ctx
  res_output :: "'o option"
  res_score :: "real option"
  res_error :: "exc option"

type_synonym ('k, 'b, 'o) work = "string \<Rightarrow> ctx \<Rightarrow> ('k, 'b, 'o) op"

type_synonym 'o evaluator = "'o branch_result \<Rightarrow> exc + real"

record ('k, 'b, 'o) agent_round =
  rd_continuations :: "ctx list"
  rd_work :: "('k, 'b, 'o) work"
  rd_evaluator :: "'o evaluator"
  rd_child_ids :: "string list option"
  rd_sampling :: "json option"

record ('k, 'b) agent =
  ag_orch :: "('k, 'b) orch"
  ag_prefix :: "(string, ctx) dict"

text \<open>The default encoding of text as tokens.\<close>

definition utf8_tokens :: "string \<Rightarrow> int list" where
  "utf8_tokens text = utf8 text"

section \<open>Lineage\<close>

definition on_orch :: "('k, 'b, 'a) op \<Rightarrow> (('k, 'b) agent, 'a) proc" where
  "on_orch m s = (case m (ag_orch s) of (r, t) \<Rightarrow> (r, s\<lparr>ag_orch := t\<rparr>))"

definition string_path :: "('k, 'b) config \<Rightarrow> bool" where
  "string_path E = kb_external (cf_kv E)"

definition native_unit :: "bool \<Rightarrow> (string \<Rightarrow> int list) \<Rightarrow> ctx \<Rightarrow> exc + ctx" where
  "native_unit text_native enc v =
     (if text_native then (case v of Text _ \<Rightarrow> Inr v | Tokens _ \<Rightarrow> Inl TypeError)
      else Inr (case v of Text s \<Rightarrow> Tokens (enc s) | Tokens _ \<Rightarrow> v))"

fun strictly_extends :: "ctx \<Rightarrow> ctx \<Rightarrow> exc + bool" where
  "strictly_extends (Text b) (Text c) = Inr (length b < length c \<and> prefix b c)"
| "strictly_extends (Tokens b) (Tokens c) = Inr (length b < length c \<and> take (length b) c = b)"
| "strictly_extends (Tokens b) (Text c) = Inr False"
| "strictly_extends (Text b) (Tokens c) = (if length c \<le> length b then Inr False else Inl AttributeError)"

definition require_extension :: "ctx \<Rightarrow> ctx \<Rightarrow> ('s, unit) proc" where
  "require_extension base candidate =
     seqp (of_sum (strictly_extends base candidate)) (\<lambda>ok. raise_if (\<lambda>_. \<not> ok) PrefixViolation)"

definition committed_prefix :: "string \<Rightarrow> (('k, 'b) agent, ctx) proc" where
  "committed_prefix bid s =
     (case dget (ag_prefix s) bid of None \<Rightarrow> (Inl (KeyError bid), s) | Some v \<Rightarrow> (Inr v, s))"

definition set_prefix :: "string \<Rightarrow> ctx \<Rightarrow> (('k, 'b) agent, unit) proc" where
  "set_prefix bid v = modp (\<lambda>s. s\<lparr>ag_prefix := dset bid v (ag_prefix s)\<rparr>)"

text \<open>\<open>target[len(base):]\<close>.\<close>

fun ctx_drop :: "nat \<Rightarrow> ctx \<Rightarrow> int list" where
  "ctx_drop n (Tokens ts) = drop n ts"
| "ctx_drop n (Text s) = []"

definition ctx_json :: "ctx \<Rightarrow> json" where
  "ctx_json v = (case v of Text s \<Rightarrow> JStr s | Tokens ts \<Rightarrow> JArr (map JInt ts))"

text \<open>\<open>sampling_params or {"max_new_tokens": 1}\<close>.\<close>

definition sampling_or :: "json option \<Rightarrow> json" where
  "sampling_or sp =
     (case sp of None \<Rightarrow> JObj [(''max_new_tokens'', JInt 1)]
      | Some v \<Rightarrow> if truthy v then v else JObj [(''max_new_tokens'', JInt 1)])"

definition agent_commit :: "('k, 'b) config \<Rightarrow> string \<Rightarrow> ctx \<Rightarrow> json option \<Rightarrow> (('k, 'b) agent, unit) proc" where
  "agent_commit E bid target sampling =
     seqp (committed_prefix bid) (\<lambda>base.
     seqp (if string_path E
           then drop_value (on_orch (orch_generate E bid (ctx_json target) (sampling_or sampling) False None))
           else drop_value (on_orch (orch_extend E bid (ctx_drop (ctx_length base) target)))) (\<lambda>_.
       set_prefix bid target))"

definition agent_forget :: "kill_receipt list \<Rightarrow> (('k, 'b) agent, unit) proc" where
  "agent_forget receipts =
     modp (\<lambda>s. s\<lparr>ag_prefix := fold (\<lambda>r d. if rc_reaped r then ddel (rc_branch r) d else d) receipts (ag_prefix s)\<rparr>)"

section \<open>The loop\<close>

definition prepare_root :: "('k, 'b) config \<Rightarrow> (string \<Rightarrow> int list) \<Rightarrow> string \<Rightarrow> ctx \<Rightarrow> real option \<Rightarrow> json option \<Rightarrow>
    (('k, 'b) agent, string) proc" where
  "prepare_root E enc rid context lease sampling =
     seqp (on_orch (create_parent E rid [] lease)) (\<lambda>_.
     seqp (set_prefix rid (if string_path E then Text [] else Tokens [])) (\<lambda>_.
     seqp (of_sum (native_unit (string_path E) enc context)) (\<lambda>target.
     seqp (agent_commit E rid target sampling) (\<lambda>_. ret rid))))"

text \<open>One child of a fan-out; a failure of any of the three stages becomes its result.\<close>

definition run_child :: "('k, 'b) config \<Rightarrow> ('k, 'b, 'o) work \<Rightarrow> 'o evaluator \<Rightarrow> json option \<Rightarrow> string \<Rightarrow> ctx \<Rightarrow>
    (('k, 'b) agent, 'o branch_result) proc" where
  "run_child E work evaluator sampling bid target s =
     (let r0 = \<lparr>res_branch = bid, res_prefix = target, res_output = None, res_score = None, res_error = None\<rparr> in
      case agent_commit E bid target sampling s of
        (Inl e, s1) \<Rightarrow> (Inr (r0\<lparr>res_error := Some e\<rparr>), s1)
      | (Inr _, s1) \<Rightarrow>
         (case on_orch (work bid target) s1 of
            (Inl e, s2) \<Rightarrow> (Inr (r0\<lparr>res_error := Some e\<rparr>), s2)
          | (Inr out, s2) \<Rightarrow>
             (let r1 = r0\<lparr>res_output := Some out\<rparr> in
              case evaluator r1 of
                Inl e \<Rightarrow> (Inr (r1\<lparr>res_error := Some e\<rparr>), s2)
              | Inr x \<Rightarrow> (Inr (r1\<lparr>res_score := Some x\<rparr>), s2))))"

fun run_children :: "('k, 'b) config \<Rightarrow> ('k, 'b, 'o) work \<Rightarrow> 'o evaluator \<Rightarrow> json option \<Rightarrow> (string \<times> ctx) list \<Rightarrow>
    (('k, 'b) agent, 'o branch_result list) proc" where
  "run_children E work evaluator sampling [] = ret []"
| "run_children E work evaluator sampling ((bid, target) # rest) =
     seqp (run_child E work evaluator sampling bid target) (\<lambda>r.
     seqp (run_children E work evaluator sampling rest) (\<lambda>rs. ret (r # rs)))"

definition agent_fan_out :: "('k, 'b) config \<Rightarrow> (string \<Rightarrow> int list) \<Rightarrow> string \<Rightarrow> ctx list \<Rightarrow> ('k, 'b, 'o) work \<Rightarrow> 'o evaluator \<Rightarrow>
    string list option \<Rightarrow> json option \<Rightarrow> (('k, 'b) agent, 'o branch_result list) proc" where
  "agent_fan_out E enc parent continuations work evaluator child_ids sampling =
     seqp (committed_prefix parent) (\<lambda>base.
     seqp (of_sum (sequence (map (native_unit (string_path E) enc) continuations))) (\<lambda>targets.
     seqp (for_each targets (require_extension base)) (\<lambda>_.
     seqp (on_orch (fork E parent (int (length targets)) child_ids None)) (\<lambda>children.
     seqp (for_each children (\<lambda>c. set_prefix (br_id c) base)) (\<lambda>_.
       run_children E work evaluator sampling (zip (map br_id children) targets))))))"

text \<open>\<open>max\<close> returns the first of the largest.\<close>

definition score_less :: "real option \<Rightarrow> real option \<Rightarrow> bool" where
  "score_less a b = (case (a, b) of (None, None) \<Rightarrow> False | (None, Some _) \<Rightarrow> True | (Some _, None) \<Rightarrow> False | (Some x, Some y) \<Rightarrow> x < y)"

fun first_max :: "'o branch_result \<Rightarrow> 'o branch_result list \<Rightarrow> 'o branch_result" where
  "first_max best [] = best"
| "first_max best (r # rs) = first_max (if score_less (res_score best) (res_score r) then r else best) rs"

definition select_winner :: "'o branch_result list \<Rightarrow> exc + 'o branch_result" where
  "select_winner results =
     (case filter (\<lambda>r. res_error r = None) results of [] \<Rightarrow> Inl NoWinner | r # rs \<Rightarrow> Inr (first_max r rs))"

text \<open>\<open>kill_losers\<close>, \<open>run_round\<close> and \<open>solve\<close>; \<open>None\<close> when the orchestrator's loop does not end.\<close>

definition agent_kill_losers :: "('k, 'b) config \<Rightarrow> string \<Rightarrow> ('k, 'b) agent \<Rightarrow>
    (('k, 'b) agent, kill_receipt list) outcome option" where
  "agent_kill_losers E winner s =
     (case kill_losers E winner (ag_orch s) of
        None \<Rightarrow> None
      | Some (Inl e, t) \<Rightarrow> Some (Inl e, s\<lparr>ag_orch := t\<rparr>)
      | Some (Inr receipts, t) \<Rightarrow> Some (Inr receipts, snd (agent_forget receipts (s\<lparr>ag_orch := t\<rparr>))))"

definition run_round :: "('k, 'b) config \<Rightarrow> (string \<Rightarrow> int list) \<Rightarrow> string \<Rightarrow> ('k, 'b, 'o) agent_round \<Rightarrow> ('k, 'b) agent \<Rightarrow>
    (('k, 'b) agent, 'o branch_result) outcome option" where
  "run_round E enc parent rd s =
     (case agent_fan_out E enc parent (rd_continuations rd) (rd_work rd) (rd_evaluator rd) (rd_child_ids rd) (rd_sampling rd) s of
        (Inl e, s1) \<Rightarrow> Some (Inl e, s1)
      | (Inr results, s1) \<Rightarrow>
         (case select_winner results of
            Inl e \<Rightarrow> Some (Inl e, s1)
          | Inr winner \<Rightarrow>
             (case agent_kill_losers E (res_branch winner) s1 of
                None \<Rightarrow> None
              | Some (Inl e, s2) \<Rightarrow> Some (Inl e, s2)
              | Some (Inr _, s2) \<Rightarrow> Some (Inr winner, s2))))"

fun run_rounds :: "('k, 'b) config \<Rightarrow> (string \<Rightarrow> int list) \<Rightarrow> string \<Rightarrow> 'o branch_result option \<Rightarrow> ('k, 'b, 'o) agent_round list \<Rightarrow>
    ('k, 'b) agent \<Rightarrow> (('k, 'b) agent, 'o branch_result option) outcome option" where
  "run_rounds E enc parent winner [] s = Some (Inr winner, s)"
| "run_rounds E enc parent winner (rd # rds) s =
     (case run_round E enc parent rd s of
        None \<Rightarrow> None
      | Some (Inl e, s1) \<Rightarrow> Some (Inl e, s1)
      | Some (Inr w, s1) \<Rightarrow> run_rounds E enc (res_branch w) (Some w) rds s1)"

definition solve :: "('k, 'b) config \<Rightarrow> (string \<Rightarrow> int list) \<Rightarrow> string \<Rightarrow> ctx \<Rightarrow> ('k, 'b, 'o) agent_round list \<Rightarrow> real option \<Rightarrow>
    ('k, 'b) agent \<Rightarrow> (('k, 'b) agent, 'o branch_result option) outcome option" where
  "solve E enc rid context rounds lease s =
     (if rounds = [] then Some (Inl ValueError, s)
      else case prepare_root E enc rid context lease None s of
          (Inl e, s1) \<Rightarrow> Some (Inl e, s1)
        | (Inr _, s1) \<Rightarrow> run_rounds E enc rid None rounds s1)"

end
