(* ===== verification/Tree_Agent_Props.thy ===== *)
theory Tree_Agent_Props
  imports Tree_Agent
begin

text \<open>
  The properties of \<open>TreeAgent\<close>: the prefix ledger holds values of the backend's unit, continuations
  are checked before anything is forked, a failed branch is only its own result, the winner is
  the first best result, and a round keeps the winner's chain and nothing else.
\<close>

section \<open>The prefix ledger\<close>

definition in_unit :: "bool \<Rightarrow> ctx \<Rightarrow> bool" where
  "in_unit text_native v = (case v of Text _ \<Rightarrow> text_native | Tokens _ \<Rightarrow> \<not> text_native)"

definition ledger_typed :: "('k, 'b) config \<Rightarrow> ('k, 'b) agent \<Rightarrow> bool" where
  "ledger_typed E s \<longleftrightarrow> (\<forall>k v. dget (ag_prefix s) k = Some v \<longrightarrow> in_unit (string_path E) v)"

text \<open>A strict extension in the same unit, without the errors of mixed units.\<close>

fun ctx_extends :: "ctx \<Rightarrow> ctx \<Rightarrow> bool" where
  "ctx_extends (Text b) (Text c) = strict_prefix b c"
| "ctx_extends (Tokens b) (Tokens c) = strict_prefix b c"
| "ctx_extends _ _ = False"

lemma strict_prefix_take: "strict_prefix b c \<longleftrightarrow> length b < length c \<and> take (length b) c = b"
  using prefix_length_less [of b c] by (auto simp: prefix_iff_take [symmetric] strict_prefix_def)

lemma strictly_extends_unit:
  "in_unit u b \<Longrightarrow> in_unit u c \<Longrightarrow> strictly_extends b c = Inr (ctx_extends b c)"
  by (cases b; cases c) (auto simp: in_unit_def strict_prefix_take prefix_iff_take)

lemma native_unit_unit: "native_unit u enc c = Inr v \<Longrightarrow> in_unit u v"
  by (auto simp: native_unit_def in_unit_def split: if_splits ctx.splits)

lemma sequence_all2: "sequence rs = Inr xs \<Longrightarrow> rs = map Inr xs"
  by (induction rs arbitrary: xs rule: sequence.induct) (auto split: sum.splits)

lemma sequence_Inr: "sequence (map Inr xs) = Inr xs"
  by (induction xs) auto

lemma native_units:
  assumes "sequence (map (native_unit u enc) cs) = Inr vs"
  shows "length vs = length cs" "v \<in> set vs \<Longrightarrow> in_unit u v"
proof -
  have eq: "map (native_unit u enc) cs = map Inr vs" using sequence_all2 [OF assms] .
  show "length vs = length cs" using arg_cong [OF eq, of length] by simp
  assume "v \<in> set vs"
  then have "Inr v \<in> set (map (native_unit u enc) cs)" unfolding eq by simp
  then show "in_unit u v" using native_unit_unit by (auto dest: sym)
qed

lemma agent_of_sum: "keeps P (of_sum r)"
  by (auto simp: keeps_iff of_sum_def)

lemma on_orch_ledger [simp]: "ag_prefix (snd (on_orch m s)) = ag_prefix s"
  by (simp add: on_orch_def split: prod.split)

lemma on_orch_orch: "ag_orch (snd (on_orch m s)) = snd (m (ag_orch s))"
  by (simp add: on_orch_def split: prod.split)

lemma on_orch_fst: "fst (on_orch m s) = fst (m (ag_orch s))"
  by (simp add: on_orch_def split: prod.split)

text \<open>A commit that returns has set the entry of its branch; one that raises has not changed the ledger.\<close>

lemma agent_commit_ledger:
  "ag_prefix (snd (agent_commit E bid target sampling s)) =
     (case fst (agent_commit E bid target sampling s) of Inl _ \<Rightarrow> ag_prefix s | Inr _ \<Rightarrow> dset bid target (ag_prefix s))"
  by (auto simp: agent_commit_def committed_prefix_def drop_value_def seqp_def ret_def set_prefix_def modp_def on_orch_def
      split: option.split prod.split sum.split)

text \<open>What one child leaves: its result, and the ledger it found with at most its own entry changed.\<close>

definition child_ran :: "'o evaluator \<Rightarrow> string \<Rightarrow> ctx \<Rightarrow> (string \<Rightarrow> ctx option) \<Rightarrow> 'o branch_result \<Rightarrow> (string \<Rightarrow> ctx option) \<Rightarrow> bool" where
  "child_ran evaluator bid target L r L' \<longleftrightarrow> res_branch r = bid \<and> res_prefix r = target \<and>
     (L' = L \<or> L' = L(bid \<mapsto> target)) \<and>
     (res_error r = None \<longrightarrow> L' = L(bid \<mapsto> target) \<and> res_output r \<noteq> None \<and>
        (\<exists>x. res_score r = Some x \<and> evaluator (r\<lparr>res_score := None\<rparr>) = Inr x))"

lemma run_child_ran:
  obtains r s' where "run_child E work evaluator sampling bid target s = (Inr r, s')"
    "child_ran evaluator bid target (dget (ag_prefix s)) r (dget (ag_prefix s'))"
proof -
  obtain c s1 where c: "agent_commit E bid target sampling s = (c, s1)" by fastforce
  then have L: "ag_prefix s1 = (case c of Inl _ \<Rightarrow> ag_prefix s | Inr _ \<Rightarrow> dset bid target (ag_prefix s))"
    using agent_commit_ledger [of E bid target sampling s] by simp
  obtain o2 s2 where w: "on_orch (work bid target) s1 = (o2, s2)" by fastforce
  then have "ag_prefix s2 = ag_prefix s1" using on_orch_ledger [of "work bid target" s1] by simp
  with L have "\<exists>r s'. run_child E work evaluator sampling bid target s = (Inr r, s') \<and>
      child_ran evaluator bid target (dget (ag_prefix s)) r (dget (ag_prefix s'))"
    by (auto simp: run_child_def child_ran_def c w Let_def fun_eq_iff split: sum.splits)
  with that show thesis by blast
qed

fun children_ran :: "'o evaluator \<Rightarrow> (string \<times> ctx) list \<Rightarrow> (string \<Rightarrow> ctx option) \<Rightarrow> 'o branch_result list \<Rightarrow>
    (string \<Rightarrow> ctx option) \<Rightarrow> bool" where
  "children_ran evaluator [] L rs L' \<longleftrightarrow> rs = [] \<and> L' = L"
| "children_ran evaluator ((bid, target) # ps) L rs L' \<longleftrightarrow>
     (\<exists>r rs' M. rs = r # rs' \<and> child_ran evaluator bid target L r M \<and> children_ran evaluator ps M rs' L')"

lemma run_children_ran:
  "\<exists>rs s'. run_children E work evaluator sampling ps s = (Inr rs, s') \<and>
     children_ran evaluator ps (dget (ag_prefix s)) rs (dget (ag_prefix s'))"
proof (induction ps arbitrary: s)
  case Nil
  then show ?case by (simp add: ret_def)
next
  case (Cons p ps)
  obtain bid target where p: "p = (bid, target)" by fastforce
  obtain r s1 where r: "run_child E work evaluator sampling bid target s = (Inr r, s1)"
    and ran: "child_ran evaluator bid target (dget (ag_prefix s)) r (dget (ag_prefix s1))"
    by (rule run_child_ran)
  obtain rs s2 where "run_children E work evaluator sampling ps s1 = (Inr rs, s2)"
    "children_ran evaluator ps (dget (ag_prefix s1)) rs (dget (ag_prefix s2))" using Cons.IH by blast
  then show ?case using r ran by (auto simp: p seqp_def ret_def)
qed

lemma children_ran_results:
  "children_ran evaluator ps L rs L' \<Longrightarrow> map res_branch rs = map fst ps \<and> map res_prefix rs = map snd ps"
  by (induction ps arbitrary: L rs) (auto simp: child_ran_def)

lemma children_ran_other:
  "children_ran evaluator ps L rs L' \<Longrightarrow> k \<notin> fst ` set ps \<Longrightarrow> L' k = L k"
  by (induction ps arbitrary: L rs) (fastforce simp: child_ran_def)+

lemma children_ran_entry:
  assumes "children_ran evaluator ps L rs L'" "distinct (map fst ps)" "r \<in> set rs"
  shows "L' (res_branch r) = L (res_branch r) \<or> L' (res_branch r) = Some (res_prefix r)"
    "res_error r = None \<Longrightarrow> L' (res_branch r) = Some (res_prefix r)"
    "res_error r = None \<Longrightarrow> res_output r \<noteq> None \<and> (\<exists>x. res_score r = Some x \<and> evaluator (r\<lparr>res_score := None\<rparr>) = Inr x)"
proof -
  have "(L' (res_branch r) = L (res_branch r) \<or> L' (res_branch r) = Some (res_prefix r)) \<and>
      (res_error r = None \<longrightarrow> L' (res_branch r) = Some (res_prefix r) \<and> res_output r \<noteq> None \<and>
         (\<exists>x. res_score r = Some x \<and> evaluator (r\<lparr>res_score := None\<rparr>) = Inr x))"
    using assms
  proof (induction ps arbitrary: L rs)
    case (Cons p ps)
    obtain bid target where p: "p = (bid, target)" by fastforce
    obtain r1 rs1 M where q: "rs = r1 # rs1" "child_ran evaluator bid target L r1 M" "children_ran evaluator ps M rs1 L'"
      using Cons.prems(1) p by auto
    have other: "L' bid = M bid" using children_ran_other [OF q(3)] Cons.prems(2) p by auto
    show ?case
    proof (cases "r \<in> set rs1")
      case True
      then have "res_branch r \<in> fst ` set ps"
        using arg_cong [OF conjunct1 [OF children_ran_results [OF q(3)]], of set] by auto
      then have "res_branch r \<noteq> bid" using Cons.prems(2) p by force
      then have "M (res_branch r) = L (res_branch r)" using q(2) by (auto simp: child_ran_def)
      then show ?thesis using Cons.IH [OF q(3) _ True] Cons.prems(2) by simp
    next
      case False
      then have "r = r1" using Cons.prems(3) q(1) by simp
      then show ?thesis using q(2) other by (auto simp: child_ran_def)
    qed
  qed simp
  then show "L' (res_branch r) = L (res_branch r) \<or> L' (res_branch r) = Some (res_prefix r)"
    "res_error r = None \<Longrightarrow> L' (res_branch r) = Some (res_prefix r)"
    "res_error r = None \<Longrightarrow> res_output r \<noteq> None \<and> (\<exists>x. res_score r = Some x \<and> evaluator (r\<lparr>res_score := None\<rparr>) = Inr x)"
    by blast+
qed


section \<open>Fanning out\<close>

text \<open>The three checks before the fork, and what is left to do after them.\<close>

definition fork_children_of :: "('k, 'b) config \<Rightarrow> string \<Rightarrow> ctx \<Rightarrow> ctx list \<Rightarrow> ('k, 'b, 'o) work \<Rightarrow> 'o evaluator \<Rightarrow>
    string list option \<Rightarrow> json option \<Rightarrow> (('k, 'b) agent, 'o branch_result list) proc" where
  "fork_children_of E parent base targets work evaluator child_ids sampling =
     seqp (on_orch (fork E parent (int (length targets)) child_ids None)) (\<lambda>children.
     seqp (for_each children (\<lambda>c. set_prefix (br_id c) base)) (\<lambda>_.
       run_children E work evaluator sampling (zip (map br_id children) targets)))"

lemma require_all:
  assumes "in_unit u base" "\<And>v. v \<in> set vs \<Longrightarrow> in_unit u v"
  shows "for_each vs (require_extension base) s =
    (if \<forall>v \<in> set vs. ctx_extends base v then (Inr (), s) else (Inl PrefixViolation, s))"
  using assms(2)
  by (induction vs) (auto simp: require_extension_def strictly_extends_unit [OF assms(1)] proc_defs of_sum_def)

lemma fan_out_checks:
  assumes "ledger_typed E s"
  shows "agent_fan_out E enc parent cs work evaluator ids sampling s =
    (case dget (ag_prefix s) parent of
       None \<Rightarrow> (Inl (KeyError parent), s)
     | Some base \<Rightarrow> (case sequence (map (native_unit (string_path E) enc) cs) of
         Inl e \<Rightarrow> (Inl e, s)
       | Inr targets \<Rightarrow> if \<forall>v \<in> set targets. ctx_extends base v
           then fork_children_of E parent base targets work evaluator ids sampling s else (Inl PrefixViolation, s)))"
proof (cases "dget (ag_prefix s) parent")
  case (Some base)
  have base: "in_unit (string_path E) base" using assms Some by (simp add: ledger_typed_def)
  show ?thesis
  proof (cases "sequence (map (native_unit (string_path E) enc) cs)")
    case (Inr targets)
    note all = require_all [OF base native_units(2) [OF Inr], simplified]
    show ?thesis
      by (simp add: agent_fan_out_def committed_prefix_def fork_children_of_def seqp_def of_sum_def Some Inr all)
  qed (simp add: agent_fan_out_def committed_prefix_def seqp_def of_sum_def Some)
qed (simp add: agent_fan_out_def committed_prefix_def seqp_def)

lemma sequence_error:
  "sequence (map (native_unit u enc) cs) = Inl e \<Longrightarrow> e = TypeError"
  by (induction cs) (auto simp: native_unit_def split: sum.splits if_splits ctx.splits)

text \<open>
  C31: Continuations are checked before anything is forked: when the parent has no committed prefix,
  or a continuation is not of the backend's unit or does not strictly extend that prefix,
  \<open>fan_out\<close> raises and neither the orchestrator, its registry and backends nor the ledger change.
\<close>

theorem fan_out_refuses_untouched:
  assumes "ledger_typed E s"
    and "\<not> (\<exists>base targets. dget (ag_prefix s) parent = Some base \<and>
           sequence (map (native_unit (string_path E) enc) cs) = Inr targets \<and> (\<forall>v \<in> set targets. ctx_extends base v))"
  shows "\<exists>e. agent_fan_out E enc parent cs work evaluator ids sampling s = (Inl e, s) \<and>
    e \<in> {KeyError parent, TypeError, PrefixViolation}"
  using assms(2) sequence_error [of "string_path E" enc cs]
  by (auto simp: fan_out_checks [OF assms(1)] split: option.splits sum.splits)

lemma set_prefixes:
  "for_each cs (\<lambda>c. set_prefix (br_id c) base) s = (Inr (), s\<lparr>ag_prefix := fold (\<lambda>c. dset (br_id c) base) cs (ag_prefix s)\<rparr>)"
  by (induction cs arbitrary: s) (simp_all add: set_prefix_def proc_defs)

lemma dget_fold_dset:
  "dget (fold (\<lambda>c. dset (f c) v) cs d) k = (if k \<in> f ` set cs then Some v else dget d k)"
  by (induction cs arbitrary: d) auto

text \<open>Past the checks, either the fork raises and the ledger is as it was, or every child has run.\<close>

lemma fork_children_of_cases:
  obtains e t where "fork E parent (int (length targets)) ids None (ag_orch s) = (Inl e, t)"
    "fork_children_of E parent base targets work evaluator ids sampling s = (Inl e, s\<lparr>ag_orch := t\<rparr>)"
  | bs t rs s' where "fork E parent (int (length targets)) ids None (ag_orch s) = (Inr bs, t)"
    "fork_children_of E parent base targets work evaluator ids sampling s = (Inr rs, s')"
    "run_children E work evaluator sampling (zip (map br_id bs) targets)
       (s\<lparr>ag_orch := t, ag_prefix := fold (\<lambda>c. dset (br_id c) base) bs (ag_prefix s)\<rparr>) = (Inr rs, s')"
    "children_ran evaluator (zip (map br_id bs) targets)
       (\<lambda>k. if k \<in> br_id ` set bs then Some base else dget (ag_prefix s) k) rs (dget (ag_prefix s'))"
proof -
  obtain r t where f: "fork E parent (int (length targets)) ids None (ag_orch s) = (r, t)" by fastforce
  show thesis
  proof (cases r)
    case (Inl e)
    then show ?thesis using f by (rule_tac that(1)) (simp_all add: fork_children_of_def seqp_def on_orch_def)
  next
    case (Inr bs)
    let ?s = "s\<lparr>ag_orch := t, ag_prefix := fold (\<lambda>c. dset (br_id c) base) bs (ag_prefix s)\<rparr>"
    obtain rs s' where "run_children E work evaluator sampling (zip (map br_id bs) targets) ?s = (Inr rs, s')"
      "children_ran evaluator (zip (map br_id bs) targets) (dget (ag_prefix ?s)) rs (dget (ag_prefix s'))"
      using run_children_ran by blast
    then show ?thesis
      using f Inr by (rule_tac that(2)) (simp_all add: fork_children_of_def seqp_def on_orch_def set_prefixes dget_fold_dset [abs_def])
  qed
qed


lemma fan_out_returned:
  assumes "ledger_typed E s" "reg_inv (ag_orch s)"
    and "agent_fan_out E enc parent cs work evaluator ids sampling s = (Inr rs, s')"
  shows "\<exists>base. dget (ag_prefix s) parent = Some base \<and>
    map (\<lambda>r. Inr (res_prefix r)) rs = map (native_unit (string_path E) enc) cs \<and>
    distinct (map res_branch rs) \<and> (\<forall>r \<in> set rs. res_branch r \<notin> keys (o_branches (ag_orch s))) \<and>
    (\<forall>r \<in> set rs. ctx_extends base (res_prefix r) \<and>
       (if res_error r = None
        then dget (ag_prefix s') (res_branch r) = Some (res_prefix r) \<and> res_output r \<noteq> None \<and>
          (\<exists>x. res_score r = Some x \<and> evaluator (r\<lparr>res_score := None\<rparr>) = Inr x)
        else dget (ag_prefix s') (res_branch r) \<in> {Some base, Some (res_prefix r)})) \<and>
    (\<forall>k. k \<notin> res_branch ` set rs \<longrightarrow> dget (ag_prefix s') k = dget (ag_prefix s) k)"
proof -
  obtain base targets where ok: "dget (ag_prefix s) parent = Some base"
    "sequence (map (native_unit (string_path E) enc) cs) = Inr targets" "\<forall>v \<in> set targets. ctx_extends base v"
    "fork_children_of E parent base targets work evaluator ids sampling s = (Inr rs, s')"
    using assms(3) by (auto simp: fan_out_checks [OF assms(1)] split: option.splits sum.splits if_splits)
  obtain bs t where f: "fork E parent (int (length targets)) ids None (ag_orch s) = (Inr bs, t)"
    and ran: "children_ran evaluator (zip (map br_id bs) targets)
       (\<lambda>k. if k \<in> br_id ` set bs then Some base else dget (ag_prefix s) k) rs (dget (ag_prefix s'))"
    using ok(4) by (rule_tac fork_children_of_cases [of E parent targets ids s base work evaluator sampling]) auto
  have forked: "forked (dget (o_branches (ag_orch s))) parent (int (length targets)) bs t"
    using tripleD(2) [OF fork_outcome [of "dget (o_branches (ag_orch s))"] _ f] assms(2) by simp
  then have len: "length bs = length targets" and dist: "distinct (map br_id bs)" by (simp_all add: forked_def)
  have ids: "map res_branch rs = map br_id bs" and pre: "map res_prefix rs = targets"
    using children_ran_results [OF ran] len by simp_all
  have "map (native_unit (string_path E) enc) cs = map Inr targets" using sequence_all2 [OF ok(2)] .
  then have "map (\<lambda>r. Inr (res_prefix r)) rs = map (native_unit (string_path E) enc) cs"
    by (simp flip: pre add: comp_def)
  moreover have in_ids: "res_branch r \<in> br_id ` set bs" if "r \<in> set rs" for r
    using that arg_cong [OF ids, of set] by auto
  moreover have "ctx_extends base (res_prefix r)" if "r \<in> set rs" for r
    using that ok(3) by (auto simp flip: pre)
  moreover have "dget (ag_prefix s') k = dget (ag_prefix s) k" if "k \<notin> res_branch ` set rs" for k
    using children_ran_other [OF ran, of k] that arg_cong [OF ids, of set] len by (auto simp flip: set_map)
  moreover have "distinct (map fst (zip (map br_id bs) targets))" using len dist by simp
  note entry = children_ran_entry [OF ran this]
  moreover have "res_branch r \<notin> keys (o_branches (ag_orch s))" if "r \<in> set rs" for r
    using in_ids [OF that] forked by (auto simp: forked_def simp flip: dget_None_iff)
  ultimately show ?thesis
    using entry ok(1) dist ids by (intro exI [of _ base]) auto
qed

text \<open>
  C32: A \<open>fan_out\<close> that returns has one result per continuation, in order, on distinct new branches; a
  failed branch stops none of its siblings.  A branch whose result has no error was scored by the
  evaluator on its output, and its committed prefix is its continuation, a strict extension of
  the parent's; every failed one has its continuation or still the parent's prefix, and the
  prefixes of all other branches are unchanged.
\<close>

theorem fan_out_lineage:
  assumes "ledger_typed E s" "reg_inv (ag_orch s)"
    and "agent_fan_out E enc parent cs work evaluator ids sampling s = (Inr rs, s')"
  shows "\<exists>base. dget (ag_prefix s) parent = Some base \<and>
    map (\<lambda>r. Inr (res_prefix r)) rs = map (native_unit (string_path E) enc) cs \<and>
    distinct (map res_branch rs) \<and> (\<forall>r \<in> set rs. res_branch r \<notin> keys (o_branches (ag_orch s))) \<and>
    (\<forall>r \<in> set rs. ctx_extends base (res_prefix r) \<and>
       (if res_error r = None
        then dget (ag_prefix s') (res_branch r) = Some (res_prefix r) \<and> res_output r \<noteq> None \<and>
          (\<exists>x. res_score r = Some x \<and> evaluator (r\<lparr>res_score := None\<rparr>) = Inr x)
        else dget (ag_prefix s') (res_branch r) \<in> {Some base, Some (res_prefix r)})) \<and>
    (\<forall>k. k \<notin> res_branch ` set rs \<longrightarrow> dget (ag_prefix s') k = dget (ag_prefix s) k)"
  by (rule fan_out_returned [OF assms])

section \<open>The winner\<close>

lemma score_order:
  "score_less x y \<Longrightarrow> score_less y z \<Longrightarrow> score_less x z" "\<not> score_less x y \<Longrightarrow> score_less x z \<Longrightarrow> score_less y z"
  "\<not> score_less x x"
  by (auto simp: score_less_def split: option.splits)

definition first_best :: "'o branch_result list \<Rightarrow> 'o branch_result \<Rightarrow> bool" where
  "first_best rs w \<longleftrightarrow> (\<exists>before after. rs = before @ w # after \<and>
     (\<forall>r \<in> set before. score_less (res_score r) (res_score w)) \<and> (\<forall>r \<in> set after. \<not> score_less (res_score w) (res_score r)))"

lemma first_bestI:
  "(\<forall>r \<in> set before. score_less (res_score r) (res_score w)) \<Longrightarrow> (\<forall>r \<in> set after. \<not> score_less (res_score w) (res_score r)) \<Longrightarrow>
   rs = before @ w # after \<Longrightarrow> first_best rs w"
  by (auto simp: first_best_def)

lemma first_max_best: "first_best (b # rs) (first_max b rs)"
proof (induction rs arbitrary: b)
  case Nil
  then show ?case by (auto intro: first_bestI [of "[]" _ "[]"])
next
  case (Cons r rs)
  define w where "w = first_max b (r # rs)"
  let ?b = "if score_less (res_score b) (res_score r) then r else b"
  have "first_best (?b # rs) w" unfolding w_def first_max.simps by (rule Cons.IH)
  then obtain before after where w: "?b # rs = before @ w # after" "\<forall>x \<in> set before. score_less (res_score x) (res_score w)"
    "\<forall>x \<in> set after. \<not> score_less (res_score w) (res_score x)"
    by (auto simp: first_best_def)
  have "first_best (b # r # rs) w"
  proof (cases "score_less (res_score b) (res_score r)")
    case True
    then have "score_less (res_score b) (res_score w)"
      using w(1,2) score_order(1) [OF True] by (cases before) auto
    then show ?thesis
      using w True by (intro first_bestI [of "b # before" w after]) simp_all
  next
    case False
    show ?thesis
    proof (cases before)
      case Nil
      then show ?thesis using w(1,3) False by (intro first_bestI [of "[]" w "r # rs"]) simp_all
    next
      case (Cons b' before')
      then have rs: "b' = b" "rs = before' @ w # after" using w(1) False by simp_all
      then have "score_less (res_score b) (res_score w)" using w(2) Cons by simp
      then show ?thesis
        using w(2,3) score_order(2) [OF False] Cons rs by (intro first_bestI [of "b # r # before'" w after]) simp_all
    qed
  qed
  then show ?case by (simp add: w_def)
qed

lemma select_winner_best:
  "case select_winner results of
     Inl e \<Rightarrow> e = NoWinner \<and> (\<forall>r \<in> set results. res_error r \<noteq> None)
   | Inr w \<Rightarrow> w \<in> set results \<and> res_error w = None \<and> first_best (filter (\<lambda>r. res_error r = None) results) w"
proof (cases "filter (\<lambda>r. res_error r = None) results")
  case Nil
  then show ?thesis by (auto simp: select_winner_def filter_empty_conv)
next
  case (Cons r rs)
  have best: "first_best (filter (\<lambda>r. res_error r = None) results) (first_max r rs)"
    unfolding Cons by (rule first_max_best)
  then have "first_max r rs \<in> set (filter (\<lambda>r. res_error r = None) results)" unfolding first_best_def by force
  then have "first_max r rs \<in> set results" "res_error (first_max r rs) = None" by simp_all
  then show ?thesis using best by (simp add: select_winner_def Cons)
qed

text \<open>
  \<open>select_winner\<close> raises \<open>NoWinner\<close> exactly when every result failed; otherwise the winner is an
  error-free result, no error-free result scores higher, and every error-free one before it scores less.
\<close>

theorem winner_is_first_best:
  "case select_winner results of
     Inl e \<Rightarrow> e = NoWinner \<and> filter (\<lambda>r. res_error r = None) results = []
   | Inr w \<Rightarrow> w \<in> set results \<and> res_error w = None \<and> first_best (filter (\<lambda>r. res_error r = None) results) w"
  using select_winner_best [of results] by (simp add: filter_empty_conv split: sum.splits)


section \<open>What the agent keeps of the orchestrator\<close>

lemma dget_forget:
  "dget (fold (\<lambda>r d. if rc_reaped r then ddel (rc_branch r) d else d) rs d) x =
     (if \<exists>r \<in> set rs. rc_reaped r \<and> rc_branch r = x then None else dget d x)"
  by (induction rs arbitrary: d) auto

lemma run_round_cases:
  assumes "run_round E enc parent rd s = Some (r, s')"
    and "agent_fan_out E enc parent (rd_continuations rd) (rd_work rd) (rd_evaluator rd) (rd_child_ids rd) (rd_sampling rd) s = (q, s1)"
  obtains e where "q = Inl e" "r = Inl e" "s' = s1"
  | rs e where "q = Inr rs" "select_winner rs = Inl e" "r = Inl e" "s' = s1"
  | rs w k where "q = Inr rs" "select_winner rs = Inr w" "agent_kill_losers E (res_branch w) s1 = Some (k, s')"
     "r = (case k of Inl e \<Rightarrow> Inl e | Inr _ \<Rightarrow> Inr w)"
proof (cases q)
  case (Inl e)
  then show ?thesis using assms that(1) by (simp add: run_round_def)
next
  case (Inr rs)
  show ?thesis
  proof (cases "select_winner rs")
    case (Inl e)
    then show ?thesis using assms Inr by (intro that(2) [of rs e]) (simp_all add: run_round_def)
  next
    case winner: (Inr w)
    obtain k s2 where k: "agent_kill_losers E (res_branch w) s1 = Some (k, s2)"
      using assms Inr winner by (auto simp: run_round_def split: option.splits)
    then have "r = (case k of Inl e \<Rightarrow> Inl e | Inr _ \<Rightarrow> Inr w)" "s2 = s'"
      using assms Inr winner by (auto simp: run_round_def split: sum.splits)
    then show ?thesis using k Inr winner that(3) by blast
  qed
qed

text \<open>
  The agent uses the orchestrator only through its methods: whatever they keep, the agent keeps,
  beside the unit of its ledger, provided the work on the branches does.
\<close>

locale orch_client =
  fixes E :: "('k, 'b) config" and ok :: "call \<Rightarrow> bool" and Q :: "('k, 'b) orch \<Rightarrow> bool"
  assumes step: "Q t \<Longrightarrow> ok c \<Longrightarrow> orch_step E c t = Some t' \<Longrightarrow> Q t'"
    and calls: "ok (CallCreate b [] l)" "ok (CallExtend b ts)" "ok (CallGenerate b p sp False None)" "ok (CallKillLosers b)"
begin

definition J :: "('k, 'b) agent \<Rightarrow> bool" where
  "J s \<longleftrightarrow> Q (ag_orch s) \<and> ledger_typed E s"

lemma J_on_orch: "(\<And>t. Q t \<Longrightarrow> Q (snd (m t))) \<Longrightarrow> keeps J (on_orch m)"
  by (auto simp: keeps_iff J_def ledger_typed_def on_orch_orch)

lemma J_set_prefix: "in_unit (string_path E) v \<Longrightarrow> keeps J (set_prefix bid v)"
  by (auto simp: keeps_iff J_def ledger_typed_def set_prefix_def modp_def)

lemma J_committed: "keeps J (committed_prefix bid)"
  by (auto simp: keeps_iff committed_prefix_def split: option.splits)

lemma J_commit:
  assumes "in_unit (string_path E) target"
  shows "keeps J (agent_commit E bid target sampling)"
proof -
  have "keeps J (drop_value (on_orch (orch_generate E bid p sp False None)))" for p sp
    unfolding drop_value_def by (intro keeps J_on_orch) (rule step [OF _ calls(3)], auto)
  moreover have "keeps J (drop_value (on_orch (orch_extend E bid ts)))" for ts
    unfolding drop_value_def by (intro keeps J_on_orch) (rule step [OF _ calls(2)], auto)
  ultimately show ?thesis
    unfolding agent_commit_def
    by (intro keeps_seqp [OF J_committed] keeps_seqp keeps_if J_set_prefix assms)
qed

lemma J_prepare_root: "keeps J (prepare_root E enc rid context lease sampling)"
proof -
  have root: "keeps J (on_orch (create_parent E rid [] lease))"
    by (intro J_on_orch) (rule step [OF _ calls(1)], auto)
  have "triple J (of_sum (native_unit (string_path E) enc context)) (\<lambda>v s. J s \<and> in_unit (string_path E) v) J"
    by (rule tripleI) (auto simp: of_sum_def dest: native_unit_unit)
  note unit = this
  have "triple (\<lambda>s. J s \<and> in_unit (string_path E) v) (seqp (agent_commit E rid v sampling) (\<lambda>_. ret rid)) (\<lambda>_. J) J" for v
    by (rule triple_assume) (intro keeps_seqp J_commit keeps)
  then show ?thesis
    unfolding prepare_root_def
    by (intro keeps_seqp [OF root] keeps_seqp [OF J_set_prefix] triple_seqp [OF unit]) (auto simp: in_unit_def)
qed

lemma J_run_child:
  assumes "\<And>b v t. Q t \<Longrightarrow> Q (snd (work b v t))" "in_unit (string_path E) target"
  shows "keeps J (run_child E work evaluator sampling bid target)"
proof (rule keepsI)
  fix s assume "J s"
  obtain c s1 where c: "agent_commit E bid target sampling s = (c, s1)" by fastforce
  then have 1: "J s1" using keeps_snd [OF J_commit [OF assms(2)] \<open>J s\<close>, of bid sampling] by simp
  obtain r s2 where r: "on_orch (work bid target) s1 = (r, s2)" by fastforce
  then have 2: "J s2" using keeps_snd [OF J_on_orch 1, of "work bid target"] assms(1) by simp
  show "J (snd (run_child E work evaluator sampling bid target s))"
    using 1 2 by (simp add: run_child_def c r Let_def split: sum.split)
qed

lemma J_run_children:
  assumes "\<And>b v t. Q t \<Longrightarrow> Q (snd (work b v t))"
  shows "(\<And>p. p \<in> set ps \<Longrightarrow> in_unit (string_path E) (snd p)) \<Longrightarrow> keeps J (run_children E work evaluator sampling ps)"
proof (induction ps)
  case (Cons p ps)
  have "in_unit (string_path E) (snd p)" "keeps J (run_children E work evaluator sampling ps)"
    using Cons by simp_all
  moreover have "keeps J (seqp (run_children E work evaluator sampling ps) (\<lambda>rs. ret (r # rs)))" for r
    using calculation(2) by (intro keeps_seqp keeps_simple)
  ultimately show ?case
    by (cases p) (simp add: keeps_seqp [OF J_run_child [where work = work, OF assms]])
qed (simp add: keeps)

lemma J_fan_out:
  assumes work: "\<And>b v t. Q t \<Longrightarrow> Q (snd (work b v t))" and ids: "\<And>n. ok (CallFork parent n ids None)"
  shows "keeps J (agent_fan_out E enc parent cs work evaluator ids sampling)"
proof (rule keepsI)
  fix s assume J: "J s"
  have "J (snd (fork_children_of E parent base targets work evaluator ids sampling s))"
    if "in_unit (string_path E) base" "\<And>v. v \<in> set targets \<Longrightarrow> in_unit (string_path E) v" for base targets
  proof -
    have "keeps J (run_children E work evaluator sampling (zip xs targets))" for xs
      by (rule J_run_children [OF work]) (metis that(2) set_zip_rightD prod.collapse)+
    moreover have "keeps J (on_orch (fork E parent (int (length targets)) ids None))"
      by (intro J_on_orch) (rule step [OF _ ids], auto)
    ultimately show ?thesis
      unfolding fork_children_of_def by (intro keeps_snd [where P = J, OF _ J] keeps_seqp keeps_for_each J_set_prefix that(1))
  qed
  note rest = this
  have typed: "ledger_typed E s" using J by (simp add: J_def)
  show "J (snd (agent_fan_out E enc parent cs work evaluator ids sampling s))"
    using J typed native_units(2) [of "string_path E" enc cs]
    by (auto simp: fan_out_checks [OF typed] ledger_typed_def split: option.split sum.split intro!: rest)
qed

lemma J_kill_losers: "J s \<Longrightarrow> agent_kill_losers E w s = Some (r, s') \<Longrightarrow> J s'"
proof -
  assume J: "J s" and k: "agent_kill_losers E w s = Some (r, s')"
  obtain q t where q: "kill_losers E w (ag_orch s) = Some (q, t)"
    using k by (auto simp: agent_kill_losers_def split: option.splits)
  have "Q t" using J q step [OF _ calls(4), of "ag_orch s" w t] by (simp add: J_def)
  then show "J s'"
    using J k q
    by (auto simp: agent_kill_losers_def agent_forget_def modp_def J_def ledger_typed_def dget_forget split: sum.splits if_splits)
qed

lemma J_run_round:
  assumes "\<And>b v t. Q t \<Longrightarrow> Q (snd (rd_work rd b v t))" "\<And>n. ok (CallFork parent n (rd_child_ids rd) None)"
    and "J s" "run_round E enc parent rd s = Some (r, s')"
  shows "J s'"
proof -
  obtain q s1 where q: "agent_fan_out E enc parent (rd_continuations rd) (rd_work rd) (rd_evaluator rd) (rd_child_ids rd)
      (rd_sampling rd) s = (q, s1)" by fastforce
  have "J s1"
    using keeps_snd [OF J_fan_out [where work = "rd_work rd", OF assms(1,2)] assms(3), of enc "rd_continuations rd" "rd_evaluator rd" "rd_sampling rd"]
    by (simp add: q)
  then show ?thesis by (rule_tac run_round_cases [OF assms(4) q]) (auto dest: J_kill_losers)
qed

end


section \<open>Rounds\<close>

interpretation any_orch: orch_client E "\<lambda>_. True" "\<lambda>_. True" for E
  by unfold_locales simp_all

interpretation reached: orch_client E "call_ok ends" "orch_reach (call_ok ends) E s0" for E ends s0
  by unfold_locales (auto intro: orch_reach.step)

text \<open>A round whose work uses the orchestrator's methods and whose child ids are not empty.\<close>

definition round_ok :: "string set \<Rightarrow> ('k, 'b) config \<Rightarrow> ('k, 'b) orch \<Rightarrow> ('k, 'b, 'o) agent_round \<Rightarrow> bool" where
  "round_ok ends E s0 rd \<longleftrightarrow>
     (\<forall>b v t. orch_reach (call_ok ends) E s0 t \<longrightarrow> orch_reach (call_ok ends) E s0 (snd (rd_work rd b v t))) \<and>
     (case rd_child_ids rd of None \<Rightarrow> True | Some ids \<Rightarrow> [] \<notin> set ids)"

text \<open>
  C33: The prefix ledger is typed: for every outcome of \<open>prepare_root\<close>, \<open>fan_out\<close>, \<open>kill_losers\<close> and
  \<open>run_round\<close>, and whatever the backends and the work do, every committed prefix is text when the
  KV backend is text-native and a token list otherwise.
\<close>

theorem agent_ledger_typed:
  assumes "ledger_typed E s"
  shows "ledger_typed E (snd (prepare_root E enc rid context lease sampling s)) \<and>
    ledger_typed E (snd (agent_fan_out E enc parent cs work evaluator ids sampling s)) \<and>
    (\<forall>r s'. agent_kill_losers E w s = Some (r, s') \<longrightarrow> ledger_typed E s') \<and>
    (\<forall>r s'. run_round E enc parent rd s = Some (r, s') \<longrightarrow> ledger_typed E s')"
proof -
  have J: "any_orch.J E = ledger_typed E" by (simp add: any_orch.J_def [abs_def])
  have "keeps (ledger_typed E) (agent_fan_out E enc parent cs work evaluator ids sampling)"
    using any_orch.J_fan_out [where E = E and work = work] unfolding J by simp
  moreover have "ledger_typed E s'" if "run_round E enc parent rd s = Some (r, s')" for r s'
    using any_orch.J_run_round [where E = E, OF _ _ _ that] assms unfolding J by simp
  ultimately show ?thesis
    using assms keeps_snd [OF any_orch.J_prepare_root [where E = E]] any_orch.J_kill_losers [where E = E]
    unfolding J by (blast intro: keeps_snd)
qed


text \<open>What a round leaves: the winner is live, holds its continuation, and only its chain has records and resources.\<close>

definition only_chain :: "('k \<Rightarrow> string set) \<Rightarrow> ('b \<Rightarrow> string set) \<Rightarrow> string \<Rightarrow> ('k, 'b) orch \<Rightarrow> bool" where
  "only_chain trees boxes w t \<longleftrightarrow> is_live t w \<and> keys (o_branches t) \<subseteq> ancestors (o_branches t) w \<and>
     trees (o_kv t) \<union> boxes (o_sb t) \<subseteq> ancestors (o_branches t) w"

lemma ancestors_restrict:
  assumes "dget bs' = (\<lambda>k. if k \<in> ancestors bs w then dget bs k else None)"
  shows "ancestors bs' w = ancestors bs w"
proof
  show "ancestors bs' w \<subseteq> ancestors bs w"
    by (rule subsetI, erule ancestors.induct) (auto simp: assms split: if_splits intro: ancestors.intros)
  show "ancestors bs w \<subseteq> ancestors bs' w"
  proof
    fix x assume "x \<in> ancestors bs w"
    then show "x \<in> ancestors bs' w"
    proof (induction rule: ancestors.induct)
      case (up x b p)
      then show ?case using ancestors.up [of x bs' w b p] by (simp add: assms)
    qed (rule ancestors.self)
  qed
qed

lemma kill_losers_chain:
  assumes "reliable_orch E trees kinv boxes binv" "orch_started trees kinv boxes binv s0"
    and "orch_reach (call_ok ends) E s0 t" "\<not> o_closed t" "is_live t w"
  obtains rs t' where "kill_losers E w t = Some (Inr rs, t')" "only_chain trees boxes w t'"
    "\<forall>r \<in> set rs. rc_reaped r \<and> rc_branch r \<notin> ancestors (o_branches t) w" "orch_reach (call_ok ends) E s0 t'" "\<not> o_closed t'"
proof -
  note now = reached_good [OF reliable_is_orchestrated [OF assms(1)] assms(2,3)]
  have idle: "idle t" using now(2) assms(4) by (simp add: idle_quiet)
  obtain rs t' where k: "kill_losers E w t = Some (Inr rs, t')" "sys_inv trees kinv boxes binv ends t'" "idle t'"
    and d: "dget (o_branches t') = (\<lambda>k. if k \<in> ancestors (o_branches t) w then dget (o_branches t) k else None)"
    and rs: "map rc_branch rs = filter (\<lambda>k. k \<notin> ancestors (o_branches t) w) (map fst (o_branches t))" "\<forall>r \<in> set rs. rc_reaped r"
    by (rule reliable_orch.kill_losers_settles [OF assms(1) now(1) idle assms(5)])
  have keys: "keys (o_branches t') \<subseteq> ancestors (o_branches t) w"
    by (auto simp: keys_dom d split: if_splits)
  have "only_chain trees boxes w t'"
    using assms(5) k(2) keys
    by (auto simp: only_chain_def ancestors_restrict [OF d] is_live_def d ancestors.self sys_inv_def covered_def)
  moreover have "rc_branch r \<notin> ancestors (o_branches t) w" if "r \<in> set rs" for r
    using that arg_cong [OF rs(1), of set] by auto
  moreover have "orch_reach (call_ok ends) E s0 t'"
    using orch_reach.step [OF assms(3), of "CallKillLosers w" t'] k(1) by simp
  ultimately show ?thesis using that k(1,3) rs(2) by (simp add: idle_def)
qed


lemma agent_kill_losers_chain:
  assumes "reliable_orch E trees kinv boxes binv" "orch_started trees kinv boxes binv s0"
    and "orch_reach (call_ok ends) E s0 (ag_orch s)" "\<not> o_closed (ag_orch s)" "is_live (ag_orch s) w"
  obtains rs s' where "agent_kill_losers E w s = Some (Inr rs, s')" "only_chain trees boxes w (ag_orch s')"
    "dget (ag_prefix s') w = dget (ag_prefix s) w" "\<forall>r \<in> set rs. dget (ag_prefix s') (rc_branch r) = None"
proof -
  obtain rs t' where k: "kill_losers E w (ag_orch s) = Some (Inr rs, t')" "only_chain trees boxes w t'"
    "\<forall>r \<in> set rs. rc_reaped r \<and> rc_branch r \<notin> ancestors (o_branches (ag_orch s)) w"
    by (rule kill_losers_chain [OF assms])
  have "\<not> (\<exists>r \<in> set rs. rc_branch r = w)" using k(3) ancestors.self by metis
  then show ?thesis
    using k by (intro that [of rs "snd (agent_forget rs (s\<lparr>ag_orch := t'\<rparr>))"])
      (auto simp: agent_kill_losers_def agent_forget_def modp_def dget_forget)
qed

lemma agent_kill_losers_refused:
  assumes "o_closed (ag_orch s) \<or> \<not> is_live (ag_orch s) w"
  shows "\<exists>e. agent_kill_losers E w s = Some (Inl e, s)"
proof -
  have "\<exists>e. losers_begin w (ag_orch s) = (Inl e, ag_orch s)"
    using assms by (auto simp: losers_begin_def ensure_open_def proc_defs split: prod.splits sum.splits)
  then obtain e where "kill_losers E w (ag_orch s) = Some (Inl e, ag_orch s)"
    by (auto simp: kill_losers_def seqp_def)
  then show ?thesis by (simp add: agent_kill_losers_def)
qed

lemma round_reach:
  assumes "orch_reach (call_ok ends) E s0 (ag_orch s)" "ledger_typed E s" "round_ok ends E s0 rd"
    and "run_round E enc parent rd s = Some (r, s')"
  shows "orch_reach (call_ok ends) E s0 (ag_orch s')" "ledger_typed E s'"
proof -
  have "reached.J E ends s0 s'"
    by (rule reached.J_run_round [OF _ _ _ assms(4)])
      (use assms in \<open>auto simp: round_ok_def reached.J_def split: option.splits\<close>)
  then show "orch_reach (call_ok ends) E s0 (ag_orch s')" "ledger_typed E s'" by (simp_all add: reached.J_def)
qed

lemma fan_out_reach:
  assumes "orch_reach (call_ok ends) E s0 (ag_orch s)" "ledger_typed E s" "round_ok ends E s0 rd"
    and "agent_fan_out E enc parent cs (rd_work rd) evaluator (rd_child_ids rd) sampling s = (r, s')"
  shows "orch_reach (call_ok ends) E s0 (ag_orch s')"
proof -
  have "keeps (reached.J E ends s0) (agent_fan_out E enc parent cs (rd_work rd) evaluator (rd_child_ids rd) sampling)"
    by (rule reached.J_fan_out) (use assms(3) in \<open>auto simp: round_ok_def split: option.splits\<close>)
  then have "reached.J E ends s0 s'" using keeps_snd assms(1,2,4) by (metis reached.J_def snd_conv)
  then show ?thesis by (simp add: reached.J_def)
qed

lemma run_round_settles:
  assumes "reliable_orch E trees kinv boxes binv" "orch_started trees kinv boxes binv s0"
    and "orch_reach (call_ok ends) E s0 (ag_orch s)" "ledger_typed E s" "round_ok ends E s0 rd"
    and "agent_fan_out E enc parent (rd_continuations rd) (rd_work rd) (rd_evaluator rd) (rd_child_ids rd) (rd_sampling rd) s = (Inr rs, s1)"
    and "\<exists>r \<in> set rs. res_error r = None" "\<not> o_closed (ag_orch s1)"
    and "\<And>r. select_winner rs = Inr r \<Longrightarrow> is_live (ag_orch s1) (res_branch r)"
  shows "\<exists>w s'. run_round E enc parent rd s = Some (Inr w, s') \<and> w \<in> set rs \<and> res_error w = None \<and>
    only_chain trees boxes (res_branch w) (ag_orch s') \<and> dget (ag_prefix s') (res_branch w) = Some (res_prefix w) \<and>
    (\<exists>base. dget (ag_prefix s) parent = Some base \<and> ctx_extends base (res_prefix w))"
proof -
  obtain w where w: "select_winner rs = Inr w" "w \<in> set rs" "res_error w = None"
    using select_winner_best [of rs] assms(7) by (auto split: sum.splits)
  have reg: "reg_inv (ag_orch s)" using reached_good(3) [OF reliable_is_orchestrated [OF assms(1)] assms(2,3)] .
  have lineage: "dget (ag_prefix s1) (res_branch w) = Some (res_prefix w)"
    "\<exists>base. dget (ag_prefix s) parent = Some base \<and> ctx_extends base (res_prefix w)"
    using fan_out_returned [OF assms(4) reg assms(6)] w(2,3) by auto
  obtain ks s' where "agent_kill_losers E (res_branch w) s1 = Some (Inr ks, s')"
    "only_chain trees boxes (res_branch w) (ag_orch s')" "dget (ag_prefix s') (res_branch w) = dget (ag_prefix s1) (res_branch w)"
    by (rule agent_kill_losers_chain [OF assms(1,2) fan_out_reach [OF assms(3-6)] assms(8) assms(9) [OF w(1)]])
  then show ?thesis using w lineage assms(6) by (auto simp: run_round_def)
qed

text \<open>
  A round returns its winner and leaves the tree pruned to it: when the fan-out has an error-free
  result and the best one is still live, \<open>run_round\<close> returns that result, its branch is live and
  holds its continuation as committed prefix, a strict extension of the parent's, and every record, KV tree and
  sandbox left belongs to the winner or one of its ancestors.
\<close>

theorem run_round_keeps_chain:
  assumes "reliable_orch E trees kinv boxes binv" "orch_started trees kinv boxes binv s0"
    and "orch_reach (call_ok ends) E s0 (ag_orch s)" "ledger_typed E s" "round_ok ends E s0 rd"
    and "agent_fan_out E enc parent (rd_continuations rd) (rd_work rd) (rd_evaluator rd) (rd_child_ids rd) (rd_sampling rd) s = (Inr rs, s1)"
    and "\<exists>r \<in> set rs. res_error r = None" "\<not> o_closed (ag_orch s1)"
    and "\<And>r. select_winner rs = Inr r \<Longrightarrow> is_live (ag_orch s1) (res_branch r)"
  shows "\<exists>w s'. run_round E enc parent rd s = Some (Inr w, s') \<and> w \<in> set rs \<and> res_error w = None \<and>
    only_chain trees boxes (res_branch w) (ag_orch s') \<and> dget (ag_prefix s') (res_branch w) = Some (res_prefix w) \<and>
    (\<exists>base. dget (ag_prefix s) parent = Some base \<and> ctx_extends base (res_prefix w))"
  by (rule run_round_settles [OF assms])

text \<open>A run that returns a winner has pruned the tree to it; a run always ends.\<close>

lemma run_round_ends:
  assumes "reliable_orch E trees kinv boxes binv" "orch_started trees kinv boxes binv s0"
    and "orch_reach (call_ok ends) E s0 (ag_orch s)" "ledger_typed E s" "round_ok ends E s0 rd"
  obtains e s' where "run_round E enc parent rd s = Some (Inl e, s')"
  | w s' where "run_round E enc parent rd s = Some (Inr w, s')" "only_chain trees boxes (res_branch w) (ag_orch s')"
      "dget (ag_prefix s') (res_branch w) = Some (res_prefix w)" "res_error w = None"
proof -
  obtain q s1 where f: "agent_fan_out E enc parent (rd_continuations rd) (rd_work rd) (rd_evaluator rd) (rd_child_ids rd)
      (rd_sampling rd) s = (q, s1)" by fastforce
  show thesis
  proof (cases q)
    case (Inl e)
    then show ?thesis using f that(1) by (simp add: run_round_def)
  next
    case (Inr rs)
    note f = f [unfolded Inr]
    show ?thesis
    proof (cases "select_winner rs")
      case (Inl e)
      then show ?thesis using f that(1) by (simp add: run_round_def)
    next
      case w: (Inr w)
      show ?thesis
      proof (cases "o_closed (ag_orch s1) \<or> \<not> is_live (ag_orch s1) (res_branch w)")
        case True
        then show ?thesis using f w that(1) agent_kill_losers_refused [OF True, of E] by (auto simp: run_round_def)
      next
        case False
        have "\<exists>r \<in> set rs. res_error r = None" using select_winner_best [of rs] w by auto
        then show ?thesis
          using run_round_settles [OF assms f] False w that(2) by auto
      qed
    qed
  qed
qed


definition solved :: "('k \<Rightarrow> string set) \<Rightarrow> ('b \<Rightarrow> string set) \<Rightarrow> 'o branch_result option \<Rightarrow> ('k, 'b) agent \<Rightarrow> bool" where
  "solved trees boxes res s \<longleftrightarrow> (\<exists>w. res = Some w \<and> res_error w = None \<and> only_chain trees boxes (res_branch w) (ag_orch s) \<and>
     dget (ag_prefix s) (res_branch w) = Some (res_prefix w))"

lemma run_rounds_ends:
  assumes "reliable_orch E trees kinv boxes binv" "orch_started trees kinv boxes binv s0"
    and "orch_reach (call_ok ends) E s0 (ag_orch s)" "ledger_typed E s" "\<forall>rd \<in> set rds. round_ok ends E s0 rd"
    and "rds \<noteq> [] \<or> solved trees boxes wo s"
  shows "\<exists>r s'. run_rounds E enc parent wo rds s = Some (r, s') \<and> (\<forall>res. r = Inr res \<longrightarrow> solved trees boxes res s')"
  using assms(3-6)
proof (induction rds arbitrary: parent wo s)
  case (Cons rd rds)
  have ok: "round_ok ends E s0 rd" using Cons.prems(3) by simp
  show ?case
  proof (rule run_round_ends [OF assms(1,2) Cons.prems(1,2) ok, of enc parent])
    fix w s1 assume w: "run_round E enc parent rd s = Some (Inr w, s1)" "only_chain trees boxes (res_branch w) (ag_orch s1)"
      "dget (ag_prefix s1) (res_branch w) = Some (res_prefix w)" "res_error w = None"
    then have "solved trees boxes (Some w) s1" by (simp add: solved_def)
    then show ?thesis
      using Cons.IH [OF round_reach [OF Cons.prems(1,2) ok w(1)], of "Some w" "res_branch w"] Cons.prems(3) w(1) by simp
  qed simp
qed simp

text \<open>
  \<open>solve\<close> always returns or raises.  When it returns, it returns the winner of the last round: its
  branch is live and is the only leaf of the tree, in that every record, KV tree and sandbox left belongs to it
  or one of its ancestors, and its committed prefix is its continuation.  With no rounds it raises \<open>ValueError\<close>
  before creating anything.
\<close>

theorem solve_single_leaf:
  assumes "reliable_orch E trees kinv boxes binv" "orch_started trees kinv boxes binv s0"
    and "orch_reach (call_ok ends) E s0 (ag_orch s)" "ledger_typed E s" "\<forall>rd \<in> set rounds. round_ok ends E s0 rd"
  shows "\<exists>r s'. solve E enc rid context rounds lease s = Some (r, s') \<and>
    (rounds = [] \<longrightarrow> r = Inl ValueError \<and> s' = s) \<and> (\<forall>res. r = Inr res \<longrightarrow> solved trees boxes res s')"
proof (cases "rounds = []")
  case False
  obtain q s1 where q: "prepare_root E enc rid context lease None s = (q, s1)" by fastforce
  have "reached.J E ends s0 (snd (prepare_root E enc rid context lease None s))"
    using assms(3,4) by (intro keeps_snd [OF reached.J_prepare_root]) (simp add: reached.J_def)
  then have "orch_reach (call_ok ends) E s0 (ag_orch s1)" "ledger_typed E s1" by (simp_all add: q reached.J_def)
  from run_rounds_ends [OF assms(1,2) this assms(5), of None enc rid] False show ?thesis
    by (cases q) (auto simp: solve_def q)
qed (simp add: solve_def)

section \<open>A sample round\<close>

definition sample_agent :: "(kv_cache, unit) agent" where
  "sample_agent = \<lparr>ag_orch = demo_state, ag_prefix = [(''a'', Tokens [1, 2])]\<rparr>"

definition sample_round :: "(kv_cache, unit, nat) agent_round" where
  "sample_round = \<lparr>rd_continuations = [Tokens [1, 2, 9], Text [CHR 0x01, CHR 0x02, CHR 0x03, CHR 0xE9]],
     rd_work = (\<lambda>b v. ret (ctx_length v)), rd_evaluator = (\<lambda>r. Inr (real (the (res_output r)))),
     rd_child_ids = Some [''x'', ''y''], rd_sampling = None\<rparr>"

abbreviation sample_fan_out :: "((kv_cache, unit) agent, nat branch_result list) outcome" where
  "sample_fan_out \<equiv> agent_fan_out demo_config utf8_tokens ''a'' (rd_continuations sample_round) (rd_work sample_round)
     (rd_evaluator sample_round) (rd_child_ids sample_round) (rd_sampling sample_round) sample_agent"

lemma sample_typed: "ledger_typed demo_config sample_agent"
  by (simp add: ledger_typed_def sample_agent_def in_unit_def string_path_def demo_config_def tree_cache_backend_def)

lemma sample_ok: "round_ok ends demo_config s0 sample_round"
  by (simp add: round_ok_def sample_round_def ret_def)

lemma sample_agent_reach: "orch_reach (call_ok {}) demo_config demo_start (ag_orch sample_agent)"
  using demo_reach_ok by (simp add: sample_agent_def)

lemma sample_runs:
  "case sample_fan_out of (Inl e, s1) \<Rightarrow> False
   | (Inr rs, s1) \<Rightarrow> map res_branch rs = [''x'', ''y''] \<and> list_ex (\<lambda>r. res_error r = None) rs \<and> \<not> o_closed (ag_orch s1) \<and>
       (case select_winner rs of Inl _ \<Rightarrow> False | Inr w \<Rightarrow> res_branch w = ''y'' \<and> is_live (ag_orch s1) (res_branch w))"
  by code_simp


lemma sample_results:
  obtains rs s1 w where "sample_fan_out = (Inr rs, s1)" "map res_branch rs = [''x'', ''y'']"
    "\<exists>r \<in> set rs. res_error r = None" "\<not> o_closed (ag_orch s1)" "select_winner rs = Inr w" "res_branch w = ''y''" "is_live (ag_orch s1) ''y''"
  using sample_runs by (auto simp: list_ex_iff split: prod.splits sum.splits)

theorem fan_out_refuses_untouched_witness:
  "\<exists>e. agent_fan_out demo_config utf8_tokens ''a'' [Tokens [1, 2, 3], Tokens [1, 2]] (\<lambda>_ _. ret (0 :: nat)) (\<lambda>_. Inr 0) None None
     sample_agent = (Inl e, sample_agent)"
proof -
  have "sequence (map (native_unit (string_path demo_config) utf8_tokens) [Tokens [1, 2, 3], Tokens [1, 2]])
      = Inr [Tokens [1, 2, 3], Tokens [1, 2]]"
    by (simp add: native_unit_def string_path_def demo_config_def tree_cache_backend_def)
  then show ?thesis
    using fan_out_refuses_untouched [OF sample_typed, of "''a''" utf8_tokens "[Tokens [1, 2, 3], Tokens [1, 2]]"
        "\<lambda>_ _. ret (0 :: nat)" "\<lambda>_. Inr 0" None None]
    by (auto simp: sample_agent_def)
qed

theorem fan_out_lineage_witness:
  "\<exists>rs s1. sample_fan_out = (Inr rs, s1) \<and> distinct (map res_branch rs) \<and> ''a'' \<notin> res_branch ` set rs \<and>
     dget (ag_prefix s1) ''a'' = Some (Tokens [1, 2])"
proof -
  have reg: "reg_inv (ag_orch sample_agent)"
    using orch_reach_reg [OF demo_reach orch_init_reg [OF demo_init]] by (simp add: sample_agent_def)
  obtain rs s1 where r: "sample_fan_out = (Inr rs, s1)" "map res_branch rs = [''x'', ''y'']" by (rule sample_results)
  then have a: "''a'' \<notin> res_branch ` set rs" using arg_cong [OF r(2), of set] by auto
  then have "dget (ag_prefix s1) ''a'' = dget (ag_prefix sample_agent) ''a''" "distinct (map res_branch rs)"
    using fan_out_lineage [OF sample_typed reg r(1)] by auto
  then show ?thesis using r(1) a by (simp add: sample_agent_def)
qed

theorem agent_ledger_typed_witness:
  "ledger_typed demo_config (snd (prepare_root demo_config utf8_tokens ''root'' (Text ''hello'') None None sample_agent))"
  using agent_ledger_typed [OF sample_typed] by blast

theorem run_round_keeps_chain_witness:
  "\<exists>w s'. run_round demo_config utf8_tokens ''a'' sample_round sample_agent = Some (Inr w, s') \<and>
     only_chain (\<lambda>s. keys (kv_trees s)) (\<lambda>_. {}) (res_branch w) (ag_orch s')"
proof -
  obtain rs s1 w where r: "sample_fan_out = (Inr rs, s1)" "\<exists>r \<in> set rs. res_error r = None" "\<not> o_closed (ag_orch s1)"
    "select_winner rs = Inr w" "res_branch w = ''y''" "is_live (ag_orch s1) ''y''" by (rule sample_results)
  show ?thesis
    using run_round_keeps_chain [OF demo_reliable demo_started sample_agent_reach sample_typed sample_ok r(1-3)] r(4-6) by auto
qed

abbreviation sample_root :: "((kv_cache, unit) agent, string) outcome" where
  "sample_root \<equiv> prepare_root demo_config utf8_tokens ''root'' (Tokens [1, 2]) None None sample_agent"

lemma sample_solve_runs:
  "case sample_root of (Inl e, s0) \<Rightarrow> False
   | (Inr rid, s0) \<Rightarrow>
      (case agent_fan_out demo_config utf8_tokens ''root'' (rd_continuations sample_round) (rd_work sample_round)
           (rd_evaluator sample_round) (rd_child_ids sample_round) (rd_sampling sample_round) s0 of (Inl e, s1) \<Rightarrow> False
       | (Inr rs, s1) \<Rightarrow> list_ex (\<lambda>r. res_error r = None) rs \<and> \<not> o_closed (ag_orch s1) \<and>
           (case select_winner rs of Inl _ \<Rightarrow> False | Inr w \<Rightarrow> is_live (ag_orch s1) (res_branch w)))"
  by code_simp

theorem solve_single_leaf_witness:
  "\<exists>w s'. solve demo_config utf8_tokens ''root'' (Tokens [1, 2]) [sample_round] None sample_agent = Some (Inr (Some w), s') \<and>
     only_chain (\<lambda>s. keys (kv_trees s)) (\<lambda>_. {}) (res_branch w) (ag_orch s')"
proof -
  obtain rid s0 rs s1 where p: "sample_root = (Inr rid, s0)"
    and r: "agent_fan_out demo_config utf8_tokens ''root'' (rd_continuations sample_round) (rd_work sample_round)
      (rd_evaluator sample_round) (rd_child_ids sample_round) (rd_sampling sample_round) s0 = (Inr rs, s1)"
      "\<exists>r \<in> set rs. res_error r = None" "\<not> o_closed (ag_orch s1)" "\<forall>w. select_winner rs = Inr w \<longrightarrow> is_live (ag_orch s1) (res_branch w)"
    using sample_solve_runs by (auto simp: list_ex_iff split: prod.splits sum.splits)
  have "reached.J demo_config {} demo_start (snd sample_root)"
    by (rule keeps_snd [OF reached.J_prepare_root]) (simp add: reached.J_def sample_agent_reach sample_typed)
  then have "orch_reach (call_ok {}) demo_config demo_start (ag_orch s0)" "ledger_typed demo_config s0"
    by (simp_all add: p reached.J_def)
  from run_round_settles [OF demo_reliable demo_started this sample_ok r(1-3)] r(4)
  obtain w s' where "run_round demo_config utf8_tokens ''root'' sample_round s0 = Some (Inr w, s')" by auto
  then have "solve demo_config utf8_tokens ''root'' (Tokens [1, 2]) [sample_round] None sample_agent = Some (Inr (Some w), s')"
    by (simp add: solve_def p)
  then show ?thesis
    using solve_single_leaf [OF demo_reliable demo_started sample_agent_reach sample_typed, of "[sample_round]" utf8_tokens "''root''"
        "Tokens [1, 2]" None] sample_ok
    by (auto simp: solved_def)
qed

text \<open>The default encoding keeps strict extension, so text continuations can be used with a token backend.\<close>

lemma utf8_strictly_extends:
  assumes "strict_prefix b c"
  shows "strictly_extends (Tokens (utf8_tokens b)) (Tokens (utf8_tokens c)) = Inr True"
proof -
  obtain x xs where "c = b @ x # xs" using assms by (auto elim: strict_prefixE')
  then show ?thesis by (simp add: utf8_tokens_def utf8_def utf8_char_def Let_def)
qed

text \<open>
  When every branch of a round fails, \<open>run_round\<close> raises and prunes nothing: the failed children stay
  recorded, live, with their resources.
\<close>

lemma no_winner_prunes_nothing:
  assumes "agent_fan_out E enc parent (rd_continuations rd) (rd_work rd) (rd_evaluator rd) (rd_child_ids rd) (rd_sampling rd) s = (Inr rs, s1)"
    and "\<forall>r \<in> set rs. res_error r \<noteq> None"
  shows "run_round E enc parent rd s = Some (Inl NoWinner, s1)"
  using assms select_winner_best [of rs] by (auto simp: run_round_def split: sum.splits)

end
