(* ===== verification/Microvm.thy ===== *)
theory Microvm
  imports Netns Reaper Vsock
begin

text \<open>
  The class \<open>MicroVM\<close> and the jailer helpers of \<open>sandbox/fc_bench.py\<close>, over a model of the host: the
  Firecracker processes the supervisor started, other processes, and files.  Firecracker itself is
  known by the requests it is sent: pausing, resuming, writing a snapshot and loading one have the
  documented effect on the guest, whose memory \<open>'r\<close> and device state \<open>'v\<close> are left open.  Which
  system calls and requests fail is a parameter.  A hard link is a copy of the file.  As in \<open>Reaper\<close>,
  a wait for a process that is running does not return: \<open>ho_stuck\<close> records it, and the process goes on.
\<close>

section \<open>Paths\<close>

fun split_on :: "char \<Rightarrow> string \<Rightarrow> string list" where
  "split_on d [] = [[]]"
| "split_on d (c # cs) =
     (case split_on d cs of [] \<Rightarrow> [[c]] | p # ps \<Rightarrow> if c = d then [] # p # ps else (c # p) # ps)"

definition join_path :: "string \<Rightarrow> string \<Rightarrow> string" where
  "join_path a b =
     (if prefix ''/'' b then b else if a = [] \<or> last a = CHR ''/'' then a @ b else a @ ''/'' @ b)"

fun norm_segs :: "string list \<Rightarrow> string list \<Rightarrow> string list" where
  "norm_segs acc [] = rev acc"
| "norm_segs acc (x # xs) =
     norm_segs (if x = [] \<or> x = ''.'' then acc else if x = ''..'' then tl acc else x # acc) xs"

fun join_segs :: "string list \<Rightarrow> string" where
  "join_segs [] = []"
| "join_segs [x] = x"
| "join_segs (x # xs) = x @ ''/'' @ join_segs xs"

text \<open>\<open>os.path.abspath\<close>, with a working directory that is absolute, and \<open>os.path.basename\<close>.\<close>

definition abspath :: "string \<Rightarrow> string \<Rightarrow> string" where
  "abspath cwd p =
     (let q = join_path cwd p
      in (if prefix ''//'' q \<and> \<not> prefix ''///'' q then ''//'' else ''/'') @ join_segs (norm_segs [] (split_on CHR ''/'' q)))"

definition basename :: "string \<Rightarrow> string" where
  "basename p = last (split_on CHR ''/'' p)"

definition dirname :: "string \<Rightarrow> string" where
  "dirname p =
     (let head = take (length p - length (basename p)) p; stripped = rev (dropWhile ((=) CHR ''/'') (rev head))
      in if stripped = [] then head else stripped)"

text \<open>\<open>os.path.relpath\<close> of two normalized absolute paths.\<close>

definition relpath :: "string \<Rightarrow> string \<Rightarrow> string" where
  "relpath p start =
     (let ps = filter ((\<noteq>) []) (split_on CHR ''/'' p); ss = filter ((\<noteq>) []) (split_on CHR ''/'' start);
          i = lcp_len ss ps; rel = replicate (length ss - i) ''..'' @ drop i ps
      in if rel = [] then ''.'' else join_segs rel)"

section \<open>The jailer\<close>

record jailer_config =
  jc_bin :: string
  jc_uid :: int
  jc_gid :: int
  jc_chroot_base :: string

definition jail_char :: "char \<Rightarrow> bool" where
  "jail_char c \<longleftrightarrow> (let n = (of_char c :: nat) in 48 \<le> n \<and> n \<le> 57 \<or> 65 \<le> n \<and> n \<le> 90 \<or> 97 \<le> n \<and> n \<le> 122 \<or> c = CHR ''-'')"

definition jail_id_for :: "(string \<Rightarrow> string) \<Rightarrow> string \<Rightarrow> string" where
  "jail_id_for sha vm_dir =
     (let name = basename vm_dir; sanitized = map (\<lambda>c. if jail_char c then c else CHR ''-'') name in
      if sanitized = name \<and> length sanitized \<le> 64 \<and> \<not> prefix ''-'' name then sanitized
      else let core = take 55 (dropWhile ((=) CHR ''-'') sanitized)
        in (if core = [] then ''b'' else core) @ ''-'' @ take 8 (sha name))"

definition jail_root :: "(string \<Rightarrow> string) \<Rightarrow> string \<Rightarrow> jailer_config \<Rightarrow> string \<Rightarrow> string \<Rightarrow> string" where
  "jail_root sha cwd jc fc_bin vm_dir =
     join_path (join_path (join_path (jc_chroot_base jc) (basename (abspath cwd fc_bin))) (jail_id_for sha vm_dir)) ''root''"

definition jailer_argv :: "(string \<Rightarrow> string) \<Rightarrow> string \<Rightarrow> jailer_config \<Rightarrow> string \<Rightarrow> string \<Rightarrow> string option \<Rightarrow> string list" where
  "jailer_argv sha cwd jc fc_bin vm_dir ns =
     [abspath cwd (jc_bin jc), ''--id'', jail_id_for sha vm_dir, ''--exec-file'', abspath cwd fc_bin,
      ''--uid'', str_int (jc_uid jc), ''--gid'', str_int (jc_gid jc), ''--chroot-base-dir'', jc_chroot_base jc] @
     (case ns of None \<Rightarrow> [] | Some n \<Rightarrow> [''--netns'', n]) @ [''--'', ''--api-sock'', ''fc.sock'']"

section \<open>The host\<close>

datatype ('r, 'v, 'd) hostfile =
    Directory | MemFile 'r | StateFile 'v | OverlayFile 'd | ImageFile string | TextFile string

record ('r, 'v) vmm =
  vm_dir :: string
  vm_host_dir :: string
  vm_jailed :: bool
  vm_argv :: "string list"
  vm_state :: child_state
  vm_start :: int
  vm_pidfd :: bool
  vm_guest :: "('r \<times> 'v) option"
  vm_paused :: bool

text \<open>What \<open>/proc\<close> says of another process: its start time, executable and \<open>comm\<close>.\<close>

record proc_info =
  pi_start :: int
  pi_exe :: string
  pi_comm :: string

text \<open>A Firecracker process has a pid of its own for ever; another process may take the pid once it is reaped.\<close>

record ('r, 'v, 'd) host =
  ho_vmms :: "(nat, ('r, 'v) vmm) dict"
  ho_other :: "(int, proc_info) dict"
  ho_files :: "(string, ('r, 'v, 'd) hostfile) dict"
  ho_next :: nat
  ho_calls :: nat
  ho_api :: "(nat \<times> string \<times> string \<times> json) list"
  ho_stuck :: bool

datatype fc_op = OpFile | OpPopen | OpPidfd | OpSocket | OpApi | OpSignal | OpExec

record ('r, 'v, 'd) vm_env =
  ve_fault :: "fc_op \<Rightarrow> nat \<Rightarrow> exc option"
  ve_cwd :: string
  ve_sha :: "string \<Rightarrow> string"
  ve_started :: "nat \<Rightarrow> int"
  ve_boot :: "'r \<times> 'v"

definition faulty :: "('r, 'v, 'd) vm_env \<Rightarrow> fc_op \<Rightarrow> (('r, 'v, 'd) host, 'a) proc \<Rightarrow> (('r, 'v, 'd) host, 'a) proc" where
  "faulty E k m s =
     (let s1 = s\<lparr>ho_calls := Suc (ho_calls s)\<rparr>
      in case ve_fault E k (ho_calls s) of Some e \<Rightarrow> (Inl e, s1) | None \<Rightarrow> m s1)"

definition write_file :: "('r, 'v, 'd) vm_env \<Rightarrow> string \<Rightarrow> ('r, 'v, 'd) hostfile \<Rightarrow> (('r, 'v, 'd) host, unit) proc" where
  "write_file E p c = faulty E OpFile (modp (\<lambda>s. s\<lparr>ho_files := dset p c (ho_files s)\<rparr>))"

definition file_exists :: "string \<Rightarrow> (('r, 'v, 'd) host, bool) proc" where
  "file_exists p = readp (\<lambda>s. p \<in> keys (ho_files s))"

text \<open>\<open>shutil.copyfile\<close>, and \<open>os.link\<close> with a fall-back to it.\<close>

definition copy_file :: "('r, 'v, 'd) vm_env \<Rightarrow> string \<Rightarrow> string \<Rightarrow> (('r, 'v, 'd) host, unit) proc" where
  "copy_file E src dst s =
     (case dget (ho_files s) src of
        None \<Rightarrow> (Inl FileNotFoundError, s)
      | Some c \<Rightarrow> write_file E dst c s)"

definition link_or_copy :: "('r, 'v, 'd) vm_env \<Rightarrow> string \<Rightarrow> string \<Rightarrow> (('r, 'v, 'd) host, unit) proc" where
  "link_or_copy E src dst =
     try_except (copy_file E src dst) (\<lambda>e. if is_os_error e then copy_file E src dst else raise e)"

section \<open>One VMM\<close>

definition on_vmm :: "nat \<Rightarrow> (('r, 'v) vmm \<Rightarrow> ('r, 'v) vmm) \<Rightarrow> ('r, 'v, 'd) host \<Rightarrow> ('r, 'v, 'd) host" where
  "on_vmm h f s = (case dget (ho_vmms s) h of None \<Rightarrow> s | Some v \<Rightarrow> s\<lparr>ho_vmms := dset h (f v) (ho_vmms s)\<rparr>)"

definition vmm_running :: "('r, 'v, 'd) host \<Rightarrow> nat \<Rightarrow> bool" where
  "vmm_running s h \<longleftrightarrow> (case dget (ho_vmms s) h of None \<Rightarrow> False | Some v \<Rightarrow> vm_state v = Running)"

text \<open>\<open>Popen.poll() is None\<close>: reaps a process that has exited.\<close>

definition vm_poll_none :: "nat \<Rightarrow> (('r, 'v, 'd) host, bool) proc" where
  "vm_poll_none h s =
     (if vmm_running s h then (Inr True, s) else (Inr False, on_vmm h (\<lambda>v. v\<lparr>vm_state := Reaped\<rparr>) s))"

text \<open>\<open>Popen.kill\<close>: SIGKILL ends a running process and leaves a zombie one.\<close>

definition vm_sigkill :: "nat \<Rightarrow> (('r, 'v, 'd) host, unit) proc" where
  "vm_sigkill h = modp (on_vmm h (\<lambda>v. if vm_state v = Running then v\<lparr>vm_state := Zombie\<rparr> else v))"

text \<open>\<open>Popen.wait\<close> and \<open>waitid\<close>: return for a dead process only.\<close>

definition vm_reap :: "nat \<Rightarrow> (('r, 'v, 'd) host, unit) proc" where
  "vm_reap h = modp (\<lambda>s. if vmm_running s h then s\<lparr>ho_stuck := True\<rparr> else on_vmm h (\<lambda>v. v\<lparr>vm_state := Reaped\<rparr>) s)"

definition vm_waitid :: "nat \<Rightarrow> (('r, 'v, 'd) host, unit) proc" where
  "vm_waitid h s =
     (case dget (ho_vmms s) h of
        None \<Rightarrow> (Inl ChildProcessError, s)
      | Some v \<Rightarrow> if vm_state v = Reaped then (Inl ChildProcessError, s) else vm_reap h s)"

definition vm_close_pidfd :: "nat \<Rightarrow> (('r, 'v, 'd) host, unit) proc" where
  "vm_close_pidfd h = modp (on_vmm h (\<lambda>v. v\<lparr>vm_pidfd := False\<rparr>))"

text \<open>\<open>_force_cleanup\<close>: kill if needed, wait, and close the pidfd if there is one.\<close>

definition force_cleanup :: "nat \<Rightarrow> (('r, 'v, 'd) host, unit) proc" where
  "force_cleanup h =
     seqp (vm_poll_none h) (\<lambda>running.
     seqp (whenp running (vm_sigkill h)) (\<lambda>_.
     seqp (vm_reap h) (\<lambda>_.
       vm_close_pidfd h)))"

definition vm_popen :: "('r, 'v, 'd) vm_env \<Rightarrow> string \<Rightarrow> string \<Rightarrow> bool \<Rightarrow> string list \<Rightarrow> (('r, 'v, 'd) host, nat) proc" where
  "vm_popen E d hdir jailed argv =
     faulty E OpPopen (\<lambda>s. (Inr (ho_next s),
       s\<lparr>ho_vmms := dset (ho_next s) \<lparr>vm_dir = d, vm_host_dir = hdir, vm_jailed = jailed, vm_argv = argv, vm_state = Running,
           vm_start = ve_started E (ho_next s), vm_pidfd = False, vm_guest = None, vm_paused = False\<rparr> (ho_vmms s),
         ho_next := Suc (ho_next s)\<rparr>))"

definition vm_host_path :: "('r, 'v, 'd) vm_env \<Rightarrow> jailer_config option \<Rightarrow> string \<Rightarrow> string \<Rightarrow> string" where
  "vm_host_path E jailer fc_bin d =
     (case jailer of None \<Rightarrow> d | Some jc \<Rightarrow> jail_root (ve_sha E) (ve_cwd E) jc fc_bin d)"

definition vm_command :: "('r, 'v, 'd) vm_env \<Rightarrow> jailer_config option \<Rightarrow> string \<Rightarrow> string \<Rightarrow> string option \<Rightarrow> string list" where
  "vm_command E jailer fc_bin d ns =
     (case jailer of
        Some jc \<Rightarrow> jailer_argv (ve_sha E) (ve_cwd E) jc fc_bin d (map_option (\<lambda>n. ''/var/run/netns/'' @ n) (case ns of Some [] \<Rightarrow> None | _ \<Rightarrow> ns))
      | None \<Rightarrow> (case ns of None \<Rightarrow> [] | Some n \<Rightarrow> [''ip'', ''netns'', ''exec'', n]) @ [abspath (ve_cwd E) fc_bin, ''--api-sock'', ''fc.sock''])"

text \<open>
  \<open>MicroVM.__init__\<close>: the wait for the API socket ends when it appears, or raises when the process
  exits or the time is over.
\<close>

definition microvm :: "('r, 'v, 'd) vm_env \<Rightarrow> string \<Rightarrow> string \<Rightarrow> jailer_config option \<Rightarrow> string option \<Rightarrow> (('r, 'v, 'd) host, nat) proc" where
  "microvm E fc_bin d jailer ns =
     (let hdir = vm_host_path E jailer fc_bin d in
      seqp (whenp (jailer \<noteq> None) (write_file E hdir Directory)) (\<lambda>_.
      seqp (write_file E (join_path d ''fc.log'') (TextFile [])) (\<lambda>_.
      seqp (vm_popen E d hdir (jailer \<noteq> None) (vm_command E jailer fc_bin d ns)) (\<lambda>h.
      seqp (try_except
              (seqp (faulty E OpPidfd (modp (on_vmm h (\<lambda>v. v\<lparr>vm_pidfd := True\<rparr>)))) (\<lambda>_. faulty E OpSocket (ret ())))
              (reraise (force_cleanup h))) (\<lambda>_.
        ret h)))))"

text \<open>
  \<open>_request\<close>: a request to a process that does not run, a transport failure and a status outside 2xx
  raise; otherwise it has its effect.
\<close>

definition vm_request :: "('r, 'v, 'd) vm_env \<Rightarrow> nat \<Rightarrow> string \<Rightarrow> string \<Rightarrow> json \<Rightarrow>
    (('r, 'v) vmm \<Rightarrow> (('r, 'v, 'd) host, unit) proc) \<Rightarrow> (('r, 'v, 'd) host, unit) proc" where
  "vm_request E h meth path body f =
     faulty E OpApi (\<lambda>s.
       case dget (ho_vmms s) h of
         None \<Rightarrow> (Inl OSError, s)
       | Some v \<Rightarrow> if vm_state v \<noteq> Running then (Inl OSError, s)
           else f v (s\<lparr>ho_api := ho_api s @ [(h, meth, path, body)]\<rparr>))"

definition no_effect :: "('r, 'v) vmm \<Rightarrow> (('r, 'v, 'd) host, unit) proc" where
  "no_effect v = ret ()"

definition shared_input :: "('r, 'v, 'd) vm_env \<Rightarrow> nat \<Rightarrow> string \<Rightarrow> string \<Rightarrow> (('r, 'v, 'd) host, string) proc" where
  "shared_input E h path jail_name s =
     (case dget (ho_vmms s) h of
        None \<Rightarrow> (Inl AttributeError, s)
      | Some v \<Rightarrow>
         if \<not> vm_jailed v then (Inr (abspath (ve_cwd E) path), s)
         else let dst = join_path (vm_host_dir v) jail_name in
           if dst \<in> keys (ho_files s) then (Inr jail_name, s)
           else seqp (link_or_copy E path dst) (\<lambda>_. ret jail_name) s)"

definition vm_path :: "('r, 'v, 'd) vm_env \<Rightarrow> nat \<Rightarrow> string \<Rightarrow> (('r, 'v, 'd) host, string) proc" where
  "vm_path E h p s =
     (case dget (ho_vmms s) h of
        None \<Rightarrow> (Inl AttributeError, s)
      | Some v \<Rightarrow>
         if \<not> vm_jailed v then (Inr (abspath (ve_cwd E) p), s)
         else let rel = relpath (abspath (ve_cwd E) p) (abspath (ve_cwd E) (vm_host_dir v)) in
           if prefix ''..'' rel then (Inl ValueError, s) else (Inr rel, s))"

definition put :: "('r, 'v, 'd) vm_env \<Rightarrow> nat \<Rightarrow> string \<Rightarrow> (string \<times> json) list \<Rightarrow> (('r, 'v, 'd) host, unit) proc" where
  "put E h path fs = vm_request E h ''PUT'' path (JObj fs) no_effect"

definition vm_boot :: "('r, 'v, 'd) vm_env \<Rightarrow> nat \<Rightarrow> string \<Rightarrow> string \<Rightarrow> string option \<Rightarrow> string option \<Rightarrow> string option \<Rightarrow>
    (('r, 'v, 'd) host, unit) proc" where
  "vm_boot E h vmlinux rootfs overlay vsock_uds tap =
     seqp (raise_if (\<lambda>_. \<exists>p \<in> set_option overlay \<union> set_option vsock_uds. prefix ''/'' p) ValueError) (\<lambda>_.
     seqp (shared_input E h vmlinux ''vmlinux'') (\<lambda>k.
     seqp (put E h ''/boot-source'' [(''kernel_image_path'', JStr k),
             (''boot_args'', JStr ''console=ttyS0 reboot=k panic=1 pci=off quiet'')]) (\<lambda>_.
     seqp (shared_input E h rootfs ''rootfs.img'') (\<lambda>r.
     seqp (put E h ''/drives/rootfs'' [(''drive_id'', JStr ''rootfs''), (''path_on_host'', JStr r),
             (''is_root_device'', JBool True), (''is_read_only'', JBool True)]) (\<lambda>_.
     seqp (case overlay of None \<Rightarrow> ret ()
           | Some p \<Rightarrow> put E h ''/drives/overlay'' [(''drive_id'', JStr ''overlay''), (''path_on_host'', JStr p),
               (''is_root_device'', JBool False), (''is_read_only'', JBool False)]) (\<lambda>_.
     seqp (case vsock_uds of None \<Rightarrow> ret ()
           | Some p \<Rightarrow> put E h ''/vsock'' [(''guest_cid'', JInt 3), (''uds_path'', JStr p)]) (\<lambda>_.
     seqp (case tap of None \<Rightarrow> ret ()
           | Some t \<Rightarrow> put E h ''/network-interfaces/eth0'' [(''iface_id'', JStr ''eth0''), (''host_dev_name'', JStr t),
               (''guest_mac'', JStr ''06:00:ac:10:00:02'')]) (\<lambda>_.
     seqp (put E h ''/machine-config'' [(''vcpu_count'', JInt 1), (''mem_size_mib'', JInt 256)]) (\<lambda>_.
       vm_request E h ''PUT'' ''/actions'' (JObj [(''action_type'', JStr ''InstanceStart'')])
         (\<lambda>v. modp (on_vmm h (\<lambda>v. v\<lparr>vm_guest := Some (ve_boot E)\<rparr>))))))))))))"

definition vm_pause :: "('r, 'v, 'd) vm_env \<Rightarrow> nat \<Rightarrow> (('r, 'v, 'd) host, unit) proc" where
  "vm_pause E h =
     vm_request E h ''PATCH'' ''/vm'' (JObj [(''state'', JStr ''Paused'')]) (\<lambda>v. modp (on_vmm h (\<lambda>v. v\<lparr>vm_paused := True\<rparr>)))"

definition vm_resume :: "('r, 'v, 'd) vm_env \<Rightarrow> nat \<Rightarrow> (('r, 'v, 'd) host, unit) proc" where
  "vm_resume E h =
     vm_request E h ''PATCH'' ''/vm'' (JObj [(''state'', JStr ''Resumed'')]) (\<lambda>v. modp (on_vmm h (\<lambda>v. v\<lparr>vm_paused := False\<rparr>)))"

text \<open>Firecracker refuses to snapshot a guest that is not paused.\<close>

definition vm_snapshot :: "('r, 'v, 'd) vm_env \<Rightarrow> nat \<Rightarrow> string \<Rightarrow> string \<Rightarrow> (('r, 'v, 'd) host, unit) proc" where
  "vm_snapshot E h mem state =
     seqp (vm_path E h state) (\<lambda>ps.
     seqp (vm_path E h mem) (\<lambda>pm.
       vm_request E h ''PUT'' ''/snapshot/create''
         (JObj [(''snapshot_type'', JStr ''Full''), (''snapshot_path'', JStr ps), (''mem_file_path'', JStr pm)])
         (\<lambda>v. case vm_guest v of
            None \<Rightarrow> raise RuntimeError
          | Some (r, d) \<Rightarrow>
             if \<not> vm_paused v then raise RuntimeError
             else modp (\<lambda>s. s\<lparr>ho_files := dset mem (MemFile r) (dset state (StateFile d) (ho_files s))\<rparr>))))"

definition vm_restore :: "('r, 'v, 'd) vm_env \<Rightarrow> nat \<Rightarrow> string \<Rightarrow> string \<Rightarrow> (('r, 'v, 'd) host, unit) proc" where
  "vm_restore E h mem state =
     seqp (vm_path E h state) (\<lambda>ps.
     seqp (vm_path E h mem) (\<lambda>pm.
       vm_request E h ''PUT'' ''/snapshot/load''
         (JObj [(''snapshot_path'', JStr ps),
            (''mem_backend'', JObj [(''backend_type'', JStr ''File''), (''backend_path'', JStr pm)]),
            (''resume_vm'', JBool True)])
         (\<lambda>v s. case (dget (ho_files s) mem, dget (ho_files s) state) of
            (Some (MemFile r), Some (StateFile d)) \<Rightarrow> (Inr (), on_vmm h (\<lambda>v. v\<lparr>vm_guest := Some (r, d), vm_paused := False\<rparr>) s)
          | _ \<Rightarrow> (Inl RuntimeError, s))))"

text \<open>
  \<open>kill\<close>; the \<open>finally\<close> part kills the process if the signal through the pidfd did not.  ESRCH
  (\<open>ProcessLookupError\<close>) is the answer for a process that has been waited for, and for no other.
\<close>

definition vm_signal :: "('r, 'v, 'd) vm_env \<Rightarrow> nat \<Rightarrow> (('r, 'v, 'd) host, unit) proc" where
  "vm_signal E h =
     ignoring ProcessLookupError
       (faulty (E\<lparr>ve_fault := \<lambda>k. no_spurious_lookup (ve_fault E k)\<rparr>) OpSignal (\<lambda>s.
          case dget (ho_vmms s) h of
            None \<Rightarrow> (Inl ProcessLookupError, s)
          | Some v \<Rightarrow> if vm_state v = Reaped then (Inl ProcessLookupError, s) else vm_sigkill h s))"

definition vm_kill_finally :: "nat \<Rightarrow> (('r, 'v, 'd) host, unit) proc" where
  "vm_kill_finally h =
     seqp (vm_poll_none h) (\<lambda>running.
     seqp (whenp running (seqp (vm_sigkill h) (\<lambda>_. vm_reap h))) (\<lambda>_.
       vm_close_pidfd h))"

definition vm_kill :: "('r, 'v, 'd) vm_env \<Rightarrow> nat \<Rightarrow> (('r, 'v, 'd) host, unit) proc" where
  "vm_kill E h =
     seqp (raise_if (\<lambda>s. case dget (ho_vmms s) h of None \<Rightarrow> True | Some v \<Rightarrow> \<not> vm_pidfd v) RuntimeError) (\<lambda>_.
       try_finally
         (seqp (vm_signal E h) (\<lambda>_.
          seqp (ignoring ChildProcessError (vm_waitid h)) (\<lambda>_.
            vm_reap h)))
         (vm_kill_finally h))"

end
