(* ===== verification/Firecracker.thy ===== *)
theory Firecracker
  imports Microvm Tree_Server
begin

text \<open>
  \<open>sandbox/firecracker_backend.py\<close>: \<open>FirecrackerSandbox\<close>, which runs every branch in a microVM and forks
  a branch by restoring a snapshot of its parent.  What a command does in a guest is a parameter
  (the exchange itself is the subject of \<open>Vsock\<close>), as are the JSON text codec, SHA-256, the runner of
  network commands, the clock and the faults.  Methods are transitions: the waits of \<open>kill\<close> for
  spawns in flight, and the per-branch locks, order them.  The background reseed of a child is an
  operation of its own; \<open>kill\<close> completes one that is still due.
\<close>

section \<open>Configuration and state\<close>

record fc_config =
  fb_bin :: string
  fb_kernel :: string
  fb_rootfs :: string
  fb_work_dir :: string
  fb_vsock :: bool
  fb_overlay_mib :: "int option"
  fb_jailer :: "jailer_config option"
  fb_network :: "network_config option"
  fb_readiness_timeout :: real
  fb_exec_timeout :: real

type_synonym ('r, 'v, 'd, 'a) guest_run =
  "string list \<Rightarrow> real option \<Rightarrow> string option \<Rightarrow> 'r \<times> 'v \<Rightarrow> 'd option \<Rightarrow> (exc + 'a) \<times> ('r \<times> 'v) \<times> 'd option"

record ('r, 'v, 'd, 'w) fc_env =
  fe_cfg :: fc_config
  fe_vm :: "('r, 'v, 'd) vm_env"
  fe_mkfs :: 'd
  fe_exec :: "('r, 'v, 'd, exec_result) guest_run"
  fe_detach :: "('r, 'v, 'd, detached_exec) guest_run"
  fe_run :: "'w runner"
  fe_dumps :: "json \<Rightarrow> string"
  fe_loads :: "string \<Rightarrow> exc + json"
  fe_clock :: "nat \<Rightarrow> real"
  fe_exe :: string
  fe_urandom :: "string \<Rightarrow> string"

record ('r, 'v, 'd, 'w) fc =
  fc_host :: "('r, 'v, 'd) host"
  fc_net :: "'w netns"
  fc_vms :: "(string, nat) dict"
  fc_pending :: "string set"
  fc_parent_forks :: "(string, int) dict"
  fc_snapshots :: "(string, string \<times> string) dict"
  fc_gen :: "(string, int) dict"
  fc_snap_gen :: "(string, int) dict"
  fc_netns_index :: "(string, int) dict"
  fc_reseeds :: "string list"
  fc_reads :: nat

type_synonym ('r, 'v, 'd, 'w, 'a) fcp = "(('r, 'v, 'd, 'w) fc, 'a) proc"

definition at_host :: "(('r, 'v, 'd) host, 'a) proc \<Rightarrow> ('r, 'v, 'd, 'w, 'a) fcp" where
  "at_host m s = (case m (fc_host s) of (r, t) \<Rightarrow> (r, s\<lparr>fc_host := t\<rparr>))"

definition at_net :: "('w netns, 'a) proc \<Rightarrow> ('r, 'v, 'd, 'w, 'a) fcp" where
  "at_net m s = (case m (fc_net s) of (r, t) \<Rightarrow> (r, s\<lparr>fc_net := t\<rparr>))"

abbreviation fc_write :: "('r, 'v, 'd, 'w) fc_env \<Rightarrow> string \<Rightarrow> ('r, 'v, 'd) hostfile \<Rightarrow> ('r, 'v, 'd, 'w, unit) fcp" where
  "fc_write F p c \<equiv> at_host (write_file (fe_vm F) p c)"

definition read_monotonic :: "('r, 'v, 'd, 'w) fc_env \<Rightarrow> ('r, 'v, 'd, 'w, real) fcp" where
  "read_monotonic F s = (Inr (fe_clock F (fc_reads s)), s\<lparr>fc_reads := Suc (fc_reads s)\<rparr>)"

section \<open>Names and paths\<close>

definition safe_char :: "char \<Rightarrow> bool" where
  "safe_char c \<longleftrightarrow> jail_char c \<or> c = CHR ''.'' \<or> c = CHR ''_''"

definition safe_segment :: "string \<Rightarrow> bool" where
  "safe_segment x \<longleftrightarrow> x \<noteq> [] \<and> jail_char (hd x) \<and> hd x \<noteq> CHR ''-'' \<and> list_all safe_char x \<and> length x \<le> 128"

definition ENCODED_BRANCH_PREFIX :: string where "ENCODED_BRANCH_PREFIX = ''__agentfork__''"

definition OVERLAY :: string where "OVERLAY = ''overlay.ext4''"

definition VSOCK :: string where "VSOCK = ''v.sock''"

fun join_underscore :: "string list \<Rightarrow> string" where
  "join_underscore [] = []"
| "join_underscore [x] = x"
| "join_underscore (x # xs) = x @ ''_'' @ join_underscore xs"

definition branch_dir_name :: "(string \<Rightarrow> string) \<Rightarrow> string \<Rightarrow> exc + string" where
  "branch_dir_name sha b =
     (if b = [] then Inl ValueError
      else if length (utf8 b) > 512 \<or> CHR 0x00 \<in> set b then Inl ValueError
      else let segments = split_on CHR ''/'' b in
        if list_ex (\<lambda>x. x \<in> {[], ''.'', ''..''} \<or> \<not> safe_segment x) segments then Inl ValueError
        else if length segments = 1 then
          (if prefix ENCODED_BRANCH_PREFIX b then Inl ValueError else Inr b)
        else Inr (ENCODED_BRANCH_PREFIX @ take 16 (sha b) @ ''-'' @ take 80 (join_underscore segments)))"

definition vm_dir_path :: "('r, 'v, 'd, 'w) fc_env \<Rightarrow> string \<Rightarrow> exc + string" where
  "vm_dir_path F b =
     (case branch_dir_name (ve_sha (fe_vm F)) b of Inl e \<Rightarrow> Inl e | Inr n \<Rightarrow> Inr (join_path (fb_work_dir (fe_cfg F)) n))"

definition fc_vm_dir :: "('r, 'v, 'd, 'w) fc_env \<Rightarrow> string \<Rightarrow> ('r, 'v, 'd, 'w, string) fcp" where
  "fc_vm_dir F b = seqp (of_sum (vm_dir_path F b)) (\<lambda>d. seqp (fc_write F d Directory) (\<lambda>_. ret d))"

definition pid_path :: "('r, 'v, 'd, 'w) fc_env \<Rightarrow> string \<Rightarrow> exc + string" where
  "pid_path F b = (case vm_dir_path F b of Inl e \<Rightarrow> Inl e | Inr d \<Rightarrow> Inr (join_path d ''fc.pid''))"

definition fc_host_dir :: "('r, 'v, 'd, 'w) fc_env \<Rightarrow> string \<Rightarrow> ('r, 'v, 'd, 'w, string) fcp" where
  "fc_host_dir F b =
     (case fb_jailer (fe_cfg F) of
        None \<Rightarrow> fc_vm_dir F b
      | Some jc \<Rightarrow> seqp (fc_vm_dir F b) (\<lambda>d.
          let j = jail_root (ve_sha (fe_vm F)) (ve_cwd (fe_vm F)) jc (fb_bin (fe_cfg F)) d
          in seqp (fc_write F j Directory) (\<lambda>_. ret j)))"

definition vmm_comm :: "('r, 'v, 'd, 'w) fc_env \<Rightarrow> string" where
  "vmm_comm F = take 15 (basename (abspath (ve_cwd (fe_vm F)) (fb_bin (fe_cfg F))))"

definition new_vm :: "('r, 'v, 'd, 'w) fc_env \<Rightarrow> string \<Rightarrow> string option \<Rightarrow> ('r, 'v, 'd, 'w, nat) fcp" where
  "new_vm F d ns = at_host (microvm (fe_vm F) (fb_bin (fe_cfg F)) d (fb_jailer (fe_cfg F)) ns)"

section \<open>Files\<close>

definition chown_into_jail :: "('r, 'v, 'd, 'w) fc_env \<Rightarrow> string \<Rightarrow> ('r, 'v, 'd, 'w, unit) fcp" where
  "chown_into_jail F p = whenp (fb_jailer (fe_cfg F) \<noteq> None) (at_host (faulty (fe_vm F) OpFile (ret ())))"

definition create_overlay :: "('r, 'v, 'd, 'w) fc_env \<Rightarrow> string \<Rightarrow> ('r, 'v, 'd, 'w, unit) fcp" where
  "create_overlay F p =
     seqp (fc_write F p (TextFile [])) (\<lambda>_. seqp (fc_write F p (OverlayFile (fe_mkfs F))) (\<lambda>_. chown_into_jail F p))"

definition copy_overlay :: "('r, 'v, 'd, 'w) fc_env \<Rightarrow> string \<Rightarrow> string \<Rightarrow> ('r, 'v, 'd, 'w, unit) fcp" where
  "copy_overlay F src dst = at_host (copy_file (fe_vm F) src dst)"

definition ignore_missing :: "('r, 'v, 'd, 'w, unit) fcp \<Rightarrow> ('r, 'v, 'd, 'w, unit) fcp" where
  "ignore_missing m = try_except m (\<lambda>e. if e = FileNotFoundError then ret () else raise e)"

definition fc_remove :: "('r, 'v, 'd, 'w) fc_env \<Rightarrow> string \<Rightarrow> ('r, 'v, 'd, 'w, unit) fcp" where
  "fc_remove F p =
     ignore_missing (at_host (faulty (fe_vm F) OpFile (modp (\<lambda>s. s\<lparr>ho_files := ddel p (ho_files s)\<rparr>))))"

definition link_into :: "('r, 'v, 'd, 'w) fc_env \<Rightarrow> string \<Rightarrow> string \<Rightarrow> string \<Rightarrow> ('r, 'v, 'd, 'w, string) fcp" where
  "link_into F src dst_dir name =
     (let dst = join_path dst_dir name
      in seqp (fc_remove F dst) (\<lambda>_. seqp (at_host (link_or_copy (fe_vm F) src dst)) (\<lambda>_. ret dst)))"

definition rmtree :: "('r, 'v, 'd, 'w) fc_env \<Rightarrow> string \<Rightarrow> ('r, 'v, 'd, 'w, unit) fcp" where
  "rmtree F p =
     ignore_missing (at_host (faulty (fe_vm F) OpFile (modp (\<lambda>s.
       s\<lparr>ho_files := filter (\<lambda>x. fst x \<noteq> p \<and> \<not> prefix (p @ ''/'') (fst x)) (ho_files s)\<rparr>))))"

definition cleanup_artifacts :: "('r, 'v, 'd, 'w) fc_env \<Rightarrow> string \<Rightarrow> ('r, 'v, 'd, 'w, unit) fcp" where
  "cleanup_artifacts F b =
     seqp (of_sum (vm_dir_path F b)) (\<lambda>d.
     seqp (case fb_jailer (fe_cfg F) of None \<Rightarrow> ret ()
           | Some jc \<Rightarrow> rmtree F (dirname (jail_root (ve_sha (fe_vm F)) (ve_cwd (fe_vm F)) jc (fb_bin (fe_cfg F)) d))) (\<lambda>_.
       rmtree F d))"

section \<open>Process identity and the pid record\<close>

text \<open>
  The process that has a pid now.  The \<open>exe\<close> link of a process that has exited but is not reaped does not
  resolve, so that \<open>os.path.realpath\<close> gives the link itself.
\<close>

definition proc_at :: "('r, 'v, 'd, 'w) fc_env \<Rightarrow> ('r, 'v, 'd) host \<Rightarrow> int \<Rightarrow> proc_info option" where
  "proc_at F s pid =
     (case (if pid < 0 then None else dget (ho_vmms s) (nat pid)) of
        Some v \<Rightarrow> if vm_state v = Reaped then dget (ho_other s) pid
                  else Some \<lparr>pi_start = vm_start v, pi_exe = (if vm_state v = Running then fe_exe F else ''/proc/'' @ str_int pid @ ''/exe''),
                    pi_comm = vmm_comm F\<rparr>
      | None \<Rightarrow> dget (ho_other s) pid)"

definition process_identity :: "('r, 'v, 'd, 'w) fc_env \<Rightarrow> int \<Rightarrow> ('r, 'v, 'd, 'w, (int \<times> string) option) fcp" where
  "process_identity F pid =
     readp (\<lambda>s. map_option (\<lambda>i. (pi_start i, pi_exe i)) (proc_at F (fc_host s) pid))"

definition pid_is_our_vmm :: "('r, 'v, 'd, 'w) fc_env \<Rightarrow> int \<Rightarrow> ('r, 'v, 'd, 'w, bool option) fcp" where
  "pid_is_our_vmm F pid = readp (\<lambda>s. map_option (\<lambda>i. pi_comm i = vmm_comm F) (proc_at F (fc_host s) pid))"

definition pid_record :: "int \<Rightarrow> (int \<times> string) option \<Rightarrow> json" where
  "pid_record pid ident =
     JObj ((''pid'', JInt pid) # (case ident of None \<Rightarrow> [] | Some (start, exe) \<Rightarrow> [(''start_time'', JInt start), (''exe'', JStr exe)]))"

definition write_pid_record :: "('r, 'v, 'd, 'w) fc_env \<Rightarrow> string \<Rightarrow> nat \<Rightarrow> ('r, 'v, 'd, 'w, unit) fcp" where
  "write_pid_record F b h =
     seqp (process_identity F (int h)) (\<lambda>ident.
     seqp (of_sum (pid_path F b)) (\<lambda>p.
       let body = TextFile (fe_dumps F (pid_record (int h) ident)) in
       seqp (fc_write F (p @ ''.tmp'') body) (\<lambda>_.
         at_host (faulty (fe_vm F) OpFile (modp (\<lambda>s. s\<lparr>ho_files := dset p body (ddel (p @ ''.tmp'') (ho_files s))\<rparr>))))))"

text \<open>A parsed record: the pid, and what is recorded of the identity (\<open>JNull\<close> for a missing field).\<close>

definition parse_pid_record :: "(string \<Rightarrow> exc + json) \<Rightarrow> string \<Rightarrow> exc + int \<times> json \<times> json" where
  "parse_pid_record loads raw =
     (case loads raw of
        Inl _ \<Rightarrow> (case int_of_str raw of Inl e \<Rightarrow> Inl e | Inr n \<Rightarrow> Inr (n, JNull, JNull))
      | Inr (JInt n) \<Rightarrow> Inr (n, JNull, JNull)
      | Inr (JObj fs) \<Rightarrow>
          (case map_of fs ''pid'' of
             None \<Rightarrow> Inl (KeyError ''pid'')
           | Some v \<Rightarrow> (case json_int v of
               Inl e \<Rightarrow> Inl e
             | Inr n \<Rightarrow> Inr (n, (case map_of fs ''start_time'' of None \<Rightarrow> JNull | Some x \<Rightarrow> x),
                 (case map_of fs ''exe'' of None \<Rightarrow> JNull | Some x \<Rightarrow> x))))
      | Inr _ \<Rightarrow> Inl ValueError)"

definition read_text :: "string \<Rightarrow> ('r, 'v, 'd, 'w, string) fcp" where
  "read_text p s =
     (case dget (ho_files (fc_host s)) p of
        Some (TextFile t) \<Rightarrow> (Inr t, s)
      | Some Directory \<Rightarrow> (Inl OSError, s)
      | Some _ \<Rightarrow> (Inl ValueError, s)
      | None \<Rightarrow> (Inl FileNotFoundError, s))"

definition read_pid_record :: "('r, 'v, 'd, 'w) fc_env \<Rightarrow> string \<Rightarrow> ('r, 'v, 'd, 'w, (int \<times> json \<times> json) option) fcp" where
  "read_pid_record F b =
     try_except (seqp (of_sum (pid_path F b)) (\<lambda>p. seqp (read_text p) (\<lambda>t.
         seqp (of_sum (parse_pid_record (fe_loads F) (py_strip t))) (\<lambda>r. ret (Some r)))))
       (\<lambda>e. if e \<in> {FileNotFoundError, TypeError} \<or> is_key_error e \<or> is_value_error e then ret None else raise e)"


section \<open>Commands in a guest\<close>

text \<open>The VM that listens on the vsock of a directory: the last one started there that runs.\<close>

definition vm_listening :: "('r, 'v, 'd) host \<Rightarrow> string \<Rightarrow> (nat \<times> ('r, 'v) vmm) option" where
  "vm_listening s hdir = find (\<lambda>x. vm_state (snd x) = Running \<and> vm_host_dir (snd x) = hdir) (rev (ho_vmms s))"

definition overlay_of :: "('r, 'v, 'd) host \<Rightarrow> string \<Rightarrow> 'd option" where
  "overlay_of s hdir = (case dget (ho_files s) (join_path hdir OVERLAY) of Some (OverlayFile d) \<Rightarrow> Some d | _ \<Rightarrow> None)"

definition set_overlay :: "string \<Rightarrow> 'd option \<Rightarrow> ('r, 'v, 'd) host \<Rightarrow> ('r, 'v, 'd) host" where
  "set_overlay hdir d s =
     (case d of None \<Rightarrow> s | Some x \<Rightarrow> s\<lparr>ho_files := dset (join_path hdir OVERLAY) (OverlayFile x) (ho_files s)\<rparr>)"

text \<open>A command reaches the guest unless the exchange fails first; a paused or unbooted guest does not answer.\<close>

definition guest_call :: "('r, 'v, 'd, 'w) fc_env \<Rightarrow> ('r, 'v, 'd, 'a) guest_run \<Rightarrow> string \<Rightarrow> string list \<Rightarrow> real option \<Rightarrow> string option \<Rightarrow>
    (('r, 'v, 'd) host, 'a) proc" where
  "guest_call F run hdir argv timeout stdin =
     faulty (fe_vm F) OpExec (\<lambda>s.
       case vm_listening s hdir of
         None \<Rightarrow> (Inl VsockError, s)
       | Some (h, v) \<Rightarrow>
          (case vm_guest v of
             None \<Rightarrow> (Inl VsockError, s)
           | Some g \<Rightarrow> if vm_paused v then (Inl VsockError, s)
               else (case run argv timeout stdin g (overlay_of s hdir) of
                  (r, g', d') \<Rightarrow> (r, set_overlay hdir d' (on_vmm h (\<lambda>v. v\<lparr>vm_guest := Some g'\<rparr>) s)))))"

definition exec_live :: "('r, 'v, 'd, 'w) fc_env \<Rightarrow> ('r, 'v, 'd, 'a) guest_run \<Rightarrow> string \<Rightarrow> string list \<Rightarrow> real option \<Rightarrow> string option \<Rightarrow>
    ('r, 'v, 'd, 'w, 'a) fcp" where
  "exec_live F run b argv timeout stdin =
     seqp (raise_if (\<lambda>_. \<not> fb_vsock (fe_cfg F)) RuntimeError) (\<lambda>_.
     seqp (fc_host_dir F b) (\<lambda>hdir. at_host (guest_call F run hdir argv timeout stdin)))"

definition need_vm :: "string \<Rightarrow> ('r, 'v, 'd, 'w, unit) fcp" where
  "need_vm b = raise_if (\<lambda>s. b \<notin> keys (fc_vms s)) (KeyError b)"

definition gen_of :: "('r, 'v, 'd, 'w) fc \<Rightarrow> string \<Rightarrow> int" where
  "gen_of s b = (case dget (fc_gen s) b of None \<Rightarrow> 0 | Some n \<Rightarrow> n)"

definition bump_gen :: "string \<Rightarrow> ('r, 'v, 'd, 'w, unit) fcp" where
  "bump_gen b = modp (\<lambda>s. if b \<in> keys (fc_vms s) then s\<lparr>fc_gen := dset b (gen_of s b + 1) (fc_gen s)\<rparr> else s)"

text \<open>\<open>_exec_branch\<close>, and with the other guest operation \<open>exec_detached\<close>.\<close>

definition exec_branch :: "('r, 'v, 'd, 'w) fc_env \<Rightarrow> ('r, 'v, 'd, 'a) guest_run \<Rightarrow> string \<Rightarrow> string list \<Rightarrow> real option \<Rightarrow> string option \<Rightarrow>
    ('r, 'v, 'd, 'w, 'a) fcp" where
  "exec_branch F run b argv timeout stdin =
     seqp (need_vm b) (\<lambda>_. try_finally (exec_live F run b argv timeout stdin) (bump_gen b))"

definition exec_json :: "exec_result \<Rightarrow> json" where
  "exec_json r = JObj [(''exit_code'', er_exit_code r), (''stdout'', JStr (er_stdout r)), (''stderr'', JStr (er_stderr r)),
     (''timed_out'', er_timed_out r)]"

definition fc_exec :: "('r, 'v, 'd, 'w) fc_env \<Rightarrow> string \<Rightarrow> string list \<Rightarrow> real option \<Rightarrow> string option \<Rightarrow> ('r, 'v, 'd, 'w, json) fcp" where
  "fc_exec F b argv timeout stdin = seqp (exec_branch F (fe_exec F) b argv
       (Some (case timeout of None \<Rightarrow> fb_exec_timeout (fe_cfg F) | Some t \<Rightarrow> t)) stdin) (\<lambda>r. ret (exec_json r))"

definition fc_exec_detached :: "('r, 'v, 'd, 'w) fc_env \<Rightarrow> string \<Rightarrow> string list \<Rightarrow> ('r, 'v, 'd, 'w, json) fcp" where
  "fc_exec_detached F b argv =
     seqp (exec_branch F (fe_detach F) b argv None None) (\<lambda>r. ret (JObj [(''pid'', de_pid r), (''log'', de_log_path r)]))"

text \<open>
  \<open>wait_ready\<close>: a probe that fails is repeated after a quarter of a second until the deadline.  The number
  of rounds is bounded by the time they take; \<open>Suc\<close> of the bound is never used up when the clock
  moves on with the sleeps.
\<close>

fun ready_loop :: "('r, 'v, 'd, 'w) fc_env \<Rightarrow> real \<Rightarrow> string \<Rightarrow> nat \<Rightarrow> ('r, 'v, 'd, 'w, unit) fcp" where
  "ready_loop F deadline b 0 = raise VsockError"
| "ready_loop F deadline b (Suc n) =
     seqp (read_monotonic F) (\<lambda>now.
     seqp (raise_if (\<lambda>_. deadline - now \<le> 0) VsockError) (\<lambda>_.
       try_except (seqp (need_vm b) (\<lambda>_. drop_value (exec_live F (fe_exec F) b [''true''] (Some (min 1 (deadline - now))) None)))
         (\<lambda>e. if e = VsockError
              then seqp (read_monotonic F) (\<lambda>now'.
                   seqp (raise_if (\<lambda>_. now' \<ge> deadline) VsockError) (\<lambda>_. ready_loop F deadline b n))
              else raise e)))"

definition fc_wait_ready :: "('r, 'v, 'd, 'w) fc_env \<Rightarrow> string \<Rightarrow> real option \<Rightarrow> ('r, 'v, 'd, 'w, unit) fcp" where
  "fc_wait_ready F b timeout =
     (if \<not> fb_vsock (fe_cfg F) then ret ()
      else let t = (case timeout of None \<Rightarrow> fb_readiness_timeout (fe_cfg F) | Some x \<Rightarrow> x) in
        seqp (read_monotonic F) (\<lambda>now. ready_loop F (now + t) b (nat \<lceil>4 * t\<rceil> + 2)))"


section \<open>Networks\<close>

definition netns_idx_path :: "('r, 'v, 'd, 'w) fc_env \<Rightarrow> string \<Rightarrow> ('r, 'v, 'd, 'w, string) fcp" where
  "netns_idx_path F b = seqp (fc_vm_dir F b) (\<lambda>d. ret (join_path d ''netns.idx''))"

definition setup_netns :: "('r, 'v, 'd, 'w) fc_env \<Rightarrow> string \<Rightarrow> ('r, 'v, 'd, 'w, string option) fcp" where
  "setup_netns F b =
     (case fb_network (fe_cfg F) of
        None \<Rightarrow> ret None
      | Some cfg \<Rightarrow>
          seqp (at_net (net_setup (ve_sha (fe_vm F)) cfg (fe_run F) b)) (\<lambda>(name, index).
          seqp (modp (\<lambda>s. s\<lparr>fc_netns_index := dset b index (fc_netns_index s)\<rparr>)) (\<lambda>_.
          seqp (netns_idx_path F b) (\<lambda>p.
          seqp (fc_write F p (TextFile (str_int index))) (\<lambda>_. ret (Some name))))))"

text \<open>The index a branch has: the one in memory, else the one in its journal, if it can be read.\<close>

definition recovered_index :: "('r, 'v, 'd, 'w) fc_env \<Rightarrow> string \<Rightarrow> ('r, 'v, 'd, 'w, int option) fcp" where
  "recovered_index F b =
     try_except (seqp (netns_idx_path F b) (\<lambda>p. seqp (read_text p) (\<lambda>t.
         seqp (of_sum (int_of_str (py_strip t))) (\<lambda>i. ret (Some i)))))
       (\<lambda>e. if e = FileNotFoundError \<or> is_value_error e then ret None else raise e)"

definition teardown_netns :: "('r, 'v, 'd, 'w) fc_env \<Rightarrow> string \<Rightarrow> ('r, 'v, 'd, 'w, unit) fcp" where
  "teardown_netns F b =
     (case fb_network (fe_cfg F) of
        None \<Rightarrow> ret ()
      | Some cfg \<Rightarrow>
          seqp (readp (\<lambda>s. dget (fc_netns_index s) b)) (\<lambda>mem.
          seqp (modp (\<lambda>s. s\<lparr>fc_netns_index := ddel b (fc_netns_index s)\<rparr>)) (\<lambda>_.
          seqp (case mem of Some i \<Rightarrow> ret (Some i) | None \<Rightarrow> recovered_index F b) (\<lambda>index.
            case index of
              None \<Rightarrow> ret ()
            | Some i \<Rightarrow>
                seqp (at_net (net_teardown (ve_sha (fe_vm F)) cfg (fe_run F) b i)) (\<lambda>_.
                seqp (netns_idx_path F b) (\<lambda>p. fc_remove F p))))))"

section \<open>Reseeding a child\<close>

definition start_reseed :: "('r, 'v, 'd, 'w) fc_env \<Rightarrow> string \<Rightarrow> ('r, 'v, 'd, 'w, unit) fcp" where
  "start_reseed F b =
     whenp (fb_vsock (fe_cfg F)) (modp (\<lambda>s. s\<lparr>fc_reseeds := List.insert b (fc_reseeds s)\<rparr>))"

definition reseed_identity :: "('r, 'v, 'd, 'w) fc_env \<Rightarrow> string \<Rightarrow> ('r, 'v, 'd, 'w, unit) fcp" where
  "reseed_identity F b =
     whenp (fb_vsock (fe_cfg F))
       (try_finally
          (try_except (drop_value (exec_live F (fe_exec F) b [''tee'', ''/dev/urandom''] (Some 5) (Some (fe_urandom F b))))
             (\<lambda>e. if e = VsockError \<or> is_os_error e then ret () else raise e))
          (modp (\<lambda>s. s\<lparr>fc_reseeds := removeAll b (fc_reseeds s)\<rparr>)))"

text \<open>\<open>await_reseed\<close> joins the thread; what the thread raised stays in it.\<close>

definition await_reseed :: "('r, 'v, 'd, 'w) fc_env \<Rightarrow> string \<Rightarrow> ('r, 'v, 'd, 'w, unit) fcp" where
  "await_reseed F b =
     seqp (readp (\<lambda>s. b \<in> set (fc_reseeds s))) (\<lambda>due.
       if due then try_except (reseed_identity F b) (\<lambda>_. ret ()) else ret ())"

section \<open>Snapshots and spawning\<close>

text \<open>\<open>pause\<close>, the body, and \<open>resume\<close> in any case; the error of the body wins over one of \<open>resume\<close>.\<close>

definition while_paused :: "('r, 'v, 'd, 'w) fc_env \<Rightarrow> nat \<Rightarrow> ('r, 'v, 'd, 'w, unit) fcp \<Rightarrow> ('r, 'v, 'd, 'w, unit) fcp" where
  "while_paused F h body =
     seqp (at_host (vm_pause (fe_vm F) h)) (\<lambda>_ s.
       case body s of
         (Inl e, s1) \<Rightarrow> (Inl e, snd (at_host (vm_resume (fe_vm F) h) s1))
       | (Inr _, s1) \<Rightarrow> at_host (vm_resume (fe_vm F) h) s1)"

definition sync_guest :: "('r, 'v, 'd, 'w) fc_env \<Rightarrow> string \<Rightarrow> ('r, 'v, 'd, 'w, unit) fcp" where
  "sync_guest F b =
     try_except (drop_value (exec_live F (fe_exec F) b [''sync''] (Some 10) None))
       (\<lambda>e. if e = VsockError then ret () else raise e)"

definition take_snapshot :: "('r, 'v, 'd, 'w) fc_env \<Rightarrow> string \<Rightarrow> nat \<Rightarrow> string \<Rightarrow> string \<Rightarrow> int \<Rightarrow> ('r, 'v, 'd, 'w, unit) fcp" where
  "take_snapshot F b h mem state gen =
     seqp (at_host (vm_snapshot (fe_vm F) h mem state)) (\<lambda>_.
       modp (\<lambda>s. s\<lparr>fc_snapshots := dset b (mem, state) (fc_snapshots s), fc_snap_gen := dset b gen (fc_snap_gen s)\<rparr>))"

definition overlay_for_child :: "('r, 'v, 'd, 'w) fc_env \<Rightarrow> string \<Rightarrow> string \<Rightarrow> ('r, 'v, 'd, 'w, unit) fcp" where
  "overlay_for_child F pdir child_dir =
     whenp (fb_overlay_mib (fe_cfg F) \<noteq> None)
       (seqp (copy_overlay F (join_path pdir OVERLAY) (join_path child_dir OVERLAY)) (\<lambda>_.
          chown_into_jail F (join_path child_dir OVERLAY)))"

definition is_stale :: "('r, 'v, 'd, 'w) fc \<Rightarrow> string \<Rightarrow> bool" where
  "is_stale s b \<longleftrightarrow> b \<notin> keys (fc_snapshots s) \<or> dget (fc_snap_gen s) b \<noteq> Some (gen_of s b)"

definition fork_source :: "('r, 'v, 'd, 'w) fc_env \<Rightarrow> string \<Rightarrow> string \<Rightarrow> ('r, 'v, 'd, 'w, string \<times> string) fcp" where
  "fork_source F parent child_dir =
     seqp (fc_host_dir F parent) (\<lambda>pdir.
     let mem = join_path pdir ''mem''; state = join_path pdir ''state''; overlay = fb_overlay_mib (fe_cfg F) \<noteq> None in
     seqp (readp (\<lambda>s. (dget (fc_vms s) parent, gen_of s parent, is_stale s parent))) (\<lambda>(vm, gen, stale).
     seqp (case vm of
         None \<Rightarrow>
           seqp (raise_if (\<lambda>s. \<not> (mem \<in> keys (ho_files (fc_host s)) \<and> state \<in> keys (ho_files (fc_host s)))) (KeyError parent)) (\<lambda>_.
             overlay_for_child F pdir child_dir)
       | Some h \<Rightarrow>
           seqp (whenp (stale \<and> overlay \<and> fb_vsock (fe_cfg F)) (sync_guest F parent)) (\<lambda>_.
           whenp (stale \<or> overlay)
             (while_paused F h
                (seqp (whenp stale (take_snapshot F parent h mem state gen)) (\<lambda>_. overlay_for_child F pdir child_dir))))) (\<lambda>_.
       ret (mem, state))))"

definition spawn_root :: "('r, 'v, 'd, 'w) fc_env \<Rightarrow> string \<Rightarrow> string \<Rightarrow> string option \<Rightarrow> ('r, 'v, 'd, 'w, nat) fcp" where
  "spawn_root F b d ns =
     (let overlay = fb_overlay_mib (fe_cfg F) \<noteq> None in
      seqp (whenp overlay (seqp (fc_host_dir F b) (\<lambda>hdir. create_overlay F (join_path hdir OVERLAY)))) (\<lambda>_. new_vm F d ns))"

definition spawn_child :: "('r, 'v, 'd, 'w) fc_env \<Rightarrow> string \<Rightarrow> string \<Rightarrow> string \<Rightarrow> string option \<Rightarrow>
    ('r, 'v, 'd, 'w, nat \<times> string \<times> string) fcp" where
  "spawn_child F b parent d ns =
     seqp (fc_host_dir F b) (\<lambda>child_host.
     seqp (fork_source F parent child_host) (\<lambda>(mem, state).
     seqp (if fb_jailer (fe_cfg F) = None then ret (mem, state)
           else seqp (link_into F mem child_host ''pmem'') (\<lambda>m.
                seqp (link_into F state child_host ''pstate'') (\<lambda>st.
                seqp (link_into F (abspath (ve_cwd (fe_vm F)) (fb_rootfs (fe_cfg F))) child_host ''rootfs.img'') (\<lambda>_.
                  ret (m, st))))) (\<lambda>(m, st).
     seqp (new_vm F d ns) (\<lambda>h. ret (h, m, st)))))"


definition fc_spawn_begin :: "string \<Rightarrow> string option \<Rightarrow> ('r, 'v, 'd, 'w, unit) fcp" where
  "fc_spawn_begin b parent =
     seqp (raise_if (\<lambda>s. b \<in> keys (fc_vms s) \<or> b \<in> fc_pending s) ValueError) (\<lambda>_.
       modp (\<lambda>s. s\<lparr>fc_pending := insert b (fc_pending s),
         fc_parent_forks := (case parent of None \<Rightarrow> fc_parent_forks s
           | Some p \<Rightarrow> dset p ((case dget (fc_parent_forks s) p of None \<Rightarrow> 0 | Some n \<Rightarrow> n) + 1) (fc_parent_forks s))\<rparr>))"

definition fc_spawn_end :: "string \<Rightarrow> string option \<Rightarrow> ('r, 'v, 'd, 'w, unit) fcp" where
  "fc_spawn_end b parent =
     modp (\<lambda>s. s\<lparr>fc_pending := fc_pending s - {b},
       fc_parent_forks := (case parent of None \<Rightarrow> fc_parent_forks s
         | Some p \<Rightarrow> (let n = (case dget (fc_parent_forks s) p of None \<Rightarrow> 0 | Some n \<Rightarrow> n) - 1
             in if n \<noteq> 0 then dset p n (fc_parent_forks s) else ddel p (fc_parent_forks s)))\<rparr>)"

text \<open>The \<open>except\<close> part: end the VMM if there is one, then the network and the files.\<close>

definition spawn_failed :: "('r, 'v, 'd, 'w) fc_env \<Rightarrow> string \<Rightarrow> nat option \<Rightarrow> ('r, 'v, 'd, 'w, unit) fcp" where
  "spawn_failed F b vm =
     seqp (case vm of None \<Rightarrow> ret ()
           | Some h \<Rightarrow> seqp (modp (\<lambda>s. s\<lparr>fc_vms := ddel b (fc_vms s)\<rparr>)) (\<lambda>_.
               try_except (at_host (vm_kill (fe_vm F) h)) (\<lambda>_. ret ()))) (\<lambda>_.
     seqp (teardown_netns F b) (\<lambda>_. cleanup_artifacts F b))"

definition spawn_vm :: "('r, 'v, 'd, 'w) fc_env \<Rightarrow> string \<Rightarrow> string option \<Rightarrow>
    ('r, 'v, 'd, 'w, nat \<times> (string \<times> string) option) fcp" where
  "spawn_vm F b parent =
     seqp (setup_netns F b) (\<lambda>ns.
     seqp (fc_vm_dir F b) (\<lambda>d.
       case parent of
         None \<Rightarrow> seqp (spawn_root F b d ns) (\<lambda>h. ret (h, None))
       | Some p \<Rightarrow> seqp (spawn_child F b p d ns) (\<lambda>(h, src). ret (h, Some src))))"

definition start_vm :: "('r, 'v, 'd, 'w) fc_env \<Rightarrow> string \<Rightarrow> string option \<Rightarrow> nat \<Rightarrow> (string \<times> string) option \<Rightarrow>
    ('r, 'v, 'd, 'w, unit) fcp" where
  "start_vm F b parent h src =
     seqp (at_host (case src of
         None \<Rightarrow> vm_boot (fe_vm F) h (fb_kernel (fe_cfg F)) (fb_rootfs (fe_cfg F))
             (if fb_overlay_mib (fe_cfg F) \<noteq> None then Some OVERLAY else None) (if fb_vsock (fe_cfg F) then Some VSOCK else None)
             (if fb_network (fe_cfg F) \<noteq> None then Some TAP_DEV else None)
       | Some (mem, state) \<Rightarrow> vm_restore (fe_vm F) h mem state)) (\<lambda>_.
     seqp (write_pid_record F b h) (\<lambda>_.
     seqp (modp (\<lambda>s. s\<lparr>fc_vms := dset b h (fc_vms s)\<rparr>)) (\<lambda>_.
       whenp (parent \<noteq> None) (start_reseed F b))))"

definition fc_spawn :: "('r, 'v, 'd, 'w) fc_env \<Rightarrow> string \<Rightarrow> string option \<Rightarrow> ('r, 'v, 'd, 'w, unit) fcp" where
  "fc_spawn F b parent =
     seqp (fc_spawn_begin b parent) (\<lambda>_.
       try_finally
         (seqp (try_except (spawn_vm F b parent) (reraise (spawn_failed F b None))) (\<lambda>(h, src).
            try_except (start_vm F b parent h src) (reraise (spawn_failed F b (Some h)))))
         (fc_spawn_end b parent))"

section \<open>Checkpoint, restart and migration\<close>

definition checkpoint :: "('r, 'v, 'd, 'w) fc_env \<Rightarrow> string \<Rightarrow> ('r, 'v, 'd, 'w, unit) fcp" where
  "checkpoint F b =
     seqp (readp (\<lambda>s. (dget (fc_vms s) b, gen_of s b))) (\<lambda>(vm, gen).
       case vm of
         None \<Rightarrow> raise (KeyError b)
       | Some h \<Rightarrow>
           seqp (fc_host_dir F b) (\<lambda>hdir.
           seqp (whenp (fb_vsock (fe_cfg F)) (sync_guest F b)) (\<lambda>_.
           seqp (at_host (vm_pause (fe_vm F) h)) (\<lambda>_.
             try_finally (take_snapshot F b h (join_path hdir ''mem'') (join_path hdir ''state'') gen)
               (at_host (vm_resume (fe_vm F) h))))))"

definition restore_paths :: "('r, 'v, 'd, 'w) fc_env \<Rightarrow> string \<Rightarrow> ('r, 'v, 'd, 'w, (string \<times> string) option) fcp" where
  "restore_paths F b =
     seqp (fc_host_dir F b) (\<lambda>hdir.
     let mem = join_path hdir ''mem''; state = join_path hdir ''state'' in
     seqp (readp (\<lambda>s. mem \<in> keys (ho_files (fc_host s)) \<and> state \<in> keys (ho_files (fc_host s)))) (\<lambda>both.
       if \<not> both then ret None
       else seqp (if fb_jailer (fe_cfg F) = None then ret ()
              else drop_value (link_into F (abspath (ve_cwd (fe_vm F)) (fb_rootfs (fe_cfg F))) hdir ''rootfs.img'')) (\<lambda>_.
            ret (Some (mem, state)))))"

definition vm_lives :: "string \<Rightarrow> ('r, 'v, 'd, 'w, bool) fcp" where
  "vm_lives b =
     seqp (readp (\<lambda>s. dget (fc_vms s) b)) (\<lambda>vm. case vm of None \<Rightarrow> ret False | Some h \<Rightarrow> at_host (vm_poll_none h))"

definition restart_vm :: "('r, 'v, 'd, 'w) fc_env \<Rightarrow> string \<Rightarrow> string \<times> string \<Rightarrow> string option \<Rightarrow> ('r, 'v, 'd, 'w, nat) fcp" where
  "restart_vm F b src ns =
     seqp (fc_vm_dir F b) (\<lambda>d.
     seqp (new_vm F d ns) (\<lambda>h.
     seqp (at_host (vm_restore (fe_vm F) h (fst src) (snd src))) (\<lambda>_. ret h)))"

definition fc_restart :: "('r, 'v, 'd, 'w) fc_env \<Rightarrow> string \<Rightarrow> ('r, 'v, 'd, 'w, bool) fcp" where
  "fc_restart F b =
     seqp (vm_lives b) (\<lambda>alive.
       if alive then ret True
       else
         seqp (modp (\<lambda>s. s\<lparr>fc_vms := ddel b (fc_vms s)\<rparr>)) (\<lambda>_.
         seqp (restore_paths F b) (\<lambda>restore.
           case restore of
             None \<Rightarrow> ret False
           | Some src \<Rightarrow>
               seqp (teardown_netns F b) (\<lambda>_.
               seqp (of_sum (pid_path F b)) (\<lambda>p.
               seqp (fc_remove F p) (\<lambda>_.
               seqp (fc_host_dir F b) (\<lambda>hdir.
               seqp (for_each [''fc.sock'', VSOCK] (\<lambda>n. fc_remove F (join_path hdir n))) (\<lambda>_.
               seqp (setup_netns F b) (\<lambda>ns.
               seqp (try_except (restart_vm F b src ns) (reraise (teardown_netns F b))) (\<lambda>h.
               seqp (write_pid_record F b h) (\<lambda>_.
               seqp (modp (\<lambda>s. s\<lparr>fc_vms := dset b h (fc_vms s)\<rparr>)) (\<lambda>_. ret True))))))))))))"

definition export_bundle :: "('r, 'v, 'd, 'w) fc_env \<Rightarrow> string \<Rightarrow> string \<Rightarrow> ('r, 'v, 'd, 'w, unit) fcp" where
  "export_bundle F b dest =
     seqp (restore_paths F b) (\<lambda>restore.
       case restore of
         None \<Rightarrow> raise (KeyError b)
       | Some (mem, state) \<Rightarrow>
           seqp (fc_write F dest Directory) (\<lambda>_.
           seqp (fc_host_dir F b) (\<lambda>hdir.
           seqp (readp (\<lambda>s. join_path hdir OVERLAY \<in> keys (ho_files (fc_host s)))) (\<lambda>there.
           seqp (whenp (fb_overlay_mib (fe_cfg F) \<noteq> None \<and> there) (copy_overlay F (join_path hdir OVERLAY) (join_path dest OVERLAY))) (\<lambda>_.
           seqp (at_host (copy_file (fe_vm F) state (join_path dest ''state''))) (\<lambda>_.
           seqp (copy_overlay F mem (join_path dest ''mem'')) (\<lambda>_.
             fc_write F (join_path dest ''manifest.json'') (TextFile (fe_dumps F (JObj [(''branch_id'', JStr b),
               (''overlay_mib'', (case fb_overlay_mib (fe_cfg F) of None \<Rightarrow> JNull | Some n \<Rightarrow> JInt n)),
               (''vsock'', JBool (fb_vsock (fe_cfg F))), (''kernel'', JStr (basename (fb_kernel (fe_cfg F))))]))))))))))"

definition import_bundle :: "('r, 'v, 'd, 'w) fc_env \<Rightarrow> string \<Rightarrow> string \<Rightarrow> ('r, 'v, 'd, 'w, unit) fcp" where
  "import_bundle F b src =
     seqp (for_each [''mem'', ''state''] (\<lambda>n. raise_if (\<lambda>s. join_path src n \<notin> keys (ho_files (fc_host s))) FileNotFoundError)) (\<lambda>_.
     seqp (raise_if (\<lambda>s. b \<in> keys (fc_vms s)) ValueError) (\<lambda>_.
     seqp (fc_host_dir F b) (\<lambda>hdir.
     seqp (at_host (copy_file (fe_vm F) (join_path src ''state'') (join_path hdir ''state''))) (\<lambda>_.
     seqp (copy_overlay F (join_path src ''mem'') (join_path hdir ''mem'')) (\<lambda>_.
     seqp (readp (\<lambda>s. join_path src OVERLAY \<in> keys (ho_files (fc_host s)))) (\<lambda>there.
     seqp (whenp (fb_overlay_mib (fe_cfg F) \<noteq> None \<and> there)
             (seqp (copy_overlay F (join_path src OVERLAY) (join_path hdir OVERLAY)) (\<lambda>_. chown_into_jail F (join_path hdir OVERLAY)))) (\<lambda>_.
       modp (\<lambda>s. s\<lparr>fc_snapshots := dset b (join_path hdir ''mem'', join_path hdir ''state'') (fc_snapshots s),
         fc_snap_gen := dset b (gen_of s b) (fc_snap_gen s)\<rparr>))))))))"

text \<open>\<open>export_artifact\<close>: the archive the guest's \<open>tar\<close> wrote, as a file of the host.\<close>

definition fc_export_artifact :: "('r, 'v, 'd, 'w) fc_env \<Rightarrow> string \<Rightarrow> string \<Rightarrow> string \<Rightarrow> ('r, 'v, 'd, 'w, int) fcp" where
  "fc_export_artifact F b guest_path dest =
     seqp (raise_if (\<lambda>_. \<not> fb_vsock (fe_cfg F)) RuntimeError) (\<lambda>_.
     seqp (need_vm b) (\<lambda>_.
     seqp (exec_live F (fe_exec F) b [''tar'', ''-C'', (if dirname guest_path = [] then ''/'' else dirname guest_path),
             ''-cf'', ''-'', basename guest_path] (Some 120) None) (\<lambda>r.
     seqp (raise_if (\<lambda>_. er_exit_code r \<noteq> JInt 0) RuntimeError) (\<lambda>_.
     seqp (fc_write F (dirname (abspath (ve_cwd (fe_vm F)) dest)) Directory) (\<lambda>_.
     seqp (fc_write F dest (TextFile (er_stdout r))) (\<lambda>_. ret (int (length (er_stdout r)))))))))"

section \<open>Killing and liveness\<close>

text \<open>SIGKILL to whatever process has the pid.\<close>

definition signal_pid :: "int \<Rightarrow> ('r, 'v, 'd) host \<Rightarrow> ('r, 'v, 'd) host" where
  "signal_pid pid s =
     (case (if pid < 0 then None else dget (ho_vmms s) (nat pid)) of
        Some v \<Rightarrow> if vm_state v = Reaped then s\<lparr>ho_other := ddel pid (ho_other s)\<rparr>
                  else on_vmm (nat pid) (\<lambda>v. v\<lparr>vm_state := Zombie\<rparr>) s
      | None \<Rightarrow> s\<lparr>ho_other := ddel pid (ho_other s)\<rparr>)"

definition discard_branch :: "('r, 'v, 'd, 'w) fc_env \<Rightarrow> string \<Rightarrow> string \<Rightarrow> ('r, 'v, 'd, 'w, unit) fcp" where
  "discard_branch F b p = seqp (fc_remove F p) (\<lambda>_. seqp (teardown_netns F b) (\<lambda>_. cleanup_artifacts F b))"

definition kill_handle :: "('r, 'v, 'd, 'w) fc_env \<Rightarrow> string \<Rightarrow> nat \<Rightarrow> string \<Rightarrow> ('r, 'v, 'd, 'w, unit) fcp" where
  "kill_handle F b h p =
     seqp (try_except (at_host (vm_kill (fe_vm F) h)) (\<lambda>_. ret ())) (\<lambda>_.
     seqp (teardown_netns F b) (\<lambda>_.
     seqp (await_reseed F b) (\<lambda>_.
     seqp (fc_remove F p) (\<lambda>_. cleanup_artifacts F b))))"

text \<open>Signal through a pidfd, checking the identity once more; where pidfds are denied, by pid.\<close>

definition signal_recorded :: "('r, 'v, 'd, 'w) fc_env \<Rightarrow> int \<Rightarrow> int \<times> string \<Rightarrow> ('r, 'v, 'd, 'w, unit) fcp" where
  "signal_recorded F pid current =
     try_except
       (seqp (at_host (faulty (fe_vm F) OpPidfd (ret ()))) (\<lambda>_.
        seqp (process_identity F pid) (\<lambda>now.
          whenp (now = Some current) (at_host (faulty (fe_vm F) OpSignal (modp (signal_pid pid)))))))
       (\<lambda>e. if e = ProcessLookupError then ret ()
            else if e = AttributeError \<or> e = PermissionError then
              try_except (at_host (faulty (fe_vm F) OpSignal (modp (signal_pid pid))))
                (\<lambda>e'. if e' = ProcessLookupError \<or> e' = PermissionError then ret () else raise e')
            else raise e)"

definition kill_recorded :: "('r, 'v, 'd, 'w) fc_env \<Rightarrow> string \<Rightarrow> string \<Rightarrow> int \<times> json \<times> json \<Rightarrow> ('r, 'v, 'd, 'w, unit) fcp" where
  "kill_recorded F b p rec =
     (case rec of (pid, start, exe) \<Rightarrow>
      let known = start \<noteq> JNull \<and> exe \<noteq> JNull in
      seqp (process_identity F pid) (\<lambda>current.
      seqp (pid_is_our_vmm F pid) (\<lambda>ours.
        case current of
          None \<Rightarrow> discard_branch F b p
        | Some (cs, ce) \<Rightarrow>
            if known \<and> (start, exe) \<noteq> (JInt cs, JStr ce) then discard_branch F b p
            else if \<not> known \<and> ours = Some False then discard_branch F b p
            else seqp (signal_recorded F pid (cs, ce)) (\<lambda>_.
                 seqp (teardown_netns F b) (\<lambda>_.
                 seqp (fc_remove F p) (\<lambda>_. cleanup_artifacts F b))))))"

definition kill_unknown :: "('r, 'v, 'd, 'w) fc_env \<Rightarrow> string \<Rightarrow> string \<Rightarrow> ('r, 'v, 'd, 'w, unit) fcp" where
  "kill_unknown F b p s =
     (case seqp (read_text p) (\<lambda>t. of_sum (parse_pid_record (fe_loads F) (py_strip t))) s of
        (Inr rec, s1) \<Rightarrow> kill_recorded F b p rec s1
      | (Inl e, s1) \<Rightarrow>
          if e = FileNotFoundError then seqp (teardown_netns F b) (\<lambda>_. cleanup_artifacts F b) s1
          else if is_key_error e \<or> e = TypeError \<or> is_value_error e then (Inl RuntimeError, s1)
          else (Inl e, s1))"

definition fc_kill :: "('r, 'v, 'd, 'w) fc_env \<Rightarrow> string \<Rightarrow> ('r, 'v, 'd, 'w, unit) fcp" where
  "fc_kill F b =
     seqp (readp (\<lambda>s. dget (fc_vms s) b)) (\<lambda>vm.
     seqp (modp (\<lambda>s. s\<lparr>fc_vms := ddel b (fc_vms s), fc_snapshots := ddel b (fc_snapshots s),
             fc_gen := ddel b (fc_gen s), fc_snap_gen := ddel b (fc_snap_gen s)\<rparr>)) (\<lambda>_.
     seqp (of_sum (pid_path F b)) (\<lambda>p.
       case vm of Some h \<Rightarrow> kill_handle F b h p | None \<Rightarrow> kill_unknown F b p)))"

definition fc_alive :: "('r, 'v, 'd, 'w) fc_env \<Rightarrow> string \<Rightarrow> ('r, 'v, 'd, 'w, bool) fcp" where
  "fc_alive F b =
     seqp (readp (\<lambda>s. dget (fc_vms s) b)) (\<lambda>vm.
       case vm of
         Some h \<Rightarrow> at_host (vm_poll_none h)
       | None \<Rightarrow>
           seqp (read_pid_record F b) (\<lambda>rec.
             case rec of
               None \<Rightarrow> ret False
             | Some (pid, start, exe) \<Rightarrow>
                 seqp (process_identity F pid) (\<lambda>current.
                 seqp (pid_is_our_vmm F pid) (\<lambda>ours.
                   case current of
                     Some (cs, ce) \<Rightarrow> if start \<noteq> JNull \<and> exe \<noteq> JNull then ret ((start, exe) = (JInt cs, JStr ce))
                       else ret (ours = Some True)
                   | None \<Rightarrow> ret (ours = Some True)))))"

fun sweep_loop :: "(string \<times> nat) list \<Rightarrow> ('r, 'v, 'd, 'w, string list) fcp" where
  "sweep_loop [] = ret []"
| "sweep_loop ((b, h) # rest) =
     seqp (at_host (vm_poll_none h)) (\<lambda>alive.
     seqp (sweep_loop rest) (\<lambda>dead. ret (if alive then dead else b # dead)))"

definition fc_sweep_dead :: "('r, 'v, 'd, 'w, string list) fcp" where
  "fc_sweep_dead s = sweep_loop (fc_vms s) s"

section \<open>Construction\<close>

definition fc_params_ok :: "fc_config \<Rightarrow> bool" where
  "fc_params_ok C \<longleftrightarrow> (case fb_overlay_mib C of None \<Rightarrow> True | Some n \<Rightarrow> n > 0) \<and>
     fb_readiness_timeout C > 0 \<and> fb_exec_timeout C > 0"

definition recover_index :: "('r, 'v, 'd, 'w) fc_env \<Rightarrow> string \<Rightarrow> ('r, 'v, 'd, 'w, unit) fcp" where
  "recover_index F name =
     try_except (seqp (read_text (join_path (join_path (fb_work_dir (fe_cfg F)) name) ''netns.idx'')) (\<lambda>t.
         seqp (of_sum (int_of_str (py_strip t))) (\<lambda>i. at_net (net_reserve i))))
       (\<lambda>e. if is_os_error e \<or> is_value_error e then ret () else raise e)"

text \<open>\<open>os.listdir\<close> of the work directory: the directories directly in it.\<close>

definition work_entries :: "('r, 'v, 'd, 'w) fc_env \<Rightarrow> ('r, 'v, 'd) host \<Rightarrow> string list" where
  "work_entries F s = map (basename \<circ> fst)
     (filter (\<lambda>x. fst x = join_path (fb_work_dir (fe_cfg F)) (basename (fst x)) \<and> basename (fst x) \<noteq> []) (ho_files s))"

definition fc_init :: "('r, 'v, 'd, 'w) fc_env \<Rightarrow> 'w \<Rightarrow> ('r, 'v, 'd) host \<Rightarrow> (('r, 'v, 'd, 'w) fc, unit) outcome" where
  "fc_init F w host =
     (let s0 = \<lparr>fc_host = host, fc_net = netns_init w, fc_vms = [], fc_pending = {}, fc_parent_forks = [], fc_snapshots = [],
          fc_gen = [], fc_snap_gen = [], fc_netns_index = [], fc_reseeds = [], fc_reads = 0\<rparr> in
      seqp (raise_if (\<lambda>_. \<not> fc_params_ok (fe_cfg F)) ValueError) (\<lambda>_.
      seqp (fc_write F (fb_work_dir (fe_cfg F)) Directory) (\<lambda>_.
      seqp (readp (\<lambda>s. work_entries F (fc_host s))) (\<lambda>names.
        whenp (fb_network (fe_cfg F) \<noteq> None) (for_each names (recover_index F))))) s0)"

text \<open>The sandbox as the orchestrator sees it; \<open>restarts\<close> says whether its \<open>restart\<close> is used.\<close>

definition firecracker_sandbox :: "('r, 'v, 'd, 'w) fc_env \<Rightarrow> ('r, 'v, 'd, 'w) fc sandbox_backend" where
  "firecracker_sandbox F =
     \<lparr>sb_spawn = fc_spawn F, sb_kill = fc_kill F, sb_alive = fc_alive F,
      sb_wait_ready = Some (\<lambda>b. fc_wait_ready F b None), sb_exec = Some (fc_exec F),
      sb_exec_detached = Some (fc_exec_detached F),
      sb_export = Some (\<lambda>b src dst. seqp (fc_export_artifact F b src dst) (\<lambda>n. ret (JInt n))),
      sb_sweep_dead = Some fc_sweep_dead, sb_restart = Some (fc_restart F)\<rparr>"

end
