(* ===== verification/Firecracker_Laws.thy ===== *)
theory Firecracker_Laws
  imports Firecracker Orchestrator_Methods
begin

text \<open>
  Which VMM processes run and who has a handle on them.  Most steps of \<open>FirecrackerSandbox\<close> leave
  both unchanged; the rest is said by triples over them, up to the contract of a sandbox backend.
\<close>

section \<open>The life of VMMs\<close>

type_synonym life = "nat \<times> (nat \<Rightarrow> (child_state \<times> bool) option)"

definition host_life :: "('r, 'v, 'd) host \<Rightarrow> life" where
  "host_life t = (ho_next t, \<lambda>h. map_option (\<lambda>v. (vm_state v, vm_pidfd v)) (dget (ho_vmms t) h))"

definition fc_life :: "('r, 'v, 'd, 'w) fc \<Rightarrow> (string \<Rightarrow> nat option) \<times> life" where
  "fc_life s = (dget (fc_vms s), host_life (fc_host s))"

abbreviation same_host :: "life \<Rightarrow> (('r, 'v, 'd) host, 'a) proc \<Rightarrow> bool" where
  "same_host L m \<equiv> keeps (\<lambda>t. host_life t = L) m"

abbreviation same_life :: "(string \<Rightarrow> nat option) \<times> life \<Rightarrow> ('r, 'v, 'd, 'w, 'a) fcp \<Rightarrow> bool" where
  "same_life L m \<equiv> keeps (\<lambda>s. fc_life s = L) m"

named_theorems life

lemma keeps_prod [keeps]: "(\<And>a b. x = (a, b) \<Longrightarrow> keeps P (f a b)) \<Longrightarrow> keeps P (case x of (a, b) \<Rightarrow> f a b)"
  by (simp split: prod.split)

lemma host_life_frame [simp]:
  "host_life (t\<lparr>ho_files := x\<rparr>) = host_life t" "host_life (t\<lparr>ho_calls := n\<rparr>) = host_life t"
  "host_life (t\<lparr>ho_api := a\<rparr>) = host_life t" "host_life (t\<lparr>ho_other := o'\<rparr>) = host_life t"
  "host_life (t\<lparr>ho_stuck := b\<rparr>) = host_life t"
  by (simp_all add: host_life_def)

lemma fc_life_frame [simp]:
  "fc_life (s\<lparr>fc_net := n\<rparr>) = fc_life s" "fc_life (s\<lparr>fc_pending := p\<rparr>) = fc_life s"
  "fc_life (s\<lparr>fc_parent_forks := f\<rparr>) = fc_life s" "fc_life (s\<lparr>fc_snapshots := sn\<rparr>) = fc_life s"
  "fc_life (s\<lparr>fc_gen := g\<rparr>) = fc_life s" "fc_life (s\<lparr>fc_snap_gen := sg\<rparr>) = fc_life s"
  "fc_life (s\<lparr>fc_netns_index := i\<rparr>) = fc_life s" "fc_life (s\<lparr>fc_reseeds := rs\<rparr>) = fc_life s"
  "fc_life (s\<lparr>fc_reads := k\<rparr>) = fc_life s"
  by (simp_all add: fc_life_def)

lemma fc_life_host: "fc_life (s\<lparr>fc_host := t\<rparr>) = (fst (fc_life s), host_life t)"
  by (simp add: fc_life_def)

lemma on_vmm_life:
  "(\<And>v. (vm_state (f v), vm_pidfd (f v)) = (vm_state v, vm_pidfd v)) \<Longrightarrow> host_life (on_vmm h f t) = host_life t"
  by (auto simp: on_vmm_def host_life_def fun_eq_iff split: option.split)

lemma faulty_triple:
  "triple P m Q R \<Longrightarrow> (\<And>t n. P t \<Longrightarrow> P (t\<lparr>ho_calls := n\<rparr>)) \<Longrightarrow> (\<And>t. P t \<Longrightarrow> R t) \<Longrightarrow> triple P (faulty E k m) Q R"
  by (rule tripleI) (auto simp: faulty_def Let_def split: option.splits dest: tripleD)

lemma faulty_same [life]: "same_host L m \<Longrightarrow> same_host L (faulty E k m)"
  by (rule faulty_triple) auto

lemma at_host_triple:
  assumes "triple (\<lambda>t. host_life t = L) m (\<lambda>x t. Q x (host_life t)) (\<lambda>t. R (host_life t))"
  shows "triple (\<lambda>s. fc_life s = (V, L)) (at_host m) (\<lambda>x s. fst (fc_life s) = V \<and> Q x (snd (fc_life s)))
    (\<lambda>s. fst (fc_life s) = V \<and> R (snd (fc_life s)))"
  by (rule tripleI) (auto simp: at_host_def fc_life_def split: prod.splits intro: tripleD [OF assms])

lemma at_host_same [life]: "(\<And>M. L = (fst L, M) \<Longrightarrow> same_host M m) \<Longrightarrow> same_life L (at_host m)"
  by (cases L) (auto simp: keeps_iff at_host_def fc_life_def split: prod.splits)

lemma at_net_same [life]: "same_life L (at_net m)"
  by (auto simp: keeps_iff at_net_def split: prod.splits)

lemma pure_same [life]: "same_life L (of_sum r)" "same_life L (read_text p)" "same_life L (read_monotonic F)"
  by (auto simp: keeps_iff of_sum_def read_text_def read_monotonic_def split: option.split hostfile.split)

lemma files_same [life]:
  "same_host M (write_file E p c)" "same_host M (copy_file E src dst)" "same_host M (link_or_copy E src dst)"
proof -
  show w: "same_host M (write_file E p c)" for p c
    unfolding write_file_def by (intro life keeps) simp
  show c: "same_host M (copy_file E src dst)" for src dst
    unfolding copy_file_def keeps_iff using keeps_snd [OF w] by (auto split: option.split)
  show "same_host M (link_or_copy E src dst)"
    unfolding link_or_copy_def by (intro keeps c)
qed


lemma drop_value_same [life]: "same_life L m \<Longrightarrow> same_life L (drop_value m)"
  unfolding drop_value_def by (intro keeps)

lemma ignore_missing_same [life]: "same_life L m \<Longrightarrow> same_life L (ignore_missing m)"
  unfolding ignore_missing_def by (intro keeps)

lemma paths_same [life]:
  "same_life L (fc_vm_dir F b)" "same_life L (fc_host_dir F b)" "same_life L (netns_idx_path F b)"
proof -
  show d: "same_life L (fc_vm_dir F b)" unfolding fc_vm_dir_def by (intro keeps life)
  show "same_life L (fc_host_dir F b)"
    unfolding fc_host_dir_def Let_def by (cases "fb_jailer (fe_cfg F)") (auto intro!: keeps_seqp keeps_simple life d)
  show "same_life L (netns_idx_path F b)" unfolding netns_idx_path_def by (intro keeps d)
qed

lemma chown_same [life]: "same_life L (chown_into_jail F p)"
  unfolding chown_into_jail_def by (intro keeps life)

lemma copy_overlay_same [life]: "same_life L (copy_overlay F p q)"
  unfolding copy_overlay_def by (intro life)

lemma remove_same [life]: "same_life L (fc_remove F p)"
  unfolding fc_remove_def by (intro keeps life) simp

lemma rmtree_same [life]: "same_life L (rmtree F p)"
  unfolding rmtree_def by (intro keeps life) simp

lemma create_overlay_same [life]: "same_life L (create_overlay F p)"
  unfolding create_overlay_def by (intro keeps life)

lemma link_into_same [life]: "same_life L (link_into F src d n)"
  unfolding link_into_def Let_def by (intro keeps life)

lemma cleanup_same [life]: "same_life L (cleanup_artifacts F b)"
  unfolding cleanup_artifacts_def by (intro keeps life)

lemma identity_same [life]: "same_life L (process_identity F pid)" "same_life L (pid_is_our_vmm F pid)"
  by (simp_all add: process_identity_def pid_is_our_vmm_def keeps)

lemma write_pid_record_same [life]: "same_life L (write_pid_record F b h)"
  unfolding write_pid_record_def Let_def by (intro keeps life) simp

lemma read_pid_record_same [life]: "same_life L (read_pid_record F b)"
  unfolding read_pid_record_def by (intro keeps life)

lemma guest_call_same [life]: "same_host M (guest_call F run hdir argv tmo inp)"
  unfolding guest_call_def
  by (intro life, auto simp: keeps_iff set_overlay_def on_vmm_life split: option.splits prod.splits)

lemma exec_live_same [life]: "same_life L (exec_live F run b argv tmo inp)"
  unfolding exec_live_def by (intro keeps life)

lemma need_vm_same [life]: "same_life L (need_vm b)"
  unfolding need_vm_def by (intro keeps)

lemma bump_gen_same [life]: "same_life L (bump_gen b)"
  unfolding bump_gen_def by (intro keeps) simp

lemma exec_branch_same [life]: "same_life L (exec_branch F run b argv tmo inp)"
  unfolding exec_branch_def by (intro keeps life)

lemma fc_exec_same [life]: "same_life L (fc_exec F b argv tmo inp)" "same_life L (fc_exec_detached F b argv)"
  unfolding fc_exec_def fc_exec_detached_def by ((intro keeps life)[1])+

lemma ready_loop_same: "same_life L (ready_loop F deadline b n)"
proof (induction n)
  case (Suc n)
  show ?case unfolding ready_loop.simps by (intro keeps life Suc)
qed (simp add: keeps)

lemma wait_ready_same [life]: "same_life L (fc_wait_ready F b tmo)"
  unfolding fc_wait_ready_def Let_def by (intro keeps life ready_loop_same)

lemma setup_netns_same [life]: "same_life L (setup_netns F b)"
proof (cases "fb_network (fe_cfg F)")
  case (Some cfg)
  have "same_life L (case x of (name, index) \<Rightarrow> f name index)" if "\<And>n i. same_life L (f n i)"
    for x :: "string \<times> int" and f :: "string \<Rightarrow> int \<Rightarrow> ('a, 'b, 'c, 'd, 'e) fcp" using that by (simp split: prod.split)
  then show ?thesis unfolding setup_netns_def Some option.case by (intro keeps_seqp) (auto intro!: keeps_seqp keeps_simple keeps_modp life)
qed (simp add: setup_netns_def keeps)

lemma recovered_index_same [life]: "same_life L (recovered_index F b)"
  unfolding recovered_index_def by (intro keeps life)

lemma teardown_netns_same [life]: "same_life L (teardown_netns F b)"
  unfolding teardown_netns_def by (intro keeps life) simp

lemma start_reseed_same [life]: "same_life L (start_reseed F b)"
  unfolding start_reseed_def by (intro keeps) simp

lemma reseed_same [life]: "same_life L (reseed_identity F b)"
  unfolding reseed_identity_def by (intro keeps life) simp

lemma await_reseed_same [life]: "same_life L (await_reseed F b)"
  unfolding await_reseed_def by (intro keeps life)

section \<open>Requests\<close>

lemma vm_request_same:
  "(\<And>v. same_host M (f v)) \<Longrightarrow> same_host M (vm_request E h meth path body f)"
  unfolding vm_request_def
  by (intro life) (auto simp: keeps_iff split: option.split)


lemma on_vmm_same:
  "(\<And>v. (vm_state (f v), vm_pidfd (f v)) = (vm_state v, vm_pidfd v)) \<Longrightarrow> same_host M (modp (on_vmm h f))"
  by (intro keeps) (simp add: on_vmm_life)

lemma pause_same [life]: "same_host M (vm_pause E h)" "same_host M (vm_resume E h)"
  unfolding vm_pause_def vm_resume_def by (rule vm_request_same, rule on_vmm_same, simp)+

lemma vm_path_same [life]: "same_host M (vm_path E h p)"
  by (auto simp: keeps_iff vm_path_def Let_def split: option.split)

lemma shared_input_same [life]: "same_host M (shared_input E h p n)"
proof -
  have "same_host M (seqp (link_or_copy E p q) (\<lambda>_. ret n))" for q by (intro keeps life)
  then show ?thesis
    by (auto simp: keeps_iff shared_input_def Let_def split: option.split)
qed

lemma vm_snapshot_same [life]: "same_host M (vm_snapshot E h mem state)"
  unfolding vm_snapshot_def by (intro keeps life vm_request_same) simp

lemma vm_restore_same [life]: "same_host M (vm_restore E h mem state)"
  unfolding vm_restore_def
  by (intro keeps life vm_request_same) (auto simp: keeps_iff on_vmm_life split: option.split hostfile.split)

lemma put_same [life]: "same_host M (put E h path fs)"
  unfolding put_def by (intro vm_request_same) (simp add: no_effect_def keeps)

lemma vm_boot_same [life]: "same_host M (vm_boot E h k r ov vs tap)"
  unfolding vm_boot_def by (intro keeps life vm_request_same on_vmm_same) simp

lemma while_paused_same [life]:
  fixes F :: "('r, 'v, 'd, 'w) fc_env"
  assumes "same_life L body"
  shows "same_life L (while_paused F h body)"
proof -
  have "same_life L (\<lambda>s :: ('r, 'v, 'd, 'w) fc. case body s of (Inl e, s1) \<Rightarrow> (Inl e, snd (at_host (vm_resume (fe_vm F) h) s1))
      | (Inr u, s1) \<Rightarrow> at_host (vm_resume (fe_vm F) h) s1)"
  proof (rule keepsI)
    fix s :: "('r, 'v, 'd, 'w) fc" assume "fc_life s = L"
    then have "fc_life (snd (body s)) = L" using keeps_snd [OF assms] by blast
    moreover have "fc_life (snd (at_host (vm_resume (fe_vm F) h) s1)) = L" if "fc_life s1 = L" for s1 :: "('r, 'v, 'd, 'w) fc"
      using keeps_snd [OF at_host_same [OF pause_same(2)] that] .
    ultimately show "fc_life (snd (case body s of (Inl e, s1) \<Rightarrow> (Inl e, snd (at_host (vm_resume (fe_vm F) h) s1))
      | (Inr u, s1) \<Rightarrow> at_host (vm_resume (fe_vm F) h) s1)) = L"
      by (auto split: prod.split sum.split)
  qed
  then show ?thesis unfolding while_paused_def by (intro keeps life)
qed

lemma sync_same [life]: "same_life L (sync_guest F b)"
  unfolding sync_guest_def by (intro keeps life)

lemma take_snapshot_same [life]: "same_life L (take_snapshot F b h mem state gen)"
  unfolding take_snapshot_def by (intro keeps life) simp

lemma overlay_for_child_same [life]: "same_life L (overlay_for_child F p c)"
  unfolding overlay_for_child_def by (intro keeps life)

lemma fork_source_same [life]: "same_life L (fork_source F parent child_dir)"
  unfolding fork_source_def Let_def by (intro keeps life)

text \<open>The methods that only look, or only move files.\<close>

lemma poll_life: "snd (host_life (snd (vm_poll_none h t))) h' =
    (if h' = h then map_option (\<lambda>(st, p). (if st = Running then Running else Reaped, p)) (snd (host_life t) h') else snd (host_life t) h')"
  "fst (host_life (snd (vm_poll_none h t))) = fst (host_life t)"
  by (auto simp: vm_poll_none_def vmm_running_def on_vmm_def host_life_def split: option.split)

lemma checkpoint_same [life]: "same_life L (checkpoint F b)"
  unfolding checkpoint_def by (intro keeps life)

lemma restore_paths_same [life]: "same_life L (restore_paths F b)"
  unfolding restore_paths_def Let_def by (intro keeps life)

lemma export_artifact_same [life]: "same_life L (fc_export_artifact F b p q)"
  unfolding fc_export_artifact_def by (intro keeps life)

lemma bundles_same [life]: "same_life L (export_bundle F b d)" "same_life L (import_bundle F b d)"
  unfolding export_bundle_def import_bundle_def by ((intro keeps life, simp?)[1])+


section \<open>Starting and ending a VMM\<close>

text \<open>Only processes that do not run any more were added.\<close>

definition only_dead_added :: "life \<Rightarrow> life \<Rightarrow> bool" where
  "only_dead_added L M \<longleftrightarrow> fst L \<le> fst M \<and> (\<forall>h < fst L. snd M h = snd L h) \<and>
     (\<forall>h \<ge> fst L. \<forall>st p. snd M h = Some (st, p) \<longrightarrow> st \<noteq> Running \<and> h < fst M)"

abbreviation bounded :: "life \<Rightarrow> bool" where
  "bounded L \<equiv> (\<forall>h \<ge> fst L. snd L h = None)"

lemma only_dead_refl: "bounded L \<Longrightarrow> only_dead_added L L"
  by (simp add: only_dead_added_def)

lemma on_vmm_host_life:
  "(\<And>v. (vm_state (f v), vm_pidfd (f v)) = g (vm_state v, vm_pidfd v)) \<Longrightarrow>
   host_life (on_vmm h f t) = (fst (host_life t), \<lambda>k. if k = h then map_option g (snd (host_life t) k) else snd (host_life t) k)"
  by (auto simp: on_vmm_def host_life_def fun_eq_iff option.map_comp comp_def split: option.split)

lemmas end_defs = vm_poll_none_def vm_sigkill_def vm_reap_def vm_waitid_def vm_close_pidfd_def vmm_running_def on_vmm_def

lemma force_cleanup_life:
  "triple (\<lambda>t. host_life t = L) (force_cleanup h)
     (\<lambda>_ t. host_life t = (fst L, \<lambda>k. if k = h then map_option (\<lambda>_. (Reaped, False)) (snd L k) else snd L k)) (\<lambda>_. False)"
  by (rule tripleI)
    (auto simp: force_cleanup_def end_defs proc_defs host_life_def fun_eq_iff split: if_splits option.splits)

text \<open>It does not wait for a process that runs.\<close>

lemma force_cleanup_returns: "ho_stuck (snd (force_cleanup h t)) = ho_stuck t"
  by (auto simp: force_cleanup_def end_defs proc_defs split: option.split)

lemma vm_popen_life:
  "triple (\<lambda>t. host_life t = L) (vm_popen E d hdir j argv)
     (\<lambda>h t. h = fst L \<and> host_life t = (Suc (fst L), (snd L)(fst L \<mapsto> (Running, False)))) (\<lambda>t. host_life t = L)"
  unfolding vm_popen_def
  by (rule faulty_triple) (auto simp: triple_def host_life_def fun_eq_iff)

lemma microvm_life:
  fixes E :: "('r, 'v, 'd) vm_env"
  assumes "bounded L"
  shows "triple (\<lambda>t. host_life t = L) (microvm E fc_bin d jailer ns)
     (\<lambda>h t. h = fst L \<and> host_life t = (Suc (fst L), (snd L)(fst L \<mapsto> (Running, True)))) (\<lambda>t. only_dead_added L (host_life t))"
proof -
  let ?up = "\<lambda>p. (Suc (fst L), (snd L)(fst L \<mapsto> (Running, p)))"
  let ?dead = "\<lambda>t. only_dead_added L (host_life t)"
  have base: "only_dead_added L L" by (rule only_dead_refl [OF assms])
  have weak: "triple (\<lambda>t. host_life t = L) m (\<lambda>_ t. host_life t = L) ?dead" if "same_host L m" for m :: "(('r, 'v, 'd) host, unit) proc"
    using that by (rule triple_conseq) (simp_all add: base)
  have popen: "triple (\<lambda>t. host_life t = L) (vm_popen E d hdir j argv) (\<lambda>h t. h = fst L \<and> host_life t = ?up False) ?dead" for hdir j argv
    by (rule triple_conseq [OF vm_popen_life [of L]]) (simp_all add: base)
  have fd: "triple (\<lambda>t. host_life t = ?up False) (faulty E OpPidfd (modp (on_vmm (fst L) (\<lambda>v. v\<lparr>vm_pidfd := True\<rparr>))))
      (\<lambda>_ t. host_life t = ?up True) (\<lambda>t. \<exists>p. host_life t = ?up p)"
    by (rule faulty_triple)
      (auto simp: triple_def modp_def on_vmm_host_life [where g = "\<lambda>(st, p). (st, True)"] fun_eq_iff)
  have sock: "triple (\<lambda>t. host_life t = ?up True) (faulty E OpSocket (ret ())) (\<lambda>_ t. host_life t = ?up True) (\<lambda>t. \<exists>p. host_life t = ?up p)"
    by (rule faulty_triple) (auto simp: triple_def ret_def)
  have clean: "triple (\<lambda>t. \<exists>p. host_life t = ?up p) (reraise (force_cleanup (fst L)) e) Q ?dead" for e and Q :: "unit \<Rightarrow> ('r, 'v, 'd) host \<Rightarrow> bool"
  proof (rule triple_reraise, rule tripleI)
    fix t u t' assume p: "\<exists>p. host_life t = ?up p" and c: "force_cleanup (fst L) t = (Inr u, t')"
    have "host_life t' = (fst (host_life t),
        \<lambda>k. if k = fst L then map_option (\<lambda>_. (Reaped, False)) (snd (host_life t) k) else snd (host_life t) k)"
      by (rule tripleD(2) [OF force_cleanup_life refl c])
    with p assms show "?dead t'" by (auto simp: only_dead_added_def split: if_splits)
  next
    fix t e' t' assume "\<exists>p. host_life t = ?up p" "force_cleanup (fst L) t = (Inl e', t')"
    then show "?dead t'" using tripleD(1) [OF force_cleanup_life refl] by blast
  qed
  have tail: "triple (\<lambda>t. h = fst L \<and> host_life t = ?up False)
      (seqp (try_except (seqp (faulty E OpPidfd (modp (on_vmm h (\<lambda>v. v\<lparr>vm_pidfd := True\<rparr>)))) (\<lambda>_. faulty E OpSocket (ret ())))
        (reraise (force_cleanup h))) (\<lambda>_. ret h))
      (\<lambda>h t. h = fst L \<and> host_life t = ?up True) ?dead" for h
  proof (cases "h = fst L")
    case True
    have "triple (\<lambda>t. host_life t = ?up False)
        (try_except (seqp (faulty E OpPidfd (modp (on_vmm (fst L) (\<lambda>v. v\<lparr>vm_pidfd := True\<rparr>)))) (\<lambda>_. faulty E OpSocket (ret ())))
          (reraise (force_cleanup (fst L)))) (\<lambda>_ t. host_life t = ?up True) ?dead"
      by (rule triple_try_except [OF triple_seqp [OF fd sock] clean])
    moreover have "triple (\<lambda>t :: ('r, 'v, 'd) host. host_life t = ?up True) (ret h) (\<lambda>h t. h = fst L \<and> host_life t = ?up True) ?dead"
      using True by (simp add: triple_def ret_def)
    ultimately show ?thesis using triple_seqp True by fastforce
  qed (simp add: triple_def)
  show ?thesis
    unfolding microvm_def Let_def
    by (intro triple_seqp [OF weak] triple_seqp [OF popen] tail keeps_whenp life)
qed


text \<open>Ending a VMM through its handle: whatever the outcome, a process with an open pidfd is reaped.\<close>

definition ended :: "nat \<Rightarrow> life \<Rightarrow> life" where
  "ended h L = (fst L, \<lambda>k. if k = h then map_option (\<lambda>(st, p). if p then (Reaped, False) else (st, p)) (snd L k) else snd L k)"

text \<open>The \<open>finally\<close> part alone sees to that, and after a signal that got through no wait hangs.\<close>

lemma vm_kill_finally_life:
  "host_life (snd (vm_kill_finally h t)) =
     (fst (host_life t), \<lambda>k. if k = h then map_option (\<lambda>_. (Reaped, False)) (snd (host_life t) k) else snd (host_life t) k)"
  "ho_stuck (snd (vm_kill_finally h t)) = ho_stuck t" "\<exists>t'. vm_kill_finally h t = (Inr (), t')"
  by (auto simp: vm_kill_finally_def end_defs proc_defs host_life_def fun_eq_iff split: option.split)

definition differs_at :: "nat \<Rightarrow> ('r, 'v, 'd) host \<Rightarrow> ('r, 'v, 'd) host \<Rightarrow> bool" where
  "differs_at h t t' \<longleftrightarrow> ho_next t' = ho_next t \<and> ho_stuck t' = ho_stuck t \<and>
     (\<forall>k. k \<noteq> h \<longrightarrow> dget (ho_vmms t') k = dget (ho_vmms t) k) \<and> (dget (ho_vmms t') h = None) = (dget (ho_vmms t) h = None)"

lemma vm_signal_effect:
  "vm_signal E h t = (r, t') \<Longrightarrow> differs_at h t t' \<and> ((\<exists>e. r = Inl e) \<or> \<not> vmm_running t' h)"
  by (auto simp: vm_signal_def ignoring_def faulty_def no_spurious_lookup_def differs_at_def end_defs proc_defs Let_def
      split: option.splits if_splits)

lemma waits_effect:
  assumes "\<not> vmm_running t h"
  shows "differs_at h t (snd (seqp (ignoring ChildProcessError (vm_waitid h)) (\<lambda>_. vm_reap h) t))"
  using assms by (auto simp: ignoring_def differs_at_def end_defs proc_defs split: option.splits if_splits)

lemma differs_at_trans: "differs_at h t t1 \<Longrightarrow> differs_at h t1 t2 \<Longrightarrow> differs_at h t t2"
  by (auto simp: differs_at_def)

lemma vm_kill_body_effect:
  "differs_at h t (snd (seqp (vm_signal E h) (\<lambda>_. seqp (ignoring ChildProcessError (vm_waitid h)) (\<lambda>_. vm_reap h)) t))"
proof -
  obtain r t1 where s: "vm_signal E h t = (r, t1)" by fastforce
  note e = vm_signal_effect [OF s]
  show ?thesis
  proof (cases r)
    case (Inr u)
    then have "\<not> vmm_running t1 h" using e by simp
    from differs_at_trans [OF conjunct1 [OF e] waits_effect [OF this]] show ?thesis
      using s Inr by (simp add: seqp_def [of "vm_signal E h"])
  qed (use s e in \<open>simp add: seqp_def [of "vm_signal E h"]\<close>)
qed

lemma differs_at_life:
  assumes "differs_at h t t'"
  shows "fst (host_life t') = fst (host_life t)" "k \<noteq> h \<Longrightarrow> snd (host_life t') k = snd (host_life t) k"
    "(snd (host_life t') h = None) = (snd (host_life t) h = None)"
  using assms by (auto simp: differs_at_def host_life_def)

lemma vm_kill_life:
  "host_life (snd (vm_kill E h t)) = ended h (host_life t)" "ho_stuck (snd (vm_kill E h t)) = ho_stuck t"
proof -
  let ?body = "seqp (vm_signal E h) (\<lambda>_. seqp (ignoring ChildProcessError (vm_waitid h)) (\<lambda>_. vm_reap h))"
  have open': "snd (vm_kill E h t) = snd (vm_kill_finally h (snd (?body t)))"
    if "dget (ho_vmms t) h = Some v" "vm_pidfd v" for v
    using that vm_kill_finally_life(3) [of h "snd (?body t)"]
    by (auto simp: vm_kill_def seqp_def [of "raise_if _ _"] raise_if_def try_finally_def ret_def split: prod.splits)
  have shut: "snd (vm_kill E h t) = t" if "\<And>v. dget (ho_vmms t) h = Some v \<Longrightarrow> \<not> vm_pidfd v"
    using that by (auto simp: vm_kill_def proc_defs split: option.split)
  note d = vm_kill_body_effect [of h t E]
  show "host_life (snd (vm_kill E h t)) = ended h (host_life t)"
  proof (cases "\<exists>v. dget (ho_vmms t) h = Some v \<and> vm_pidfd v")
    case True
    then obtain v where v: "dget (ho_vmms t) h = Some v" "vm_pidfd v" by blast
    then have "snd (host_life t) h = Some (vm_state v, True)" by (simp add: host_life_def)
    with differs_at_life [OF d] show ?thesis
      unfolding open' [OF v] vm_kill_finally_life(1) ended_def by (auto simp: fun_eq_iff)
  next
    case False
    then show ?thesis by (subst shut) (auto simp: ended_def host_life_def fun_eq_iff option.map_comp comp_def intro!: option.map_cong)
  qed
  show "ho_stuck (snd (vm_kill E h t)) = ho_stuck t"
    using d shut open' vm_kill_finally_life(2) [of h "snd (?body t)"] unfolding differs_at_def by (metis (no_types, lifting))
qed

lemma catch_kill_life:
  "triple (\<lambda>s. fc_life s = (V, M)) (try_except (at_host (vm_kill E h)) (\<lambda>_. ret ())) (\<lambda>_ s. fc_life s = (V, ended h M)) (\<lambda>_. False)"
proof (rule tripleI)
  fix s :: "('a, 'b, 'c, 'd) fc" and x s'
  assume L: "fc_life s = (V, M)" and k: "try_except (at_host (vm_kill E h)) (\<lambda>_. ret ()) s = (Inr x, s')"
  have "s' = s\<lparr>fc_host := snd (vm_kill E h (fc_host s))\<rparr>"
    using k by (auto simp: try_except_def ret_def at_host_def split: prod.splits sum.splits)
  then show "fc_life s' = (V, ended h M)" using L vm_kill_life(1) [of E h "fc_host s"] by (simp add: fc_life_def)
qed (auto simp: try_except_def ret_def split: prod.splits sum.splits)

section \<open>Spawning\<close>

lemma same_weaken: "same_life L m \<Longrightarrow> (\<And>s. fc_life s = L \<Longrightarrow> R s) \<Longrightarrow> triple (\<lambda>s. fc_life s = L) m (\<lambda>_ s. fc_life s = L) R"
  by (rule triple_conseq)

lemma new_vm_life:
  assumes "bounded M"
  shows "triple (\<lambda>s. fc_life s = (V, M)) (new_vm F d ns)
     (\<lambda>h s. h = fst M \<and> fc_life s = (V, Suc (fst M), (snd M)(fst M \<mapsto> (Running, True))))
     (\<lambda>s. fst (fc_life s) = V \<and> only_dead_added M (snd (fc_life s)))"
proof -
  have "triple (\<lambda>s. fc_life s = (V, M)) (new_vm F d ns)
      (\<lambda>h s. fst (fc_life s) = V \<and> h = fst M \<and> snd (fc_life s) = (Suc (fst M), (snd M)(fst M \<mapsto> (Running, True))))
      (\<lambda>s. fst (fc_life s) = V \<and> only_dead_added M (snd (fc_life s)))"
    unfolding new_vm_def by (rule at_host_triple [OF microvm_life [OF assms]])
  then show ?thesis by (rule triple_conseq) (auto simp: prod_eq_iff)
qed

lemma spawn_vm_life:
  assumes "bounded M"
  shows "triple (\<lambda>s. fc_life s = (V, M)) (spawn_vm F b parent)
     (\<lambda>x s. fst x = fst M \<and> fc_life s = (V, Suc (fst M), (snd M)(fst M \<mapsto> (Running, True))))
     (\<lambda>s. fst (fc_life s) = V \<and> only_dead_added M (snd (fc_life s)))"
proof -
  let ?P = "\<lambda>s :: ('a, 'b, 'c, 'd) fc. fc_life s = (V, M)"
  let ?Q = "\<lambda>h (s :: ('a, 'b, 'c, 'd) fc). h = fst M \<and> fc_life s = (V, Suc (fst M), (snd M)(fst M \<mapsto> (Running, True)))"
  let ?R = "\<lambda>s :: ('a, 'b, 'c, 'd) fc. fst (fc_life s) = V \<and> only_dead_added M (snd (fc_life s))"
  have weak: "?P s \<Longrightarrow> ?R s" for s by (simp add: only_dead_refl [OF assms])
  note same = same_weaken [OF _ weak]
  have new: "triple ?P (new_vm F d ns) ?Q ?R" for d ns by (rule new_vm_life [OF assms])
  have root: "triple ?P (spawn_root F b d ns) ?Q ?R" for d ns
    unfolding spawn_root_def Let_def by (intro triple_seqp [OF same] new keeps life)
  have child: "triple ?P (spawn_child F b p d ns) (\<lambda>x. ?Q (fst x)) ?R" for p d ns
  proof -
    have tail: "triple ?P (seqp (new_vm F d ns) (\<lambda>h. ret (h, m, st))) (\<lambda>x. ?Q (fst x)) ?R" for m st
      by (rule triple_seqp [OF new]) (simp add: triple_def ret_def)
    have "triple ?P (case x of (m, st) \<Rightarrow> seqp (new_vm F d ns) (\<lambda>h. ret (h, m, st))) (\<lambda>x. ?Q (fst x)) ?R" for x
      by (cases x) (simp add: tail)
    note last = this
    have "triple ?P (case x of (mem, state) \<Rightarrow>
        seqp (if fb_jailer (fe_cfg F) = None then ret (mem, state)
           else seqp (link_into F mem child_host ''pmem'') (\<lambda>m.
                seqp (link_into F state child_host ''pstate'') (\<lambda>st.
                seqp (link_into F (abspath (ve_cwd (fe_vm F)) (fb_rootfs (fe_cfg F))) child_host ''rootfs.img'') (\<lambda>_.
                  ret (m, st))))) (\<lambda>(m, st). seqp (new_vm F d ns) (\<lambda>h. ret (h, m, st)))) (\<lambda>x. ?Q (fst x)) ?R" for x child_host
      by (cases x, simp only: prod.case, rule triple_seqp [OF same last]) (intro keeps life)
    then show ?thesis unfolding spawn_child_def by (intro triple_seqp [OF same] life)
  qed
  have "triple ?P (case parent of None \<Rightarrow> seqp (spawn_root F b d ns) (\<lambda>h. ret (h, None))
       | Some p \<Rightarrow> seqp (spawn_child F b p d ns) (\<lambda>(h, src). ret (h, Some src))) (\<lambda>y. ?Q (fst y)) ?R" for d ns
  proof (cases parent)
    case None
    have "triple (?Q h) (ret (h, None)) (\<lambda>y. ?Q (fst y)) ?R" for h by (simp add: triple_def ret_def)
    then show ?thesis unfolding None option.case by (rule triple_seqp [OF root])
  next
    case (Some p)
    have "triple (\<lambda>s. ?Q (fst x) s) (case x of (h, src) \<Rightarrow> ret (h, Some src)) (\<lambda>y. ?Q (fst y)) ?R" for x :: "nat \<times> string \<times> string"
      by (cases x) (simp add: triple_def ret_def)
    then show ?thesis unfolding Some option.case by (rule triple_seqp [OF child])
  qed
  then show ?thesis unfolding spawn_vm_def by (intro triple_seqp [OF same] life)
qed


lemma spawn_failed_life:
  "triple (\<lambda>s. fc_life s = (V, M)) (spawn_failed F b None) (\<lambda>_ s. fc_life s = (V, M)) (\<lambda>s. fc_life s = (V, M))"
  "triple (\<lambda>s. fc_life s = (V, M)) (spawn_failed F b (Some h)) (\<lambda>_ s. fc_life s = (V(b := None), ended h M)) (\<lambda>s. fc_life s = (V(b := None), ended h M))"
proof -
  show "triple (\<lambda>s. fc_life s = (V, M)) (spawn_failed F b None) (\<lambda>_ s. fc_life s = (V, M)) (\<lambda>s. fc_life s = (V, M))"
    unfolding spawn_failed_def option.case by (intro keeps life)
  have pop: "triple (\<lambda>s. fc_life s = (V, M)) (modp (\<lambda>s. s\<lparr>fc_vms := ddel b (fc_vms s)\<rparr>))
      (\<lambda>_ s. fc_life s = (V(b := None), M)) (\<lambda>s. fc_life s = (V(b := None), ended h M))"
    by (rule triple_modp) (auto simp: fc_life_def fun_eq_iff)
  have kill: "triple (\<lambda>s. fc_life s = (V(b := None), M)) (try_except (at_host (vm_kill (fe_vm F) h)) (\<lambda>_. ret ()))
      (\<lambda>_ s. fc_life s = (V(b := None), ended h M)) (\<lambda>s. fc_life s = (V(b := None), ended h M))"
    by (rule triple_conseq [OF catch_kill_life [of "V(b := None)" M]]) simp_all
  show "triple (\<lambda>s. fc_life s = (V, M)) (spawn_failed F b (Some h)) (\<lambda>_ s. fc_life s = (V(b := None), ended h M)) (\<lambda>s. fc_life s = (V(b := None), ended h M))"
    unfolding spawn_failed_def option.case
    by (rule triple_seqp [OF triple_seqp [OF pop kill]]) (intro keeps life)
qed

lemma start_vm_life:
  "triple (\<lambda>s. fc_life s = (V, M)) (start_vm F b parent h src) (\<lambda>_ s. fc_life s = (V(b \<mapsto> h), M)) (\<lambda>s. fc_life s = (V, M))"
proof -
  have "same_life (V, M) (at_host (case src of
         None \<Rightarrow> vm_boot (fe_vm F) h (fb_kernel (fe_cfg F)) (fb_rootfs (fe_cfg F))
             (if fb_overlay_mib (fe_cfg F) \<noteq> None then Some OVERLAY else None) (if fb_vsock (fe_cfg F) then Some VSOCK else None)
             (if fb_network (fe_cfg F) \<noteq> None then Some TAP_DEV else None)
       | Some (mem, state) \<Rightarrow> vm_restore (fe_vm F) h mem state))"
    by (intro life keeps)
  note boot = this
  have last: "triple (\<lambda>s. fc_life s = (V, M)) (seqp (modp (\<lambda>s. s\<lparr>fc_vms := dset b h (fc_vms s)\<rparr>)) (\<lambda>_. whenp (parent \<noteq> None) (start_reseed F b)))
      (\<lambda>_ s. fc_life s = (V(b \<mapsto> h), M)) (\<lambda>s. fc_life s = (V, M))"
    by (rule tripleI) (auto simp: proc_defs start_reseed_def fc_life_def fun_eq_iff split: if_splits)
  show ?thesis
    unfolding start_vm_def
    by (rule triple_seqp [OF boot], rule triple_seqp [OF write_pid_record_same last])
qed

lemma spawn_begin_life: "same_life L (fc_spawn_begin b parent)" "same_life L (fc_spawn_end b parent)"
  unfolding fc_spawn_begin_def fc_spawn_end_def by ((intro keeps, simp)[1])+

text \<open>
  A spawn of a branch without a handle: it returns with one new VMM that runs and a handle on it, or raises,
  and then the handles are as before and no VMM was added that runs.
\<close>

lemma fc_spawn_life:
  assumes "bounded M" "V b = None"
  shows "triple (\<lambda>s. fc_life s = (V, M)) (fc_spawn F b parent)
     (\<lambda>_ s. fc_life s = (V(b \<mapsto> fst M), Suc (fst M), (snd M)(fst M \<mapsto> (Running, True))))
     (\<lambda>s. fst (fc_life s) = V \<and> only_dead_added M (snd (fc_life s)))"
proof -
  let ?U = "(Suc (fst M), (snd M)(fst M \<mapsto> (Running, True)))"
  let ?R = "\<lambda>s :: ('a, 'b, 'c, 'd) fc. fst (fc_life s) = V \<and> only_dead_added M (snd (fc_life s))"
  have dead: "only_dead_added M (ended (fst M) ?U)" using assms(1) by (auto simp: only_dead_added_def ended_def split: if_splits)
  have V: "V(b := None) = V" using assms(2) by auto
  have same: "same_life L (spawn_failed F b None :: ('a, 'b, 'c, 'd, unit) fcp)" for L
    unfolding spawn_failed_def option.case by (intro keeps life)
  have none: "keeps ?R (spawn_failed F b None :: ('a, 'b, 'c, 'd, unit) fcp)"
    by (rule keepsI) (simp add: keeps_snd [OF same refl])
  have first: "triple (\<lambda>s. fc_life s = (V, M)) (try_except (spawn_vm F b parent) (reraise (spawn_failed F b None)))
      (\<lambda>x s. fst x = fst M \<and> fc_life s = (V, ?U)) ?R"
    by (rule triple_try_except [OF spawn_vm_life [OF assms(1)]], rule triple_reraise, rule none)
  have "triple (\<lambda>s. fc_life s = (V, ?U)) (try_except (start_vm F b parent (fst M) src) (reraise (spawn_failed F b (Some (fst M)))))
      (\<lambda>_ s. fc_life s = (V(b \<mapsto> fst M), ?U)) ?R" for src
    by (rule triple_try_except [OF start_vm_life], rule triple_reraise, rule triple_conseq [OF spawn_failed_life(2)])
      (auto simp: V dead)
  then have second: "triple (\<lambda>s. fst x = fst M \<and> fc_life s = (V, ?U))
      (case x of (h, src) \<Rightarrow> try_except (start_vm F b parent h src) (reraise (spawn_failed F b (Some h))))
      (\<lambda>_ s. fc_life s = (V(b \<mapsto> fst M), ?U)) ?R" for x
    by (cases x) (auto simp: triple_def)
  have fin: "keeps ?R (fc_spawn_end b parent)" by (auto simp: keeps_iff fc_spawn_end_def modp_def)
  have returns: "triple (\<lambda>s. fc_life s = L) (fc_spawn_end b parent) (\<lambda>_ s. fc_life s = L) R" for L and R :: "('a, 'b, 'c, 'd) fc \<Rightarrow> bool"
    by (simp add: triple_def fc_spawn_end_def modp_def)
  show ?thesis
    unfolding fc_spawn_def
    by (rule triple_seqp [OF same_weaken [OF spawn_begin_life(1)]], simp add: only_dead_refl [OF assms(1)],
        rule triple_try_finally [OF triple_seqp [OF first second] returns fin])
qed


lemma triple_trivial: "triple P m (\<lambda>_ _. True) (\<lambda>_. True)" "triple (\<lambda>_. False) m Q R"
  by (auto simp: triple_def split: prod.split sum.split)

lemma fc_spawn_bad_id:
  assumes "vm_dir_path F b = Inl e"
  shows "fc_spawn F b parent s \<noteq> (Inr u, s')"
proof -
  let ?never = "\<lambda>m. triple (\<lambda>_. True) m (\<lambda>_ _. False) (\<lambda>_. True)"
  have "?never (fc_vm_dir F b)" by (simp add: triple_def fc_vm_dir_def of_sum_def assms seqp_def)
  then have "?never (spawn_vm F b parent)"
    unfolding spawn_vm_def by (intro triple_seqp [OF triple_trivial(1)] triple_seqp [OF _ triple_trivial(2)])
  then have "?never (try_except (spawn_vm F b parent) (reraise (spawn_failed F b None)))"
    by (rule triple_try_except) (rule triple_reraise [OF triple_trivial(1)])
  then have "?never (fc_spawn F b parent)"
    unfolding fc_spawn_def
    by (intro triple_seqp [OF triple_trivial(1)] triple_try_finally [where M = "\<lambda>_ _. False" and N = "\<lambda>_. True"]
        triple_seqp [OF _ triple_trivial(2)] triple_trivial)
  then show ?thesis by (auto dest: tripleD)
qed

section \<open>Killing\<close>

text \<open>No VMM was started, and none runs that did not.\<close>

definition calmer :: "life \<Rightarrow> life \<Rightarrow> bool" where
  "calmer L M \<longleftrightarrow> fst M = fst L \<and> (\<forall>h. snd M h = None \<longleftrightarrow> snd L h = None) \<and>
     (\<forall>h p. snd M h = Some (Running, p) \<longrightarrow> snd L h = Some (Running, p))"

lemma calmer_refl [simp]: "calmer L L"
  by (simp add: calmer_def)

lemma calmer_ended: "calmer L (ended h L)"
  by (auto simp: calmer_def ended_def split: if_splits)

lemma same_any: "(\<And>L. same_life L m) \<Longrightarrow> keeps (\<lambda>s. Q (fc_life s)) m"
  unfolding keeps_iff by (metis (full_types))

lemma signal_pid_calmer: "calmer L (host_life t) \<Longrightarrow> calmer L (host_life (signal_pid pid t))"
  by (auto simp: signal_pid_def calmer_def host_life_def on_vmm_def split: option.splits if_splits)
    (metis not_None_eq surj_pair)

lemma signal_calmer:
  "keeps (\<lambda>s. fst (fc_life s) = V \<and> calmer M (snd (fc_life s))) (at_host (faulty E OpSignal (modp (signal_pid pid))))"
  by (auto simp: keeps_iff at_host_def faulty_def Let_def modp_def fc_life_def signal_pid_calmer split: option.splits)

lemma kill_unknown_calmer:
  "keeps (\<lambda>s. fst (fc_life s) = V \<and> calmer M (snd (fc_life s))) (kill_unknown F b p)"
proof -
  let ?P = "\<lambda>s :: ('a, 'b, 'c, 'd) fc. fst (fc_life s) = V \<and> calmer M (snd (fc_life s))"
  note any = same_any [where Q = "\<lambda>L. fst L = V \<and> calmer M (snd L)"]
  have discard: "keeps ?P (discard_branch F b p)" for b p
    unfolding discard_branch_def by (intro any keeps life)
  have signal: "keeps ?P (signal_recorded F pid c)" for pid c
    unfolding signal_recorded_def by (intro keeps signal_calmer any life)
  have recorded: "keeps ?P (kill_recorded F b p r)" for r
    unfolding kill_recorded_def Let_def by (intro keeps discard signal any life)
  have absent: "keeps ?P (seqp (teardown_netns F b) (\<lambda>_. cleanup_artifacts F b))" by (intro any keeps life)
  have "keeps ?P (seqp (read_text p) (\<lambda>t. of_sum (parse_pid_record (fe_loads F) (py_strip t))))" by (intro any keeps life)
  then show ?thesis
    using keeps_snd [OF recorded] keeps_snd [OF absent]
    by (auto simp: keeps_iff kill_unknown_def split: prod.splits sum.splits)
qed

lemma kill_handle_life:
  "triple (\<lambda>s. fc_life s = (V, M)) (kill_handle F b h p) (\<lambda>_ s. fc_life s = (V, ended h M)) (\<lambda>s. fc_life s = (V, ended h M))"
proof -
  have "triple (\<lambda>s. fc_life s = (V, M)) (try_except (at_host (vm_kill (fe_vm F) h)) (\<lambda>_. ret ()))
      (\<lambda>_ s. fc_life s = (V, ended h M)) (\<lambda>s. fc_life s = (V, ended h M))"
    by (rule triple_conseq [OF catch_kill_life [of V M]]) simp_all
  then show ?thesis unfolding kill_handle_def by (rule triple_seqp) (intro keeps life)
qed


section \<open>Every VMM that runs has a handle\<close>

definition vmm_owned :: "('r, 'v, 'd, 'w) fc_env \<Rightarrow> (string \<Rightarrow> nat option) \<Rightarrow> life \<Rightarrow> bool" where
  "vmm_owned F V M \<longleftrightarrow> bounded M \<and>
     (\<forall>h p. snd M h = Some (Running, p) \<longrightarrow> p \<and> (\<exists>b. V b = Some h)) \<and>
     (\<forall>b h. V b = Some h \<longrightarrow> h < fst M \<and> (\<exists>d. vm_dir_path F b = Inr d))"

definition fc_inv :: "('r, 'v, 'd, 'w) fc_env \<Rightarrow> ('r, 'v, 'd, 'w) fc \<Rightarrow> bool" where
  "fc_inv F s \<longleftrightarrow> vmm_owned F (fst (fc_life s)) (snd (fc_life s))"

lemma fc_boxes_life: "keys (fc_vms s) = dom (fst (fc_life s))"
  by (simp add: fc_life_def keys_dom)

lemma vmm_owned_calmer: "vmm_owned F V M \<Longrightarrow> calmer M M' \<Longrightarrow> vmm_owned F V M'"
  unfolding vmm_owned_def calmer_def by metis

lemma vmm_ownedD:
  assumes "vmm_owned F V M"
  shows "fst M \<le> h \<Longrightarrow> snd M h = None" "snd M h = Some (Running, p) \<Longrightarrow> p \<and> (\<exists>b. V b = Some h)"
    "V b = Some h \<Longrightarrow> h < fst M \<and> (\<exists>d. vm_dir_path F b = Inr d)"
  using assms unfolding vmm_owned_def by blast+

lemma vmm_ownedI:
  "(\<And>h. fst M \<le> h \<Longrightarrow> snd M h = None) \<Longrightarrow> (\<And>h p. snd M h = Some (Running, p) \<Longrightarrow> p \<and> (\<exists>b. V b = Some h)) \<Longrightarrow>
   (\<And>b h. V b = Some h \<Longrightarrow> h < fst M \<and> (\<exists>d. vm_dir_path F b = Inr d)) \<Longrightarrow> vmm_owned F V M"
  unfolding vmm_owned_def by blast

lemma vmm_owned_ended:
  assumes "vmm_owned F V M" "V b = Some h"
  shows "vmm_owned F (V(b := None)) (ended h M)"
proof (rule vmm_ownedI)
  fix k p assume k: "snd (ended h M) k = Some (Running, p)"
  have "k \<noteq> h" using k vmm_ownedD(2) [OF assms(1), of h] by (auto simp: ended_def split: if_splits)
  then have m: "snd M k = Some (Running, p)" using k by (simp add: ended_def)
  then obtain b' where "V b' = Some k" "p" using vmm_ownedD(2) [OF assms(1)] by blast
  then show "p \<and> (\<exists>b'. (V(b := None)) b' = Some k)" using assms(2) \<open>k \<noteq> h\<close> by (intro conjI exI [of _ b']) auto
qed (use vmm_ownedD [OF assms(1)] in \<open>auto simp: ended_def split: if_splits\<close>)

lemma vmm_owned_dead:
  assumes "vmm_owned F V M" "only_dead_added M M'"
  shows "vmm_owned F V M'"
proof (rule vmm_ownedI)
  fix h assume h: "fst M' \<le> h"
  show "snd M' h = None"
  proof (rule ccontr)
    assume "snd M' h \<noteq> None"
    then obtain st p where "snd M' h = Some (st, p)" by auto
    then have "h < fst M'" using assms(2) h unfolding only_dead_added_def by (meson order.trans)
    with h show False by simp
  qed
next
  fix h p assume r: "snd M' h = Some (Running, p)"
  then have "h < fst M" using assms(2) unfolding only_dead_added_def by (cases "h < fst M") (auto simp: not_less)
  then have "snd M h = Some (Running, p)" using r assms(2) by (simp add: only_dead_added_def)
  then show "p \<and> (\<exists>b. V b = Some h)" by (rule vmm_ownedD(2) [OF assms(1)])
next
  fix b h assume "V b = Some h"
  then show "h < fst M' \<and> (\<exists>d. vm_dir_path F b = Inr d)"
    using vmm_ownedD(3) [OF assms(1)] assms(2) by (auto simp: only_dead_added_def intro: order.strict_trans2)
qed

lemma vmm_owned_started:
  assumes "vmm_owned F V M" "V b = None" "vm_dir_path F b = Inr d"
  shows "vmm_owned F (V(b \<mapsto> fst M)) (Suc (fst M), (snd M)(fst M \<mapsto> (Running, True)))"
proof (rule vmm_ownedI)
  fix h p assume r: "snd (Suc (fst M), (snd M)(fst M \<mapsto> (Running, True))) h = Some (Running, p)"
  show "p \<and> (\<exists>b'. (V(b \<mapsto> fst M)) b' = Some h)"
  proof (cases "h = fst M")
    case False
    then obtain b' where "V b' = Some h" "p" using r vmm_ownedD(2) [OF assms(1), of h p] by auto
    then show ?thesis using assms(2) by (intro conjI exI [of _ b']) auto
  qed (use r in auto)
qed (use vmm_ownedD [OF assms(1)] assms(3) in \<open>auto simp: less_Suc_eq split: if_splits\<close>)

lemma same_life_step:
  assumes "\<And>L. same_life L m" "fc_inv F s"
  shows "fc_inv F (snd (m s))" "keys (fc_vms (snd (m s))) = keys (fc_vms s)"
  using keeps_snd [OF assms(1) refl, of s] assms(2) by (simp_all add: fc_inv_def fc_boxes_life)

lemma fc_spawn_taken: "b \<in> keys (fc_vms s) \<Longrightarrow> fc_spawn F b parent s = (Inl ValueError, s)"
  by (simp add: fc_spawn_def fc_spawn_begin_def proc_defs)

lemma fc_spawn_step:
  assumes "fc_inv F s"
  shows "fc_inv F (snd (fc_spawn F b parent s))" "touches_only b (keys (fc_vms s)) (keys (fc_vms (snd (fc_spawn F b parent s))))"
proof -
  obtain V M where L: "fc_life s = (V, M)" by (cases "fc_life s")
  have own: "vmm_owned F V M" using assms by (simp add: fc_inv_def L)
  obtain r s' where r: "fc_spawn F b parent s = (r, s')" by fastforce
  have "fc_inv F s' \<and> touches_only b (keys (fc_vms s)) (keys (fc_vms s'))"
  proof (cases "V b")
    case None
    have "bounded M" using own by (simp add: vmm_owned_def)
    note spec = tripleD [OF fc_spawn_life [where V = V and b = b and F = F and parent = parent, OF this None] L]
    show ?thesis
    proof (cases r)
      case (Inl e)
      have "fst (fc_life s') = V \<and> only_dead_added M (snd (fc_life s'))" using spec(1) r Inl by blast
      then show ?thesis using vmm_owned_dead [OF own, of "snd (fc_life s')"] by (simp add: fc_inv_def fc_boxes_life L)
    next
      case (Inr u)
      have l: "fc_life s' = (V(b \<mapsto> fst M), Suc (fst M), (snd M)(fst M \<mapsto> (Running, True)))" using spec(2) r Inr by blast
      obtain d where "vm_dir_path F b = Inr d" using fc_spawn_bad_id r Inr by (cases "vm_dir_path F b") blast+
      then show ?thesis using vmm_owned_started [OF own None] by (simp add: fc_inv_def fc_boxes_life L l)
    qed
  next
    case (Some h)
    then have "b \<in> keys (fc_vms s)" by (auto simp: fc_boxes_life L)
    then show ?thesis using fc_spawn_taken [of b s F parent] r assms by simp
  qed
  then show "fc_inv F (snd (fc_spawn F b parent s))" "touches_only b (keys (fc_vms s)) (keys (fc_vms (snd (fc_spawn F b parent s))))"
    using r by simp_all
qed

lemma fc_kill_step:
  assumes "fc_inv F s"
  shows "fc_inv F (snd (fc_kill F b s))" "keys (fc_vms (snd (fc_kill F b s))) = keys (fc_vms s) - {b}"
proof -
  obtain V M where L: "fc_life s = (V, M)" by (cases "fc_life s")
  have own: "vmm_owned F V M" using assms by (simp add: fc_inv_def L)
  let ?s = "s\<lparr>fc_vms := ddel b (fc_vms s), fc_snapshots := ddel b (fc_snapshots s), fc_gen := ddel b (fc_gen s),
      fc_snap_gen := ddel b (fc_snap_gen s)\<rparr>"
  have L': "fc_life ?s = (V(b := None), M)" using L by (auto simp: fc_life_def fun_eq_iff)
  let ?s' = "snd (fc_kill F b s)"
  have "fst (fc_life ?s') = V(b := None) \<and> vmm_owned F (V(b := None)) (snd (fc_life ?s'))"
  proof (cases "V b")
    case None
    then have "V(b := None) = V" "dget (fc_vms s) b = None" using L by (auto simp: fc_life_def)
    moreover have "fst (fc_life (snd (kill_unknown F b p ?s))) = V(b := None) \<and> calmer M (snd (fc_life (snd (kill_unknown F b p ?s))))" for p
      using L' by (intro keeps_snd [OF kill_unknown_calmer]) (simp only: fst_conv snd_conv calmer_refl simp_thms)
    ultimately show ?thesis
      using own L' vmm_owned_calmer [OF own]
      by (cases "pid_path F b") (simp_all add: fc_kill_def seqp_def readp_def modp_def of_sum_def)
  next
    case (Some h)
    then obtain d where d: "vm_dir_path F b = Inr d" using vmm_ownedD(3) [OF own] by blast
    have h: "dget (fc_vms s) b = Some h" using L Some by (simp add: fc_life_def)
    have "?s' = snd (kill_handle F b h (join_path d ''fc.pid'') ?s)"
      by (simp add: fc_kill_def seqp_def readp_def modp_def of_sum_def pid_path_def d h)
    moreover have "fc_life (snd (kill_handle F b h (join_path d ''fc.pid'') ?s)) = (V(b := None), ended h M)"
      by (rule tripleE [OF kill_handle_life [where F = F and b = b and h = h and p = "join_path d ''fc.pid''"] L']) (simp_all add: fun_upd_def)
    ultimately show ?thesis using vmm_owned_ended [OF own Some] by simp
  qed
  then show "fc_inv F ?s'" "keys (fc_vms ?s') = keys (fc_vms s) - {b}"
    by (auto simp: fc_inv_def fc_boxes_life L)
qed


lemma poll_calmer: "keeps (\<lambda>s. fst (fc_life s) = V \<and> calmer M (snd (fc_life s))) (at_host (vm_poll_none h))"
proof (rule keepsI)
  fix s :: "('a, 'b, 'c, 'd) fc" assume s: "fst (fc_life s) = V \<and> calmer M (snd (fc_life s))"
  let ?t = "snd (vm_poll_none h (fc_host s))"
  have "calmer (host_life (fc_host s)) (host_life ?t)"
    by (auto simp: calmer_def poll_life split: if_splits)
  then have "calmer M (host_life ?t)" using s by (simp add: calmer_def fc_life_def)
  then show "fst (fc_life (snd (at_host (vm_poll_none h) s))) = V \<and> calmer M (snd (fc_life (snd (at_host (vm_poll_none h) s))))"
    using s by (cases "vm_poll_none h (fc_host s)") (simp add: at_host_def fc_life_def)
qed

lemma calmer_step:
  assumes "\<And>V M. keeps (\<lambda>s. fst (fc_life s) = V \<and> calmer M (snd (fc_life s))) m" "fc_inv F s"
  shows "fc_inv F (snd (m s))" "keys (fc_vms (snd (m s))) = keys (fc_vms s)"
proof -
  have "fst (fc_life (snd (m s))) = fst (fc_life s) \<and> calmer (snd (fc_life s)) (snd (fc_life (snd (m s))))"
    by (rule keeps_snd [OF assms(1)]) simp
  then show "fc_inv F (snd (m s))" "keys (fc_vms (snd (m s))) = keys (fc_vms s)"
    using assms(2) vmm_owned_calmer [of F "fst (fc_life s)" "snd (fc_life s)"] by (simp_all add: fc_inv_def fc_boxes_life)
qed

lemma alive_calmer: "keeps (\<lambda>s. fst (fc_life s) = V \<and> calmer M (snd (fc_life s))) (fc_alive F b)"
  unfolding fc_alive_def
  by (intro keeps poll_calmer same_any [where Q = "\<lambda>L. fst L = V \<and> calmer M (snd L)"] life)

lemma sweep_calmer: "keeps (\<lambda>s. fst (fc_life s) = V \<and> calmer M (snd (fc_life s))) (sweep_loop xs)"
proof (induction xs)
  case (Cons x xs)
  then show ?case by (cases x) (auto intro!: keeps_seqp keeps_simple poll_calmer)
qed (simp add: keeps)

text \<open>
  \<open>FirecrackerSandbox\<close> keeps the contract of a sandbox backend, whatever fails, but for the law of \<open>restart\<close>
  (\<open>restart_leaks_vmm\<close> in \<open>Firecracker_Recovery\<close> is why).
\<close>

interpretation fc_box: sandbox_core "firecracker_sandbox F" "\<lambda>s. keys (fc_vms s)" "fc_inv F" for F :: "('r, 'v, 'd, 'w) fc_env"
proof -
  have sweep: "keeps (\<lambda>s. fst (fc_life s) = V \<and> calmer M (snd (fc_life s))) fc_sweep_dead" for V M
    by (rule keepsI) (simp add: fc_sweep_dead_def keeps_snd [OF sweep_calmer, of _ V M, simplified])
  have export: "same_life L (seqp (fc_export_artifact F b src dst) (\<lambda>n. ret (JInt n)))" for L b src dst
    by (intro keeps life)
  note steps = fc_spawn_step fc_kill_step calmer_step [OF alive_calmer] calmer_step [OF sweep] same_life_step [OF wait_ready_same]
    same_life_step [OF fc_exec_same(1)] same_life_step [OF fc_exec_same(2)] same_life_step [OF export]
  show "sandbox_core (firecracker_sandbox F) (\<lambda>s. keys (fc_vms s)) (fc_inv F)"
  proof unfold_locales
    fix b b' t u assume inv: "fc_inv F b"
    show "sb_kill (firecracker_sandbox F) t b = (Inr u, b') \<Longrightarrow> t \<notin> keys (fc_vms b')"
      using steps(4) [OF inv, of t] by (simp add: firecracker_sandbox_def)
  qed (simp_all add: firecracker_sandbox_def steps, (drule sym, simp add: steps)+)
qed

end
