(* ===== verification/Firecracker_Props.thy ===== *)
theory Firecracker_Props
  imports Firecracker_Laws
begin

text \<open>
  The properties of \<open>FirecrackerSandbox\<close>: which VMMs run, whom a kill may signal, where branches keep
  their files and what a fork restores, with the two ways out of the guarantees that the code leaves open.
\<close>

section \<open>Sample environment\<close>

text \<open>
  A host where nothing fails; a guest remembers the commands it has run, in memory and, for \<open>write\<close>, on its disk.
\<close>

definition sample_guest :: "(string list list, unit, string list, exec_result) guest_run" where
  "sample_guest argv timeout stdin g d =
     (Inr \<lparr>er_exit_code = JInt 0, er_stdout = [], er_stderr = [], er_timed_out = JBool False\<rparr>,
      (if argv = [''true''] \<or> argv = [''sync''] then g else (argv # fst g, snd g)),
      (if hd argv = ''write'' then map_option ((#) (last argv)) d else d))"

definition sample_vm_env :: "(fc_op \<Rightarrow> nat \<Rightarrow> exc option) \<Rightarrow> (string list list, unit, string list) vm_env" where
  "sample_vm_env fault = \<lparr>ve_fault = fault, ve_cwd = ''/'', ve_sha = (\<lambda>_. ''0123456789abcdef0123''), ve_started = int, ve_boot = ([], ())\<rparr>"

definition sample_fc_config :: fc_config where
  "sample_fc_config = \<lparr>fb_bin = ''/fc'', fb_kernel = ''/k'', fb_rootfs = ''/r'', fb_work_dir = ''/w'', fb_vsock = True,
     fb_overlay_mib = Some 1, fb_jailer = None, fb_network = None, fb_readiness_timeout = 5, fb_exec_timeout = 1\<rparr>"

definition sample_fc :: "(fc_op \<Rightarrow> nat \<Rightarrow> exc option) \<Rightarrow> (string list list, unit, string list, unit) fc_env" where
  "sample_fc fault = \<lparr>fe_cfg = sample_fc_config, fe_vm = sample_vm_env fault, fe_mkfs = [], fe_exec = sample_guest,
     fe_detach = (\<lambda>_ _ _ g d. (Inl VsockError, g, d)), fe_run = (\<lambda>_ _. ret ()),
     fe_dumps = (\<lambda>j. case j of JObj ((_, JInt pid) # _) \<Rightarrow> str_int pid | _ \<Rightarrow> []),
     fe_loads = (\<lambda>t. if t = ''0'' then Inr (JObj [(''pid'', JInt 0), (''start_time'', JInt 0), (''exe'', JStr ''/fc'')]) else Inl ValueError),
     fe_clock = real, fe_exe = ''/fc'', fe_urandom = (\<lambda>b. b)\<rparr>"

abbreviation no_fault :: "fc_op \<Rightarrow> nat \<Rightarrow> exc option" where
  "no_fault \<equiv> \<lambda>_ _. None"

definition sample_host :: "(string list list, unit, string list) host" where
  "sample_host = \<lparr>ho_vmms = [], ho_other = [], ho_files = [], ho_next = 0, ho_calls = 0, ho_api = [], ho_stuck = False\<rparr>"

definition sample_fc_start :: "(string list list, unit, string list, unit) fc" where
  "sample_fc_start = snd (fc_init (sample_fc no_fault) () sample_host)"

text \<open>
  Runs on the sample host are evaluated in the order of the calls: the congruence rules keep the
  continuations of a procedure as they are until they are reached.
\<close>

lemma weak_procs:
  "s = s' \<Longrightarrow> seqp m f s = seqp m f s'" "s = s' \<Longrightarrow> try_except m h s = try_except m h s'"
  "s = s' \<Longrightarrow> try_finally m g s = try_finally m g s'" "t = t' \<Longrightarrow> faulty E k m2 t = faulty E k m2 t'"
  "u = u' \<Longrightarrow> at_host m3 u = at_host m3 u'" "b = b' \<Longrightarrow> whenp b m4 s = whenp b' m4 s"
  "e = e' \<Longrightarrow> reraise m5 e s = reraise m5 e' s"
  by simp_all

lemma sample_fc_sel [simp]:
  "fe_cfg (sample_fc f) = sample_fc_config" "fe_vm (sample_fc f) = sample_vm_env f" "fe_mkfs (sample_fc f) = []"
  "fe_exec (sample_fc f) = sample_guest" "fe_clock (sample_fc f) = real"
  "fe_dumps (sample_fc f) (JObj ((x, JInt pid) # l)) = str_int pid" "fe_exe (sample_fc f) = ''/fc''"
  "fe_loads (sample_fc f) ''0'' = Inr (JObj [(''pid'', JInt 0), (''start_time'', JInt 0), (''exe'', JStr ''/fc'')])"
  "ve_fault (sample_vm_env f) = f" "ve_boot (sample_vm_env f) = ([], ())" "ve_started (sample_vm_env f) = int"
  "fb_vsock sample_fc_config" "fb_overlay_mib sample_fc_config = Some 1" "fb_jailer sample_fc_config = None"
  "fb_network sample_fc_config = None" "fb_bin sample_fc_config = ''/fc''" "fb_kernel sample_fc_config = ''/k''"
  "fb_rootfs sample_fc_config = ''/r''" "fb_readiness_timeout sample_fc_config = 5"
  by (simp_all add: sample_fc_def sample_fc_config_def sample_vm_env_def)

lemma sample_paths [simp]:
  "vm_dir_path (sample_fc f) ''a'' = Inr ''/w/a''" "vm_dir_path (sample_fc f) ''b'' = Inr ''/w/b''"
  "abspath (ve_cwd (sample_vm_env f)) ''/fc'' = ''/fc''" "abspath (ve_cwd (sample_vm_env f)) ''/k'' = ''/k''"
  "abspath (ve_cwd (sample_vm_env f)) ''/r'' = ''/r''" "abspath (ve_cwd (sample_vm_env f)) ''/w/a/mem'' = ''/w/a/mem''"
  "abspath (ve_cwd (sample_vm_env f)) ''/w/a/state'' = ''/w/a/state''"
proof -
  have "branch_dir_name (\<lambda>_. ''0123456789abcdef0123'') ''a'' = Inr ''a''" "branch_dir_name (\<lambda>_. ''0123456789abcdef0123'') ''b'' = Inr ''b''"
    by code_simp+
  then show "vm_dir_path (sample_fc f) ''a'' = Inr ''/w/a''" "vm_dir_path (sample_fc f) ''b'' = Inr ''/w/b''"
    by (simp_all add: vm_dir_path_def sample_fc_config_def sample_vm_env_def join_path_def)
  have "abspath ''/'' ''/fc'' = ''/fc''" "abspath ''/'' ''/k'' = ''/k''" "abspath ''/'' ''/r'' = ''/r''"
    "abspath ''/'' ''/w/a/mem'' = ''/w/a/mem''" "abspath ''/'' ''/w/a/state'' = ''/w/a/state''" by code_simp+
  then show "abspath (ve_cwd (sample_vm_env f)) ''/fc'' = ''/fc''" "abspath (ve_cwd (sample_vm_env f)) ''/k'' = ''/k''"
    "abspath (ve_cwd (sample_vm_env f)) ''/r'' = ''/r''" "abspath (ve_cwd (sample_vm_env f)) ''/w/a/mem'' = ''/w/a/mem''"
    "abspath (ve_cwd (sample_vm_env f)) ''/w/a/state'' = ''/w/a/state''"
    by (simp_all add: sample_vm_env_def)
qed

lemmas run_host = proc_defs drop_value_def at_host_def faulty_def write_file_def copy_file_def link_or_copy_def Let_def of_sum_def join_path_def OVERLAY_def
  VSOCK_def on_vmm_def vm_request_def no_effect_def put_def microvm_def vm_popen_def vm_host_path_def vm_command_def vm_boot_def
  shared_input_def vm_path_def vm_pause_def vm_resume_def vm_snapshot_def vm_restore_def vm_kill_def vm_signal_def vm_reap_def
  vm_close_pidfd_def vm_poll_none_def vmm_running_def force_cleanup_def vm_sigkill_def vm_waitid_def vm_kill_finally_def
  ignoring_def no_spurious_lookup_def

lemmas run_fc = run_host fc_spawn_def fc_spawn_begin_def fc_spawn_end_def spawn_vm_def spawn_root_def spawn_child_def fork_source_def
  take_snapshot_def overlay_for_child_def while_paused_def is_stale_def gen_of_def sync_guest_def start_vm_def start_reseed_def
  setup_netns_def teardown_netns_def fc_vm_dir_def fc_host_dir_def pid_path_def create_overlay_def copy_overlay_def chown_into_jail_def
  new_vm_def write_pid_record_def process_identity_def proc_at_def pid_record_def exec_live_def guest_call_def vm_listening_def
  overlay_of_def set_overlay_def need_vm_def fc_wait_ready_def read_monotonic_def

lemma fc_init_inv:
  assumes "fc_init F w t = (Inr (), s)" "ho_vmms t = []"
  shows "fc_inv F s" "fc_vms s = []"
proof -
  let ?s0 = "\<lparr>fc_host = t, fc_net = netns_init w, fc_vms = [], fc_pending = {}, fc_parent_forks = [], fc_snapshots = [],
          fc_gen = [], fc_snap_gen = [], fc_netns_index = [], fc_reseeds = [], fc_reads = 0\<rparr>"
  have index: "same_life L (recover_index F n)" for L n unfolding recover_index_def by (intro keeps life)
  have "same_life L (seqp (raise_if (\<lambda>_. \<not> fc_params_ok (fe_cfg F)) ValueError) (\<lambda>_.
      seqp (fc_write F (fb_work_dir (fe_cfg F)) Directory) (\<lambda>_.
      seqp (readp (\<lambda>s. work_entries F (fc_host s))) (\<lambda>names.
        whenp (fb_network (fe_cfg F) \<noteq> None) (for_each names (recover_index F))))))" for L
    by (intro keeps life index)
  from keeps_snd [OF this refl, of ?s0] assms(1) have "fc_life s = fc_life ?s0" by (simp add: fc_init_def Let_def)
  then have "dget (fc_vms s) = (\<lambda>_. None)" "host_life (fc_host s) = (ho_next t, \<lambda>_. None)"
    using assms(2) by (simp_all add: fc_life_def host_life_def fun_eq_iff)
  then show "fc_inv F s" "fc_vms s = []"
    by (auto simp: fc_inv_def fc_life_def vmm_owned_def fun_eq_iff intro: dget_None_iff [THEN iffD1])
      (metis dget_None_iff empty_iff keys_dom list.set_sel(1) set_empty2 domIff image_is_empty set_map set_empty)
qed


section \<open>Which VMMs run\<close>

text \<open>The sandboxes of a branch, as the processes themselves.\<close>

definition branch_runs :: "('r, 'v, 'd, 'w) fc \<Rightarrow> string \<Rightarrow> nat \<Rightarrow> bool" where
  "branch_runs s b h \<longleftrightarrow> dget (fc_vms s) b = Some h \<and> vmm_running (fc_host s) h"

lemma running_life: "vmm_running (fc_host s) h \<longleftrightarrow> (\<exists>p. snd (snd (fc_life s)) h = Some (Running, p))"
  by (auto simp: vmm_running_def fc_life_def host_life_def split: option.split)

lemma fc_inv_owned: "fc_inv F s \<Longrightarrow> vmm_running (fc_host s) h \<Longrightarrow> \<exists>b. branch_runs s b h"
  by (auto simp: branch_runs_def running_life fc_inv_def fc_life_def dest: vmm_ownedD(2))

lemma running_vmms_recorded:
  assumes "kv_contract (cf_kv E) trees kinv" "cf_sb E = firecracker_sandbox F"
    and "orch_started trees kinv (\<lambda>s. keys (fc_vms s)) (fc_inv F) s0" "orch_reach (\<lambda>c. call_ok ends c \<and> \<not> restarts_dead c) E s0 s"
    and "vmm_running (fc_host (o_sb s)) h"
  shows "\<exists>b \<in> keys (o_branches s). branch_runs (o_sb s) b h"
proof -
  have "orch_core E trees kinv (\<lambda>s. keys (fc_vms s)) (fc_inv F)"
    using assms(1,2) fc_box.sandbox_core_axioms [of F] by (simp add: orch_core_def)
  then have good: "sys_inv trees kinv (\<lambda>s. keys (fc_vms s)) (fc_inv F) ends s"
    using assms(4) by (rule orch_reach_good_core) (rule orch_started_good [OF assms(3)])
  then have "fc_inv F (o_sb s)" by (simp add: sys_inv_def covered_def)
  then obtain b where b: "branch_runs (o_sb s) b h" using fc_inv_owned [OF _ assms(5)] by blast
  then have "b \<in> keys (fc_vms (o_sb s))" by (auto simp: branch_runs_def intro: dget_Some_keys)
  with b good show ?thesis unfolding sys_inv_def covered_def by blast
qed

text \<open>The orchestrator over the reference KV cache and microVMs.\<close>

interpretation fc_orch: orch_core "\<lparr>cf_kv = tree_cache_backend m, cf_sb = firecracker_sandbox F, cf_clock = w, cf_io = io\<rparr>"
  "\<lambda>s. keys (kv_trees s)" cache_dicts "\<lambda>s. keys (fc_vms s)" "fc_inv F" ends for m F w io ends
  unfolding orch_core_def by (simp add: tree_kv.kv_contract_axioms fc_box.sandbox_core_axioms)

text \<open>
  C25: Over any KV backend that keeps its contract and over \<open>FirecrackerSandbox\<close>, whatever fails on the host, after any
  sequence of orchestrator calls with no \<open>restart\<close> among them (no pass of a reaper started with \<open>restart_dead=True\<close>) and no
  fork under an empty id, every VMM process that runs is the sandbox of a branch in the registry.  With such a pass it may
  fail: \<open>restart_leaks_vmm\<close>.
\<close>

theorem vmms_are_recorded:
  assumes "kv_contract (cf_kv E) trees kinv" "cf_sb E = firecracker_sandbox F"
    and "orch_started trees kinv (\<lambda>s. keys (fc_vms s)) (fc_inv F) s0" "orch_reach (\<lambda>c. call_ok ends c \<and> \<not> restarts_dead c) E s0 s"
    and "vmm_running (fc_host (o_sb s)) h"
  shows "\<exists>b \<in> keys (o_branches s). branch_runs (o_sb s) b h"
  by (rule running_vmms_recorded [OF assms])

definition fc_demo_config :: "(kv_cache, (string list list, unit, string list, unit) fc) config" where
  "fc_demo_config = \<lparr>cf_kv = tree_cache_backend real, cf_sb = firecracker_sandbox (sample_fc no_fault), cf_clock = real, cf_io = \<lambda>_. None\<rparr>"

definition fc_demo_start :: "(kv_cache, (string list list, unit, string list, unit) fc) orch" where
  "fc_demo_start = projr (orch_init (projr (kv_init 100 None)) sample_fc_start False None None True None)"

lemma sample_fc_start_ok: "fc_inv (sample_fc no_fault) sample_fc_start" "fc_vms sample_fc_start = []"
proof -
  have "fc_init (sample_fc no_fault) () sample_host = (Inr (), sample_fc_start)"
    by (simp add: sample_fc_start_def fc_init_def sample_fc_def sample_fc_config_def fc_params_ok_def proc_defs Let_def at_host_def
        write_file_def faulty_def sample_vm_env_def split: prod.split)
  then show "fc_inv (sample_fc no_fault) sample_fc_start" "fc_vms sample_fc_start = []"
    by (rule fc_init_inv, simp add: sample_host_def)+
qed

lemma fc_demo_started:
  "orch_started (\<lambda>s. keys (kv_trees s)) cache_dicts (\<lambda>s. keys (fc_vms s)) (fc_inv (sample_fc no_fault)) fc_demo_start"
proof -
  let ?kv = "projr (kv_init 100 None)"
  have kv: "cache_dicts ?kv" "keys (kv_trees ?kv) = {}" by (simp_all add: kv_init_def cache_dicts_def)
  have "orch_init ?kv sample_fc_start False None None True None = Inr fc_demo_start"
    by (simp add: fc_demo_start_def orch_init_def not_positive_def load_registry_def orch_new_def seqp_def ret_def)
  then show ?thesis
    unfolding orch_started_def
    by (intro exI [of _ ?kv] exI [of _ sample_fc_start] exI conjI) (assumption, use kv sample_fc_start_ok in simp_all)
qed



lemma sample_fc_start_eq:
  "sample_fc_start = \<lparr>fc_host = sample_host\<lparr>ho_files := [(''/w'', Directory)], ho_calls := 1\<rparr>, fc_net = netns_init (),
     fc_vms = [], fc_pending = {}, fc_parent_forks = [], fc_snapshots = [], fc_gen = [], fc_snap_gen = [], fc_netns_index = [],
     fc_reseeds = [], fc_reads = 0\<rparr>"
  by (simp add: sample_fc_start_def fc_init_def fc_params_ok_def run_host sample_host_def sample_fc_config_def cong: weak_procs)

text \<open>The sample host after the spawn of a root branch, up to the log of API requests.\<close>

definition sample_root :: "(nat \<times> string \<times> string \<times> json) list \<Rightarrow> (string list list, unit, string list, unit) fc" where
  "sample_root api =
     \<lparr>fc_host = \<lparr>ho_vmms = [(0, \<lparr>vm_dir = ''/w/a'', vm_host_dir = ''/w/a'', vm_jailed = False,
          vm_argv = [''/fc'', ''--api-sock'', ''fc.sock''], vm_state = Running, vm_start = 0, vm_pidfd = True,
          vm_guest = Some ([], ()), vm_paused = False\<rparr>)],
        ho_other = [], ho_files = [(''/w'', Directory), (''/w/a'', Directory), (''/w/a/overlay.ext4'', OverlayFile []),
          (''/w/a/fc.log'', TextFile []), (''/w/a/fc.pid'', TextFile (str_int 0))],
        ho_next = 1, ho_calls = 17, ho_api = api, ho_stuck = False\<rparr>,
      fc_net = netns_init (), fc_vms = [(''a'', 0)], fc_pending = {}, fc_parent_forks = [], fc_snapshots = [], fc_gen = [],
      fc_snap_gen = [], fc_netns_index = [], fc_reseeds = [], fc_reads = 0\<rparr>"

lemma sample_root_run: "\<exists>api. fc_spawn (sample_fc no_fault) ''a'' None sample_fc_start = (Inr (), sample_root api)"
  by (simp add: sample_fc_start_eq sample_host_def sample_root_def run_fc cong: weak_procs)

lemma ready_loop_once:
  "n \<noteq> 0 \<Longrightarrow> ready_loop F deadline b n =
     seqp (read_monotonic F) (\<lambda>now.
     seqp (raise_if (\<lambda>_. deadline - now \<le> 0) VsockError) (\<lambda>_.
       try_except (seqp (need_vm b) (\<lambda>_. drop_value (exec_live F (fe_exec F) b [''true''] (Some (min 1 (deadline - now))) None)))
         (\<lambda>e. if e = VsockError
              then seqp (read_monotonic F) (\<lambda>now'.
                   seqp (raise_if (\<lambda>_. now' \<ge> deadline) VsockError) (\<lambda>_. ready_loop F deadline b (n - 1)))
              else raise e)))"
  by (cases n) (simp_all cong: if_cong)

text \<open>The orchestrator over the sample sandbox, with a root branch.\<close>

definition fc_demo_root :: "(kv_cache, (string list list, unit, string list, unit) fc) orch" where
  "fc_demo_root = snd (create_parent fc_demo_config ''a'' [] None fc_demo_start)"

lemma fc_demo_root_runs: "vmm_running (fc_host (o_sb fc_demo_root)) 0"
proof -
  have start: "fc_demo_start = orch_new (projr (kv_init 100 None)) sample_fc_start False None None"
    by (simp add: fc_demo_start_def orch_init_def not_positive_def load_registry_def orch_new_def)
  obtain api where s1: "fc_spawn (sample_fc no_fault) ''a'' None sample_fc_start = (Inr (), sample_root api)"
    using sample_root_run by blast
  have "\<exists>s2. fc_wait_ready (sample_fc no_fault) ''a'' None (sample_root api) = (Inr (), s2) \<and> vmm_running (fc_host s2) 0"
    by (simp add: sample_root_def run_fc sample_guest_def ready_loop_once cong: weak_procs)
  with s1 show ?thesis
    by (elim exE conjE) (simp add: fc_demo_root_def start orch_new_def fc_demo_config_def tree_cache_backend_def firecracker_sandbox_def create_parent_def
      create_begin_def create_backends_def ensure_open_def proc_defs on_kv_def on_sb_def read_clock_def lease_expiry_def
      record_branch_def set_branches_def persist_def drop_value_def create_tree_def kv_init_def Let_def mark_live_def
      replace_branch_def spawn_end_def cong: weak_procs)
qed

theorem vmms_are_recorded_witness:
  "\<exists>s. orch_reach (\<lambda>c. call_ok {} c \<and> \<not> restarts_dead c) fc_demo_config fc_demo_start s \<and> vmm_running (fc_host (o_sb s)) 0 \<and>
     (\<exists>b \<in> keys (o_branches s). branch_runs (o_sb s) b 0)"
proof -
  have reach: "orch_reach (\<lambda>c. call_ok {} c \<and> \<not> restarts_dead c) fc_demo_config fc_demo_start fc_demo_root"
    by (rule orch_reach.step [OF orch_reach.start, where c = "CallCreate ''a'' [] None"]) (simp_all add: fc_demo_root_def)
  have "\<exists>b \<in> keys (o_branches fc_demo_root). branch_runs (o_sb fc_demo_root) b 0"
    by (rule vmms_are_recorded [OF _ _ fc_demo_started reach fc_demo_root_runs])
      (simp_all add: fc_demo_config_def tree_kv.kv_contract_axioms)
  with reach fc_demo_root_runs show ?thesis by blast
qed


section \<open>Spawning is all or nothing\<close>

text \<open>What is known of spawns and forks in flight; only the two ends of \<open>spawn\<close> change it.\<close>

definition in_flight_of :: "('r, 'v, 'd, 'w) fc \<Rightarrow> string set \<times> (string, int) dict" where
  "in_flight_of s = (fc_pending s, fc_parent_forks s)"

abbreviation same_flight :: "string set \<times> (string, int) dict \<Rightarrow> ('r, 'v, 'd, 'w, 'a) fcp \<Rightarrow> bool" where
  "same_flight X m \<equiv> keeps (\<lambda>s. in_flight_of s = X) m"

lemma in_flight_frame [simp]:
  "in_flight_of (s\<lparr>fc_host := t\<rparr>) = in_flight_of s" "in_flight_of (s\<lparr>fc_net := n\<rparr>) = in_flight_of s"
  "in_flight_of (s\<lparr>fc_vms := v\<rparr>) = in_flight_of s" "in_flight_of (s\<lparr>fc_snapshots := sn\<rparr>) = in_flight_of s"
  "in_flight_of (s\<lparr>fc_gen := g\<rparr>) = in_flight_of s" "in_flight_of (s\<lparr>fc_snap_gen := sg\<rparr>) = in_flight_of s"
  "in_flight_of (s\<lparr>fc_netns_index := i\<rparr>) = in_flight_of s" "in_flight_of (s\<lparr>fc_reseeds := rs\<rparr>) = in_flight_of s"
  "in_flight_of (s\<lparr>fc_reads := k\<rparr>) = in_flight_of s"
  by (simp_all add: in_flight_of_def)

named_theorems flight

lemma flight_basic [flight]:
  "same_flight X (at_host m)" "same_flight X (at_net m')" "same_flight X (of_sum r)" "same_flight X (read_text p)"
  by (auto simp: keeps_iff at_host_def at_net_def of_sum_def read_text_def split: prod.splits option.split hostfile.split)

lemma flight_files [flight]:
  "same_flight X (fc_vm_dir F b)" "same_flight X (fc_host_dir F b)" "same_flight X (fc_remove F p)" "same_flight X (rmtree F p)"
  "same_flight X (cleanup_artifacts F b)" "same_flight X (chown_into_jail F p)" "same_flight X (copy_overlay F p q)"
  "same_flight X (create_overlay F p)" "same_flight X (link_into F p d n)" "same_flight X (netns_idx_path F b)"
proof -
  show d: "same_flight X (fc_vm_dir F b)" unfolding fc_vm_dir_def by (intro keeps flight)
  show "same_flight X (fc_host_dir F b)"
    unfolding fc_host_dir_def Let_def by (cases "fb_jailer (fe_cfg F)") (auto intro!: keeps_seqp keeps_simple flight d)
  show r: "same_flight X (fc_remove F p)" for p unfolding fc_remove_def ignore_missing_def by (intro keeps flight)
  show t: "same_flight X (rmtree F p)" for p unfolding rmtree_def ignore_missing_def by (intro keeps flight)
  show "same_flight X (cleanup_artifacts F b)" unfolding cleanup_artifacts_def by (intro keeps flight t)
  show c: "same_flight X (chown_into_jail F p)" unfolding chown_into_jail_def by (intro keeps flight)
  show "same_flight X (copy_overlay F p q)" unfolding copy_overlay_def by (intro flight)
  show "same_flight X (create_overlay F p)" unfolding create_overlay_def by (intro keeps flight c)
  show "same_flight X (link_into F p d n)" unfolding link_into_def Let_def by (intro keeps flight r)
  show "same_flight X (netns_idx_path F b)" unfolding netns_idx_path_def by (intro keeps d)
qed

lemma flight_steps [flight]:
  "same_flight X (write_pid_record F b h)" "same_flight X (exec_live F run b argv tmo inp)" "same_flight X (setup_netns F b)"
  "same_flight X (recovered_index F b)" "same_flight X (teardown_netns F b)" "same_flight X (start_reseed F b)"
  "same_flight X (sync_guest F b)" "same_flight X (take_snapshot F b h mem state gen)" "same_flight X (overlay_for_child F p q)"
proof -
  show "same_flight X (write_pid_record F b h)"
    unfolding write_pid_record_def process_identity_def Let_def by (intro keeps flight)
  show e: "same_flight X (exec_live F run b argv tmo inp)" for run :: "('a, 'b, 'c, 'z) guest_run" and argv tmo inp
    unfolding exec_live_def by (intro keeps flight)
  show "same_flight X (setup_netns F b)"
    unfolding setup_netns_def by (cases "fb_network (fe_cfg F)") (auto intro!: keeps_seqp keeps_simple keeps_modp keeps_prod flight)
  show r: "same_flight X (recovered_index F b)" unfolding recovered_index_def by (intro keeps flight)
  show "same_flight X (teardown_netns F b)" unfolding teardown_netns_def by (intro keeps flight r) simp
  show "same_flight X (start_reseed F b)" unfolding start_reseed_def by (intro keeps) simp
  show "same_flight X (sync_guest F b)" unfolding sync_guest_def drop_value_def by (intro keeps e)
  show "same_flight X (take_snapshot F b h mem state gen)" unfolding take_snapshot_def by (intro keeps flight) simp
  show "same_flight X (overlay_for_child F p q)" unfolding overlay_for_child_def by (intro keeps flight)
qed

lemma flight_paused [flight]:
  assumes "same_flight X body"
  shows "same_flight X (while_paused F h body)"
  using keeps_snd [OF assms]
  by (auto simp: keeps_iff while_paused_def seqp_def at_host_def split: prod.splits sum.splits) (metis in_flight_frame(1) snd_conv)+

lemma flight_spawn [flight]:
  "same_flight X (fork_source F p d)" "same_flight X (spawn_vm F b parent)" "same_flight X (start_vm F b parent h src)"
  "same_flight X (spawn_failed F b vm)"
proof -
  show fs: "same_flight X (fork_source F p d)" for p d unfolding fork_source_def Let_def by (intro keeps flight)
  have c: "same_flight X (spawn_child F b p d ns)" for p d ns
    unfolding spawn_child_def new_vm_def by (intro keeps flight fs)
  have r: "same_flight X (spawn_root F b d ns)" for d ns
    unfolding spawn_root_def new_vm_def Let_def by (intro keeps flight)
  show "same_flight X (spawn_vm F b parent)" unfolding spawn_vm_def by (intro keeps flight c r)
  show "same_flight X (start_vm F b parent h src)" unfolding start_vm_def by (intro keeps flight) simp
  show "same_flight X (spawn_failed F b vm)" unfolding spawn_failed_def by (intro keeps flight) simp
qed

lemma fc_spawn_flight:
  assumes "fc_pending s = {}" "fc_parent_forks s = []"
  shows "in_flight_of (snd (fc_spawn F b parent s)) = ({}, [])"
proof -
  let ?X = "({b}, case parent of None \<Rightarrow> [] | Some p \<Rightarrow> [(p, 1)])"
  let ?done = "\<lambda>s :: ('a, 'b, 'c, 'd) fc. in_flight_of s = ({}, [])"
  have first: "triple ?done (fc_spawn_begin b parent) (\<lambda>_ s. in_flight_of s = ?X) ?done"
    by (cases parent) (simp_all add: triple_def fc_spawn_begin_def proc_defs in_flight_of_def)
  have body: "same_flight ?X (seqp (try_except (spawn_vm F b parent) (reraise (spawn_failed F b None))) (\<lambda>(h, src).
            try_except (start_vm F b parent h src) (reraise (spawn_failed F b (Some h)))))"
    by (intro keeps flight)
  have last: "triple (\<lambda>s. in_flight_of s = ?X) (fc_spawn_end b parent) (\<lambda>_. ?done) ?done"
    by (cases parent) (auto simp: triple_def fc_spawn_end_def modp_def in_flight_of_def)
  have "triple ?done (fc_spawn F b parent) (\<lambda>_. ?done) ?done"
    unfolding fc_spawn_def by (rule triple_seqp [OF first]) (rule triple_try_finally [OF body last last])
  from keeps_snd [OF this] show ?thesis using assms by (simp add: in_flight_of_def)
qed

text \<open>
  C26: A \<open>spawn\<close> of a branch that has no VMM, when no other is in flight, either returns, and then exactly one VMM was
  started, it runs and it is the branch's; or raises, and then every branch has the VMM it had and no VMM runs that did not
  before.  Either way no trace of it is left in the books of spawns and forks in flight, for which \<open>kill\<close> waits.
\<close>

theorem fc_spawn_all_or_nothing:
  assumes "fc_inv F s" "b \<notin> keys (fc_vms s)" "fc_pending s = {}" "fc_parent_forks s = []"
  shows "case fc_spawn F b parent s of (r, s') \<Rightarrow> fc_pending s' = {} \<and> fc_parent_forks s' = [] \<and>
    (case r of
       Inr _ \<Rightarrow> \<exists>h. \<not> vmm_running (fc_host s) h \<and> dget (fc_vms s') = (dget (fc_vms s))(b \<mapsto> h) \<and>
         (\<forall>k. vmm_running (fc_host s') k \<longleftrightarrow> k = h \<or> vmm_running (fc_host s) k)
     | Inl e \<Rightarrow> dget (fc_vms s') = dget (fc_vms s) \<and> (\<forall>k. vmm_running (fc_host s') k \<longleftrightarrow> vmm_running (fc_host s) k))"
proof -
  obtain V M where L: "fc_life s = (V, M)" by (cases "fc_life s")
  obtain r s' where r: "fc_spawn F b parent s = (r, s')" by fastforce
  have bounded: "bounded M" using assms(1) L by (simp add: fc_inv_def vmm_owned_def)
  have "V b = None" using assms(2) L by (auto simp: fc_boxes_life)
  note spec = tripleD [OF fc_spawn_life [where V = V and b = b and F = F and parent = parent, OF bounded this] L]
  have vms: "dget (fc_vms t) = fst (fc_life t)" for t :: "('a, 'b, 'c, 'd) fc" by (simp add: fc_life_def)
  have "in_flight_of s' = ({}, [])" using fc_spawn_flight [OF assms(3,4), of F b parent] r by simp
  moreover have "\<exists>h. \<not> vmm_running (fc_host s) h \<and> dget (fc_vms s') = (dget (fc_vms s))(b \<mapsto> h) \<and>
         (\<forall>k. vmm_running (fc_host s') k \<longleftrightarrow> k = h \<or> vmm_running (fc_host s) k)" if "r = Inr u" for u
    using spec(2) r that bounded L by (intro exI [of _ "fst M"]) (auto simp: running_life vms)
  moreover have "dget (fc_vms s') = dget (fc_vms s) \<and> (\<forall>k. vmm_running (fc_host s') k \<longleftrightarrow> vmm_running (fc_host s) k)"
    if "r = Inl e" for e
  proof -
    have l: "fst (fc_life s') = V" "only_dead_added M (snd (fc_life s'))" using spec(1) r that by blast+
    have "vmm_running (fc_host s') k \<longleftrightarrow> vmm_running (fc_host s) k" for k
      using l(2) bounded L by (cases "k < fst M") (auto simp: running_life only_dead_added_def not_less)
    then show ?thesis using l(1) L by (simp add: vms)
  qed
  ultimately show ?thesis using r by (auto simp: in_flight_of_def split: sum.split)
qed

theorem fc_spawn_all_or_nothing_witness:
  "fc_pending sample_fc_start = {} \<and> (case fc_spawn (sample_fc no_fault) ''a'' None sample_fc_start of (r, s') \<Rightarrow>
     r = Inr () \<and> (\<exists>h. dget (fc_vms s') ''a'' = Some h \<and> vmm_running (fc_host s') h))"
proof -
  obtain api where run: "fc_spawn (sample_fc no_fault) ''a'' None sample_fc_start = (Inr (), sample_root api)"
    using sample_root_run by blast
  have idle: "''a'' \<notin> keys (fc_vms sample_fc_start)" "fc_pending sample_fc_start = {}" "fc_parent_forks sample_fc_start = []"
    by (simp_all add: sample_fc_start_eq)
  show ?thesis using fc_spawn_all_or_nothing [OF sample_fc_start_ok(1) idle, of None] run idle by auto
qed

section \<open>Waiting for a guest\<close>

text \<open>
  The round counter of \<open>ready_loop\<close> is never used up: when the clock does not go back and a round takes the quarter of a
  second it sleeps, any larger bound gives the same result, so that the unbounded loop of the code ends with it.
\<close>

lemma reads_frame: "keeps (\<lambda>s. fc_reads s = k) (at_host m)" "keeps (\<lambda>s. fc_reads s = k) (of_sum r)"
  by (auto simp: keeps_iff at_host_def of_sum_def split: prod.split)

lemma probe_reads: "keeps (\<lambda>s. fc_reads s = k) (seqp (need_vm b) (\<lambda>_. drop_value (exec_live F run b argv t i)))"
  unfolding need_vm_def drop_value_def exec_live_def fc_host_dir_def fc_vm_dir_def Let_def
  by (intro keeps reads_frame)

abbreviation ready_probe :: "('r, 'v, 'd, 'w) fc_env \<Rightarrow> string \<Rightarrow> real \<Rightarrow> ('r, 'v, 'd, 'w, unit) fcp" where
  "ready_probe F b left \<equiv> seqp (need_vm b) (\<lambda>_. drop_value (exec_live F (fe_exec F) b [''true''] (Some (min 1 left)) None))"

lemma step_simps:
  "seqp (read_monotonic F) f s = f (fe_clock F (fc_reads s)) (s\<lparr>fc_reads := Suc (fc_reads s)\<rparr>)"
  "seqp (raise_if P e) g s = (if P s then (Inl e, s) else g () s)"
  by (simp_all add: seqp_def read_monotonic_def raise_if_def)

lemma ready_loop_round:
  "ready_loop F deadline b (Suc n) s =
     (let now = fe_clock F (fc_reads s); s1 = s\<lparr>fc_reads := Suc (fc_reads s)\<rparr> in
      if deadline - now \<le> 0 then (Inl VsockError, s1)
      else case ready_probe F b (deadline - now) s1 of
        (Inr x, s2) \<Rightarrow> (Inr x, s2)
      | (Inl e, s2) \<Rightarrow>
          if e \<noteq> VsockError then (Inl e, s2)
          else if deadline \<le> fe_clock F (fc_reads s2) then (Inl VsockError, s2\<lparr>fc_reads := Suc (fc_reads s2)\<rparr>)
          else ready_loop F deadline b n (s2\<lparr>fc_reads := Suc (fc_reads s2)\<rparr>))"
  by (simp add: step_simps Let_def try_except_def raise_def split: prod.split sum.split)

lemma ready_loop_enough:
  assumes sleeps: "\<And>i. fe_clock F i + 1 / 4 \<le> fe_clock F (i + 2)"
    and "deadline - fe_clock F (fc_reads s) \<le> real n / 4"
  shows "ready_loop F deadline b (Suc (n + k)) s = ready_loop F deadline b (Suc n) s"
  using assms(2)
proof (induction n arbitrary: s)
  case 0
  then show ?case by (simp add: ready_loop_round Let_def del: ready_loop.simps)
next
  case (Suc n)
  let ?now = "fe_clock F (fc_reads s)" and ?s1 = "s\<lparr>fc_reads := Suc (fc_reads s)\<rparr>"
  obtain r s2 where probe: "ready_probe F b (deadline - ?now) ?s1 = (r, s2)" by (cases "ready_probe F b (deadline - ?now) ?s1")
  have reads: "fc_reads s2 = Suc (fc_reads s)"
    using keeps_snd [OF probe_reads [of "Suc (fc_reads s)" b F "fe_exec F" "[''true'']" "Some (min 1 (deadline - ?now))" None], of ?s1] probe by simp
  have "deadline - fe_clock F (fc_reads (s2\<lparr>fc_reads := Suc (fc_reads s2)\<rparr>)) \<le> real n / 4"
    using Suc.prems sleeps [of "fc_reads s"] by (simp add: reads field_simps)
  from Suc.IH [OF this] show ?case
    unfolding ready_loop_round [of F deadline b "Suc (n + k)"] ready_loop_round [of F deadline b "Suc n" s] add_Suc Let_def probe
    by (simp split: sum.split del: ready_loop.simps)
qed

lemma wait_ready_bound:
  assumes "\<And>i. fe_clock F i \<le> fe_clock F (Suc i)" "\<And>i. fe_clock F i + 1 / 4 \<le> fe_clock F (i + 2)" "nat \<lceil>4 * t\<rceil> + 2 \<le> m"
    and "fb_vsock (fe_cfg F)"
  shows "fc_wait_ready F b (Some t) s = seqp (read_monotonic F) (\<lambda>now. ready_loop F (now + t) b m) s"
proof -
  define n where "n = nat \<lceil>4 * t\<rceil> + 1"
  obtain k where m: "m = Suc (n + k)" using assms(3) le_Suc_ex [of "Suc n" m] by (auto simp: n_def)
  have "4 * t \<le> real n" unfolding n_def by linarith
  then have "fe_clock F (fc_reads s) + t - fe_clock F (Suc (fc_reads s)) \<le> real n / 4" using assms(1) [of "fc_reads s"] by simp
  then have "ready_loop F (fe_clock F (fc_reads s) + t) b m (s\<lparr>fc_reads := Suc (fc_reads s)\<rparr>) =
      ready_loop F (fe_clock F (fc_reads s) + t) b (Suc n) (s\<lparr>fc_reads := Suc (fc_reads s)\<rparr>)"
    unfolding m by (intro ready_loop_enough [OF assms(2)]) simp
  then show ?thesis using assms(4) by (simp add: fc_wait_ready_def seqp_def read_monotonic_def n_def del: ready_loop.simps)
qed

end
