(* ===== verification/Firecracker_Recovery.thy ===== *)
theory Firecracker_Recovery
  imports Firecracker_Props
begin

text \<open>
  What a supervisor that was restarted can do with the pid records of \<open>FirecrackerSandbox\<close>: a record written by
  \<open>spawn\<close> names the VMM it started, \<open>alive\<close> and \<open>kill\<close> find it again, and a pid that another process has by now is
  not signalled.
\<close>

section \<open>Runs that return\<close>

named_theorems returns

lemma seqp_Inr [returns]: "seqp m f s = (Inr y, s') \<longleftrightarrow> (\<exists>x s1. m s = (Inr x, s1) \<and> f x s1 = (Inr y, s'))"
  by (auto simp: seqp_def split: prod.split sum.split)

lemma reraise_Inr [returns]: "reraise m e s = (Inr y, s') \<longleftrightarrow> False"
  by (auto simp: reraise_def seqp_Inr raise_def)

lemma try_reraise_Inr [returns]: "try_except m (reraise h) s = (Inr y, s') \<longleftrightarrow> m s = (Inr y, s')"
  by (auto simp: try_except_def reraise_Inr split: prod.split sum.split)

lemma try_finally_Inr [returns]: "try_finally m f s = (Inr y, s') \<longleftrightarrow> (\<exists>s1 u. m s = (Inr y, s1) \<and> f s1 = (Inr u, s'))"
  by (auto simp: try_finally_def split: prod.split sum.split)

lemma basic_Inr [returns]:
  "ret x s = (Inr y, s') \<longleftrightarrow> y = x \<and> s' = s" "raise e s = (Inr y, s') \<longleftrightarrow> False" "readp f s = (Inr z, s') \<longleftrightarrow> z = f s \<and> s' = s"
  "modp g s = (Inr u, s') \<longleftrightarrow> s' = g s" "raise_if c e s = (Inr u, s') \<longleftrightarrow> \<not> c s \<and> s' = s"
  "of_sum r s = (Inr w, s') \<longleftrightarrow> r = Inr w \<and> s' = s"
  by (auto simp: proc_defs of_sum_def split: sum.split)

lemma whenp_Inr [returns]: "whenp c m s = (Inr u, s') \<longleftrightarrow> (if c then m s = (Inr u, s') else s' = s)"
  by (auto simp: whenp_def ret_def)

lemma at_host_Inr [returns]: "at_host m s = (Inr x, s') \<longleftrightarrow> (\<exists>t. m (fc_host s) = (Inr x, t) \<and> s' = s\<lparr>fc_host := t\<rparr>)"
  by (auto simp: at_host_def split: prod.split)

lemma faulty_Inr [returns]:
  "faulty E k m t = (Inr x, t') \<longleftrightarrow> ve_fault E k (ho_calls t) = None \<and> m (t\<lparr>ho_calls := Suc (ho_calls t)\<rparr>) = (Inr x, t')"
  by (auto simp: faulty_def Let_def split: option.split)

section \<open>The record of a spawn\<close>

text \<open>A branch has a record of the VMM \<open>h\<close>, which has the identity it had when the record was written.\<close>

definition recorded :: "('r, 'v, 'd, 'w) fc_env \<Rightarrow> ('r, 'v, 'd) host \<Rightarrow> string \<Rightarrow> nat \<Rightarrow> bool" where
  "recorded F t b h \<longleftrightarrow> (\<exists>p v. pid_path F b = Inr p \<and> dget (ho_vmms t) h = Some v \<and> vm_state v = Running \<and>
     dget (ho_files t) p = Some (TextFile (fe_dumps F (pid_record (int h) (Some (vm_start v, fe_exe F))))))"

text \<open>The text of a record is read back: the codec inverts itself on it, and it has no blanks at its ends.\<close>

definition codec_ok :: "('r, 'v, 'd, 'w) fc_env \<Rightarrow> json \<Rightarrow> bool" where
  "codec_ok F j \<longleftrightarrow> fe_loads F (fe_dumps F j) = Inr j \<and> py_strip (fe_dumps F j) = fe_dumps F j"

text \<open>The record of the VMM \<open>h\<close> as it is.\<close>

definition vmm_record :: "('r, 'v, 'd, 'w) fc_env \<Rightarrow> ('r, 'v, 'd) host \<Rightarrow> nat \<Rightarrow> json" where
  "vmm_record F t h = pid_record (int h) (map_option (\<lambda>v. (vm_start v, fe_exe F)) (dget (ho_vmms t) h))"

lemma write_pid_record_recorded:
  assumes "write_pid_record F b h s = (Inr u, s')" "vmm_running (fc_host s) h"
  shows "recorded F (fc_host s') b h"
proof -
  obtain v where v: "dget (ho_vmms (fc_host s)) h = Some v" "vm_state v = Running"
    using assms(2) by (auto simp: vmm_running_def split: option.splits)
  then show ?thesis
    using assms(1)
    by (auto simp: recorded_def write_pid_record_def Let_def write_file_def process_identity_def proc_at_def returns)
qed

lemma fc_spawn_Inr:
  assumes "fc_spawn F b parent s = (Inr u, s')"
  obtains s1 h src s2 s3 where "fc_spawn_begin b parent s = (Inr (), s1)" "spawn_vm F b parent s1 = (Inr (h, src), s2)"
    "start_vm F b parent h src s2 = (Inr (), s3)" "fc_spawn_end b parent s3 = (Inr (), s')"
  using assms unfolding fc_spawn_def seqp_Inr try_finally_Inr try_reraise_Inr prod.case_eq_if by auto

lemma start_vm_Inr:
  assumes "start_vm F b parent h src s = (Inr (), s')"
  obtains u1 s1 u2 s2 where "at_host (case src of
         None \<Rightarrow> vm_boot (fe_vm F) h (fb_kernel (fe_cfg F)) (fb_rootfs (fe_cfg F))
             (if fb_overlay_mib (fe_cfg F) \<noteq> None then Some OVERLAY else None) (if fb_vsock (fe_cfg F) then Some VSOCK else None)
             (if fb_network (fe_cfg F) \<noteq> None then Some TAP_DEV else None)
       | Some (mem, state) \<Rightarrow> vm_restore (fe_vm F) h mem state) s = (Inr u1, s1)"
    "write_pid_record F b h s1 = (Inr u2, s2)" "fc_host s' = fc_host s2" "dget (fc_vms s') b = Some h"
  using assms unfolding start_vm_def seqp_Inr start_reseed_def basic_Inr whenp_Inr
  by (elim exE conjE) (rule that, assumption, assumption, auto split: if_splits)

lemma fc_spawn_end_frame: "fc_spawn_end b parent s = (Inr (), s') \<Longrightarrow> fc_host s' = fc_host s \<and> fc_vms s' = fc_vms s"
  by (auto simp: fc_spawn_end_def modp_def)

lemma fc_spawn_returns:
  assumes "fc_inv F s" "fc_spawn F b parent s = (Inr u, s')"
  shows "fc_life s' = ((dget (fc_vms s))(b \<mapsto> ho_next (fc_host s)), Suc (ho_next (fc_host s)),
    (snd (host_life (fc_host s)))(ho_next (fc_host s) \<mapsto> (Running, True)))"
proof -
  obtain V M where L: "fc_life s = (V, M)" by (cases "fc_life s")
  have bounded: "bounded M" using assms(1) L by (simp add: fc_inv_def vmm_owned_def)
  have "b \<notin> keys (fc_vms s)" using fc_spawn_taken [of b s F parent] assms(2) by auto
  then have "V b = None" using L by (auto simp: fc_boxes_life)
  from tripleD(2) [OF fc_spawn_life [where V = V and b = b and F = F and parent = parent, OF bounded this] L assms(2)] L
  show ?thesis by (auto simp: fc_life_def host_life_def)
qed

lemma spawn_recorded:
  assumes "fc_inv F s" "fc_spawn F b parent s = (Inr u, s')"
  obtains h where "recorded F (fc_host s') b h" "dget (fc_vms s') b = Some h"
proof -
  from assms(2) obtain s1 h src s2 s3 where "start_vm F b parent h src s2 = (Inr (), s3)" "fc_spawn_end b parent s3 = (Inr (), s')"
    by (rule fc_spawn_Inr)
  then obtain s4 u s5 where w: "write_pid_record F b h s4 = (Inr u, s5)" "fc_host s' = fc_host s5" "dget (fc_vms s') b = Some h"
    by (metis start_vm_Inr fc_spawn_end_frame)
  have "vmm_running (fc_host s') h" using fc_spawn_returns [OF assms] w(3) by (auto simp: running_life fc_life_def)
  moreover have "fc_life s5 = fc_life s4" using keeps_snd [OF write_pid_record_same [of "fc_life s4" F b h] refl] w(1) by simp
  ultimately have "vmm_running (fc_host s4) h" using w(2) by (simp add: running_life fc_life_def)
  from write_pid_record_recorded [OF w(1) this] w(2,3) that show thesis by simp
qed

section \<open>Finding it again\<close>

lemma recorded_reads:
  assumes "recorded F (fc_host s) b h" "codec_ok F (vmm_record F (fc_host s) h)"
  obtains p v where "pid_path F b = Inr p" "dget (ho_vmms (fc_host s)) h = Some v" "vm_state v = Running"
    "seqp (read_text p) (\<lambda>t. of_sum (parse_pid_record (fe_loads F) (py_strip t))) s = (Inr (int h, JInt (vm_start v), JStr (fe_exe F)), s)"
proof -
  from assms(1) obtain p v where p: "pid_path F b = Inr p" "dget (ho_vmms (fc_host s)) h = Some v" "vm_state v = Running"
    "dget (ho_files (fc_host s)) p = Some (TextFile (fe_dumps F (pid_record (int h) (Some (vm_start v, fe_exe F)))))"
    by (auto simp: recorded_def)
  have parse: "parse_pid_record (fe_loads F) (py_strip (fe_dumps F (pid_record (int h) (Some (vm_start v, fe_exe F))))) =
      Inr (int h, JInt (vm_start v), JStr (fe_exe F))"
    using assms(2) p(2) by (simp add: codec_ok_def vmm_record_def parse_pid_record_def pid_record_def)
  show thesis by (rule that [OF p(1-3)]) (simp add: seqp_def read_text_def p(4) parse of_sum_def)
qed

lemma recorded_alive:
  assumes "recorded F (fc_host s) b h" "codec_ok F (vmm_record F (fc_host s) h)" "b \<notin> keys (fc_vms s)"
  shows "fc_alive F b s = (Inr True, s)"
proof -
  from assms(1,2) obtain p v where r: "pid_path F b = Inr p" "dget (ho_vmms (fc_host s)) h = Some v" "vm_state v = Running"
    "seqp (read_text p) (\<lambda>t. of_sum (parse_pid_record (fe_loads F) (py_strip t))) s = (Inr (int h, JInt (vm_start v), JStr (fe_exe F)), s)"
    by (rule recorded_reads)
  from r(4) obtain t where t: "read_text p s = (Inr t, s)"
      "parse_pid_record (fe_loads F) (py_strip t) = Inr (int h, JInt (vm_start v), JStr (fe_exe F))"
    by (auto simp: seqp_def of_sum_def read_text_def split: option.splits hostfile.splits sum.splits)
  have "dget (fc_vms s) b = None" using assms(3) by (simp add: dget_None_iff)
  with r(1-3) t show ?thesis
    by (simp add: fc_alive_def read_pid_record_def process_identity_def pid_is_our_vmm_def proc_at_def proc_defs of_sum_def)
qed

lemma recorded_kill:
  assumes "recorded F (fc_host s) b h" "codec_ok F (vmm_record F (fc_host s) h)" "b \<notin> keys (fc_vms s)"
    and "\<And>n. ve_fault (fe_vm F) OpPidfd n = None" "\<And>n. ve_fault (fe_vm F) OpSignal n = None"
  shows "\<not> vmm_running (fc_host (snd (fc_kill F b s))) h"
proof -
  let ?s = "s\<lparr>fc_vms := ddel b (fc_vms s), fc_snapshots := ddel b (fc_snapshots s), fc_gen := ddel b (fc_gen s),
      fc_snap_gen := ddel b (fc_snap_gen s)\<rparr>"
  have "recorded F (fc_host ?s) b h" "codec_ok F (vmm_record F (fc_host ?s) h)" using assms(1,2) by simp_all
  then obtain p v where r: "pid_path F b = Inr p" "dget (ho_vmms (fc_host ?s)) h = Some v" "vm_state v = Running"
    "seqp (read_text p) (\<lambda>t. of_sum (parse_pid_record (fe_loads F) (py_strip t))) ?s = (Inr (int h, JInt (vm_start v), JStr (fe_exe F)), ?s)"
    by (rule recorded_reads)
  let ?finish = "seqp (teardown_netns F b) (\<lambda>_. seqp (fc_remove F p) (\<lambda>_. cleanup_artifacts F b))"
  obtain s1 where s1: "signal_recorded F (int h) (vm_start v, fe_exe F) ?s = (Inr (), s1)" "\<not> vmm_running (fc_host s1) h"
    using r(2,3) assms(4,5)
    by (simp add: signal_recorded_def proc_defs at_host_def faulty_def process_identity_def proc_at_def signal_pid_def on_vmm_def vmm_running_def)
  have same: "same_life L ?finish" for L by (intro keeps life)
  have "fc_life (snd (?finish s1)) = fc_life s1" by (rule keeps_snd [OF same refl])
  then have "\<not> vmm_running (fc_host (snd (?finish s1))) h" using s1(2) by (simp add: running_life)
  moreover have "kill_recorded F b p (int h, JInt (vm_start v), JStr (fe_exe F)) ?s = ?finish s1"
    using r(2,3) s1(1) by (simp add: kill_recorded_def process_identity_def pid_is_our_vmm_def proc_at_def seqp_def readp_def)
  moreover have "dget (fc_vms s) b = None" using assms(3) by (simp add: dget_None_iff)
  then have "fc_kill F b s = kill_unknown F b p ?s" using r(1) by (simp add: fc_kill_def seqp_def readp_def modp_def of_sum_def)
  ultimately show ?thesis using r(4) by (simp add: kill_unknown_def)
qed

text \<open>
  C28: Round trip through the pid record: after a \<open>spawn\<close> that returned, a supervisor that was restarted and has no handle
  on the branch finds its VMM alive, and its \<open>kill\<close> ends that VMM, whatever else fails, as long as the pidfd can be
  opened and the signal sent.  The JSON codec need only read back the one record as it was written.
\<close>

theorem restarted_adapter_recovers:
  assumes "fc_inv F s" "fc_spawn F b parent s = (Inr (), s')" "dget (fc_vms s') b = Some h"
    and "fc_host t = fc_host s'" "b \<notin> keys (fc_vms t)" "codec_ok F (vmm_record F (fc_host s') h)"
    and "\<And>n. ve_fault (fe_vm F) OpPidfd n = None" "\<And>n. ve_fault (fe_vm F) OpSignal n = None"
  shows "vmm_running (fc_host t) h \<and> fc_alive F b t = (Inr True, t) \<and> \<not> vmm_running (fc_host (snd (fc_kill F b t))) h"
proof -
  have rec: "recorded F (fc_host t) b h" using spawn_recorded [OF assms(1,2)] assms(3,4) by (metis option.inject)
  then have "vmm_running (fc_host t) h" by (auto simp: recorded_def vmm_running_def)
  with recorded_alive [OF rec _ assms(5)] recorded_kill [OF rec _ assms(5,7,8)] assms(4,6) show ?thesis by simp
qed

theorem restarted_adapter_recovers_witness:
  "\<exists>t. fc_vms t = [] \<and> vmm_running (fc_host t) 0 \<and> fc_alive (sample_fc no_fault) ''a'' t = (Inr True, t) \<and>
     \<not> vmm_running (fc_host (snd (fc_kill (sample_fc no_fault) ''a'' t))) 0"
proof -
  obtain api where run: "fc_spawn (sample_fc no_fault) ''a'' None sample_fc_start = (Inr (), sample_root api)"
    using sample_root_run by blast
  let ?t = "(sample_root api)\<lparr>fc_vms := []\<rparr>"
  have "str_int 0 = ''0''" "py_strip ''0'' = ''0''" by code_simp+
  then have codec: "codec_ok (sample_fc no_fault) (vmm_record (sample_fc no_fault) (fc_host (sample_root api)) 0)"
    by (simp add: codec_ok_def vmm_record_def pid_record_def sample_root_def)
  have "vmm_running (fc_host ?t) 0 \<and> fc_alive (sample_fc no_fault) ''a'' ?t = (Inr True, ?t) \<and>
     \<not> vmm_running (fc_host (snd (fc_kill (sample_fc no_fault) ''a'' ?t))) 0"
    by (rule restarted_adapter_recovers [OF sample_fc_start_ok(1) run _ _ _ codec]) (simp_all add: sample_root_def)
  then show ?thesis by (intro exI [of _ ?t]) simp
qed

section \<open>A pid that was recycled\<close>

abbreviation same_others :: "(int, proc_info) dict \<Rightarrow> ('r, 'v, 'd, 'w, 'a) fcp \<Rightarrow> bool" where
  "same_others X m \<equiv> keeps (\<lambda>s. ho_other (fc_host s) = X) m"

lemma others_host:
  "keeps (\<lambda>t. ho_other t = X) m \<Longrightarrow> same_others X (at_host m)"
  "keeps (\<lambda>t. ho_other t = X) m \<Longrightarrow> keeps (\<lambda>t. ho_other t = X) (faulty E k m)"
  by (auto simp: keeps_iff at_host_def faulty_def Let_def split: prod.split option.split)

lemma others_files: "same_others X (fc_write F p c)" "same_others X (fc_remove F p)" "same_others X (rmtree F p)"
  unfolding write_file_def fc_remove_def rmtree_def ignore_missing_def by ((intro keeps others_host, simp)[1])+

lemma others_discard: "same_others X (discard_branch F b p)"
proof -
  have d: "same_others X (fc_vm_dir F b)" unfolding fc_vm_dir_def by (intro keeps others_files) (auto simp: keeps_iff of_sum_def)
  have i: "same_others X (netns_idx_path F b)" unfolding netns_idx_path_def by (intro keeps d)
  have r: "same_others X (recovered_index F b)" unfolding recovered_index_def
    by (intro keeps i) (auto simp: keeps_iff of_sum_def read_text_def split: option.split hostfile.split)
  have "same_others X (teardown_netns F b)"
    unfolding teardown_netns_def by (intro keeps i r others_files) (auto simp: keeps_iff at_net_def split: prod.split)
  moreover have "same_others X (cleanup_artifacts F b)"
    unfolding cleanup_artifacts_def by (intro keeps others_files) (auto simp: keeps_iff of_sum_def)
  ultimately show ?thesis unfolding discard_branch_def by (intro keeps others_files)
qed

text \<open>
  C29: \<open>kill\<close> of a branch without a handle signals nothing when the recorded pid does not, by its start time and its
  executable, belong to the recorded process any more: no VMM and no other process of the host is ended.
\<close>

theorem recycled_pid_spared:
  assumes "b \<notin> keys (fc_vms s)" "pid_path F b = Inr p" "dget (ho_files (fc_host s)) p = Some (TextFile t)"
    and "parse_pid_record (fe_loads F) (py_strip t) = Inr (pid, JInt st, JStr ex)"
    and "map_option (\<lambda>i. (pi_start i, pi_exe i)) (proc_at F (fc_host s) pid) \<noteq> Some (st, ex)"
  shows "case snd (fc_kill F b s) of s' \<Rightarrow> ho_other (fc_host s') = ho_other (fc_host s) \<and>
     (\<forall>h. vmm_running (fc_host s') h \<longleftrightarrow> vmm_running (fc_host s) h)"
proof -
  let ?s = "s\<lparr>fc_vms := ddel b (fc_vms s), fc_snapshots := ddel b (fc_snapshots s), fc_gen := ddel b (fc_gen s),
      fc_snap_gen := ddel b (fc_snap_gen s)\<rparr>"
  have "dget (fc_vms s) b = None" using assms(1) by (simp add: dget_None_iff)
  then have "fc_kill F b s = kill_unknown F b p ?s" using assms(2) by (simp add: fc_kill_def seqp_def readp_def modp_def of_sum_def)
  also have "\<dots> = kill_recorded F b p (pid, JInt st, JStr ex) ?s"
    using assms(3,4) by (simp add: kill_unknown_def seqp_def read_text_def of_sum_def)
  also have "\<dots> = discard_branch F b p ?s"
    using assms(5) by (auto simp: kill_recorded_def process_identity_def pid_is_our_vmm_def seqp_def readp_def split: option.split)
  finally have run: "fc_kill F b s = discard_branch F b p ?s" .
  have same: "same_life L (discard_branch F b p)" for L unfolding discard_branch_def by (intro keeps life)
  have "fc_life (snd (discard_branch F b p ?s)) = fc_life ?s" by (rule keeps_snd [OF same refl])
  moreover have "ho_other (fc_host (snd (discard_branch F b p ?s))) = ho_other (fc_host ?s)"
    by (rule keeps_snd [OF others_discard refl])
  ultimately show ?thesis by (simp add: run running_life fc_life_def)
qed

text \<open>A host where pid 0 now belongs to another program than the VMM that is recorded.\<close>

theorem recycled_pid_spared_witness:
  "\<exists>s. dget (ho_other (fc_host s)) 0 = Some \<lparr>pi_start = 9, pi_exe = ''/sh'', pi_comm = ''fc''\<rparr> \<and>
     dget (ho_other (fc_host (snd (fc_kill (sample_fc no_fault) ''a'' s)))) 0 = Some \<lparr>pi_start = 9, pi_exe = ''/sh'', pi_comm = ''fc''\<rparr>"
proof -
  let ?other = "\<lparr>pi_start = 9, pi_exe = ''/sh'', pi_comm = ''fc''\<rparr>"
  let ?s = "(sample_root [])\<lparr>fc_vms := [], fc_host := (fc_host (sample_root []))\<lparr>ho_vmms := [], ho_other := [(0, ?other)]\<rparr>\<rparr>"
  have zero: "str_int 0 = ''0''" "py_strip ''0'' = ''0''" by code_simp+
  have "case snd (fc_kill (sample_fc no_fault) ''a'' ?s) of s' \<Rightarrow> ho_other (fc_host s') = ho_other (fc_host ?s) \<and>
     (\<forall>h. vmm_running (fc_host s') h \<longleftrightarrow> vmm_running (fc_host ?s) h)"
    by (rule recycled_pid_spared [where p = "''/w/a/fc.pid''" and t = "''0''" and pid = 0 and st = 0 and ex = "''/fc''"])
      (simp_all add: zero sample_root_def pid_path_def join_path_def parse_pid_record_def proc_at_def)
  then show ?thesis by (intro exI [of _ ?s]) simp
qed

section \<open>A restart that fails\<close>

text \<open>
  When the VMM that \<open>restart\<close> starts cannot load its snapshot, \<open>restart\<close> raises and the VMM goes on running: no branch
  has a handle on it, and its pid record was removed before, so that \<open>kill\<close> does not find it either.
\<close>

definition crashed_root :: "(string list list, unit, string list, unit) fc" where
  "crashed_root = (sample_root [])\<lparr>fc_host := on_vmm 0 (\<lambda>v. v\<lparr>vm_state := Zombie\<rparr>)
     ((fc_host (sample_root []))\<lparr>ho_files := ho_files (fc_host (sample_root [])) @
        [(''/w/a/mem'', MemFile []), (''/w/a/state'', StateFile ())]\<rparr>)\<rparr>"

lemma restart_leaks_vmm:
  "\<exists>F s'. fc_restart F ''a'' crashed_root = (Inl RuntimeError, s') \<and> vmm_running (fc_host s') 1 \<and> fc_vms s' = [] \<and>
     (\<exists>s''. fc_kill F ''a'' s' = (Inr (), s'') \<and> vmm_running (fc_host s'') 1)"
proof -
  let ?F = "sample_fc (\<lambda>k n. if k = OpApi then Some RuntimeError else None)"
  have "\<exists>s'. fc_restart ?F ''a'' crashed_root = (Inl RuntimeError, s') \<and> vmm_running (fc_host s') 1 \<and> fc_vms s' = [] \<and>
     (\<exists>s''. fc_kill ?F ''a'' s' = (Inr (), s'') \<and> vmm_running (fc_host s'') 1)"
    by (simp add: crashed_root_def sample_root_def fc_restart_def vm_lives_def restore_paths_def restart_vm_def fc_remove_def ignore_missing_def
        fc_kill_def kill_unknown_def read_text_def cleanup_artifacts_def rmtree_def run_fc cong: weak_procs)
  then show ?thesis by blast
qed

end
