(* ===== verification/Firecracker_Forks.thy ===== *)
theory Firecracker_Forks
  imports Firecracker_Recovery
begin

text \<open>
  What a forked child starts with: the memory, the device state and the overlay its parent has when the fork returns,
  provided that the parent's snapshot was stale, which every \<open>exec\<close> makes it.
\<close>

section \<open>What the bookkeeping of snapshots rests on\<close>

definition books :: "('r, 'v, 'd, 'w) fc \<Rightarrow> (string, nat) dict \<times> (string, string \<times> string) dict \<times> (string, int) dict \<times> (string, int) dict" where
  "books s = (fc_vms s, fc_snapshots s, fc_gen s, fc_snap_gen s)"

lemma books_frame [simp]:
  "books (s\<lparr>fc_host := t\<rparr>) = books s" "books (s\<lparr>fc_net := n\<rparr>) = books s" "books (s\<lparr>fc_pending := x\<rparr>) = books s"
  "books (s\<lparr>fc_parent_forks := x'\<rparr>) = books s" "books (s\<lparr>fc_netns_index := i\<rparr>) = books s"
  by (simp_all add: books_def)

abbreviation same_books_as :: "(string, nat) dict \<times> (string, string \<times> string) dict \<times> (string, int) dict \<times> (string, int) dict \<Rightarrow>
    ('r, 'v, 'd, 'w, 'a) fcp \<Rightarrow> bool" where
  "same_books_as X m \<equiv> keeps (\<lambda>s. books s = X) m"

lemma books_basic:
  "same_books_as X (at_host m)" "same_books_as X (at_net m')" "same_books_as X (of_sum r)"
  by (auto simp: keeps_iff at_host_def at_net_def of_sum_def split: prod.splits)

lemma books_dirs: "same_books_as X (fc_vm_dir F b)" "same_books_as X (fc_host_dir F b)" "same_books_as X (netns_idx_path F b)"
proof -
  show d: "same_books_as X (fc_vm_dir F b)" unfolding fc_vm_dir_def by (intro keeps books_basic)
  show "same_books_as X (fc_host_dir F b)"
    unfolding fc_host_dir_def Let_def by (cases "fb_jailer (fe_cfg F)") (auto intro!: keeps_seqp keeps_simple books_basic d)
  show "same_books_as X (netns_idx_path F b)" unfolding netns_idx_path_def by (intro keeps d)
qed

lemma books_begin: "same_books_as X (fc_spawn_begin b parent)" "same_books_as X (setup_netns F b)"
proof -
  show "same_books_as X (fc_spawn_begin b parent)" unfolding fc_spawn_begin_def by (intro keeps) simp
  show "same_books_as X (setup_netns F b)"
    unfolding setup_netns_def by (cases "fb_network (fe_cfg F)") (auto intro!: keeps_seqp keeps_simple keeps_modp keeps_prod books_basic books_dirs)
qed

lemma books_after: "(\<And>X. same_books_as X m) \<Longrightarrow> m s = (r, s') \<Longrightarrow> books s' = books s"
  using keeps_snd [of "\<lambda>t. books t = books s" m s] by simp

section \<open>Distinct files\<close>

lemma join_path_last:
  assumes "\<not> prefix ''/'' x" "\<not> prefix ''/'' y" "\<not> suffix x y" "\<not> suffix y x"
  shows "join_path a x \<noteq> join_path b y"
proof
  assume eq: "join_path a x = join_path b y"
  have "suffix x (join_path a x)" "suffix y (join_path b y)" using assms(1,2) by (auto simp: join_path_def suffix_def)
  then show False using eq assms(3,4) suffix_same_cases [of x "join_path a x" y] by simp
qed

lemma distinct_files [simp]:
  "join_path a ''mem'' \<noteq> join_path b ''state''" "join_path a ''state'' \<noteq> join_path b ''mem''"
  "join_path a ''mem'' \<noteq> join_path b OVERLAY" "join_path a ''state'' \<noteq> join_path b OVERLAY"
  "join_path a ''mem'' \<noteq> join_path b ''fc.log''" "join_path a ''state'' \<noteq> join_path b ''fc.log''"
  "join_path a OVERLAY \<noteq> join_path b ''fc.log''" "join_path a OVERLAY \<noteq> join_path b ''fc.pid''"
  "join_path a OVERLAY \<noteq> join_path b ''fc.pid'' @ ''.tmp''"
proof -
  note last = join_path_last [OF _ _ _ _, of _ _ a b]
  show "join_path a ''mem'' \<noteq> join_path b ''state''" "join_path a ''state'' \<noteq> join_path b ''mem''"
    "join_path a ''mem'' \<noteq> join_path b OVERLAY" "join_path a ''state'' \<noteq> join_path b OVERLAY"
    "join_path a ''mem'' \<noteq> join_path b ''fc.log''" "join_path a ''state'' \<noteq> join_path b ''fc.log''"
    "join_path a OVERLAY \<noteq> join_path b ''fc.log''" "join_path a OVERLAY \<noteq> join_path b ''fc.pid''"
    by (rule last; simp add: OVERLAY_def suffix_def Cons_eq_append_conv)+
  have "join_path b ''fc.pid'' @ ''.tmp'' = join_path b ''fc.pid.tmp''" by (simp add: join_path_def)
  then show "join_path a OVERLAY \<noteq> join_path b ''fc.pid'' @ ''.tmp''"
    using last [of OVERLAY "''fc.pid.tmp''"] by (simp add: OVERLAY_def suffix_def Cons_eq_append_conv)
qed

section \<open>Requests that return\<close>

lemma vm_request_Inr:
  "vm_request E h meth path body f t = (Inr u, t') \<longleftrightarrow> ve_fault E OpApi (ho_calls t) = None \<and>
     (\<exists>v. dget (ho_vmms t) h = Some v \<and> vm_state v = Running \<and>
        f v (t\<lparr>ho_calls := Suc (ho_calls t), ho_api := ho_api t @ [(h, meth, path, body)]\<rparr>) = (Inr u, t'))"
  by (auto simp: vm_request_def faulty_Inr split: option.splits)

lemma vm_path_Inr: "vm_path E h p t = (Inr q, t') \<Longrightarrow> t' = t"
  by (auto simp: vm_path_def Let_def split: option.splits if_splits)

text \<open>What a host knows of a VM: its guest and whether it is paused.\<close>

definition guest_at :: "('r, 'v, 'd) host \<Rightarrow> nat \<Rightarrow> (('r \<times> 'v) option \<times> bool) option" where
  "guest_at t h = map_option (\<lambda>v. (vm_guest v, vm_paused v)) (dget (ho_vmms t) h)"

lemma guest_at_frame [simp]:
  "guest_at (t\<lparr>ho_files := x\<rparr>) = guest_at t" "guest_at (t\<lparr>ho_calls := n\<rparr>) = guest_at t" "guest_at (t\<lparr>ho_api := a\<rparr>) = guest_at t"
  by (simp_all add: guest_at_def fun_eq_iff)

lemma guest_at_on_vmm:
  "(\<And>v. (vm_guest (f v), vm_paused (f v)) = g (vm_guest v, vm_paused v)) \<Longrightarrow>
   guest_at (on_vmm h f t) k = (if k = h then map_option g (guest_at t k) else guest_at t k)"
  by (auto simp: guest_at_def on_vmm_def option.map_comp comp_def split: option.split)

lemma on_vmm_files [simp]: "ho_files (on_vmm h f t) = ho_files t" "ho_next (on_vmm h f t) = ho_next t"
  by (simp_all add: on_vmm_def split: option.split)

lemma pause_guest:
  "vm_pause E h t = (Inr u, t') \<Longrightarrow> guest_at t' k = (if k = h then map_option (\<lambda>(g, _). (g, True)) (guest_at t k) else guest_at t k) \<and> ho_files t' = ho_files t"
  "vm_resume E h t = (Inr u, t') \<Longrightarrow> guest_at t' k = (if k = h then map_option (\<lambda>(g, _). (g, False)) (guest_at t k) else guest_at t k) \<and> ho_files t' = ho_files t"
  by (auto simp: vm_pause_def vm_resume_def vm_request_Inr modp_def guest_at_on_vmm [where g = "\<lambda>(g, _). (g, True)"]
      guest_at_on_vmm [where g = "\<lambda>(g, _). (g, False)"])

lemma snapshot_files:
  assumes "vm_snapshot E h mem state t = (Inr u, t')" "mem \<noteq> state"
  shows "\<exists>r d. guest_at t h = Some (Some (r, d), True) \<and> guest_at t' = guest_at t \<and>
    dget (ho_files t') = (dget (ho_files t))(mem \<mapsto> MemFile r, state \<mapsto> StateFile d)"
proof -
  from assms(1) obtain v n a where v: "dget (ho_vmms t) h = Some v"
    and eff: "(case vm_guest v of None \<Rightarrow> raise RuntimeError
      | Some (r, d) \<Rightarrow> if \<not> vm_paused v then raise RuntimeError
          else modp (\<lambda>s. s\<lparr>ho_files := dset mem (MemFile r) (dset state (StateFile d) (ho_files s))\<rparr>)) (t\<lparr>ho_calls := n, ho_api := a\<rparr>) = (Inr u, t')"
    by (auto simp: vm_snapshot_def seqp_Inr vm_request_Inr dest!: vm_path_Inr)
  from eff obtain r d where "vm_guest v = Some (r, d)" "vm_paused v"
    by (cases "vm_guest v"; cases "vm_paused v") (auto simp: basic_Inr)
  with eff v assms(2) show ?thesis
    by (intro exI [of _ r] exI [of _ d]) (auto simp: basic_Inr guest_at_def fun_eq_iff)
qed

lemma restore_guest:
  assumes "vm_restore E h mem state t = (Inr u, t')" "dget (ho_files t) mem = Some (MemFile r)" "dget (ho_files t) state = Some (StateFile d)"
  shows "guest_at t' k = (if k = h then Some (Some (r, d), False) else guest_at t k) \<and> ho_files t' = ho_files t"
  using assms
  by (auto simp: vm_restore_def seqp_Inr vm_request_Inr guest_at_on_vmm [where g = "\<lambda>_. (Some (r, d), False)"] dest!: vm_path_Inr)
    (simp add: guest_at_def)

lemma write_file_Inr: "write_file E p c t = (Inr u, t') \<Longrightarrow> guest_at t' = guest_at t \<and> ho_next t' = ho_next t \<and> ho_files t' = dset p c (ho_files t)"
  by (auto simp: write_file_def faulty_Inr basic_Inr)

lemma microvm_fresh:
  assumes "microvm E fc_bin d None ns t = (Inr h, t')"
  shows "h = ho_next t \<and> (k = ho_next t \<or> guest_at t' k = guest_at t k) \<and>
    dget (ho_files t') = (dget (ho_files t))(join_path d ''fc.log'' \<mapsto> TextFile [])"
proof -
  have popen: "vm_popen E d hd j argv t1 = (Inr h, t2) \<Longrightarrow> h = ho_next t1 \<and> (k = ho_next t1 \<or> guest_at t2 k = guest_at t1 k) \<and> ho_files t2 = ho_files t1"
    for hd j argv h t1 t2 by (auto simp: vm_popen_def faulty_Inr guest_at_def split: if_splits)
  have pidfd: "faulty E OpPidfd (modp (on_vmm h (\<lambda>v. v\<lparr>vm_pidfd := True\<rparr>))) t1 = (Inr u, t2) \<Longrightarrow> guest_at t2 k = guest_at t1 k \<and> ho_files t2 = ho_files t1"
    for h t1 t2 u by (auto simp: faulty_Inr basic_Inr guest_at_on_vmm [where g = "\<lambda>x. x"] option.map_ident)
  show ?thesis
    using assms
    by (auto simp: microvm_def Let_def vm_host_path_def seqp_Inr try_reraise_Inr basic_Inr whenp_Inr faulty_Inr [of E OpSocket]
        fun_eq_iff dest!: write_file_Inr popen pidfd)
qed

lemma write_pid_guest:
  assumes "write_pid_record F b h s = (Inr u, s')" "vm_dir_path F b = Inr d"
  shows "guest_at (fc_host s') = guest_at (fc_host s) \<and>
    dget (ho_files (fc_host s')) (join_path x OVERLAY) = dget (ho_files (fc_host s)) (join_path x OVERLAY)"
  using assms
  by (auto simp: write_pid_record_def process_identity_def Let_def seqp_Inr basic_Inr at_host_Inr faulty_Inr pid_path_def dest!: write_file_Inr)

section \<open>The snapshot a child restores\<close>

lemma while_paused_Inr:
  assumes "while_paused F h body s = (Inr u, s')"
  obtains t s2 v where "vm_pause (fe_vm F) h (fc_host s) = (Inr (), t)" "body (s\<lparr>fc_host := t\<rparr>) = (Inr v, s2)"
    "at_host (vm_resume (fe_vm F) h) s2 = (Inr u, s')"
proof -
  from assms obtain t where t: "vm_pause (fe_vm F) h (fc_host s) = (Inr (), t)"
    and inner: "(case body (s\<lparr>fc_host := t\<rparr>) of (Inl e, s1) \<Rightarrow> (Inl e, snd (at_host (vm_resume (fe_vm F) h) s1))
      | (Inr _, s1) \<Rightarrow> at_host (vm_resume (fe_vm F) h) s1) = (Inr u, s')"
    unfolding while_paused_def seqp_Inr at_host_Inr by auto
  obtain r s2 where "body (s\<lparr>fc_host := t\<rparr>) = (r, s2)" by fastforce
  with t inner that show thesis by (cases r) auto
qed

lemma copy_overlay_Inr:
  assumes "overlay_for_child F pdir cdir s = (Inr u, s')" "fb_overlay_mib (fe_cfg F) \<noteq> None"
  shows "guest_at (fc_host s') = guest_at (fc_host s) \<and> (\<exists>c. dget (ho_files (fc_host s)) (join_path pdir OVERLAY) = Some c \<and>
    dget (ho_files (fc_host s')) = (dget (ho_files (fc_host s)))(join_path cdir OVERLAY \<mapsto> c))"
  using assms
  by (auto simp: overlay_for_child_def whenp_Inr seqp_Inr copy_overlay_def at_host_Inr copy_file_def chown_into_jail_def faulty_Inr
      basic_Inr fun_eq_iff dest!: write_file_Inr split: option.splits if_splits)

text \<open>A refreshed snapshot has the guest as it is afterwards, and the child's overlay is the parent's.\<close>

definition forkable :: "('r, 'v, 'd, 'w) fc_env \<Rightarrow> ('r, 'v, 'd) host \<Rightarrow> nat \<Rightarrow> string \<Rightarrow> string \<Rightarrow> bool" where
  "forkable F t h pdir cdir \<longleftrightarrow> (\<exists>r d. guest_at t h = Some (Some (r, d), False) \<and>
     dget (ho_files t) (join_path pdir ''mem'') = Some (MemFile r) \<and> dget (ho_files t) (join_path pdir ''state'') = Some (StateFile d)) \<and>
   (fb_overlay_mib (fe_cfg F) \<noteq> None \<longrightarrow> dget (ho_files t) (join_path cdir OVERLAY) = dget (ho_files t) (join_path pdir OVERLAY))"

lemma paused_forkable:
  assumes "while_paused F h (seqp (take_snapshot F p h (join_path pdir ''mem'') (join_path pdir ''state'') gen)
      (\<lambda>_. overlay_for_child F pdir cdir)) s = (Inr u, s')"
  shows "forkable F (fc_host s') h pdir cdir"
proof -
  from assms obtain t s1 s2 u1 u2 where t: "vm_pause (fe_vm F) h (fc_host s) = (Inr (), t)"
    and snap: "take_snapshot F p h (join_path pdir ''mem'') (join_path pdir ''state'') gen (s\<lparr>fc_host := t\<rparr>) = (Inr u1, s1)"
    and over: "overlay_for_child F pdir cdir s1 = (Inr u2, s2)" and res: "at_host (vm_resume (fe_vm F) h) s2 = (Inr u, s')"
    by (elim while_paused_Inr) (auto simp: seqp_Inr)
  from snap obtain t1 u3 where t1: "vm_snapshot (fe_vm F) h (join_path pdir ''mem'') (join_path pdir ''state'') t = (Inr u3, t1)" "fc_host s1 = t1"
    by (auto simp: take_snapshot_def seqp_Inr at_host_Inr basic_Inr)
  from snapshot_files [OF t1(1)] obtain r d where g: "guest_at t1 h = Some (Some (r, d), True)"
    "dget (ho_files t1) = (dget (ho_files t))(join_path pdir ''mem'' \<mapsto> MemFile r, join_path pdir ''state'' \<mapsto> StateFile d)"
    by (metis distinct_files(1))
  from res obtain t3 where t3: "vm_resume (fe_vm F) h (fc_host s2) = (Inr u, t3)" "fc_host s' = t3" by (auto simp: at_host_Inr)
  note resumed = pause_guest(2) [OF t3(1), of h]
  show ?thesis
  proof (cases "fb_overlay_mib (fe_cfg F)")
    case None
    then have "fc_host s2 = t1" using over t1(2) by (simp add: overlay_for_child_def whenp_Inr)
    then show ?thesis using resumed t3(2) g None by (simp add: forkable_def)
  next
    case (Some n)
    then obtain c where "guest_at (fc_host s2) = guest_at t1" "dget (ho_files t1) (join_path pdir OVERLAY) = Some c"
      "dget (ho_files (fc_host s2)) = (dget (ho_files t1))(join_path cdir OVERLAY \<mapsto> c)"
      using copy_overlay_Inr [OF over] t1(2) by auto
    then show ?thesis using resumed t3(2) g by (auto simp: forkable_def)
  qed
qed

lemma fork_source_forkable:
  assumes "fork_source F p cdir s = (Inr src, s')" "dget (fc_vms s) p = Some h" "is_stale s p" "fb_jailer (fe_cfg F) = None"
  obtains pdir where "vm_dir_path F p = Inr pdir" "src = (join_path pdir ''mem'', join_path pdir ''state'')"
    "forkable F (fc_host s') h pdir cdir"
proof -
  from assms(1) obtain pdir s1 where d: "fc_host_dir F p s = (Inr pdir, s1)"
    and rest: "(let mem = join_path pdir ''mem''; state = join_path pdir ''state''; overlay = fb_overlay_mib (fe_cfg F) \<noteq> None in
     seqp (readp (\<lambda>s. (dget (fc_vms s) p, gen_of s p, is_stale s p))) (\<lambda>(vm, gen, stale).
     seqp (case vm of
         None \<Rightarrow>
           seqp (raise_if (\<lambda>s. \<not> (mem \<in> keys (ho_files (fc_host s)) \<and> state \<in> keys (ho_files (fc_host s)))) (KeyError p)) (\<lambda>_.
             overlay_for_child F pdir cdir)
       | Some h \<Rightarrow>
           seqp (whenp (stale \<and> overlay \<and> fb_vsock (fe_cfg F)) (sync_guest F p)) (\<lambda>_.
           whenp (stale \<or> overlay)
             (while_paused F h
                (seqp (whenp stale (take_snapshot F p h mem state gen)) (\<lambda>_. overlay_for_child F pdir cdir))))) (\<lambda>_.
       ret (mem, state)))) s1 = (Inr src, s')"
    unfolding fork_source_def seqp_Inr by blast
  have "books s1 = books s" using books_after [OF books_dirs(2) d] .
  then have "dget (fc_vms s1) p = Some h" "is_stale s1 p" using assms(2,3) by (auto simp: books_def is_stale_def gen_of_def)
  then obtain s2 u where "while_paused F h (seqp (take_snapshot F p h (join_path pdir ''mem'') (join_path pdir ''state'') (gen_of s1 p))
      (\<lambda>_. overlay_for_child F pdir cdir)) s2 = (Inr u, s')" "src = (join_path pdir ''mem'', join_path pdir ''state'')"
    using rest by (auto simp: Let_def seqp_Inr basic_Inr whenp_def)
  moreover have "vm_dir_path F p = Inr pdir"
    using d assms(4) by (auto simp: fc_host_dir_def fc_vm_dir_def seqp_Inr basic_Inr)
  ultimately show thesis using paused_forkable that by blast
qed

section \<open>A fork\<close>

lemma spawn_child_forkable:
  assumes "spawn_vm F b (Some p) s = (Inr (k, src), s')" "dget (fc_vms s) p = Some h" "is_stale s p" "fb_jailer (fe_cfg F) = None"
  obtains pdir cdir where "vm_dir_path F p = Inr pdir" "vm_dir_path F b = Inr cdir"
    "src = Some (join_path pdir ''mem'', join_path pdir ''state'')" "k = h \<or> forkable F (fc_host s') h pdir cdir"
proof -
  from assms(1) obtain ns s1 d s2 mem state where ns: "setup_netns F b s = (Inr ns, s1)" and d: "fc_vm_dir F b s1 = (Inr d, s2)"
    and child: "spawn_child F b p d ns s2 = (Inr (k, mem, state), s')" and src: "src = Some (mem, state)"
    by (auto simp: spawn_vm_def seqp_Inr basic_Inr)
  from child assms(4) obtain cdir s3 s4 where c: "fc_host_dir F b s2 = (Inr cdir, s3)" and f: "fork_source F p cdir s3 = (Inr (mem, state), s4)"
    and new: "new_vm F d ns s4 = (Inr k, s')"
    by (auto simp: spawn_child_def seqp_Inr basic_Inr)
  have "books s3 = books s"
    using books_after [OF books_begin(2) ns] books_after [OF books_dirs(1) d] books_after [OF books_dirs(2) c] by simp
  then have "dget (fc_vms s3) p = Some h" "is_stale s3 p" using assms(2,3) by (auto simp: books_def is_stale_def gen_of_def)
  with f assms(4) obtain pdir where pd: "vm_dir_path F p = Inr pdir" "(mem, state) = (join_path pdir ''mem'', join_path pdir ''state'')"
    "forkable F (fc_host s4) h pdir cdir"
    by (elim fork_source_forkable)
  have cd: "vm_dir_path F b = Inr cdir" using c assms(4) by (auto simp: fc_host_dir_def fc_vm_dir_def seqp_Inr basic_Inr)
  from new assms(4) obtain t where t: "microvm (fe_vm F) (fb_bin (fe_cfg F)) d None ns (fc_host s4) = (Inr k, t)" "fc_host s' = t"
    by (auto simp: new_vm_def at_host_Inr)
  have "k = h \<or> forkable F (fc_host s') h pdir cdir" using pd(3) microvm_fresh [OF t(1), of h] t(2) by (auto simp: forkable_def)
  with pd cd src that show thesis by simp
qed

text \<open>
  C27: A child starts with what its parent has: when \<open>spawn\<close> forks a live branch whose snapshot is stale, and returns, the
  guest of the new VMM has the memory and device state that the parent's guest has at that moment, both guests run, and the
  child's overlay holds what the parent's overlay holds.  (VMMs without a jailer.)
\<close>

theorem fork_inherits_parent:
  assumes "fc_inv F s" "dget (fc_vms s) p = Some h" "is_stale s p" "fb_jailer (fe_cfg F) = None"
    and "fc_spawn F b (Some p) s = (Inr (), s')"
  shows "\<exists>k g. dget (fc_vms s') b = Some k \<and> k \<noteq> h \<and>
      guest_at (fc_host s') h = Some (Some g, False) \<and> guest_at (fc_host s') k = Some (Some g, False) \<and>
      (fb_overlay_mib (fe_cfg F) = None \<or> (\<exists>pd cd. vm_dir_path F p = Inr pd \<and> vm_dir_path F b = Inr cd \<and>
         dget (ho_files (fc_host s')) (join_path cd OVERLAY) = dget (ho_files (fc_host s')) (join_path pd OVERLAY)))"
proof -
  from assms(5) obtain s1 k src s2 s3 where s1: "fc_spawn_begin b (Some p) s = (Inr (), s1)" and vm: "spawn_vm F b (Some p) s1 = (Inr (k, src), s2)"
    and st: "start_vm F b (Some p) k src s2 = (Inr (), s3)" and fin: "fc_spawn_end b (Some p) s3 = (Inr (), s')"
    by (rule fc_spawn_Inr)
  have "books s1 = books s" using books_after [OF books_begin(1) s1] .
  then have "dget (fc_vms s1) p = Some h" "is_stale s1 p" using assms(2,3) by (auto simp: books_def is_stale_def gen_of_def)
  with vm assms(4) obtain pd cd where pd: "vm_dir_path F p = Inr pd" "vm_dir_path F b = Inr cd"
    and src: "src = Some (join_path pd ''mem'', join_path pd ''state'')" and ready: "k = h \<or> forkable F (fc_host s2) h pd cd"
    by (elim spawn_child_forkable)
  from st obtain u1 s4 u2 s5 where res: "at_host (vm_restore (fe_vm F) k (join_path pd ''mem'') (join_path pd ''state'')) s2 = (Inr u1, s4)"
    and w: "write_pid_record F b k s4 = (Inr u2, s5)" "fc_host s3 = fc_host s5" "dget (fc_vms s3) b = Some k"
    unfolding src by (elim start_vm_Inr) simp
  have box: "dget (fc_vms s') b = Some k" and host: "fc_host s' = fc_host s5" using fc_spawn_end_frame [OF fin] w(2,3) by simp_all
  have fresh: "k \<noteq> h"
    using fc_spawn_returns [OF assms(1,5)] box assms(1,2) by (auto simp: fc_inv_def fc_life_def host_life_def dest: vmm_ownedD(3))
  with ready obtain r d where f: "forkable F (fc_host s2) h pd cd" "guest_at (fc_host s2) h = Some (Some (r, d), False)"
    "dget (ho_files (fc_host s2)) (join_path pd ''mem'') = Some (MemFile r)" "dget (ho_files (fc_host s2)) (join_path pd ''state'') = Some (StateFile d)"
    by (auto simp: forkable_def)
  from res obtain t where t: "vm_restore (fe_vm F) k (join_path pd ''mem'') (join_path pd ''state'') (fc_host s2) = (Inr u1, t)" "fc_host s4 = t"
    by (auto simp: at_host_Inr)
  note restored = restore_guest [OF t(1) f(3,4)] and rest = write_pid_guest [OF w(1) pd(2)]
  have "guest_at (fc_host s') k = Some (Some (r, d), False)" "guest_at (fc_host s') h = Some (Some (r, d), False)"
    using restored [of k] restored [of h] rest t(2) fresh f(2) host by simp_all
  moreover have "fb_overlay_mib (fe_cfg F) = None \<or>
      dget (ho_files (fc_host s')) (join_path cd OVERLAY) = dget (ho_files (fc_host s')) (join_path pd OVERLAY)"
    using f(1) restored rest t(2) host by (auto simp: forkable_def)
  ultimately show ?thesis using box fresh pd by blast
qed

lemma sample_fork_run: "\<exists>s'. fc_spawn (sample_fc no_fault) ''b'' (Some ''a'') (sample_root api) = (Inr (), s')"
  by (simp add: sample_root_def run_fc sample_guest_def cong: weak_procs)

theorem fork_inherits_parent_witness:
  "\<exists>s'. fst (fc_spawn (sample_fc no_fault) ''b'' (Some ''a'') (sample_root [])) = Inr () \<and>
     s' = snd (fc_spawn (sample_fc no_fault) ''b'' (Some ''a'') (sample_root [])) \<and>
     (\<exists>k g. dget (fc_vms s') ''b'' = Some k \<and> k \<noteq> 0 \<and> guest_at (fc_host s') 0 = Some (Some g, False) \<and> guest_at (fc_host s') k = Some (Some g, False))"
proof -
  obtain s' where run: "fc_spawn (sample_fc no_fault) ''b'' (Some ''a'') (sample_root []) = (Inr (), s')" using sample_fork_run by blast
  have "fc_inv (sample_fc no_fault) (sample_root [])"
    by (auto simp: fc_inv_def fc_life_def host_life_def vmm_owned_def sample_root_def split: if_splits)
  moreover have "dget (fc_vms (sample_root [])) ''a'' = Some 0" "is_stale (sample_root []) ''a''" by (simp_all add: sample_root_def is_stale_def)
  ultimately show ?thesis using fork_inherits_parent [OF _ _ _ _ run, of 0] run by auto
qed

section \<open>Work makes a snapshot stale\<close>

text \<open>
  An \<open>exec\<close> of a live branch, whatever comes of it, makes the branch's snapshot stale, as long as the snapshot is not
  from the future.
\<close>

lemma exec_makes_stale:
  assumes "b \<in> keys (fc_vms s)" "\<And>n. dget (fc_snap_gen s) b = Some n \<Longrightarrow> n \<le> gen_of s b"
  shows "is_stale (snd (fc_exec F b argv tmo inp s)) b"
proof -
  let ?run = "exec_live F (fe_exec F) b argv (Some (case tmo of None \<Rightarrow> fb_exec_timeout (fe_cfg F) | Some t \<Rightarrow> t)) inp"
  have "same_books_as X ?run" for X unfolding exec_live_def by (intro keeps books_basic books_dirs)
  then have "books (snd (?run s)) = books s" using keeps_snd [of "\<lambda>t. books t = books s" ?run s] by simp
  then show ?thesis using assms
    by (auto simp: fc_exec_def exec_branch_def need_vm_def proc_defs bump_gen_def is_stale_def books_def gen_of_def
        split: prod.split sum.split option.splits)
qed

end
