(* ===== verification/Firecracker_Paths.thy ===== *)
theory Firecracker_Paths
  imports Firecracker_Props
begin

text \<open>
  Where \<open>FirecrackerSandbox\<close> keeps the files of a branch: the directory name of a branch id is one safe path segment, and
  different ids have different names up to a collision of digests.
\<close>

section \<open>Splitting at slashes\<close>

lemma split_on_nonempty [simp]: "split_on d x \<noteq> []"
  by (cases x) (simp_all split: list.split)

lemma split_on_no_sep: "y \<in> set (split_on d x) \<Longrightarrow> d \<notin> set y"
proof (induction x arbitrary: y)
  case (Cons c cs)
  then show ?case by (cases "split_on d cs") (auto split: if_splits)
qed simp

lemma split_on_single: "length (split_on d x) = 1 \<Longrightarrow> split_on d x = [x]"
proof (induction x)
  case (Cons c cs)
  then show ?case by (cases "split_on d cs") (auto split: if_splits)
qed simp

lemma split_on_free: "d \<notin> set x \<Longrightarrow> split_on d x = [x]"
  by (induction x) auto

lemma split_on_append: "split_on d (x @ d # y) = split_on d x @ split_on d y"
  by (induction x) (auto split: list.split)

lemma basename_last: "CHR ''/'' \<notin> set y \<Longrightarrow> basename (x @ CHR ''/'' # y) = y"
  by (simp add: basename_def split_on_append split_on_free)

section \<open>Directory names\<close>

lemma safe_char_plain: "safe_char c \<Longrightarrow> c \<noteq> CHR ''/'' \<and> c \<noteq> CHR 0x00"
  by (auto simp: safe_char_def jail_char_def Let_def)

lemma join_underscore_safe: "list_all (list_all safe_char) xs \<Longrightarrow> list_all safe_char (join_underscore xs)"
  by (induction xs rule: join_underscore.induct) (auto simp: safe_char_def)

lemma branch_dir_cases:
  assumes "branch_dir_name sha b = Inr n"
  obtains (flat) "n = b" "safe_segment b" "CHR ''/'' \<notin> set b" "\<not> prefix ENCODED_BRANCH_PREFIX b"
  | (nested) segs where "n = ENCODED_BRANCH_PREFIX @ take 16 (sha b) @ ''-'' @ take 80 (join_underscore segs)"
    "list_all safe_segment segs" "CHR ''/'' \<in> set b"
proof -
  let ?segs = "split_on CHR ''/'' b"
  have ok: "list_all safe_segment ?segs" using assms by (auto simp: branch_dir_name_def Let_def list_all_iff list_ex_iff split: if_splits)
  show thesis
  proof (cases "length ?segs = 1")
    case True
    then have s: "?segs = [b]" by (rule split_on_single)
    then have "CHR ''/'' \<notin> set b" using split_on_no_sep [of b "CHR ''/''" b] by simp
    with True s ok show thesis using assms by (intro flat) (auto simp: branch_dir_name_def Let_def split: if_splits)
  next
    case False
    then have "CHR ''/'' \<in> set b" using split_on_free [of "CHR ''/''" b] by (metis One_nat_def length_Cons list.size(3))
    with False ok show thesis using assms by (intro nested) (auto simp: branch_dir_name_def Let_def split: if_splits)
  qed
qed

lemma safe_segment_chars: "safe_segment x \<Longrightarrow> list_all safe_char x"
  by (simp add: safe_segment_def)

lemma branch_dir_safe:
  assumes "branch_dir_name sha b = Inr n" "list_all safe_char (take 16 (sha b))"
  shows "n \<noteq> [] \<and> list_all safe_char n \<and> n \<noteq> ''.'' \<and> n \<noteq> ''..'' \<and> length n \<le> 128"
  using assms(1)
proof (cases rule: branch_dir_cases)
  case flat
  then show ?thesis by (auto simp: safe_segment_def jail_char_def Let_def)
next
  case (nested segs)
  have "list_all safe_char (join_underscore segs)"
    using nested(2) by (intro join_underscore_safe) (auto simp: list_all_iff safe_segment_def)
  then have "list_all safe_char (take 80 (join_underscore segs))" by (auto simp: list_all_iff dest: in_set_takeD)
  moreover have "list_all safe_char (ENCODED_BRANCH_PREFIX @ ''-'')"
    by (simp add: ENCODED_BRANCH_PREFIX_def safe_char_def jail_char_def)
  ultimately show ?thesis using assms(2) nested(1) by (simp add: ENCODED_BRANCH_PREFIX_def)
qed

text \<open>
  C30: The directory of a branch is directly under the work directory: the name made of an accepted branch id is one path
  segment of safe characters, is not \<open>.\<close> or \<open>..\<close>, and has at most 128 characters.  Two different accepted ids have the
  same directory only if both are nested ids with the same 64-bit digest.
\<close>

theorem branch_dirs_separate:
  assumes "branch_dir_name sha a = Inr m" "branch_dir_name sha b = Inr n" "a \<noteq> b"
    and "list_all safe_char (sha a)" "list_all safe_char (sha b)" "length (sha a) = 64" "length (sha b) = 64"
  shows "(m \<noteq> [] \<and> CHR ''/'' \<notin> set m \<and> CHR 0x00 \<notin> set m \<and> m \<noteq> ''.'' \<and> m \<noteq> ''..'' \<and> length m \<le> 128) \<and>
    (m \<noteq> n \<or> take 16 (sha a) = take 16 (sha b) \<and> CHR ''/'' \<in> set a \<and> CHR ''/'' \<in> set b)"
proof
  have "list_all safe_char (take 16 (sha a))" using assms(4) by (auto simp: list_all_iff dest: in_set_takeD)
  from branch_dir_safe [OF assms(1) this]
  show "m \<noteq> [] \<and> CHR ''/'' \<notin> set m \<and> CHR 0x00 \<notin> set m \<and> m \<noteq> ''.'' \<and> m \<noteq> ''..'' \<and> length m \<le> 128"
    by (auto simp: list_all_iff dest: safe_char_plain)
  have enc: "prefix ENCODED_BRANCH_PREFIX (ENCODED_BRANCH_PREFIX @ x)" for x by simp
  show "m \<noteq> n \<or> take 16 (sha a) = take 16 (sha b) \<and> CHR ''/'' \<in> set a \<and> CHR ''/'' \<in> set b"
    using assms(1)
  proof (cases rule: branch_dir_cases)
    case a: flat
    show ?thesis using assms(2) by (cases rule: branch_dir_cases) (use a assms(3) enc in auto)
  next
    case a: (nested segs)
    show ?thesis using assms(2)
      by (cases rule: branch_dir_cases) (use a assms(6,7) enc in \<open>auto simp: append_eq_append_conv\<close>)
  qed
qed

theorem branch_dirs_separate_witness:
  "\<exists>m n. branch_dir_name (\<lambda>x. replicate 64 (hd x)) ''a/1'' = Inr m \<and> branch_dir_name (\<lambda>x. replicate 64 (hd x)) ''b/1'' = Inr n \<and> m \<noteq> n"
proof -
  let ?sha = "\<lambda>x. replicate 64 (hd x)"
  have "branch_dir_name ?sha ''a/1'' = Inr (ENCODED_BRANCH_PREFIX @ replicate 16 CHR ''a'' @ ''-a_1'')"
    "branch_dir_name ?sha ''b/1'' = Inr (ENCODED_BRANCH_PREFIX @ replicate 16 CHR ''b'' @ ''-b_1'')" by code_simp+
  with branch_dirs_separate [OF this] show ?thesis by (simp add: safe_char_def jail_char_def)
qed

section \<open>Jail names\<close>

text \<open>
  A name that has to be altered gets a digest, but a name that is used as it is may already end in one: the branch
  \<open>a_b\<close> and the branch whose name is the jail id of \<open>a_b\<close> share a jail.
\<close>

lemma jail_id_collision:
  assumes "list_all jail_char (sha ''a_b'')" "length (sha ''a_b'') = 64"
  shows "jail_id_for sha ''/w/a_b'' = jail_id_for sha (''/w/a-b-'' @ take 8 (sha ''a_b''))"
proof -
  let ?d = "take 8 (sha ''a_b'')"
  have d: "list_all jail_char ?d" using assms(1) by (auto simp: list_all_iff dest: in_set_takeD)
  have free: "CHR ''/'' \<notin> set (''a-b-'' @ ?d)" using d by (auto simp: list_all_iff jail_char_def Let_def)
  have base: "basename (''/w/a-b-'' @ ?d) = ''a-b-'' @ ?d"
    using basename_last [OF free, of "''/w''"] by simp
  have "map (\<lambda>c. if jail_char c then c else CHR ''-'') (''a-b-'' @ ?d) = ''a-b-'' @ ?d"
    using d by (auto simp: list_all_iff jail_char_def Let_def intro!: map_idI)
  then have "jail_id_for sha (''/w/a-b-'' @ ?d) = ''a-b-'' @ ?d"
    using assms(2) by (simp add: jail_id_for_def base [simplified] Let_def)
  moreover have "basename ''/w/a_b'' = ''a_b''" by code_simp
  then have "jail_id_for sha ''/w/a_b'' = ''a-b-'' @ ?d" by (simp add: jail_id_for_def Let_def jail_char_def)
  ultimately show ?thesis by simp
qed

end
