(* ===== verification/Sparse_Copy.thy ===== *)
theory Sparse_Copy
  imports Procs
begin

text \<open>
  \<open>_copy_overlay\<close> and \<open>_sparse_copy\<close> of \<open>sandbox/firecracker_backend.py\<close>, byte by byte.  What the kernel answers to
  \<open>lseek\<close> with \<open>SEEK_DATA\<close> and \<open>SEEK_HOLE\<close>, and what each \<open>read\<close> and \<open>write\<close> raises or how many bytes it transfers, are
  parameters.  The plain copy that takes over is \<open>shutil.copyfile\<close>, taken to succeed.
  The loops may run for ever (a \<open>read\<close> that returns nothing), so that they are partial functions.
\<close>

section \<open>Files and the kernel\<close>

record file_env =
  fv_src :: string
  fv_clone :: "exc option"
  fv_seek_data :: "nat \<Rightarrow> exc + nat option"
  fv_seek_hole :: "nat \<Rightarrow> exc + nat"
  fv_read :: "nat \<Rightarrow> nat \<Rightarrow> exc + nat"
  fv_write :: "nat \<Rightarrow> nat \<Rightarrow> exc + nat"

text \<open>The descriptors: both offsets, the destination's bytes, and the number of calls so far.\<close>

record copying =
  cp_src_pos :: nat
  cp_dst :: string
  cp_dst_pos :: nat
  cp_calls :: nat

definition zero_byte :: char where "zero_byte = CHR 0x00"

definition os_read :: "file_env \<Rightarrow> nat \<Rightarrow> copying \<Rightarrow> (exc + string) \<times> copying" where
  "os_read E n s =
     (let s1 = s\<lparr>cp_calls := Suc (cp_calls s)\<rparr>
      in case fv_read E (cp_calls s) n of
        Inl e \<Rightarrow> (Inl e, s1)
      | Inr k \<Rightarrow> (let chunk = take (min n k) (drop (cp_src_pos s) (fv_src E))
          in (Inr chunk, s1\<lparr>cp_src_pos := cp_src_pos s + length chunk\<rparr>)))"

definition os_write :: "file_env \<Rightarrow> string \<Rightarrow> copying \<Rightarrow> (exc + nat) \<times> copying" where
  "os_write E v s =
     (let s1 = s\<lparr>cp_calls := Suc (cp_calls s)\<rparr>
      in case fv_write E (cp_calls s) (length v) of
        Inl e \<Rightarrow> (Inl e, s1)
      | Inr k \<Rightarrow> (let n = min (length v) k; p = cp_dst_pos s; old = cp_dst s
          in (Inr n, s1\<lparr>cp_dst := take p old @ take n v @ drop (p + n) old, cp_dst_pos := p + n\<rparr>)))"

section \<open>\<open>_sparse_copy\<close>\<close>

text \<open>Each loop ends with the exception that ended it, if any, and the descriptors.\<close>

partial_function (option) write_all :: "file_env \<Rightarrow> string \<Rightarrow> copying \<Rightarrow> (exc option \<times> copying) option" where
  "write_all E view s =
     (if view = [] then Some (None, s)
      else case os_write E view s of
        (Inl e, s') \<Rightarrow> Some (Some e, s')
      | (Inr n, s') \<Rightarrow> write_all E (drop n view) s')"

partial_function (option) copy_extent :: "file_env \<Rightarrow> nat \<Rightarrow> copying \<Rightarrow> (exc option \<times> copying) option" where
  "copy_extent E remaining s =
     (if remaining = 0 then Some (None, s)
      else case os_read E (min remaining (2 ^ 20)) s of
        (Inl e, s1) \<Rightarrow> Some (Some e, s1)
      | (Inr chunk, s1) \<Rightarrow>
          Option.bind (write_all E chunk s1) (\<lambda>(r, s2).
            case r of Some e \<Rightarrow> Some (Some e, s2) | None \<Rightarrow> copy_extent E (remaining - length chunk) s2))"

partial_function (option) sparse_loop :: "file_env \<Rightarrow> nat \<Rightarrow> copying \<Rightarrow> (exc option \<times> copying) option" where
  "sparse_loop E pos s =
     (if pos < length (fv_src E) then
        (case fv_seek_data E pos of
           Inl e \<Rightarrow> Some (Some e, s)
         | Inr None \<Rightarrow> Some (None, s)
         | Inr (Some start) \<Rightarrow>
            (case fv_seek_hole E start of
               Inl e \<Rightarrow> Some (Some e, s)
             | Inr hole \<Rightarrow>
                Option.bind (copy_extent E (hole - start) (s\<lparr>cp_src_pos := start, cp_dst_pos := start\<rparr>)) (\<lambda>(r, s').
                  case r of Some e \<Rightarrow> Some (Some e, s') | None \<Rightarrow> sparse_loop E hole s')))
      else Some (None, s))"

definition sparse_copy :: "file_env \<Rightarrow> (exc option \<times> copying) option" where
  "sparse_copy E = sparse_loop E 0
     \<lparr>cp_src_pos = length (fv_src E), cp_dst = replicate (length (fv_src E)) zero_byte, cp_dst_pos = 0, cp_calls = 0\<rparr>"

section \<open>\<open>_copy_overlay\<close>\<close>

text \<open>A reflink, else the sparse copy, else \<open>shutil.copyfile\<close>; an exception that is not an \<open>OSError\<close> is passed on.\<close>

definition overlay_bytes :: "file_env \<Rightarrow> (exc + string) option" where
  "overlay_bytes E =
     (if fv_clone E = None then Some (Inr (fv_src E))
      else case sparse_copy E of
        None \<Rightarrow> None
      | Some (None, s) \<Rightarrow> Some (Inr (cp_dst s))
      | Some (Some e, s) \<Rightarrow> if is_os_error e then Some (Inr (fv_src E)) else Some (Inl e))"

section \<open>What the kernel documents\<close>

text \<open>
  \<open>SEEK_DATA\<close> gives the next byte that is not in a hole, or \<open>ENXIO\<close> when only a hole is left; \<open>SEEK_HOLE\<close> gives a
  later offset, at most the end; holes read as zeros; a \<open>read\<close> before the end of the file and a \<open>write\<close> of a non-empty
  buffer that return have transferred at least one byte.  None of them raises anything but \<open>OSError\<close>.
\<close>

definition extents_ok :: "file_env \<Rightarrow> bool" where
  "extents_ok E \<longleftrightarrow>
     (\<forall>pos < length (fv_src E). case fv_seek_data E pos of
        Inl e \<Rightarrow> is_os_error e
      | Inr None \<Rightarrow> list_all (\<lambda>i. fv_src E ! i = zero_byte) [pos..<length (fv_src E)]
      | Inr (Some start) \<Rightarrow> pos \<le> start \<and> start < length (fv_src E) \<and> list_all (\<lambda>i. fv_src E ! i = zero_byte) [pos..<start]) \<and>
     (\<forall>start < length (fv_src E). case fv_seek_hole E start of Inl e \<Rightarrow> is_os_error e | Inr hole \<Rightarrow> start < hole \<and> hole \<le> length (fv_src E))"

definition transfers_ok :: "file_env \<Rightarrow> bool" where
  "transfers_ok E \<longleftrightarrow> (\<forall>c n. 0 < n \<longrightarrow>
     (case fv_read E c n of Inl e \<Rightarrow> is_os_error e | Inr k \<Rightarrow> 0 < k) \<and>
     (case fv_write E c n of Inl e \<Rightarrow> is_os_error e | Inr k \<Rightarrow> 0 < k))"

section \<open>The copy is exact\<close>

text \<open>The first \<open>k\<close> bytes are copied and the rest of the destination is still zero.\<close>

definition copied :: "file_env \<Rightarrow> nat \<Rightarrow> string \<Rightarrow> bool" where
  "copied E k dst \<longleftrightarrow> dst = take k (fv_src E) @ replicate (length (fv_src E) - k) zero_byte"

lemma splice_twice:
  assumes "p + length v \<le> length d" "n \<le> length v"
  shows "take (p + n) (take p d @ take n v @ drop (p + n) d) @ drop n v @ drop (p + length v) (take p d @ take n v @ drop (p + n) d) =
    take p d @ v @ drop (p + length v) d"
proof -
  have "take n v @ drop n v @ r = v @ r" for r by (metis append.assoc append_take_drop_id)
  note whole = this
  have rest: "drop (p + length v) (take p d @ take n v @ drop (p + n) d) = drop (p + length v) d" using assms by (simp add: add.commute)
  have first: "take (p + n) (take p d @ take n v @ drop (p + n) d) = take p d @ take n v" using assms by simp
  show ?thesis unfolding rest first by (simp add: whole)
qed

lemma write_all_returns:
  assumes "transfers_ok E" "cp_dst_pos s + length view \<le> length (cp_dst s)"
  shows "\<exists>r s'. write_all E view s = Some (r, s') \<and>
    (case r of Some e \<Rightarrow> is_os_error e
     | None \<Rightarrow> cp_src_pos s' = cp_src_pos s \<and> cp_dst_pos s' = cp_dst_pos s + length view \<and>
         cp_dst s' = take (cp_dst_pos s) (cp_dst s) @ view @ drop (cp_dst_pos s + length view) (cp_dst s))"
  using assms(2)
proof (induction "length view" arbitrary: view s rule: less_induct)
  case less
  show ?case
  proof (cases "view = []")
    case False
    then have kernel: "case fv_write E (cp_calls s) (length view) of Inl e \<Rightarrow> is_os_error e | Inr k \<Rightarrow> 0 < k"
      using assms(1) by (simp add: transfers_ok_def)
    show ?thesis
    proof (cases "fv_write E (cp_calls s) (length view)")
      case (Inl e)
      then show ?thesis using False kernel by (subst write_all.simps) (simp add: os_write_def)
    next
      case (Inr k)
      define n where "n = min (length view) k"
      have n: "0 < n" "n \<le> length view" using False kernel Inr by (auto simp: n_def)
      obtain s1 where s1: "os_write E view s = (Inr n, s1)" "cp_dst_pos s1 = cp_dst_pos s + n" "cp_src_pos s1 = cp_src_pos s"
        "cp_dst s1 = take (cp_dst_pos s) (cp_dst s) @ take n view @ drop (cp_dst_pos s + n) (cp_dst s)"
        by (simp add: os_write_def n_def Let_def Inr)
      have "length (drop n view) < length view" "cp_dst_pos s1 + length (drop n view) \<le> length (cp_dst s1)"
        using less.prems n s1(2,4) by auto
      from less.hyps [OF this] obtain r s' where w: "write_all E (drop n view) s1 = Some (r, s')"
        "case r of Some e \<Rightarrow> is_os_error e
         | None \<Rightarrow> cp_src_pos s' = cp_src_pos s1 \<and> cp_dst_pos s' = cp_dst_pos s1 + length (drop n view) \<and>
           cp_dst s' = take (cp_dst_pos s1) (cp_dst s1) @ drop n view @ drop (cp_dst_pos s1 + length (drop n view)) (cp_dst s1)" by blast
      have "write_all E view s = Some (r, s')" using False s1(1) w(1) by (subst write_all.simps) simp
      moreover note splice_twice [OF less.prems n(2)]
      ultimately show ?thesis using w(2) s1(2-4) n by (cases r) (simp_all add: add.assoc)
    qed
  qed (simp add: write_all.simps)
qed

lemma copied_step:
  assumes "copied E k dst" "k + length chunk \<le> length (fv_src E)" "chunk = take (length chunk) (drop k (fv_src E))"
  shows "copied E (k + length chunk) (take k dst @ chunk @ drop (k + length chunk) dst)"
proof -
  have "take k (fv_src E) @ chunk = take (k + length chunk) (fv_src E)" using assms(3) by (metis take_add)
  then show ?thesis using assms(1,2) by (simp add: copied_def)
qed

lemma copy_extent_returns:
  assumes "transfers_ok E" "copied E k (cp_dst s)" "cp_src_pos s = k" "cp_dst_pos s = k" "k + n \<le> length (fv_src E)"
  shows "\<exists>r s'. copy_extent E n s = Some (r, s') \<and> (case r of Some e \<Rightarrow> is_os_error e | None \<Rightarrow> copied E (k + n) (cp_dst s'))"
  using assms(2-5)
proof (induction n arbitrary: k s rule: less_induct)
  case (less n)
  show ?case
  proof (cases "n = 0")
    case False
    then have kernel: "case fv_read E (cp_calls s) (min n (2 ^ 20)) of Inl e \<Rightarrow> is_os_error e | Inr k \<Rightarrow> 0 < k"
      using assms(1) by (simp add: transfers_ok_def)
    show ?thesis
    proof (cases "fv_read E (cp_calls s) (min n (2 ^ 20))")
      case (Inl e)
      then show ?thesis using False kernel by (subst copy_extent.simps) (simp add: os_read_def)
    next
      case (Inr j)
      define m where "m = min (min n (2 ^ 20)) j"
      define chunk where "chunk = take m (drop k (fv_src E))"
      have m: "0 < m" "m \<le> n" using False kernel Inr by (auto simp: m_def)
      have len: "length chunk = m" using m less.prems(4) by (simp add: chunk_def)
      define s1 where "s1 = s\<lparr>cp_src_pos := k + m, cp_calls := Suc (cp_calls s)\<rparr>"
      have read: "os_read E (min n (2 ^ 20)) s = (Inr chunk, s1)"
        using less.prems(2) len Inr by (simp add: os_read_def Let_def m_def chunk_def s1_def)
      have "length (cp_dst s) = length (fv_src E)" using less.prems(1,4) by (simp add: copied_def)
      then have "cp_dst_pos s1 + length chunk \<le> length (cp_dst s1)" using less.prems(3,4) len m by (simp add: s1_def)
      from write_all_returns [OF assms(1) this] obtain r s2 where s2: "write_all E chunk s1 = Some (r, s2)"
        "case r of Some e \<Rightarrow> is_os_error e | None \<Rightarrow> cp_src_pos s2 = cp_src_pos s1 \<and> cp_dst_pos s2 = cp_dst_pos s1 + length chunk \<and>
          cp_dst s2 = take (cp_dst_pos s1) (cp_dst s1) @ chunk @ drop (cp_dst_pos s1 + length chunk) (cp_dst s1)"
        by blast
      show ?thesis
      proof (cases r)
        case None
        then have s2': "cp_src_pos s2 = k + m" "cp_dst_pos s2 = k + m" "copied E (k + m) (cp_dst s2)"
          using copied_step [OF less.prems(1), of chunk] s2(2) len less.prems(3,4) m by (simp_all add: chunk_def s1_def)
        have sum: "k + m + (n - m) = k + n" using m by simp
        have "n - m < n" "k + m + (n - m) \<le> length (fv_src E)" using m less.prems(4) by simp_all
        from less.IH [OF this(1) s2'(3,1,2) this(2)] obtain q s' where "copy_extent E (n - m) s2 = Some (q, s')"
          "case q of Some e \<Rightarrow> is_os_error e | None \<Rightarrow> copied E (k + n) (cp_dst s')"
          unfolding sum by blast
        then show ?thesis using False read s2(1) len None by (subst copy_extent.simps) simp
      next
        case (Some e)
        then show ?thesis using False read s2 by (subst copy_extent.simps) simp
      qed
    qed
  qed (use less.prems in \<open>simp add: copy_extent.simps\<close>)
qed

lemma copied_hole:
  assumes "copied E k dst" "k \<le> j" "j \<le> length (fv_src E)" "list_all (\<lambda>i. fv_src E ! i = zero_byte) [k..<j]"
  shows "copied E j dst"
proof -
  have "take j (fv_src E) = take k (fv_src E) @ replicate (j - k) zero_byte"
    using assms(2-4) by (intro nth_equalityI) (auto simp: nth_append list_all_iff)
  moreover have "replicate (length (fv_src E) - k) zero_byte = replicate (j - k) zero_byte @ replicate (length (fv_src E) - j) zero_byte"
    using assms(2,3) by (simp flip: replicate_add)
  ultimately show ?thesis using assms(1) by (simp add: copied_def)
qed

lemma sparse_loop_returns:
  assumes "extents_ok E" "transfers_ok E" "copied E pos (cp_dst s)" "pos \<le> length (fv_src E)"
  shows "\<exists>r s'. sparse_loop E pos s = Some (r, s') \<and> (case r of None \<Rightarrow> cp_dst s' = fv_src E | Some e \<Rightarrow> is_os_error e)"
  using assms(3,4)
proof (induction "length (fv_src E) - pos" arbitrary: pos s rule: less_induct)
  case less
  show ?case
  proof (cases "pos < length (fv_src E)")
    case inside: True
    note data = assms(1) [unfolded extents_ok_def, THEN conjunct1, rule_format, OF inside]
    show ?thesis
    proof (cases "fv_seek_data E pos")
      case (Inr found)
      show ?thesis
      proof (cases found)
        case None
        then have "copied E (length (fv_src E)) (cp_dst s)" using data Inr less.prems by (intro copied_hole [OF less.prems(1)]) simp_all
        then show ?thesis using None Inr inside by (subst sparse_loop.simps) (simp add: copied_def)
      next
        case (Some start)
        have start: "pos \<le> start" "start < length (fv_src E)" "copied E start (cp_dst s)"
          using data Inr Some less.prems by (auto intro: copied_hole [OF less.prems(1)])
        note hole = assms(1) [unfolded extents_ok_def, THEN conjunct2, rule_format, OF start(2)]
        show ?thesis
        proof (cases "fv_seek_hole E start")
          case h: (Inr hole)
          then have end_ok: "start < hole" "hole \<le> length (fv_src E)" using hole by simp_all
          then have sum: "start + (hole - start) = hole" by simp
          let ?s0 = "s\<lparr>cp_src_pos := start, cp_dst_pos := start\<rparr>"
          have "copied E start (cp_dst ?s0)" "cp_src_pos ?s0 = start" "cp_dst_pos ?s0 = start" using start(3) by simp_all
          from copy_extent_returns [OF assms(2) this, of "hole - start"] end_ok(2)
          obtain q s1 where s1: "copy_extent E (hole - start) ?s0 = Some (q, s1)"
            "case q of Some e \<Rightarrow> is_os_error e | None \<Rightarrow> copied E hole (cp_dst s1)"
            unfolding sum by blast
          have "length (fv_src E) - hole < length (fv_src E) - pos" using end_ok start inside by linarith
          note rest = less.hyps [OF this _ end_ok(2), of s1]
          show ?thesis
          proof (cases q)
            case None
            then obtain r s' where "sparse_loop E hole s1 = Some (r, s')"
              "case r of None \<Rightarrow> cp_dst s' = fv_src E | Some e \<Rightarrow> is_os_error e" using rest s1(2) by auto
            then show ?thesis using inside Inr Some h s1(1) None by (subst sparse_loop.simps) simp
          next
            case (Some e)
            then show ?thesis using inside Inr \<open>found = Some start\<close> h s1 by (subst sparse_loop.simps) simp
          qed
        qed (use inside Inr Some hole in \<open>subst sparse_loop.simps, simp\<close>)
      qed
    qed (use inside data in \<open>subst sparse_loop.simps, simp\<close>)
  qed (use less.prems in \<open>subst sparse_loop.simps, simp add: copied_def\<close>)
qed

text \<open>
  C38: The optimised copy of an overlay is the plain one: whether the file is reflinked, copied extent by extent over short
  reads and writes, or the extents cannot be enumerated or a read or write fails midway and the plain copy takes over, the
  copy ends and the destination holds exactly the bytes of the source.
\<close>

theorem overlay_copy_exact:
  assumes "extents_ok E" "transfers_ok E"
  shows "overlay_bytes E = Some (Inr (fv_src E))"
proof -
  let ?s = "\<lparr>cp_src_pos = length (fv_src E), cp_dst = replicate (length (fv_src E)) zero_byte, cp_dst_pos = 0, cp_calls = 0\<rparr>"
  obtain r s' where "sparse_loop E 0 ?s = Some (r, s')" "case r of None \<Rightarrow> cp_dst s' = fv_src E | Some e \<Rightarrow> is_os_error e"
    using sparse_loop_returns [OF assms, of 0 ?s] by (auto simp: copied_def)
  then show ?thesis by (cases r) (simp_all add: overlay_bytes_def sparse_copy_def)
qed

text \<open>A file with a hole between two extents, reads and writes of at most two bytes.\<close>

definition holed_file :: file_env where
  "holed_file = \<lparr>fv_src = ''abc'' @ replicate 3 zero_byte @ ''d'', fv_clone = Some OSError,
     fv_seek_data = (\<lambda>p. Inr (Some (if 3 \<le> p \<and> p < 6 then 6 else p))), fv_seek_hole = (\<lambda>p. Inr (if p < 3 then 3 else 7)),
     fv_read = (\<lambda>_ _. Inr 2), fv_write = (\<lambda>_ _. Inr 2)\<rparr>"

theorem overlay_copy_exact_witness: "overlay_bytes holed_file = Some (Inr (''abc'' @ replicate 3 zero_byte @ ''d''))"
proof -
  have "extents_ok holed_file"
    by (auto simp: extents_ok_def holed_file_def list_all_iff less_Suc_eq nth_Cons' numeral_eq_Suc)
  moreover have "transfers_ok holed_file" by (simp add: transfers_ok_def holed_file_def)
  ultimately have "overlay_bytes holed_file = Some (Inr (fv_src holed_file))" by (rule overlay_copy_exact)
  then show ?thesis by (simp add: holed_file_def)
qed

end
