(* ===== verification/Harness_LLM.thy ===== *)
theory Harness_LLM
  imports Netns Python_Text
begin

text \<open>
  \<open>harness/adapter.py\<close>: the language-model seam of \<open>TreeAgent\<close>.  Prompts, the parsing of replies, \<open>FakeLLM\<close> and the two
  HTTP adapters, over a transport that is a parameter.  Scores are reals.
\<close>

section \<open>Prompts\<close>

definition nl :: string where "nl = [CHR 0x0A]"

text \<open>The prompt has one character outside Latin-1, a dash, which is an argument.\<close>

definition propose_prompt :: "string \<Rightarrow> string \<Rightarrow> int \<Rightarrow> string" where
  "propose_prompt dash context n = context @ nl @ nl @ ''Provide exactly '' @ str_int n @
     '' distinct candidate solutions. Put each candidate in its own fenced ``` code block and output nothing else '' @ dash @
     '' no numbering, preamble, or commentary.''"

definition score_prompt :: "string \<Rightarrow> string \<Rightarrow> string" where
  "score_prompt context outcome = context @ nl @ nl @ ''Candidate outcome:'' @ nl @ outcome @ nl @ nl @
     ''Rate this outcome from 0.0 (worst) to 1.0 (best). Reply with only the number.''"

section \<open>Fenced blocks\<close>

text \<open>
  \<open>_FENCE.findall\<close>: a fence, blanks, a language tag, blanks and a line end, then the shortest text up to the next fence.
  The classes of the header are disjoint, so that it matches in one way at most.
\<close>

definition FENCE :: string where "FENCE = ''```''"

definition blank_char :: "char \<Rightarrow> bool" where
  "blank_char c \<longleftrightarrow> c = CHR '' '' \<or> c = CHR 0x09"

definition tag_char :: "char \<Rightarrow> bool" where
  "tag_char c \<longleftrightarrow> py_alnum c \<or> c = CHR ''_'' \<or> c = CHR ''+'' \<or> c = CHR ''-''"

fun until_fence :: "string \<Rightarrow> (string \<times> string) option" where
  "until_fence [] = None"
| "until_fence (c # cs) =
     (if prefix FENCE (c # cs) then Some ([], drop 3 (c # cs))
      else map_option (\<lambda>(b, r). (c # b, r)) (until_fence cs))"

definition fence_match :: "string \<Rightarrow> (string \<times> string) option" where
  "fence_match s =
     (if \<not> prefix FENCE s then None
      else case dropWhile blank_char (dropWhile tag_char (dropWhile blank_char (drop 3 s))) of
        [] \<Rightarrow> None
      | c # rest \<Rightarrow> if c = CHR 0x0A then until_fence rest else None)"

lemma until_fence_shorter: "until_fence s = Some (b, r) \<Longrightarrow> length r < length s"
  by (induction s arbitrary: b) (auto split: if_splits)

lemma fence_match_shorter: "fence_match s = Some (b, r) \<Longrightarrow> length r < length s"
proof -
  assume m: "fence_match s = Some (b, r)"
  let ?t = "dropWhile blank_char (dropWhile tag_char (dropWhile blank_char (drop 3 s)))"
  obtain c rest where t: "?t = c # rest" "until_fence rest = Some (b, r)"
    using m by (auto simp: fence_match_def split: if_splits list.splits)
  have "length ?t \<le> length s" using length_dropWhile_le le_trans by (metis (no_types, lifting) diff_le_self length_drop)
  then show ?thesis using t until_fence_shorter by fastforce
qed

function find_blocks :: "string \<Rightarrow> string list" where
  "find_blocks s =
     (case fence_match s of
        Some (b, r) \<Rightarrow> b # find_blocks r
      | None \<Rightarrow> (case s of [] \<Rightarrow> [] | c # cs \<Rightarrow> find_blocks cs))"
  by pat_completeness auto
termination by (relation "measure length") (auto dest: fence_match_shorter)

declare find_blocks.simps [simp del]

section \<open>Replies\<close>

definition candidate_parts :: "string \<Rightarrow> string list" where
  "candidate_parts reply =
     (let parts = filter ((\<noteq>) []) (map py_strip (find_blocks reply)) in if parts = [] then [py_strip reply] else parts)"

definition parse_candidates :: "string \<Rightarrow> nat \<Rightarrow> string list" where
  "parse_candidates reply n =
     (let parts = candidate_parts reply;
          padded = (if length parts < n then parts @ map (\<lambda>i. parts ! (i mod length parts)) [0..<n - length parts] else parts)
      in take n padded)"

text \<open>
  \<open>_parse_score\<close>: the first number of the reply; its fraction is taken if digits follow the point.
\<close>

definition digits_value :: "string \<Rightarrow> nat" where
  "digits_value ds = foldl (\<lambda>n c. 10 * n + (of_char c - 48)) 0 ds"

definition decimal_value :: "string \<Rightarrow> string \<Rightarrow> real" where
  "decimal_value ds fs = real (digits_value ds) + real (digits_value fs) / 10 ^ length fs"

definition number_at :: "string \<Rightarrow> real option" where
  "number_at s =
     (let (neg, t) = (case s of [] \<Rightarrow> (False, []) | c # cs \<Rightarrow>
            if c = CHR ''-'' then (True, cs) else if c = CHR ''+'' then (False, cs) else (False, s));
          ds = takeWhile decimal_char t; r = dropWhile decimal_char t;
          fs = (case r of [] \<Rightarrow> [] | c # cs \<Rightarrow> if c = CHR ''.'' then takeWhile decimal_char cs else [])
      in if fs \<noteq> [] \<or> ds \<noteq> [] then Some (if neg then - decimal_value ds fs else decimal_value ds fs) else None)"

fun first_number :: "string \<Rightarrow> real option" where
  "first_number [] = None"
| "first_number (c # cs) = (case number_at (c # cs) of Some x \<Rightarrow> Some x | None \<Rightarrow> first_number cs)"

definition parse_score :: "string \<Rightarrow> real" where
  "parse_score reply = (case first_number reply of Some x \<Rightarrow> max 0 (min 1 x) | None \<Rightarrow> 0)"

section \<open>\<open>FakeLLM\<close>\<close>

record fake_llm =
  fl_candidates :: "string list"
  fl_scores :: "(string, real) dict"
  fl_default :: real

definition fake_init :: "string list \<Rightarrow> (string, real) dict \<Rightarrow> real \<Rightarrow> exc + fake_llm" where
  "fake_init cands scores d =
     (if cands = [] then Inl ValueError else Inr \<lparr>fl_candidates = cands, fl_scores = scores, fl_default = d\<rparr>)"

definition fake_propose :: "fake_llm \<Rightarrow> string \<Rightarrow> int \<Rightarrow> exc + string list" where
  "fake_propose L context n =
     (if n \<le> 0 then Inl ValueError
      else Inr (map (\<lambda>i. fl_candidates L ! (i mod length (fl_candidates L))) [0..<nat n]))"

definition fake_score :: "fake_llm \<Rightarrow> string \<Rightarrow> string \<Rightarrow> real" where
  "fake_score L context outcome = (case dget (fl_scores L) outcome of None \<Rightarrow> fl_default L | Some x \<Rightarrow> x)"

section \<open>HTTP adapters\<close>

datatype llm_reply = Payload json | HttpStatus int | Failed exc

record llm_config =
  lc_key :: string
  lc_url :: string
  lc_model :: string
  lc_max_tokens :: int

definition message_body :: "llm_config \<Rightarrow> string \<Rightarrow> int option \<Rightarrow> json" where
  "message_body C prompt max_tokens =
     JObj [(''model'', JStr (lc_model C)),
       (''max_tokens'', JInt (case max_tokens of None \<Rightarrow> lc_max_tokens C | Some m \<Rightarrow> if m = 0 then lc_max_tokens C else m)),
       (''messages'', JArr [JObj [(''role'', JStr ''user''), (''content'', JStr prompt)]])]"

text \<open>\<open>"".join(block.get("text", "") for block in payload.get("content", []))\<close>.\<close>

fun join_texts :: "json list \<Rightarrow> exc + string" where
  "join_texts [] = Inr []"
| "join_texts (b # bs) =
     (case b of
        JObj fs \<Rightarrow> (case (case map_of fs ''text'' of None \<Rightarrow> JStr [] | Some v \<Rightarrow> v) of
            JStr t \<Rightarrow> (case join_texts bs of Inl e \<Rightarrow> Inl e | Inr r \<Rightarrow> Inr (t @ r))
          | _ \<Rightarrow> (case join_texts bs of Inl AttributeError \<Rightarrow> Inl AttributeError | _ \<Rightarrow> Inl TypeError))
      | _ \<Rightarrow> Inl AttributeError)"

definition anthropic_text :: "json \<Rightarrow> exc + json" where
  "anthropic_text payload =
     (case payload of
        JObj fs \<Rightarrow> (case map_of fs ''content'' of
            None \<Rightarrow> Inr (JStr [])
          | Some (JArr bs) \<Rightarrow> (case join_texts bs of Inl e \<Rightarrow> Inl e | Inr t \<Rightarrow> Inr (JStr t))
          | Some (JStr []) \<Rightarrow> Inr (JStr [])
          | Some (JObj []) \<Rightarrow> Inr (JStr [])
          | Some (JStr _) \<Rightarrow> Inl AttributeError
          | Some (JObj _) \<Rightarrow> Inl AttributeError
          | Some _ \<Rightarrow> Inl TypeError)
      | _ \<Rightarrow> Inl AttributeError)"

text \<open>\<open>payload["choices"][0]["message"]["content"]\<close>.\<close>

definition json_sub :: "string \<Rightarrow> json \<Rightarrow> exc + json" where
  "json_sub k j = (case j of JObj fs \<Rightarrow> (case map_of fs k of None \<Rightarrow> Inl (KeyError k) | Some v \<Rightarrow> Inr v) | _ \<Rightarrow> Inl TypeError)"

definition json_first :: "json \<Rightarrow> exc + json" where
  "json_first j =
     (case j of
        JArr [] \<Rightarrow> Inl IndexError
      | JArr (x # _) \<Rightarrow> Inr x
      | JStr [] \<Rightarrow> Inl IndexError
      | JStr (c # _) \<Rightarrow> Inr (JStr [c])
      | JObj _ \<Rightarrow> Inl (KeyError ''0'')
      | _ \<Rightarrow> Inl TypeError)"

definition sum_bind :: "exc + 'a \<Rightarrow> ('a \<Rightarrow> exc + 'b) \<Rightarrow> exc + 'b" where
  "sum_bind m f = (case m of Inl e \<Rightarrow> Inl e | Inr x \<Rightarrow> f x)"

definition openai_text :: "json \<Rightarrow> exc + json" where
  "openai_text payload =
     sum_bind (json_sub ''choices'' payload) (\<lambda>cs. sum_bind (json_first cs) (\<lambda>c.
     sum_bind (json_sub ''message'' c) (\<lambda>m. json_sub ''content'' m)))"

datatype llm_kind = Anthropic | OpenAICompat

definition llm_request_url :: "llm_kind \<Rightarrow> llm_config \<Rightarrow> string" where
  "llm_request_url k C = (case k of Anthropic \<Rightarrow> ''https://api.anthropic.com/v1/messages'' | OpenAICompat \<Rightarrow> lc_url C @ ''/chat/completions'')"

definition llm_headers :: "llm_kind \<Rightarrow> llm_config \<Rightarrow> (string \<times> string) list" where
  "llm_headers k C = (case k of
       Anthropic \<Rightarrow> [(''content-type'', ''application/json''), (''x-api-key'', lc_key C), (''anthropic-version'', ''2023-06-01''),
         (''user-agent'', ''agentfork-harness/0.4'')]
     | OpenAICompat \<Rightarrow> [(''content-type'', ''application/json''), (''authorization'', ''Bearer '' @ lc_key C),
         (''user-agent'', ''agentfork-harness/0.4'')])"

type_synonym llm_transport = "string \<Rightarrow> (string \<times> string) list \<Rightarrow> json \<Rightarrow> llm_reply"

definition llm_message :: "llm_transport \<Rightarrow> llm_kind \<Rightarrow> llm_config \<Rightarrow> string \<Rightarrow> int option \<Rightarrow> exc + json" where
  "llm_message http k C prompt max_tokens =
     (case http (llm_request_url k C) (llm_headers k C) (message_body C prompt max_tokens) of
        HttpStatus n \<Rightarrow> Inl RuntimeError
      | Failed e \<Rightarrow> Inl e
      | Payload p \<Rightarrow> (case k of Anthropic \<Rightarrow> anthropic_text p | OpenAICompat \<Rightarrow> openai_text p))"

definition llm_init :: "string option \<Rightarrow> string option \<Rightarrow> string \<Rightarrow> string \<Rightarrow> int \<Rightarrow> exc + llm_config" where
  "llm_init api_key env_key url model max_tokens =
     (let key = (case api_key of Some (c # cs) \<Rightarrow> Some (c # cs) | _ \<Rightarrow> env_key) in
      case key of
        Some (c # cs) \<Rightarrow> Inr \<lparr>lc_key = c # cs, lc_url = rev (dropWhile ((=) CHR ''/'') (rev url)), lc_model = model, lc_max_tokens = max_tokens\<rparr>
      | _ \<Rightarrow> Inl ValueError)"

definition llm_propose :: "llm_transport \<Rightarrow> llm_kind \<Rightarrow> llm_config \<Rightarrow> string \<Rightarrow> string \<Rightarrow> int \<Rightarrow> exc + string list" where
  "llm_propose http k C dash context n =
     (if n \<le> 0 then Inl ValueError
      else sum_bind (llm_message http k C (propose_prompt dash context n) None) (\<lambda>r.
        case r of JStr t \<Rightarrow> Inr (parse_candidates t (nat n)) | _ \<Rightarrow> Inl TypeError))"

definition llm_score :: "llm_transport \<Rightarrow> llm_kind \<Rightarrow> llm_config \<Rightarrow> string \<Rightarrow> string \<Rightarrow> exc + real" where
  "llm_score http k C context outcome =
     sum_bind (llm_message http k C (score_prompt context outcome) (Some 16)) (\<lambda>r.
       case r of JStr t \<Rightarrow> Inr (parse_score t) | _ \<Rightarrow> Inl TypeError)"

section \<open>Candidates are read back\<close>

text \<open>A reply as the prompt asks for it: fenced blocks with a language tag, and text without fences around them.\<close>

type_synonym fenced = "string \<times> string \<times> string"

fun fenced_text :: "fenced \<Rightarrow> string" where
  "fenced_text (tag, body, after) = FENCE @ tag @ nl @ body @ FENCE @ after"

fun fenced_ok :: "fenced \<Rightarrow> bool" where
  "fenced_ok (tag, body, after) \<longleftrightarrow> list_all tag_char tag \<and> CHR ''`'' \<notin> set body \<and> CHR ''`'' \<notin> set after \<and> py_strip body \<noteq> []"

definition block_of :: "fenced \<Rightarrow> string" where
  "block_of b = py_strip (fst (snd b))"

lemma until_fence_body: "CHR ''`'' \<notin> set body \<Longrightarrow> until_fence (body @ FENCE @ r) = Some (body, r)"
proof (induction body)
  case Nil
  then show ?case by (simp add: FENCE_def)
qed (auto simp: FENCE_def)

lemma fence_match_item:
  assumes "list_all tag_char tag" "CHR ''`'' \<notin> set body"
  shows "fence_match (FENCE @ tag @ nl @ body @ FENCE @ r) = Some (body, r)"
proof -
  have chars: "\<not> blank_char CHR 0x0A" "\<not> tag_char CHR 0x0A" "\<not> (blank_char c \<and> tag_char c)" for c
    by (auto simp: blank_char_def tag_char_def py_alnum_def Let_def)
  let ?rest = "body @ FENCE @ r"
  have "dropWhile blank_char (tag @ CHR 0x0A # ?rest) = tag @ CHR 0x0A # ?rest"
    using assms(1) chars(1,3) by (cases tag) auto
  moreover have "dropWhile tag_char (tag @ CHR 0x0A # ?rest) = CHR 0x0A # ?rest"
    using assms(1) chars(2) by (simp add: list_all_iff)
  ultimately show ?thesis
    using chars(1) until_fence_body [OF assms(2)] by (simp add: fence_match_def FENCE_def nl_def)
qed

lemma fence_match_none: "CHR ''`'' \<noteq> c \<Longrightarrow> fence_match (c # cs) = None"
  by (simp add: fence_match_def FENCE_def)

lemma find_blocks_skip: "CHR ''`'' \<notin> set p \<Longrightarrow> find_blocks (p @ s) = find_blocks s"
proof (induction p)
  case (Cons c p)
  then show ?case by (subst find_blocks.simps) (simp add: fence_match_none)
qed simp

lemma find_blocks_fenced:
  "list_all fenced_ok bs \<Longrightarrow> CHR ''`'' \<notin> set intro \<Longrightarrow>
   find_blocks (intro @ concat (map fenced_text bs)) = map (fst \<circ> snd) bs"
proof (induction bs arbitrary: intro)
  case Nil
  have "find_blocks [] = []" by (subst find_blocks.simps) (simp add: fence_match_def FENCE_def)
  then show ?case using find_blocks_skip [OF Nil(2), of "[]"] by simp
next
  case (Cons b bs)
  obtain tag body after where b: "b = (tag, body, after)" by (cases b)
  let ?more = "after @ concat (map fenced_text bs)"
  have "fence_match (FENCE @ tag @ nl @ body @ FENCE @ ?more) = Some (body, ?more)"
    using Cons.prems(1) b by (intro fence_match_item) simp_all
  then have "find_blocks (FENCE @ tag @ nl @ body @ FENCE @ ?more) = body # find_blocks ?more"
    by (subst find_blocks.simps) simp
  moreover have "find_blocks ?more = map (fst \<circ> snd) bs" using Cons.prems(1) b by (intro Cons.IH) simp_all
  ultimately show ?case using find_blocks_skip [OF Cons.prems(2)] b by simp
qed

lemma candidate_parts_nonempty: "candidate_parts reply \<noteq> []"
  by (simp add: candidate_parts_def Let_def)

lemma parse_candidates_cycle:
  "parse_candidates reply n = map (\<lambda>i. candidate_parts reply ! (i mod length (candidate_parts reply))) [0..<n]"
proof -
  let ?ps = "candidate_parts reply"
  have k: "0 < length ?ps" using candidate_parts_nonempty by simp
  show ?thesis
  proof (rule nth_equalityI)
    fix i assume "i < length (parse_candidates reply n)"
    then have i: "i < n" by (auto simp: parse_candidates_def Let_def split: if_splits)
    show "parse_candidates reply n ! i = map (\<lambda>i. ?ps ! (i mod length ?ps)) [0..<n] ! i"
    proof (cases "i < length ?ps")
      case True
      then show ?thesis using i by (simp add: parse_candidates_def Let_def nth_append)
    next
      case False
      then have "i mod length ?ps = (i - length ?ps) mod length ?ps" by (simp add: le_mod_geq not_less)
      moreover have "i - length ?ps < n - length ?ps" using False i by linarith
      ultimately show ?thesis using False i by (simp add: parse_candidates_def Let_def nth_append)
    qed
  qed (use k in \<open>auto simp: parse_candidates_def Let_def\<close>)
qed

text \<open>
  C40: \<open>propose\<close> gives what the model proposed: from a reply of fenced, non-blank blocks, whatever language tags and text
  are around them, exactly \<open>n\<close> candidates are returned, the stripped blocks in their order, from the start again when
  there are fewer than \<open>n\<close> and cut off when there are more.
\<close>

theorem llm_propose_reads_blocks:
  assumes "0 < n" "bs \<noteq> []" "list_all fenced_ok bs" "CHR ''`'' \<notin> set intro"
    and "llm_message http k C (propose_prompt dash context n) None = Inr (JStr (intro @ concat (map fenced_text bs)))"
  shows "llm_propose http k C dash context n = Inr (map (\<lambda>i. block_of (bs ! (i mod length bs))) [0..<nat n])"
proof -
  have "py_strip \<circ> (fst \<circ> snd) = block_of" by (simp add: block_of_def fun_eq_iff)
  moreover have "filter ((\<noteq>) []) (map block_of bs) = map block_of bs"
    using assms(3) by (intro filter_True) (auto simp: list_all_iff block_of_def)
  ultimately have parts: "candidate_parts (intro @ concat (map fenced_text bs)) = map block_of bs"
    using assms(2) by (simp add: candidate_parts_def find_blocks_fenced [OF assms(3,4)] Let_def)
  show ?thesis using assms(1,2,5) by (simp add: llm_propose_def sum_bind_def parse_candidates_cycle parts)
qed

definition sample_llm :: "string \<Rightarrow> llm_transport" where
  "sample_llm reply url headers body = Payload (JObj [(''content'', JArr [JObj [(''text'', JStr reply)]])])"

theorem llm_propose_reads_blocks_witness:
  "llm_propose (sample_llm (''Two: '' @ fenced_text (''python'', ''x = 1'', nl) @ fenced_text ([], ''y'', []))) Anthropic
     \<lparr>lc_key = ''k'', lc_url = [], lc_model = ''m'', lc_max_tokens = 9\<rparr> ''-'' ''ctx'' 3 = Inr [''x = 1'', ''y'', ''x = 1'']"
proof -
  let ?bs = "[(''python'', ''x = 1'', nl), ([], ''y'', [])]"
  have strip: "py_strip ''x = 1'' = ''x = 1''" "py_strip ''y'' = ''y''" by code_simp+
  have ok: "list_all fenced_ok ?bs" using strip by (simp add: nl_def tag_char_def py_alnum_def)
  have "llm_propose (sample_llm (''Two: '' @ concat (map fenced_text ?bs))) Anthropic
     \<lparr>lc_key = ''k'', lc_url = [], lc_model = ''m'', lc_max_tokens = 9\<rparr> ''-'' ''ctx'' 3 =
     Inr (map (\<lambda>i. block_of (?bs ! (i mod length ?bs))) [0..<nat 3])"
    by (rule llm_propose_reads_blocks [OF _ _ ok]) (simp_all add: llm_message_def sample_llm_def anthropic_text_def)
  then show ?thesis by (simp add: block_of_def strip upt_rec numeral_2_eq_2)
qed

text \<open>A score is a number between 0 and 1, whatever the model replies.\<close>

lemma llm_score_bounds: "llm_score http k C context outcome = Inr x \<Longrightarrow> 0 \<le> x \<and> x \<le> 1"
  by (auto simp: llm_score_def sum_bind_def parse_score_def split: sum.splits json.splits option.splits)

end
