(* ===== verification/Cost_Model.thy ===== *)
theory Cost_Model
  imports Prelude
begin

text \<open>
  \<open>bench/cost_model.py\<close>: the token arithmetic of a fan-out, without and with cache pressure.  Prices and ratios are
  reals; \<open>round\<close> rounds halves to even on them.
\<close>

definition py_round :: "nat \<Rightarrow> real \<Rightarrow> real" where
  "py_round d x =
     (let y = x * 10 ^ d; f = \<lfloor>y\<rfloor>; r = y - of_int f
      in of_int (if r < 1 / 2 \<or> r = 1 / 2 \<and> even f then f else f + 1) / 10 ^ d)"

section \<open>The plain model\<close>

record scenario =
  sc_children :: int
  sc_prefix :: int
  sc_suffix :: int
  sc_discount :: real
  sc_write_mult :: real

definition scenario_init :: "int \<Rightarrow> int \<Rightarrow> int \<Rightarrow> real \<Rightarrow> real \<Rightarrow> exc + scenario" where
  "scenario_init n p u discount write_mult =
     (if n < 1 then Inl ValueError
      else if p < 0 \<or> u < 0 then Inl ValueError
      else if p + u = 0 then Inl ValueError
      else if discount < 0 \<or> write_mult < 0 then Inl ValueError
      else Inr \<lparr>sc_children = n, sc_prefix = p, sc_suffix = u, sc_discount = discount, sc_write_mult = write_mult\<rparr>)"

record arm =
  arm_charged :: real
  arm_resident :: "int option"

record cost =
  co_independent :: arm
  co_provider :: arm
  co_self_hosted :: arm
  co_agentfork :: arm
  co_gain_independent :: real
  co_gain_provider :: real
  co_gain_self_hosted :: real
  co_gain_residency :: real

definition cost_model :: "scenario \<Rightarrow> cost" where
  "cost_model s =
     (let n = sc_children s; p = sc_prefix s; u = sc_suffix s;
          independent = \<lparr>arm_charged = of_int (n * (p + u)), arm_resident = Some (n * (p + u))\<rparr>;
          provider = \<lparr>arm_charged = of_int p * sc_write_mult s + of_int ((n - 1) * p) * sc_discount s + of_int (n * u), arm_resident = None\<rparr>;
          self_hosted = \<lparr>arm_charged = of_int (p + n * u), arm_resident = Some (p + n * u)\<rparr>;
          agentfork = \<lparr>arm_charged = of_int (p + n * u), arm_resident = Some (p + n * u)\<rparr>;
          af = arm_charged agentfork
      in \<lparr>co_independent = independent, co_provider = provider, co_self_hosted = self_hosted, co_agentfork = agentfork,
          co_gain_independent = py_round 2 (arm_charged independent / af), co_gain_provider = py_round 2 (arm_charged provider / af),
          co_gain_self_hosted = py_round 2 (arm_charged self_hosted / af),
          co_gain_residency = py_round 2 (of_int (p + n * u) / of_int (p + n * u))\<rparr>)"

section \<open>Under pressure\<close>

record pressure =
  ps_prefix :: int
  ps_children :: int
  ps_suffix :: int
  ps_interleaved :: int
  ps_capacity :: int
  ps_pattern :: string

definition pressure_init :: "int \<Rightarrow> int \<Rightarrow> int \<Rightarrow> int \<Rightarrow> int \<Rightarrow> string \<Rightarrow> exc + pressure" where
  "pressure_init p n s u c pattern =
     (if n < 1 then Inl ValueError
      else if p < 0 \<or> s < 0 then Inl ValueError
      else if u < 0 then Inl ValueError
      else if c \<le> 0 then Inl ValueError
      else if p + s = 0 then Inl ValueError
      else if p + s > c then Inl ValueError
      else if pattern \<notin> {''sustained'', ''burst''} then Inl ValueError
      else Inr \<lparr>ps_prefix = p, ps_children = n, ps_suffix = s, ps_interleaved = u, ps_capacity = c, ps_pattern = pattern\<rparr>)"

definition break_even_u :: "int \<Rightarrow> int \<Rightarrow> int" where
  "break_even_u p c = max 0 (c - p)"

definition stock_parent_hits :: "pressure \<Rightarrow> int" where
  "stock_parent_hits ps =
     (let n = ps_children ps; evicts = ps_interleaved ps > break_even_u (ps_prefix ps) (ps_capacity ps)
      in if ps_pattern ps = ''burst'' then (if \<not> evicts then n else n - 1) else (if \<not> evicts then n else 0))"

record prediction =
  pr_break_even :: int
  pr_stock_hits :: int
  pr_stock_rate :: real
  pr_misses :: int
  pr_stock_charged :: int
  pr_pinned_hits :: int
  pr_pinned_charged :: int
  pr_ratio :: real
  pr_pinning_wins :: bool

definition pressure_model :: "pressure \<Rightarrow> prediction" where
  "pressure_model ps =
     (let p = ps_prefix ps; n = ps_children ps; s = ps_suffix ps; hits = stock_parent_hits ps; misses = n - hits;
          pinned = p + n * s; stock = p + n * s + misses * p
      in \<lparr>pr_break_even = break_even_u p (ps_capacity ps), pr_stock_hits = hits, pr_stock_rate = py_round 4 (of_int hits / of_int n),
          pr_misses = misses, pr_stock_charged = stock, pr_pinned_hits = n, pr_pinned_charged = pinned,
          pr_ratio = py_round 4 (of_int stock / of_int pinned), pr_pinning_wins = (misses > 0)\<rparr>)"

record surface_row =
  sr_u :: int
  sr_u_over_c :: real
  sr_hit_rate :: real
  sr_ratio :: real
  sr_wins :: bool

text \<open>\<open>break_even_surface\<close>: a point that is no valid scenario raises.\<close>

fun break_even_surface :: "int \<Rightarrow> int \<Rightarrow> int \<Rightarrow> int \<Rightarrow> real list \<Rightarrow> exc + surface_row list" where
  "break_even_surface p c n s [] = Inr []"
| "break_even_surface p c n s (q # qs) =
     (let u = \<lfloor>py_round 0 (q * of_int c)\<rfloor> in
      case pressure_init p n s u c ''sustained'' of
        Inl e \<Rightarrow> Inl e
      | Inr ps \<Rightarrow>
          (let m = pressure_model ps in
           case break_even_surface p c n s qs of
             Inl e \<Rightarrow> Inl e
           | Inr rows \<Rightarrow> Inr (\<lparr>sr_u = u, sr_u_over_c = py_round 3 (of_int u / of_int c), sr_hit_rate = pr_stock_rate m,
               sr_ratio = pr_ratio m, sr_wins = pr_pinning_wins m\<rparr> # rows)))"

section \<open>What the models promise\<close>

text \<open>Rounding is monotone and keeps integers, so that it does not turn a gain into a loss.\<close>

lemma py_round_ge: "of_int k \<le> x \<Longrightarrow> of_int k \<le> py_round d x"
proof -
  assume x: "of_int k \<le> x"
  define f where "f = \<lfloor>x * 10 ^ d\<rfloor>"
  have "of_int (k * 10 ^ d) \<le> x * 10 ^ d" using x by simp
  then have "k * 10 ^ d \<le> f" unfolding f_def by (rule le_floor_iff [THEN iffD2])
  then have "of_int k * 10 ^ d \<le> (of_int f :: real)" by (metis of_int_le_iff of_int_mult of_int_numeral of_int_power)
  moreover have "py_round d x = of_int f / 10 ^ d \<or> py_round d x = of_int (f + 1) / 10 ^ d"
    by (simp add: py_round_def Let_def f_def)
  ultimately show ?thesis by (auto simp: pos_le_divide_eq)
qed

lemma py_round_one [simp]: "py_round d 1 = 1"
  by (simp add: py_round_def Let_def)

lemma scenario_bounds:
  assumes "scenario_init n p u disc mult = Inr s"
  shows "0 < p + n * u" "p + n * u \<le> n * (p + u)"
proof -
  have v: "1 \<le> n" "0 \<le> p" "0 \<le> u" "p + u \<noteq> 0" using assms by (auto simp: scenario_init_def split: if_splits)
  then have "u \<le> n * u" "p \<le> n * p" by (simp_all add: mult_le_cancel_right1)
  then show "0 < p + n * u" "p + n * u \<le> n * (p + u)" using v by (auto simp: distrib_left)
qed

text \<open>
  An accepted scenario has a positive charge for the tree cache, no more than independent prefill, so that no division
  by zero happens, the gain is at least one, and parity with a self-hosted cache is exact.
\<close>

lemma cost_model_gains:
  assumes "scenario_init n p u disc mult = Inr s"
  shows "0 < arm_charged (co_agentfork (cost_model s)) \<and> 1 \<le> co_gain_independent (cost_model s) \<and>
    co_gain_self_hosted (cost_model s) = 1 \<and> co_gain_residency (cost_model s) = 1"
proof -
  have s: "s = \<lparr>sc_children = n, sc_prefix = p, sc_suffix = u, sc_discount = disc, sc_write_mult = mult\<rparr>"
    using assms by (auto simp: scenario_init_def split: if_splits)
  have pos: "0 < real_of_int (p + n * u)" using scenario_bounds(1) [OF assms] by linarith
  then have "real_of_int 1 \<le> real_of_int (n * (p + u)) / real_of_int (p + n * u)"
    using scenario_bounds(2) [OF assms] by (simp add: pos_le_divide_eq del: of_int_add of_int_mult)
  from py_round_ge [OF this] show ?thesis using pos by (simp add: s cost_model_def Let_def)
qed

text \<open>Pinning wins exactly beyond the break-even pressure, and never costs more.\<close>

lemma pressure_break_even:
  assumes "pressure_init p n s u c pattern = Inr ps"
  shows "(pr_pinning_wins (pressure_model ps) \<longleftrightarrow> c - p < u) \<and> pr_pinned_charged (pressure_model ps) \<le> pr_stock_charged (pressure_model ps) \<and>
    0 < pr_pinned_charged (pressure_model ps)"
proof -
  have ps: "ps = \<lparr>ps_prefix = p, ps_children = n, ps_suffix = s, ps_interleaved = u, ps_capacity = c, ps_pattern = pattern\<rparr>"
    and v: "1 \<le> n" "0 \<le> p" "0 \<le> s" "p + s \<noteq> 0" "p + s \<le> c" "0 \<le> u"
    using assms by (auto simp: pressure_init_def split: if_splits)
  have "s \<le> n * s" using v by (simp add: mult_le_cancel_right1)
  with v have "0 < p + n * s" by auto
  with v show ?thesis by (auto simp: ps pressure_model_def stock_parent_hits_def break_even_u_def Let_def)
qed

end
