(* ===== verification/Census.thy ===== *)
theory Census
  imports Cost_Model
begin

text \<open>
  \<open>workload/census.py\<close>: bursts of sessions, how much of their prompts is shared, and the summary of both.
\<close>

section \<open>Operations\<close>

record session =
  se_created :: real
  se_title :: "string option"
  se_prompt :: "string option"

definition text_or_empty :: "string option \<Rightarrow> string" where
  "text_or_empty t = (case t of None \<Rightarrow> [] | Some x \<Rightarrow> x)"

function prefix_loop :: "string \<Rightarrow> string \<Rightarrow> nat \<Rightarrow> nat" where
  "prefix_loop a b i = (if i < min (length a) (length b) \<and> a ! i = b ! i then prefix_loop a b (Suc i) else i)"
  by pat_completeness auto
termination by (relation "measure (\<lambda>(a, b, i). length a - i)") auto

declare prefix_loop.simps [simp del]

definition common_prefix_len :: "string \<Rightarrow> string \<Rightarrow> nat" where
  "common_prefix_len a b = prefix_loop a b 0"

definition add_to_bursts :: "real \<Rightarrow> session list list \<Rightarrow> session \<Rightarrow> session list list" where
  "add_to_bursts w clusters s =
     (if clusters \<noteq> [] \<and> se_created s - se_created (last (last clusters)) \<le> w
      then butlast clusters @ [last clusters @ [s]] else clusters @ [[s]])"

definition cluster_bursts :: "session list \<Rightarrow> real \<Rightarrow> exc + session list list" where
  "cluster_bursts sessions w =
     (if w < 0 then Inl ValueError else Inr (foldl (add_to_bursts w) [] (sort_key se_created sessions)))"

record burst =
  bu_width :: nat
  bu_titles :: "string list"
  bu_shared :: real

definition burst_stats :: "session list \<Rightarrow> burst list" where
  "burst_stats c =
     (let prompts = map (text_or_empty \<circ> se_prompt) c; base = hd prompts in
      if length c < 2 \<or> base = [] then []
      else let prefs = map (\<lambda>p. real (common_prefix_len base p) / real (max (length base) 1)) (tl prompts) in
        [\<lparr>bu_width = length c, bu_titles = map (\<lambda>s. take 60 (text_or_empty (se_title s))) c,
          bu_shared = py_round 3 (sum_list prefs / real (length prefs))\<rparr>])"

definition counter :: "'a list \<Rightarrow> ('a, nat) dict" where
  "counter xs = map (\<lambda>x. (x, length (filter ((=) x) xs))) (rev (remdups (rev xs)))"

record census =
  ce_sessions :: nat
  ce_clusters :: nat
  ce_widths :: "(nat, nat) dict"
  ce_p95 :: nat
  ce_max :: nat
  ce_bursts :: "burst list"
  ce_recurring :: nat

definition analyze :: "session list \<Rightarrow> real \<Rightarrow> exc + census" where
  "analyze sessions w =
     (case cluster_bursts sessions w of
        Inl e \<Rightarrow> Inl e
      | Inr clusters \<Rightarrow>
         if clusters = [] then Inr \<lparr>ce_sessions = 0, ce_clusters = 0, ce_widths = [], ce_p95 = 0, ce_max = 0, ce_bursts = [], ce_recurring = 0\<rparr>
         else
           let ws = sort (map length clusters); i = nat \<lfloor>(95 / 100) * real (length ws - 1)\<rfloor>;
               prompts = filter ((\<noteq>) []) (map (text_or_empty \<circ> se_prompt) sessions) in
           if length ws \<le> i then Inl IndexError
           else Inr \<lparr>ce_sessions = length sessions, ce_clusters = length clusters, ce_widths = sort_key fst (counter (map length clusters)),
             ce_p95 = ws ! i, ce_max = Max (set ws), ce_bursts = concat (map burst_stats clusters),
             ce_recurring = sum_list (map snd (filter (\<lambda>x. snd x \<ge> 2) (counter prompts)))\<rparr>)"

section \<open>Shared prefixes\<close>

lemma prefix_loop_longest:
  assumes "i \<le> length a" "i \<le> length b" "take i a = take i b"
  shows "prefix_loop a b i \<le> length a \<and> prefix_loop a b i \<le> length b \<and> take (prefix_loop a b i) a = take (prefix_loop a b i) b \<and>
    (\<forall>j. j \<le> length a \<and> j \<le> length b \<and> take j a = take j b \<longrightarrow> j \<le> prefix_loop a b i)"
  using assms
proof (induction a b i rule: prefix_loop.induct)
  case (1 a b i)
  show ?case
  proof (cases "i < min (length a) (length b) \<and> a ! i = b ! i")
    case True
    then have "take (Suc i) a = take (Suc i) b" using 1(4) by (simp add: take_Suc_conv_app_nth)
    then show ?thesis using 1(1) True by (subst (1 2 3 4 5) prefix_loop.simps) auto
  next
    case False
    have "j \<le> i" if "j \<le> length a" "j \<le> length b" "take j a = take j b" for j
    proof (rule ccontr)
      assume "\<not> j \<le> i"
      then have "i < min (length a) (length b)" "a ! i = b ! i" using that by (auto, metis not_le nth_take)
      with False show False by blast
    qed
    with False 1 show ?thesis by (subst (1 2 3 4 5) prefix_loop.simps) auto
  qed
qed

section \<open>Bursts\<close>

abbreviation in_window :: "real \<Rightarrow> session \<Rightarrow> session \<Rightarrow> bool" where
  "in_window w a b \<equiv> se_created b - se_created a \<le> w"

abbreviation far_apart :: "real \<Rightarrow> session list \<Rightarrow> session list \<Rightarrow> bool" where
  "far_apart w c d \<equiv> \<not> in_window w (last c) (hd d)"

definition bursts_ok :: "real \<Rightarrow> session list list \<Rightarrow> bool" where
  "bursts_ok w cs \<longleftrightarrow> [] \<notin> set cs \<and> list_all (successively (in_window w)) cs \<and> successively (far_apart w) cs"

lemma successively_snoc: "successively P (xs @ [x]) \<longleftrightarrow> successively P xs \<and> (xs = [] \<or> P (last xs) x)"
  by (simp add: successively_append_iff)

lemma add_to_bursts_ok:
  assumes "bursts_ok w cs"
  shows "bursts_ok w (add_to_bursts w cs s)" "concat (add_to_bursts w cs s) = concat cs @ [s]"
proof -
  have cs: "cs = butlast cs @ [last cs]" if "cs \<noteq> []" using that by simp
  have inner: "bursts_ok w (butlast cs @ [last cs @ [s]])" if "cs \<noteq> []" "in_window w (last (last cs)) s"
  proof -
    have ne: "last cs \<noteq> []" using assms that(1) by (metis bursts_ok_def last_in_set)
    have "bursts_ok w (butlast cs @ [last cs])" using assms cs [OF that(1)] by simp
    then show ?thesis using that(2) ne
      by (auto simp: bursts_ok_def successively_snoc in_set_butlastD)
  qed
  show "bursts_ok w (add_to_bursts w cs s)"
    using inner assms by (auto simp: add_to_bursts_def bursts_ok_def successively_snoc)
  show "concat (add_to_bursts w cs s) = concat cs @ [s]"
  proof (cases "cs = []")
    case False
    have "concat cs = concat (butlast cs) @ last cs" by (subst cs [OF False]) simp
    then show ?thesis by (simp add: add_to_bursts_def)
  qed (simp add: add_to_bursts_def)
qed

lemma bursts_fold:
  "bursts_ok w cs \<Longrightarrow> bursts_ok w (foldl (add_to_bursts w) cs xs) \<and> concat (foldl (add_to_bursts w) cs xs) = concat cs @ xs"
  by (induction xs arbitrary: cs) (simp_all add: add_to_bursts_ok)

text \<open>
  The bursts are the sessions in the order of creation, cut exactly where two neighbours are further apart than
  the window.
\<close>

lemma cluster_bursts_exact:
  "0 \<le> w \<Longrightarrow> \<exists>cs. cluster_bursts ss w = Inr cs \<and> concat cs = sort_key se_created ss \<and> bursts_ok w cs"
  using bursts_fold [of w "[]" "sort_key se_created ss"] by (simp add: cluster_bursts_def bursts_ok_def)

text \<open>The percentile never indexes out of range: \<open>analyze\<close> returns for every list of sessions and every window.\<close>

lemma analyze_total: "0 \<le> w \<Longrightarrow> \<exists>c. analyze ss w = Inr c"
proof -
  have "nat \<lfloor>(95 / 100) * real (k - 1)\<rfloor> < k" if "0 < k" for k :: nat
  proof -
    have "(95 / 100) * real (k - 1) \<le> real (k - 1)" by simp
    then have "\<lfloor>(95 / 100) * real (k - 1)\<rfloor> \<le> \<lfloor>real (k - 1)\<rfloor>" by (rule floor_mono)
    then have "\<lfloor>(95 / 100) * real (k - 1)\<rfloor> \<le> int (k - 1)" by (simp only: floor_of_nat)
    with that show ?thesis by linarith
  qed
  note index = this
  assume "0 \<le> w"
  then obtain cs where cs: "cluster_bursts ss w = Inr cs" by (simp add: cluster_bursts_def)
  show ?thesis
  proof (cases "cs = []")
    case False
    then have "nat \<lfloor>(95 / 100) * real (length (sort (map length cs)) - 1)\<rfloor> < length (sort (map length cs))"
      by (intro index) simp
    then have "\<not> length (sort (map length cs)) \<le> nat \<lfloor>(95 / 100) * real (length (sort (map length cs)) - 1)\<rfloor>"
      by (simp only: not_le)
    with False show ?thesis by (simp only: analyze_def cs sum.case Let_def if_False) blast
  qed (simp add: analyze_def cs)
qed

end
