(* ===== verification/Stock_Cache.thy ===== *)
theory Stock_Cache
  imports Procs
begin

text \<open>
  \<open>StockRadixCache\<close> of \<open>bench/pressure_bench.py\<close>: one radix tree with eviction of the least recently used leaf and no
  pinning.  A node is given by the keys on the way to it; parent pointers follow the tree.
\<close>

section \<open>Nodes\<close>

datatype rnode = RNode (rn_tokens: "int list") (rn_access: nat) (rn_children: "(int \<times> rnode) list")

lemma size_rnode_dget: "dget d k = Some v \<Longrightarrow> size v < Suc (size_list (size_prod (\<lambda>_. 0) size) d)"
  by (induction d) (auto split: if_splits)

text \<open>\<open>match_prefix\<close>.\<close>

function match_len :: "(int, rnode) dict \<Rightarrow> int list \<Rightarrow> nat" where
  "match_len ch toks =
     (case toks of
        [] \<Rightarrow> 0
      | t # _ \<Rightarrow>
         (case dget ch t of
            None \<Rightarrow> 0
          | Some nxt \<Rightarrow>
             let n = length (rn_tokens nxt) in
             if take n toks \<noteq> rn_tokens nxt then lcp_len (rn_tokens nxt) toks
             else n + match_len (rn_children nxt) (drop n toks)))"
  by pat_completeness auto
termination
proof (relation "measures [\<lambda>(ch, toks). length toks, \<lambda>(ch, toks). size_list (size_prod (\<lambda>_. 0) size) ch]")
  fix ch :: "(int, rnode) dict" and toks t ts nxt n
  assume "toks = t # ts" "dget ch t = Some nxt" "n = length (rn_tokens nxt)"
  then show "((rn_children nxt, drop n toks), ch, toks)
      \<in> measures [\<lambda>(ch, toks). length toks, \<lambda>(ch, toks). size_list (size_prod (\<lambda>_. 0) size) ch]"
    using size_rnode_dget [of ch t nxt] by (cases nxt) auto
qed simp

declare match_len.simps [simp del]

text \<open>
  The walk of \<open>_insert_and_touch\<close>: a node that matches in part is split, and the next round enters its head.  The result is
  the way to the node where the walk stops, the number of matched tokens, and the tree.
\<close>

function touch_walk :: "nat \<Rightarrow> (int, rnode) dict \<Rightarrow> int list \<Rightarrow> int list \<times> nat \<times> (int, rnode) dict" where
  "touch_walk now ch toks =
     (case toks of
        [] \<Rightarrow> ([], 0, ch)
      | t # _ \<Rightarrow>
         (case dget ch t of
            None \<Rightarrow> ([], 0, ch)
          | Some nxt \<Rightarrow>
             let n = length (rn_tokens nxt) in
             if take n toks \<noteq> rn_tokens nxt then
               let common = lcp_len (rn_tokens nxt) toks in
               if common = 0 then ([], 0, ch)
               else
                 let tail = drop common (rn_tokens nxt);
                     (path, m, below) = touch_walk now [(hd tail, RNode tail (rn_access nxt) (rn_children nxt))] (drop common toks)
                 in (t # path, common + m, dset t (RNode (take common (rn_tokens nxt)) now below) ch)
             else
               let (path, m, below) = touch_walk now (rn_children nxt) (drop n toks)
               in (t # path, n + m, dset t (RNode (rn_tokens nxt) now below) ch)))"
  by pat_completeness auto
termination
proof (relation "measures [\<lambda>(now, ch, toks). length toks, \<lambda>(now, ch, toks). size_list (size_prod (\<lambda>_. 0) size) ch]")
  fix ch :: "(int, rnode) dict" and toks t ts nxt n and now :: nat
  assume "toks = t # ts" "dget ch t = Some nxt" "n = length (rn_tokens nxt)"
  then show "((now, rn_children nxt, drop n toks), now, ch, toks)
      \<in> measures [\<lambda>(now, ch, toks). length toks, \<lambda>(now, ch, toks). size_list (size_prod (\<lambda>_. 0) size) ch]"
    using size_rnode_dget [of ch t nxt] by (cases nxt) auto
qed simp_all

declare touch_walk.simps [simp del]

text \<open>A new node below the node at the end of a way; a node that was evicted meanwhile is not in the tree any more.\<close>

fun attach_at :: "int list \<Rightarrow> rnode \<Rightarrow> (int, rnode) dict \<Rightarrow> (int, rnode) dict" where
  "attach_at [] new ch = dset (hd (rn_tokens new)) new ch"
| "attach_at (k # ks) new ch =
     (case dget ch k of
        None \<Rightarrow> ch
      | Some nd \<Rightarrow> dset k (RNode (rn_tokens nd) (rn_access nd) (attach_at ks new (rn_children nd))) ch)"

section \<open>Eviction\<close>

text \<open>\<open>_all_leaves\<close>: the stack gives the last child first.\<close>

fun leaves_in :: "(int, rnode) dict \<Rightarrow> (int list \<times> rnode) list" and leaves_at :: "rnode \<Rightarrow> (int list \<times> rnode) list" where
  "leaves_in [] = []"
| "leaves_in ((k, nd) # ch) = leaves_in ch @ map (\<lambda>(p, x). (k # p, x)) (leaves_at nd)"
| "leaves_at (RNode t a ch) = (if ch = [] then [([], RNode t a [])] else leaves_in ch)"

fun remove_leaf :: "int list \<Rightarrow> (int, rnode) dict \<Rightarrow> (int, rnode) dict" where
  "remove_leaf [] ch = ch"
| "remove_leaf [k] ch = ddel k ch"
| "remove_leaf (k # ks) ch =
     (case dget ch k of
        None \<Rightarrow> ch
      | Some nd \<Rightarrow> dset k (RNode (rn_tokens nd) (rn_access nd) (remove_leaf ks (rn_children nd))) ch)"

text \<open>\<open>min(leaves, key=...)\<close>: the first of the least.\<close>

fun first_min :: "('a \<Rightarrow> nat) \<Rightarrow> 'a list \<Rightarrow> 'a option" where
  "first_min f [] = None"
| "first_min f (x # xs) = (case first_min f xs of None \<Rightarrow> Some x | Some y \<Rightarrow> if f x \<le> f y then Some x else Some y)"

fun tree_tokens :: "(int, rnode) dict \<Rightarrow> int" and node_tokens :: "rnode \<Rightarrow> int" where
  "tree_tokens [] = 0"
| "tree_tokens ((k, nd) # ch) = node_tokens nd + tree_tokens ch"
| "node_tokens (RNode t a ch) = int (length t) + tree_tokens ch"

fun tree_nodes :: "(int, rnode) dict \<Rightarrow> nat" and node_nodes :: "rnode \<Rightarrow> nat" where
  "tree_nodes [] = 0"
| "tree_nodes ((k, nd) # ch) = node_nodes nd + tree_nodes ch"
| "node_nodes (RNode t a ch) = Suc (tree_nodes ch)"

text \<open>The loop of \<open>_evict\<close>; every round removes a node, so that the number of nodes bounds it.\<close>

fun stock_evict_loop :: "nat \<Rightarrow> int \<Rightarrow> int \<Rightarrow> (int, rnode) dict \<Rightarrow> int \<Rightarrow> (int, rnode) dict \<times> int" where
  "stock_evict_loop 0 cap need ch res = (ch, res)"
| "stock_evict_loop (Suc fuel) cap need ch res =
     (if res + need > cap then
        (case first_min (\<lambda>x. rn_access (snd x)) (leaves_in ch) of
           None \<Rightarrow> (ch, res)
         | Some (p, victim) \<Rightarrow> stock_evict_loop fuel cap need (remove_leaf p ch) (res - int (length (rn_tokens victim))))
      else (ch, res))"

section \<open>The cache\<close>

record stock =
  sk_capacity :: int
  sk_root :: "(int, rnode) dict"
  sk_resident :: int
  sk_charged :: int
  sk_clock :: nat

definition stock_init :: "int \<Rightarrow> exc + stock" where
  "stock_init cap = (if cap \<le> 0 then Inl ValueError
     else Inr \<lparr>sk_capacity = cap, sk_root = [], sk_resident = 0, sk_charged = 0, sk_clock = 1\<rparr>)"

definition stock_match :: "int list \<Rightarrow> stock \<Rightarrow> nat" where
  "stock_match toks c = match_len (sk_root c) toks"

definition insert_and_touch :: "int list \<Rightarrow> stock \<Rightarrow> nat \<times> stock" where
  "insert_and_touch toks c =
     (let now = sk_clock c; (path, matched, ch) = touch_walk now (sk_root c) toks in
      if matched < length toks then
        let (ch', res) = stock_evict_loop (Suc (tree_nodes ch)) (sk_capacity c) (int (length toks - matched)) ch (sk_resident c);
            new = RNode (drop matched toks) now []
        in (matched, c\<lparr>sk_root := attach_at path new ch', sk_resident := res + int (length toks - matched), sk_clock := Suc now\<rparr>)
      else (matched, c\<lparr>sk_root := ch, sk_clock := Suc now\<rparr>))"

definition run_request :: "int list \<Rightarrow> stock \<Rightarrow> (nat \<times> nat) \<times> stock" where
  "run_request toks c =
     (let (matched, c') = insert_and_touch toks c; charged = length toks - matched
      in ((matched, charged), c'\<lparr>sk_charged := sk_charged c' + int charged\<rparr>))"

section \<open>Removing leaves\<close>

lemma first_min_None [simp]: "first_min f xs = None \<longleftrightarrow> xs = []"
  by (cases xs) (auto split: option.splits)

lemma first_min_SomeD: "first_min f xs = Some x \<Longrightarrow> x \<in> set xs \<and> (\<forall>y \<in> set xs. f x \<le> f y)"
  by (induction xs arbitrary: x) (auto split: option.splits if_splits intro: order.trans)

fun wf_tree :: "(int, rnode) dict \<Rightarrow> bool" and wf_rnode :: "int \<Rightarrow> rnode \<Rightarrow> bool" where
  "wf_tree [] = True"
| "wf_tree ((k, nd) # ch) \<longleftrightarrow> k \<notin> keys ch \<and> wf_rnode k nd \<and> wf_tree ch"
| "wf_rnode k (RNode t a ch) \<longleftrightarrow> t \<noteq> [] \<and> hd t = k \<and> wf_tree ch"

lemma wf_tree_iff: "wf_tree ch \<longleftrightarrow> wf_dict ch \<and> (\<forall>(k, nd) \<in> set ch. wf_rnode k nd)"
  by (induction ch) force+

lemma wf_tree_get: "wf_tree ch \<Longrightarrow> dget ch k = Some nd \<Longrightarrow> wf_rnode k nd"
  by (auto simp: wf_tree_iff dest: map_of_SomeD)

lemma wf_tree_dset: "wf_tree ch \<Longrightarrow> wf_rnode k nd \<Longrightarrow> wf_tree (dset k nd ch)"
  by (induction ch) force+

lemma wf_tree_ddel: "wf_tree ch \<Longrightarrow> wf_tree (ddel k ch)"
  by (induction ch) auto

lemma tree_tokens_dsum: "tree_tokens ch = dsum node_tokens ch"
  by (induction ch) auto

lemma tree_nodes_dsum: "int (tree_nodes ch) = dsum (\<lambda>nd. int (node_nodes nd)) ch"
  by (induction ch) auto

lemma tree_tokens_nonneg: "0 \<le> tree_tokens ch" "0 \<le> node_tokens nd"
  by (induction ch and nd rule: tree_tokens_node_tokens.induct) auto

lemma leaves_empty: "leaves_in ch = [] \<longleftrightarrow> ch = []" "leaves_at nd \<noteq> []"
  by (induction ch and nd rule: leaves_in_leaves_at.induct) auto

lemma leaves_in_set:
  "wf_dict ch \<Longrightarrow> (p, v) \<in> set (leaves_in ch) \<longleftrightarrow> (\<exists>k q nd. p = k # q \<and> dget ch k = Some nd \<and> (q, v) \<in> set (leaves_at nd))"
proof (induction ch)
  case (Cons x ch)
  obtain k nd where x: "x = (k, nd)" by (cases x)
  have "dget ch k = None" using Cons.prems by (simp add: x dget_None_iff)
  then show ?case using Cons by (auto simp: x split: if_splits) (metis option.distinct(1))+
qed simp

lemma leaf_here: "([], v) \<in> set (leaves_at nd) \<longleftrightarrow> rn_children nd = [] \<and> v = nd"
proof (cases nd)
  case (RNode t a ch)
  have "([], v) \<notin> set (leaves_in c)" for c :: "(int, rnode) dict" by (induction c) auto
  then show ?thesis using RNode by auto
qed

lemma remove_leaf_cases:
  assumes "wf_tree ch" "(p, v) \<in> set (leaves_in ch)"
  obtains k where "p = [k]" "dget ch k = Some v" "rn_children v = []" "remove_leaf p ch = ddel k ch"
  | k q nd where "p = k # q" "q \<noteq> []" "dget ch k = Some nd" "(q, v) \<in> set (leaves_in (rn_children nd))" "wf_tree (rn_children nd)"
    "remove_leaf p ch = dset k (RNode (rn_tokens nd) (rn_access nd) (remove_leaf q (rn_children nd))) ch"
proof -
  from assms obtain k q nd where k: "p = k # q" "dget ch k = Some nd" "(q, v) \<in> set (leaves_at nd)"
    using leaves_in_set [of ch p v] by (auto simp: wf_tree_iff)
  show thesis
  proof (cases q)
    case Nil
    then show thesis using k that(1) by (simp add: leaf_here)
  next
    case (Cons y ys)
    then have "(q, v) \<in> set (leaves_in (rn_children nd))" using k(3) by (cases nd) (auto split: if_splits)
    moreover have "wf_tree (rn_children nd)" using wf_tree_get [OF assms(1) k(2)] by (cases nd) simp
    ultimately show thesis using k Cons by (intro that(2)) simp_all
  qed
qed

lemma remove_leaf_ok:
  assumes "wf_tree ch" "(p, v) \<in> set (leaves_in ch)"
  shows "wf_tree (remove_leaf p ch) \<and> tree_tokens (remove_leaf p ch) = tree_tokens ch - int (length (rn_tokens v)) \<and>
    tree_nodes ch = Suc (tree_nodes (remove_leaf p ch)) \<and> keys (remove_leaf p ch) \<subseteq> keys ch"
  using assms
proof (induction p arbitrary: ch)
  case (Cons k p)
  from Cons.prems show ?case
  proof (cases rule: remove_leaf_cases)
    case (1 k')
    have "wf_dict ch" using Cons.prems by (simp add: wf_tree_iff)
    moreover have "node_tokens v = int (length (rn_tokens v))" "node_nodes v = 1" using 1(3) by (cases v; simp)+
    ultimately have "int (tree_nodes ch) = int (Suc (tree_nodes (ddel k' ch)))"
      using 1(2) by (simp only: of_nat_Suc tree_nodes_dsum) (simp add: dsum_ddel)
    then have "tree_nodes ch = Suc (tree_nodes (ddel k' ch))" by linarith
    then show ?thesis
      using 1 \<open>wf_dict ch\<close> \<open>node_tokens v = _\<close> Cons.prems(1) by (simp add: wf_tree_ddel tree_tokens_dsum dsum_ddel)
  next
    case (2 k' q nd)
    then have IH: "wf_tree (remove_leaf q (rn_children nd))"
        "tree_tokens (remove_leaf q (rn_children nd)) = tree_tokens (rn_children nd) - int (length (rn_tokens v))"
        "tree_nodes (rn_children nd) = Suc (tree_nodes (remove_leaf q (rn_children nd)))"
      using Cons.IH [of "rn_children nd"] by auto
    let ?nd = "RNode (rn_tokens nd) (rn_access nd) (remove_leaf q (rn_children nd))"
    have size: "node_tokens ?nd = node_tokens nd - int (length (rn_tokens v))" "node_nodes nd = Suc (node_nodes ?nd)"
      using IH(2,3) by (cases nd; simp)+
    have "int (tree_nodes ch) = int (Suc (tree_nodes (dset k' ?nd ch)))"
      using 2(3) size(2) by (simp only: of_nat_Suc tree_nodes_dsum) (simp add: dsum_dset)
    then have "tree_nodes ch = Suc (tree_nodes (dset k' ?nd ch))" by linarith
    moreover have "wf_rnode k' ?nd" using wf_tree_get [OF Cons.prems(1) 2(3)] IH(1) by (cases nd) simp
    moreover have "k' \<in> keys ch" using 2(3) by (rule dget_Some_keys)
    ultimately show ?thesis
      using 2 size(1) Cons.prems(1) by (auto simp: wf_tree_dset tree_tokens_dsum dsum_dset)
  qed
qed (use leaves_in_set in \<open>auto simp: wf_tree_iff\<close>)


text \<open>What remains of a tree when leaves are removed: some of its nodes, with their tokens and times.\<close>

inductive shrunk :: "(int, rnode) dict \<Rightarrow> (int, rnode) dict \<Rightarrow> bool" where
  shrunk: "(\<And>k nd'. dget ch' k = Some nd' \<Longrightarrow> \<exists>nd. dget ch k = Some nd \<and> rn_tokens nd' = rn_tokens nd \<and>
     rn_access nd' = rn_access nd \<and> shrunk (rn_children nd') (rn_children nd)) \<Longrightarrow> shrunk ch' ch"

lemma shrunkE:
  assumes "shrunk ch' ch" "dget ch' k = Some nd'"
  obtains nd where "dget ch k = Some nd" "rn_tokens nd' = rn_tokens nd" "rn_access nd' = rn_access nd"
    "shrunk (rn_children nd') (rn_children nd)"
  using assms by cases blast

lemma shrunk_refl: "shrunk ch ch"
proof (induction "size_list (size_prod (\<lambda>_. 0) size) ch" arbitrary: ch rule: less_induct)
  case less
  show ?case
  proof (rule shrunk.shrunk)
    fix k nd assume "dget ch k = Some nd"
    from size_rnode_dget [OF this] have "shrunk (rn_children nd) (rn_children nd)" by (intro less) (cases nd, simp)
    with \<open>dget ch k = Some nd\<close> show "\<exists>nd'. dget ch k = Some nd' \<and> rn_tokens nd = rn_tokens nd' \<and> rn_access nd = rn_access nd' \<and>
        shrunk (rn_children nd) (rn_children nd')" by blast
  qed
qed

lemma shrunk_trans: "shrunk a b \<Longrightarrow> shrunk b c \<Longrightarrow> shrunk a c"
proof (induction arbitrary: c rule: shrunk.induct)
  case (shrunk a b)
  show ?case
  proof (rule shrunk.shrunk)
    fix k nd assume "dget a k = Some nd"
    from shrunk.IH [OF this] obtain n1 where n1: "dget b k = Some n1" "rn_tokens nd = rn_tokens n1" "rn_access nd = rn_access n1"
      and below: "\<And>c. shrunk (rn_children n1) c \<Longrightarrow> shrunk (rn_children nd) c" by blast
    from shrunkE [OF shrunk.prems n1(1)] n1 below show "\<exists>n2. dget c k = Some n2 \<and> rn_tokens nd = rn_tokens n2 \<and>
        rn_access nd = rn_access n2 \<and> shrunk (rn_children nd) (rn_children n2)" by metis
  qed
qed

lemma shrunk_keys: "shrunk ch' ch \<Longrightarrow> keys ch' \<subseteq> keys ch"
  by (auto simp: keys_dom elim: shrunkE)

lemma shrunk_Nil: "shrunk ch [] \<Longrightarrow> ch = []"
  using shrunk_keys [of ch "[]"] by simp

lemma remove_leaf_shrunk:
  assumes "wf_tree ch" "(p, v) \<in> set (leaves_in ch)"
  shows "shrunk (remove_leaf p ch) ch"
  using assms
proof (induction p arbitrary: ch)
  case (Cons k p)
  from Cons.prems show ?case
  proof (cases rule: remove_leaf_cases)
    case (1 k')
    then show ?thesis by simp (rule shrunk.shrunk, auto intro: shrunk_refl split: if_splits)
  next
    case (2 k' q nd)
    then have "shrunk (remove_leaf q (rn_children nd)) (rn_children nd)" using Cons.IH [of "rn_children nd"] by simp
    then show ?thesis using 2 by simp (rule shrunk.shrunk, auto intro: shrunk_refl split: if_splits)
  qed
qed (use leaves_in_set in \<open>auto simp: wf_tree_iff\<close>)

section \<open>Eviction makes room\<close>

lemma evict_run [consumes 2, case_names stop step]:
  assumes "wf_tree ch" "tree_nodes ch < fuel"
    and stop: "\<And>ch res. wf_tree ch \<Longrightarrow> res + need \<le> cap \<or> ch = [] \<Longrightarrow> P ch res ch res"
    and step: "\<And>ch res p v ch' res'. wf_tree ch \<Longrightarrow> cap < res + need \<Longrightarrow> (p, v) \<in> set (leaves_in ch) \<Longrightarrow>
      (\<And>q w. (q, w) \<in> set (leaves_in ch) \<Longrightarrow> rn_access v \<le> rn_access w) \<Longrightarrow>
      P (remove_leaf p ch) (res - int (length (rn_tokens v))) ch' res' \<Longrightarrow> P ch res ch' res'"
  shows "P ch res (fst (stock_evict_loop fuel cap need ch res)) (snd (stock_evict_loop fuel cap need ch res))"
  using assms(1,2)
proof (induction fuel arbitrary: ch res)
  case (Suc fuel)
  show ?case
  proof (cases "first_min (\<lambda>x. rn_access (snd x)) (leaves_in ch)")
    case None
    then show ?thesis using Suc.prems by (auto simp: leaves_empty intro!: stop)
  next
    case (Some x)
    obtain p v where x: "x = (p, v)" by (cases x)
    from first_min_SomeD [OF Some] have v: "(p, v) \<in> set (leaves_in ch)"
      and least: "\<And>q w. (q, w) \<in> set (leaves_in ch) \<Longrightarrow> rn_access v \<le> rn_access w" by (auto simp: x)
    note gone = remove_leaf_ok [OF Suc.prems(1) v]
    show ?thesis
    proof (cases "cap < res + need")
      case True
      from Suc.IH [of "remove_leaf p ch" "res - int (length (rn_tokens v))"] gone Suc.prems(2)
      have "P ch res (fst (stock_evict_loop fuel cap need (remove_leaf p ch) (res - int (length (rn_tokens v)))))
          (snd (stock_evict_loop fuel cap need (remove_leaf p ch) (res - int (length (rn_tokens v)))))"
        by (intro step [OF Suc.prems(1) True v least]) simp_all
      then show ?thesis using True Some x by simp
    next
      case False
      then show ?thesis using Suc.prems by (auto intro!: stop)
    qed
  qed
qed simp

text \<open>The counter stays the number of cached tokens, and the loop ends with room for the request or an empty tree.\<close>

lemma evict_ok:
  assumes "wf_tree ch" "tree_nodes ch < fuel" "res = tree_tokens ch" "stock_evict_loop fuel cap need ch res = (ch', res')"
  shows "wf_tree ch'" "res' = tree_tokens ch'" "res' + need \<le> cap \<or> ch' = []" "shrunk ch' ch"
proof -
  let ?P = "\<lambda>ch res ch' res'. res = tree_tokens ch \<longrightarrow> wf_tree ch' \<and> res' = tree_tokens ch' \<and>
      (res' + need \<le> cap \<or> ch' = []) \<and> shrunk ch' ch"
  have "?P ch res (fst (stock_evict_loop fuel cap need ch res)) (snd (stock_evict_loop fuel cap need ch res))"
    using assms(1,2)
  proof (induction rule: evict_run [where P = ?P and need = need and cap = cap and res = res])
    case (step ch res p v ch' res')
    have "wf_tree ch" "(p, v) \<in> set (leaves_in ch)" using step by simp_all
    note gone = remove_leaf_ok [OF this] remove_leaf_shrunk [OF this]
    then show ?case using step by (auto intro: shrunk_trans)
  qed (auto simp: shrunk_refl)
  then show "wf_tree ch'" "res' = tree_tokens ch'" "res' + need \<le> cap \<or> ch' = []" "shrunk ch' ch" using assms(3,4) by auto
qed

lemma entry_tokens: "wf_tree ch \<Longrightarrow> dget ch k = Some nd \<Longrightarrow> int (length (rn_tokens nd)) \<le> tree_tokens ch"
proof (induction ch)
  case (Cons x ch)
  then show ?case using tree_tokens_nonneg by (cases x; cases nd) (auto split: if_splits intro: add_increasing add_increasing2)
qed simp

text \<open>An entry too long for the room that is needed goes.\<close>

lemma evict_long:
  assumes "wf_tree ch" "tree_nodes ch < fuel" "res = tree_tokens ch" "stock_evict_loop fuel cap need ch res = (ch', res')"
    and "dget ch k = Some nd" "cap < int (length (rn_tokens nd)) + need"
  shows "dget ch' k = None"
proof (rule ccontr)
  assume "dget ch' k \<noteq> None"
  then obtain nd' where nd': "dget ch' k = Some nd'" by blast
  note e = evict_ok [OF assms(1-4)]
  from shrunkE [OF e(4) nd'] assms(5) have "rn_tokens nd' = rn_tokens nd" by auto
  then show False using e entry_tokens [OF e(1) nd'] nd' assms(6) by auto
qed

text \<open>
  The most recent entry of the root stays, when it fits beside the request and the others have nothing below: it can only
  go as a leaf, and then any other entry is an older leaf.
\<close>

definition older_leaves :: "int \<Rightarrow> nat \<Rightarrow> (int, rnode) dict \<Rightarrow> bool" where
  "older_leaves k0 a ch \<longleftrightarrow> (\<forall>k nd. k \<noteq> k0 \<longrightarrow> dget ch k = Some nd \<longrightarrow> rn_children nd = [] \<and> rn_access nd < a)"

lemma older_leaves_shrunk: "shrunk ch' ch \<Longrightarrow> older_leaves k0 a ch \<Longrightarrow> older_leaves k0 a ch'"
  unfolding older_leaves_def by (metis shrunkE shrunk_Nil)

lemma last_leaf_alone:
  assumes "wf_tree ch" "older_leaves k0 (rn_access nd) ch" "dget ch k0 = Some nd" "([k0], v) \<in> set (leaves_in ch)"
    "\<And>q w. (q, w) \<in> set (leaves_in ch) \<Longrightarrow> rn_access v \<le> rn_access w"
  shows "tree_tokens ch = int (length (rn_tokens nd))"
proof -
  have wf: "wf_dict ch" using assms(1) by (simp add: wf_tree_iff)
  have v: "v = nd" "rn_children nd = []" using assms(3,4) leaves_in_set [OF wf] by (auto simp: leaf_here)
  have none: "dget ch k = None" if "k \<noteq> k0" for k
  proof (rule ccontr)
    assume "dget ch k \<noteq> None"
    then obtain n where n: "dget ch k = Some n" by blast
    then have old: "rn_children n = []" "rn_access n < rn_access nd" using assms(2) that by (auto simp: older_leaves_def)
    then have "([k], n) \<in> set (leaves_in ch)" using n leaves_in_set [OF wf] by (auto simp: leaf_here)
    then show False using assms(5) old(2) v by fastforce
  qed
  have "tree_tokens (ddel k0 ch) = tree_tokens ch - node_tokens nd" using assms(3) wf by (simp add: tree_tokens_dsum dsum_ddel)
  moreover have "keys (ddel k0 ch) = {}" using none by (auto simp: keys_dom)
  then have "ddel k0 ch = []" by (simp del: keys_ddel)
  moreover have "node_tokens nd = int (length (rn_tokens nd))" using v(2) by (cases nd) simp
  ultimately show ?thesis by simp
qed

lemma evict_keeps:
  assumes "wf_tree ch" "tree_nodes ch < fuel" "res = tree_tokens ch" "stock_evict_loop fuel cap need ch res = (ch', res')"
    and "dget ch k0 = Some nd" "older_leaves k0 (rn_access nd) ch" "int (length (rn_tokens nd)) + need \<le> cap"
  shows "\<exists>nd'. dget ch' k0 = Some nd'"
proof -
  let ?P = "\<lambda>ch res ch' (res' :: int). \<forall>nd. res = tree_tokens ch \<longrightarrow> dget ch k0 = Some nd \<longrightarrow> older_leaves k0 (rn_access nd) ch \<longrightarrow>
    int (length (rn_tokens nd)) + need \<le> cap \<longrightarrow> (\<exists>nd'. dget ch' k0 = Some nd')"
  have "?P ch res (fst (stock_evict_loop fuel cap need ch res)) (snd (stock_evict_loop fuel cap need ch res))"
    using assms(1,2)
  proof (induction rule: evict_run [where P = ?P and need = need and cap = cap and res = res])
    case (step ch res p v ch' res')
    show ?case
    proof (intro allI impI)
      fix nd assume *: "res = tree_tokens ch" "dget ch k0 = Some nd" "older_leaves k0 (rn_access nd) ch"
        "int (length (rn_tokens nd)) + need \<le> cap"
      note gone = remove_leaf_ok [OF step(1,3)]
      have "p \<noteq> [k0]" using last_leaf_alone [OF step(1) *(3,2) _ step(4)] step(2,3) * by auto
      then have "\<exists>nd'. dget (remove_leaf p ch) k0 = Some nd'"
        by (cases rule: remove_leaf_cases [OF step(1,3)]) (use *(2) in \<open>auto split: if_splits\<close>)
      then obtain nd' where nd': "dget (remove_leaf p ch) k0 = Some nd'" by blast
      from shrunkE [OF remove_leaf_shrunk [OF step(1,3)] nd'] *(2)
      have "rn_tokens nd' = rn_tokens nd" "rn_access nd' = rn_access nd" by auto
      then show "\<exists>nd'. dget ch' k0 = Some nd'"
        using step(5) * gone nd' older_leaves_shrunk [OF remove_leaf_shrunk [OF step(1,3)] *(3)] by auto
    qed
  qed auto
  then show ?thesis using assms(3-7) by auto
qed

end
