(* ===== verification/Pressure_Bench.thy ===== *)
theory Pressure_Bench
  imports Stock_Cache Cost_Model Tree_Cache_Props
begin

text \<open>
  The replay of \<open>bench/pressure_bench.py\<close>: one fan-out under unrelated traffic, on the stock cache and on the pinned
  tree cache, against the prediction of the cost model.
\<close>

section \<open>Token ids\<close>

record token_gen =
  tg_next :: int
  tg_ranges :: "(string, int) dict"

definition tg_new :: token_gen where
  "tg_new = \<lparr>tg_next = 0, tg_ranges = []\<rparr>"

definition tg_block :: "string \<Rightarrow> int \<Rightarrow> token_gen \<Rightarrow> int list \<times> token_gen" where
  "tg_block name n g =
     (case dget (tg_ranges g) name of
        Some start \<Rightarrow> ([start..start + n - 1], g)
      | None \<Rightarrow> ([tg_next g..tg_next g + n - 1],
          g\<lparr>tg_ranges := dset name (tg_next g) (tg_ranges g), tg_next := tg_next g + n\<rparr>))"

definition tg_fresh :: "int \<Rightarrow> token_gen \<Rightarrow> int list \<times> token_gen" where
  "tg_fresh n g = ([tg_next g..tg_next g + n - 1], g\<lparr>tg_next := tg_next g + n\<rparr>)"

section \<open>The two arms\<close>

record measurement =
  me_arm :: string
  me_hits :: int
  me_children :: int
  me_charged :: int
  me_child_charged :: int

definition parent_hit_rate :: "measurement \<Rightarrow> real" where
  "parent_hit_rate m = of_int (me_hits m) / of_int (me_children m)"

definition applies :: "pressure \<Rightarrow> nat \<Rightarrow> bool" where
  "applies ps i \<longleftrightarrow> ps_interleaved ps > 0 \<and> (ps_pattern ps = ''sustained'' \<or> i = 0)"

definition suffix_name :: "nat \<Rightarrow> string" where "suffix_name i = ''suffix-'' @ str_nat i"
definition noise_name :: "nat \<Rightarrow> string" where "noise_name i = ''noise-'' @ str_nat i"
definition kid_name :: "nat \<Rightarrow> string" where "kid_name i = ''child-'' @ str_nat i"

text \<open>The locals of a replay loop.\<close>

record tally =
  ta_gen :: token_gen
  ta_hits :: int
  ta_charged :: int

definition count_hit :: "pressure \<Rightarrow> nat \<Rightarrow> tally \<Rightarrow> tally" where
  "count_hit ps matched y = (if int matched \<ge> ps_prefix ps then y\<lparr>ta_hits := ta_hits y + 1\<rparr> else y)"

definition stock_noise :: "pressure \<Rightarrow> nat \<Rightarrow> tally \<times> stock \<Rightarrow> tally \<times> stock" where
  "stock_noise ps i = (\<lambda>(y, c).
     if applies ps i then
       let (toks, g) = tg_fresh (ps_interleaved ps) (ta_gen y) in (y\<lparr>ta_gen := g\<rparr>, snd (run_request toks c))
     else (y, c))"

definition stock_child :: "pressure \<Rightarrow> int list \<Rightarrow> nat \<Rightarrow> tally \<times> stock \<Rightarrow> tally \<times> stock" where
  "stock_child ps pre i = (\<lambda>(y, c).
     let charged0 = sk_charged c;
         y = count_hit ps (stock_match pre c) y;
         (suf, g) = tg_block (suffix_name i) (ps_suffix ps) (ta_gen y);
         c' = snd (run_request (pre @ suf) c)
     in (y\<lparr>ta_gen := g, ta_charged := ta_charged y + (sk_charged c' - charged0)\<rparr>, c'))"

definition run_stock :: "pressure \<Rightarrow> exc + measurement" where
  "run_stock ps =
     (case stock_init (ps_capacity ps) of
        Inl e \<Rightarrow> Inl e
      | Inr c \<Rightarrow>
          let (pre, g) = tg_block ''parent'' (ps_prefix ps) tg_new;
              c = snd (run_request pre c);
              (y, c) = fold (\<lambda>i x. stock_child ps pre i (stock_noise ps i x)) [0..<nat (ps_children ps)]
                (\<lparr>ta_gen = g, ta_hits = 0, ta_charged = sk_charged c\<rparr>, c)
          in Inr \<lparr>me_arm = ''stock'', me_hits = ta_hits y, me_children = ps_children ps, me_charged = sk_charged c,
               me_child_charged = ta_charged y\<rparr>)"

definition pinned_noise :: "(nat \<Rightarrow> real) \<Rightarrow> pressure \<Rightarrow> nat \<Rightarrow> tally \<Rightarrow> (kv_cache, tally) proc" where
  "pinned_noise clk ps i y =
     (if applies ps i then
        seqp (create_tree clk (noise_name i)) (\<lambda>_.
        case tg_fresh (ps_interleaved ps) (ta_gen y) of
          (toks, g) \<Rightarrow>
            seqp (extend_kv clk (noise_name i) toks) (\<lambda>_.
            seqp (kill (noise_name i)) (\<lambda>_.
            ret (y\<lparr>ta_gen := g\<rparr>))))
      else ret y)"

definition pinned_child :: "(nat \<Rightarrow> real) \<Rightarrow> pressure \<Rightarrow> int list \<Rightarrow> nat \<Rightarrow> tally \<Rightarrow> (kv_cache, tally) proc" where
  "pinned_child clk ps pre i y =
     seqp (fork_branch ''parent'' (Some (kid_name i))) (\<lambda>_.
     seqp (match_tree_prefix clk (kid_name i) pre) (\<lambda>matched.
     seqp (readp (\<lambda>s. st_charged (kv_stats s))) (\<lambda>charged0.
     case tg_block (suffix_name i) (ps_suffix ps) (ta_gen y) of
       (suf, g) \<Rightarrow>
         seqp (whenp (suf \<noteq> []) (seqp (extend_kv clk (kid_name i) suf) (\<lambda>_. ret ()))) (\<lambda>_.
         seqp (readp (\<lambda>s. st_charged (kv_stats s))) (\<lambda>charged1.
         ret ((count_hit ps matched y)\<lparr>ta_gen := g, ta_charged := ta_charged y + (charged1 - charged0)\<rparr>))))))"

fun pinned_rounds :: "(nat \<Rightarrow> real) \<Rightarrow> pressure \<Rightarrow> int list \<Rightarrow> nat list \<Rightarrow> tally \<Rightarrow> (kv_cache, tally) proc" where
  "pinned_rounds clk ps pre [] y = ret y"
| "pinned_rounds clk ps pre (i # rest) y =
     seqp (pinned_noise clk ps i y) (\<lambda>y. seqp (pinned_child clk ps pre i y) (\<lambda>y. pinned_rounds clk ps pre rest y))"

definition pinned_capacity :: "pressure \<Rightarrow> int" where
  "pinned_capacity ps =
     max (ps_capacity ps) (ps_prefix ps + ps_children ps * ps_suffix ps + ps_interleaved ps + 1)"

definition pinned_replay :: "(nat \<Rightarrow> real) \<Rightarrow> pressure \<Rightarrow> (kv_cache, tally) proc" where
  "pinned_replay clk ps =
     (case tg_block ''parent'' (ps_prefix ps) tg_new of
        (pre, g) \<Rightarrow>
          seqp (create_tree clk ''parent'') (\<lambda>_.
          seqp (whenp (pre \<noteq> []) (seqp (extend_kv clk ''parent'' pre) (\<lambda>_. ret ()))) (\<lambda>_.
          seqp (readp (\<lambda>s. st_charged (kv_stats s))) (\<lambda>charged.
          pinned_rounds clk ps pre [0..<nat (ps_children ps)] \<lparr>ta_gen = g, ta_hits = 0, ta_charged = charged\<rparr>))))"

definition run_pinned :: "(nat \<Rightarrow> real) \<Rightarrow> pressure \<Rightarrow> exc + measurement" where
  "run_pinned clk ps =
     (case kv_init (pinned_capacity ps) None of
        Inl e \<Rightarrow> Inl e
      | Inr s \<Rightarrow>
         (case pinned_replay clk ps s of
            (Inl e, _) \<Rightarrow> Inl e
          | (Inr y, s') \<Rightarrow> Inr \<lparr>me_arm = ''pinned'', me_hits = ta_hits y, me_children = ps_children ps,
              me_charged = st_charged (kv_stats s'), me_child_charged = ta_charged y\<rparr>))"

record comparison =
  cmp_model_rate :: real
  cmp_model_stock :: int
  cmp_model_pinned :: int
  cmp_model_ratio :: real
  cmp_stock_rate :: real
  cmp_pinned_rate :: real
  cmp_stock :: int
  cmp_pinned :: int
  cmp_ratio :: real

definition compare :: "(nat \<Rightarrow> real) \<Rightarrow> pressure \<Rightarrow> exc + comparison" where
  "compare clk ps =
     (let predicted = pressure_model ps in
      case run_stock ps of
        Inl e \<Rightarrow> Inl e
      | Inr stock \<Rightarrow>
         (case run_pinned clk ps of
            Inl e \<Rightarrow> Inl e
          | Inr pin \<Rightarrow>
              Inr \<lparr>cmp_model_rate = pr_stock_rate predicted, cmp_model_stock = pr_stock_charged predicted,
                cmp_model_pinned = pr_pinned_charged predicted, cmp_model_ratio = pr_ratio predicted,
                cmp_stock_rate = py_round 4 (parent_hit_rate stock), cmp_pinned_rate = py_round 4 (parent_hit_rate pin),
                cmp_stock = me_child_charged stock, cmp_pinned = me_child_charged pin,
                cmp_ratio = py_round 4 (of_int (me_child_charged stock) / of_int (me_child_charged pin))\<rparr>))"

fun sweep :: "(nat \<Rightarrow> real) \<Rightarrow> int \<Rightarrow> int \<Rightarrow> int \<Rightarrow> int \<Rightarrow> int list \<Rightarrow> exc + comparison list" where
  "sweep clk p n s c [] = Inr []"
| "sweep clk p n s c (u # us) =
     (case pressure_init p n s u c ''sustained'' of
        Inl e \<Rightarrow> Inl e
      | Inr ps \<Rightarrow>
         (case compare clk ps of
            Inl e \<Rightarrow> Inl e
          | Inr row \<Rightarrow> (case sweep clk p n s c us of Inl e \<Rightarrow> Inl e | Inr rows \<Rightarrow> Inr (row # rows))))"


end
