(* ===== verification/Pressure_Stock.thy ===== *)
theory Pressure_Stock
  imports Pressure_Bench
begin

text \<open>
  The stock arm of the replay: as long as the unrelated tokens fit beside the parent prefix, the prefix is the last thing
  to be evicted; beyond that, every gap evicts it.
\<close>

section \<open>The cache between requests\<close>

text \<open>
  The entry at key 0 belongs to the parent prefix; all others are unrelated requests, leaves of the root.  Tokens up to
  \<open>nxt\<close> were handed out.
\<close>

definition stock_ok :: "int \<Rightarrow> stock \<Rightarrow> bool" where
  "stock_ok nxt c \<longleftrightarrow> wf_tree (sk_root c) \<and> sk_resident c = tree_tokens (sk_root c) \<and> older_leaves 0 (sk_clock c) (sk_root c) \<and>
     (\<forall>k \<in> keys (sk_root c). k < nxt) \<and>
     (\<forall>nd. dget (sk_root c) 0 = Some nd \<longrightarrow> (\<forall>x \<in> set (rn_tokens nd) \<union> keys (rn_children nd). x < nxt))"

definition cached :: "int \<Rightarrow> stock \<Rightarrow> bool" where
  "cached p c \<longleftrightarrow> (\<exists>nd. dget (sk_root c) 0 = Some nd \<and> prefix [0..p - 1] (rn_tokens nd))"

definition newest :: "int \<Rightarrow> stock \<Rightarrow> bool" where
  "newest p c \<longleftrightarrow> (\<exists>nd. dget (sk_root c) 0 = Some nd \<and> rn_tokens nd = [0..p - 1] \<and> older_leaves 0 (rn_access nd) (sk_root c))"

lemma newest_cached: "newest p c \<Longrightarrow> cached p c"
  by (auto simp: newest_def cached_def)

lemma upto_facts:
  assumes "0 < (n :: int)"
  shows "[a..a + n - 1] \<noteq> []" "hd [a..a + n - 1] = a" "length [a..a + n - 1] = nat n"
  using assms by (simp_all add: upto.simps [of a])

lemma prefix_block: "0 < (p :: int) \<Longrightarrow> [0..p - 1] \<noteq> []" "0 < p \<Longrightarrow> hd [0..p - 1] = 0" "length [0..p - 1] = nat p"
  by (simp_all add: upto.simps [of 0]) linarith

lemma lcp_len_prefix: "lcp_len (xs @ ys) xs = length xs" "ys \<noteq> [] \<Longrightarrow> zs \<noteq> [] \<Longrightarrow> hd ys \<noteq> hd zs \<Longrightarrow> lcp_len (xs @ ys) (xs @ zs) = length xs"
  by (induction xs) (auto simp: neq_Nil_conv split: list.splits)

text \<open>What \<open>match_prefix\<close> finds of the parent prefix.\<close>

lemma match_cached:
  assumes "cached p c" "0 < p"
  shows "stock_match [0..p - 1] c = nat p"
proof -
  obtain nd zs where nd: "dget (sk_root c) 0 = Some nd" "rn_tokens nd = [0..p - 1] @ zs"
    using assms(1) by (auto simp: cached_def prefix_def)
  obtain t ts where P: "[0..p - 1] = t # ts" "t = 0" using assms(2) by (simp add: upto.simps [of 0])
  note len = prefix_block(3) [of p, unfolded P]
  show ?thesis
  proof (cases "zs = []")
    case True
    then show ?thesis using nd P len by (simp add: stock_match_def match_len.simps [of "sk_root c"] match_len.simps [of _ "[]"])
  next
    case False
    then show ?thesis using nd P len lcp_len_prefix(1) [of "t # ts" zs]
      by (simp add: stock_match_def match_len.simps [of "sk_root c"])
  qed
qed

lemma match_gone: "dget (sk_root c) 0 = None \<Longrightarrow> 0 < p \<Longrightarrow> stock_match [0..p - 1] c = 0"
  by (simp add: stock_match_def match_len.simps [of "sk_root c"] upto.simps [of 0])

section \<open>A request that shares nothing\<close>

lemma touch_new: "toks \<noteq> [] \<Longrightarrow> dget ch (hd toks) = None \<Longrightarrow> touch_walk now ch toks = ([], 0, ch)"
  by (cases toks) (simp_all add: touch_walk.simps [of now ch])

lemma tree_tokens_new: "dget ch k = None \<Longrightarrow> tree_tokens (dset k nd ch) = tree_tokens ch + node_tokens nd"
  by (simp add: tree_tokens_dsum dsum_dset)

lemma run_request_new:
  assumes "toks \<noteq> []" "dget (sk_root c) (hd toks) = None"
    and "stock_evict_loop (Suc (tree_nodes (sk_root c))) (sk_capacity c) (int (length toks)) (sk_root c) (sk_resident c) = (ch, res)"
  shows "snd (run_request toks c) = c\<lparr>sk_root := dset (hd toks) (RNode toks (sk_clock c) []) ch,
    sk_resident := res + int (length toks), sk_charged := sk_charged c + int (length toks), sk_clock := Suc (sk_clock c)\<rparr>"
  using assms by (simp add: run_request_def insert_and_touch_def touch_new Let_def)

lemma stock_ok_new:
  assumes "stock_ok nxt c" "toks \<noteq> []" "dget (sk_root c) (hd toks) = None"
    and "nxt \<le> nxt'" "\<And>x. x \<in> set toks \<Longrightarrow> x < nxt'"
  obtains ch res where
    "stock_evict_loop (Suc (tree_nodes (sk_root c))) (sk_capacity c) (int (length toks)) (sk_root c) (sk_resident c) = (ch, res)"
    "sk_root (snd (run_request toks c)) = dset (hd toks) (RNode toks (sk_clock c) []) ch" "wf_tree ch" "shrunk ch (sk_root c)"
    "stock_ok nxt' (snd (run_request toks c))"
proof -
  obtain ch res where e:
      "stock_evict_loop (Suc (tree_nodes (sk_root c))) (sk_capacity c) (int (length toks)) (sk_root c) (sk_resident c) = (ch, res)"
    by (metis surj_pair)
  have ok: "wf_tree (sk_root c)" "sk_resident c = tree_tokens (sk_root c)" "older_leaves 0 (sk_clock c) (sk_root c)"
    "\<And>k. k \<in> keys (sk_root c) \<Longrightarrow> k < nxt"
    "\<And>nd x. dget (sk_root c) 0 = Some nd \<Longrightarrow> x \<in> set (rn_tokens nd) \<union> keys (rn_children nd) \<Longrightarrow> x < nxt"
    using assms(1) by (auto simp: stock_ok_def)
  note ev = evict_ok [OF ok(1) _ ok(2) e, simplified]
  have new: "dget ch (hd toks) = None" using shrunk_keys [OF ev(4)] assms(3) by (auto simp: dget_None_iff)
  have old: "older_leaves 0 (sk_clock c) ch" using older_leaves_shrunk [OF ev(4) ok(3)] .
  have "older_leaves 0 (Suc (sk_clock c)) (dset (hd toks) (RNode toks (sk_clock c) []) ch)"
    using old by (fastforce simp: older_leaves_def)
  moreover have "k < nxt'" if "k \<in> keys (dset (hd toks) (RNode toks (sk_clock c) []) ch)" for k
  proof -
    from that have "k = hd toks \<or> k \<in> keys ch" unfolding keys_dset by blast
    then show ?thesis
      using shrunk_keys [OF ev(4), THEN subsetD, of k] ok(4) [of k] assms(4) assms(5) [OF hd_in_set [OF assms(2)]] by linarith
  qed
  moreover have "x < nxt'" if "dget (dset (hd toks) (RNode toks (sk_clock c) []) ch) 0 = Some nd"
      "x \<in> set (rn_tokens nd) \<union> keys (rn_children nd)" for nd x
  proof (cases "hd toks = 0")
    case True
    then show ?thesis using that assms(5) by auto
  next
    case False
    then have "dget ch 0 = Some nd" using that(1) by auto
    from shrunkE [OF ev(4) this] obtain n where n: "dget (sk_root c) 0 = Some n" "rn_tokens nd = rn_tokens n"
        "shrunk (rn_children nd) (rn_children n)" by metis
    have "x < nxt" using that(2) ok(5) [OF n(1), of x] shrunk_keys [OF n(3), THEN subsetD, of x] unfolding n(2) by blast
    then show ?thesis using assms(4) by simp
  qed
  ultimately have "stock_ok nxt' (snd (run_request toks c))"
    using ev new assms(2) by (simp add: stock_ok_def run_request_new [OF assms(2,3) e] wf_tree_dset tree_tokens_new)
  with e ev show thesis by (intro that) (simp_all add: run_request_new [OF assms(2,3) e])
qed


lemmas request_frame = run_request_def insert_and_touch_def Let_def

lemma request_capacity [simp]: "sk_capacity (snd (run_request toks c)) = sk_capacity c"
  by (simp add: request_frame split: prod.split)

lemma charged_new:
  "toks \<noteq> [] \<Longrightarrow> dget (sk_root c) (hd toks) = None \<Longrightarrow> sk_charged (snd (run_request toks c)) = sk_charged c + int (length toks)"
  by (simp add: request_frame touch_new split: prod.split)

section \<open>Unrelated traffic\<close>

lemma noise_new:
  assumes "stock_ok nxt c" "0 < u"
  shows "[nxt..nxt + u - 1] \<noteq> []" "dget (sk_root c) (hd [nxt..nxt + u - 1]) = None"
  using assms by (auto simp: upto_facts stock_ok_def dget_None_iff)

lemma noise_keeps:
  assumes "stock_ok nxt c" "newest p c" "0 < u" "p + u \<le> sk_capacity c" "0 < p" "p \<le> nxt"
  shows "stock_ok (nxt + u) (snd (run_request [nxt..nxt + u - 1] c)) \<and> cached p (snd (run_request [nxt..nxt + u - 1] c))"
proof -
  let ?toks = "[nxt..nxt + u - 1]"
  obtain nd where nd: "dget (sk_root c) 0 = Some nd" "rn_tokens nd = [0..p - 1]" "older_leaves 0 (rn_access nd) (sk_root c)"
    using assms(2) by (auto simp: newest_def)
  obtain ch res where e:
      "stock_evict_loop (Suc (tree_nodes (sk_root c))) (sk_capacity c) (int (length ?toks)) (sk_root c) (sk_resident c) = (ch, res)"
    and root: "sk_root (snd (run_request ?toks c)) = dset (hd ?toks) (RNode ?toks (sk_clock c) []) ch"
    and ch: "wf_tree ch" "shrunk ch (sk_root c)" and ok: "stock_ok (nxt + u) (snd (run_request ?toks c))"
    by (rule stock_ok_new [OF assms(1) noise_new [OF assms(1,3)], of "nxt + u"]) (use assms(3) in auto)
  have "wf_tree (sk_root c)" "sk_resident c = tree_tokens (sk_root c)" using assms(1) by (simp_all add: stock_ok_def)
  from evict_keeps [OF this(1) _ this(2) e nd(1,3)] obtain nd' where nd': "dget ch 0 = Some nd'"
    using assms(3-5) by (auto simp: nd(2))
  from shrunkE [OF ch(2) nd'] nd have "rn_tokens nd' = [0..p - 1]" by auto
  then have "cached p (snd (run_request ?toks c))" using assms(3,5,6) nd' by (simp add: cached_def root upto_facts)
  with ok show ?thesis by simp
qed

lemma noise_evicts:
  assumes "stock_ok nxt c" "cached p c \<or> dget (sk_root c) 0 = None" "0 < u" "sk_capacity c < p + u" "0 < p" "p \<le> nxt"
  shows "stock_ok (nxt + u) (snd (run_request [nxt..nxt + u - 1] c)) \<and> dget (sk_root (snd (run_request [nxt..nxt + u - 1] c))) 0 = None"
proof -
  let ?toks = "[nxt..nxt + u - 1]"
  obtain ch res where e:
      "stock_evict_loop (Suc (tree_nodes (sk_root c))) (sk_capacity c) (int (length ?toks)) (sk_root c) (sk_resident c) = (ch, res)"
    and root: "sk_root (snd (run_request ?toks c)) = dset (hd ?toks) (RNode ?toks (sk_clock c) []) ch"
    and ch: "wf_tree ch" "shrunk ch (sk_root c)" and ok: "stock_ok (nxt + u) (snd (run_request ?toks c))"
    by (rule stock_ok_new [OF assms(1) noise_new [OF assms(1,3)], of "nxt + u"]) (use assms(3) in auto)
  have inv: "wf_tree (sk_root c)" "sk_resident c = tree_tokens (sk_root c)" using assms(1) by (simp_all add: stock_ok_def)
  have "dget ch 0 = None"
  proof (cases "dget (sk_root c) 0")
    case None
    then show ?thesis using shrunk_keys [OF ch(2)] by (auto simp: dget_None_iff)
  next
    case (Some nd)
    then have "length [0..p - 1] \<le> length (rn_tokens nd)" using assms(2) by (auto simp: cached_def dest: prefix_length_le)
    then show ?thesis using evict_long [OF inv(1) _ inv(2) e Some] assms(3-5) by (simp add: prefix_block)
  qed
  with ok show ?thesis using assms(3,5,6) by (simp add: root upto_facts)
qed

section \<open>The requests of the children\<close>

lemma child_misses:
  assumes "stock_ok nxt c" "dget (sk_root c) 0 = None" "0 < p" "p \<le> nxt" "0 \<le> s"
  shows "stock_ok (nxt + s) (snd (run_request ([0..p - 1] @ [nxt..nxt + s - 1]) c)) \<and>
    cached p (snd (run_request ([0..p - 1] @ [nxt..nxt + s - 1]) c)) \<and>
    sk_charged (snd (run_request ([0..p - 1] @ [nxt..nxt + s - 1]) c)) = sk_charged c + p + s"
proof -
  let ?toks = "[0..p - 1] @ [nxt..nxt + s - 1]"
  have toks: "?toks \<noteq> []" "hd ?toks = 0" "dget (sk_root c) (hd ?toks) = None" using assms(2,3) prefix_block [of p] by simp_all
  obtain ch res where root: "sk_root (snd (run_request ?toks c)) = dset (hd ?toks) (RNode ?toks (sk_clock c) []) ch"
    and ok: "stock_ok (nxt + s) (snd (run_request ?toks c))"
    by (rule stock_ok_new [OF assms(1) toks(1,3), of "nxt + s"]) (use assms(4,5) in auto)
  have "cached p (snd (run_request ?toks c))" by (simp add: cached_def root toks(2) del: upto_Nil upto_Nil2)
  moreover have "int (length ?toks) = p + s" using assms(3,5) by simp
  ultimately show ?thesis using ok charged_new [OF toks(1,3)] by simp
qed


text \<open>The walk of a request that finds the prefix: the entry is cut to it, if a miss had stored it with its suffix.\<close>

lemma touch_cached:
  assumes wf: "wf_tree ch" and nd: "dget ch 0 = Some nd" "prefix pre (rn_tokens nd)" and pre: "pre \<noteq> []" "hd pre = 0"
    and suf: "suf \<noteq> [] \<Longrightarrow> hd suf \<notin> set (rn_tokens nd) \<union> keys (rn_children nd)"
  obtains cs where "touch_walk now ch (pre @ suf) = ([0], length pre, dset 0 (RNode pre now cs) ch)" "wf_tree cs"
    "keys cs \<subseteq> set (rn_tokens nd) \<union> keys (rn_children nd)" "tree_tokens (dset 0 (RNode pre now cs) ch) = tree_tokens ch"
proof -
  obtain zs where zs: "rn_tokens nd = pre @ zs" using nd(2) by (auto simp: prefix_def)
  obtain ts where ts: "pre = 0 # ts" using pre by (cases pre) auto
  have wfn: "wf_tree (rn_children nd)" using wf_tree_get [OF wf nd(1)] by (cases nd) simp
  have below: "touch_walk now cs suf = ([], 0, cs)" if "suf \<noteq> [] \<Longrightarrow> hd suf \<notin> keys cs" for cs
    using that by (cases "suf = []") (simp_all add: touch_walk.simps [of now cs "[]"] touch_new dget_None_iff)
  show thesis
  proof (cases "zs = []")
    case True
    have "touch_walk now ch (pre @ suf) = ([0], length pre, dset 0 (RNode pre now (rn_children nd)) ch)"
      using nd(1) zs True ts below [of "rn_children nd"] suf by (simp add: touch_walk.simps [of now ch] Let_def)
    moreover have "tree_tokens (dset 0 (RNode pre now (rn_children nd)) ch) = tree_tokens ch"
      using nd(1) zs True by (cases nd) (simp add: tree_tokens_dsum dsum_dset)
    ultimately show thesis using wfn by (intro that [of "rn_children nd"]) auto
  next
    case False
    let ?cs = "[(hd zs, RNode zs (rn_access nd) (rn_children nd))]"
    have "hd zs \<in> set (rn_tokens nd)" using False by (simp add: zs)
    then have hd: "suf \<noteq> [] \<Longrightarrow> hd zs \<noteq> hd suf" using suf by auto
    have part: "take (length (rn_tokens nd)) (pre @ suf) \<noteq> rn_tokens nd"
      using hd False by (cases suf; cases zs) (auto simp: zs)
    have "lcp_len (rn_tokens nd) (pre @ suf) = length pre"
      using lcp_len_prefix [of pre zs] lcp_len_prefix(2) [of zs suf pre] hd False by (cases "suf = []") (simp_all add: zs)
    moreover have "touch_walk now ?cs suf = ([], 0, ?cs)" using hd by (intro below) auto
    ultimately have "touch_walk now ch (pre @ suf) = ([0], length pre, dset 0 (RNode pre now ?cs) ch)"
      using nd(1) part ts by (simp add: touch_walk.simps [of now ch] Let_def zs)
    moreover have "tree_tokens (dset 0 (RNode pre now ?cs) ch) = tree_tokens ch"
      using nd(1) zs by (cases nd) (simp add: tree_tokens_dsum dsum_dset)
    ultimately show thesis using wfn False \<open>hd zs \<in> _\<close> by (intro that [of ?cs]) auto
  qed
qed


lemma older_leaves_dset: "older_leaves k a (dset k nd ch) \<longleftrightarrow> older_leaves k a ch"
  by (auto simp: older_leaves_def)

lemma stock_ok_entry:
  assumes "wf_tree ch" "wf_rnode 0 nd" "sk_root c = dset 0 nd ch" "sk_resident c = tree_tokens (dset 0 nd ch)"
    and "older_leaves 0 a ch" "a \<le> sk_clock c" "0 < nxt" "\<And>k. k \<in> keys ch \<Longrightarrow> k < nxt"
    and "\<And>x. x \<in> set (rn_tokens nd) \<union> keys (rn_children nd) \<Longrightarrow> x < nxt"
  shows "stock_ok nxt c"
proof -
  have "older_leaves 0 (sk_clock c) ch" using assms(5,6) by (fastforce simp: older_leaves_def)
  moreover have "k < nxt" if "k \<in> keys (dset 0 nd ch)" for k using that assms(7,8) unfolding keys_dset by blast
  ultimately show ?thesis
    using wf_tree_dset [OF assms(1,2)] assms(3,4,9) unfolding stock_ok_def by (simp add: older_leaves_dset del: keys_dset)
qed

lemma stock_okD:
  assumes "stock_ok nxt c"
  shows "wf_tree (sk_root c)" "sk_resident c = tree_tokens (sk_root c)" "older_leaves 0 (sk_clock c) (sk_root c)"
    "k \<in> keys (sk_root c) \<Longrightarrow> k < nxt" "dget (sk_root c) 0 = Some nd \<Longrightarrow> x \<in> set (rn_tokens nd) \<union> keys (rn_children nd) \<Longrightarrow> x < nxt"
  using assms by (auto simp: stock_ok_def)

lemma cached_walk:
  assumes ok: "stock_ok nxt c" and "cached p c" "0 < p" "0 \<le> s"
  obtains cs where "touch_walk (sk_clock c) (sk_root c) ([0..p - 1] @ [nxt..nxt + s - 1]) =
      ([0], length [0..p - 1], dset 0 (RNode [0..p - 1] (sk_clock c) cs) (sk_root c))"
    "wf_rnode 0 (RNode [0..p - 1] (sk_clock c) cs)" "\<And>k. k \<in> keys cs \<Longrightarrow> k < nxt"
    "tree_tokens (dset 0 (RNode [0..p - 1] (sk_clock c) cs) (sk_root c)) = sk_resident c"
proof -
  let ?P = "[0..p - 1]" and ?S = "[nxt..nxt + s - 1]" and ?now = "sk_clock c"
  obtain nd where nd: "dget (sk_root c) 0 = Some nd" "prefix ?P (rn_tokens nd)" using assms(2) by (auto simp: cached_def)
  note below = stock_okD(5) [OF ok nd(1)]
  have S: "?S \<noteq> [] \<Longrightarrow> hd ?S = nxt" using assms(4) upto_facts(2) [of s nxt] by (cases "s = 0") auto
  obtain cs where walk: "touch_walk ?now (sk_root c) (?P @ ?S) = ([0], length ?P, dset 0 (RNode ?P ?now cs) (sk_root c))"
    and cs: "wf_tree cs" "keys cs \<subseteq> set (rn_tokens nd) \<union> keys (rn_children nd)"
    and size: "tree_tokens (dset 0 (RNode ?P ?now cs) (sk_root c)) = tree_tokens (sk_root c)"
    by (rule touch_cached [OF stock_okD(1) [OF ok] nd prefix_block(1,2) [OF assms(3)], of ?S ?now]) (use S below in fastforce)
  have "k < nxt" if "k \<in> keys cs" for k using that cs(2) below by blast
  with walk cs(1) size show thesis using prefix_block(1,2) [OF assms(3)] stock_okD(2) [OF ok] by (intro that) simp_all
qed

lemma child_hits_bare:
  assumes ok: "stock_ok nxt c" and "cached p c" "0 < p" "p \<le> nxt"
  shows "stock_ok nxt (snd (run_request [0..p - 1] c)) \<and> newest p (snd (run_request [0..p - 1] c)) \<and>
    sk_charged (snd (run_request [0..p - 1] c)) = sk_charged c"
proof -
  let ?P = "[0..p - 1]" and ?now = "sk_clock c"
  obtain cs where walk: "touch_walk ?now (sk_root c) ?P = ([0], length ?P, dset 0 (RNode ?P ?now cs) (sk_root c))"
    and node: "wf_rnode 0 (RNode ?P ?now cs)" and csk: "\<And>k. k \<in> keys cs \<Longrightarrow> k < nxt"
    and size: "tree_tokens (dset 0 (RNode ?P ?now cs) (sk_root c)) = sk_resident c"
    using cached_walk [OF ok assms(2,3) order_refl] by auto
  have run: "snd (run_request ?P c) = c\<lparr>sk_root := dset 0 (RNode ?P ?now cs) (sk_root c), sk_clock := Suc ?now\<rparr>"
    using walk by (simp add: request_frame)
  have "stock_ok nxt (snd (run_request ?P c))"
    using size assms(3,4) csk stock_okD(4) [OF ok]
    by (intro stock_ok_entry [OF stock_okD(1) [OF ok] node _ _ stock_okD(3) [OF ok]]) (auto simp: run simp del: keys_dset)
  then show ?thesis using stock_okD(3) [OF ok] by (simp add: run newest_def older_leaves_dset)
qed

lemma child_hits_suffix:
  assumes ok: "stock_ok nxt c" and "cached p c" "0 < p" "p \<le> nxt" and s: "0 < s" "p + s \<le> sk_capacity c"
  shows "stock_ok (nxt + s) (snd (run_request ([0..p - 1] @ [nxt..nxt + s - 1]) c)) \<and>
    newest p (snd (run_request ([0..p - 1] @ [nxt..nxt + s - 1]) c)) \<and>
    sk_charged (snd (run_request ([0..p - 1] @ [nxt..nxt + s - 1]) c)) = sk_charged c + s"
proof -
  let ?P = "[0..p - 1]" and ?S = "[nxt..nxt + s - 1]" and ?now = "sk_clock c"
  note S = upto_facts [OF s(1), of nxt]
  obtain cs where walk: "touch_walk ?now (sk_root c) (?P @ ?S) = ([0], length ?P, dset 0 (RNode ?P ?now cs) (sk_root c))"
    and node: "wf_rnode 0 (RNode ?P ?now cs)" and csk: "\<And>k. k \<in> keys cs \<Longrightarrow> k < nxt"
    and size: "tree_tokens (dset 0 (RNode ?P ?now cs) (sk_root c)) = sk_resident c"
    using cached_walk [OF ok assms(2,3) less_imp_le [OF s(1)]] by metis
  let ?ch = "dset 0 (RNode ?P ?now cs) (sk_root c)"
  note wf = wf_tree_dset [OF stock_okD(1) [OF ok] node]
  obtain ch res where e: "stock_evict_loop (Suc (tree_nodes ?ch)) (sk_capacity c) s ?ch (sk_resident c) = (ch, res)"
    by (metis surj_pair)
  note ev = evict_ok [OF wf lessI size [symmetric] e]
  obtain n where n: "dget ch 0 = Some n"
    using evict_keeps [OF wf lessI size [symmetric] e, of 0 "RNode ?P ?now cs"] stock_okD(3) [OF ok] assms(3) s by (auto simp: older_leaves_dset)
  from shrunkE [OF ev(4) n] have nP: "rn_tokens n = ?P" "rn_access n = ?now" "shrunk (rn_children n) cs" by auto
  let ?n = "RNode ?P ?now (dset nxt (RNode ?S ?now []) (rn_children n))"
  have run: "snd (run_request (?P @ ?S) c) = c\<lparr>sk_root := dset 0 ?n ch, sk_resident := res + s, sk_charged := sk_charged c + s, sk_clock := Suc ?now\<rparr>"
    using walk e n nP S s by (simp add: request_frame)
  have old: "older_leaves 0 ?now ch" using older_leaves_shrunk [OF ev(4)] stock_okD(3) [OF ok] by (simp add: older_leaves_dset)
  have "wf_tree (rn_children n)" using wf_tree_get [OF ev(1) n] by (cases n) simp
  then have wn: "wf_rnode 0 ?n" using S prefix_block(1,2) [OF assms(3)] by (simp add: wf_tree_dset)
  have "dget (rn_children n) nxt = None" using csk shrunk_keys [OF nP(3)] by (fastforce simp: dget_None_iff)
  then have tokens: "tree_tokens (dset 0 ?n ch) = res + s"
    using n nP(1) ev(2) S(3) s by (cases n) (simp add: tree_tokens_dsum dsum_dset)
  have ks: "k < nxt + s" if "k \<in> keys ch" for k using that shrunk_keys [OF ev(4)] stock_okD(4) [OF ok] assms(3,4) s by fastforce
  have xs: "x < nxt + s" if "x \<in> set (rn_tokens ?n) \<union> keys (rn_children ?n)" for x
  proof -
    from that have "x \<in> set ?P \<or> x = nxt \<or> x \<in> keys (rn_children n)" by (simp only: rnode.sel keys_dset) blast
    then show ?thesis using shrunk_keys [OF nP(3), THEN subsetD, of x] csk [of x] assms(4) s by fastforce
  qed
  have "stock_ok (nxt + s) (snd (run_request (?P @ ?S) c))"
    by (rule stock_ok_entry [OF ev(1) wn _ _ old _ _ ks xs]) (use assms(3,4) s tokens in \<open>simp_all add: run\<close>)
  then show ?thesis using old by (simp add: run newest_def older_leaves_dset)
qed

lemma child_hits:
  assumes "stock_ok nxt c" "cached p c" "0 < p" "p \<le> nxt" "0 \<le> s" "p + s \<le> sk_capacity c"
  shows "stock_ok (nxt + s) (snd (run_request ([0..p - 1] @ [nxt..nxt + s - 1]) c)) \<and>
    newest p (snd (run_request ([0..p - 1] @ [nxt..nxt + s - 1]) c)) \<and>
    sk_charged (snd (run_request ([0..p - 1] @ [nxt..nxt + s - 1]) c)) = sk_charged c + s"
  using child_hits_bare [OF assms(1-4)] child_hits_suffix [OF assms(1-4)] assms(5,6) by (cases "s = 0") simp_all

section \<open>The rounds\<close>

lemma suffix_name_inject [simp]: "suffix_name i = suffix_name j \<longleftrightarrow> i = j"
  by (auto simp: suffix_name_def dest: str_nat_inject)

lemma suffix_not_parent [simp]: "suffix_name i \<noteq> ''parent''"
  by (simp add: suffix_name_def)

definition gen_ok :: "nat \<Rightarrow> token_gen \<Rightarrow> bool" where
  "gen_ok i g \<longleftrightarrow> (\<forall>j \<ge> i. dget (tg_ranges g) (suffix_name j) = None)"

lemma tg_block_new:
  assumes "gen_ok i g"
  shows "tg_block (suffix_name i) n g = ([tg_next g..tg_next g + n - 1],
    g\<lparr>tg_ranges := dset (suffix_name i) (tg_next g) (tg_ranges g), tg_next := tg_next g + n\<rparr>)"
    "gen_ok (Suc i) (snd (tg_block (suffix_name i) n g))"
  using assms by (auto simp: tg_block_def gen_ok_def)

fun replaying :: "pressure \<Rightarrow> nat \<Rightarrow> tally \<times> stock \<Rightarrow> bool" where
  "replaying ps i (y, c) \<longleftrightarrow> gen_ok i (ta_gen y) \<and> stock_ok (tg_next (ta_gen y)) c \<and> sk_capacity c = ps_capacity ps \<and>
     ps_prefix ps \<le> tg_next (ta_gen y)"

definition pressure_ok :: "pressure \<Rightarrow> bool" where
  "pressure_ok ps \<longleftrightarrow> 1 \<le> ps_children ps \<and> 0 < ps_prefix ps \<and> 0 \<le> ps_suffix ps \<and> 0 \<le> ps_interleaved ps \<and>
     ps_prefix ps + ps_suffix ps \<le> ps_capacity ps \<and> ps_pattern ps \<in> {''sustained'', ''burst''}"

lemma pressure_init_ok: "pressure_init p n s u c pattern = Inr ps \<Longrightarrow> 0 < p \<Longrightarrow> pressure_ok ps"
  by (auto simp: pressure_init_def pressure_ok_def split: if_splits)

abbreviation parent_prefix :: "pressure \<Rightarrow> int list" where
  "parent_prefix ps \<equiv> [0..ps_prefix ps - 1]"

definition lost :: "stock \<Rightarrow> bool" where "lost c \<longleftrightarrow> dget (sk_root c) 0 = None"

lemma stock_noise_keeps:
  assumes "pressure_ok ps" "replaying ps i (y, c)" "newest (ps_prefix ps) c" "ps_prefix ps + ps_interleaved ps \<le> ps_capacity ps"
    and "stock_noise ps i (y, c) = (y', c')"
  shows "replaying ps i (y', c') \<and> cached (ps_prefix ps) c' \<and> ta_hits y' = ta_hits y \<and> ta_charged y' = ta_charged y"
  using noise_keeps [of "tg_next (ta_gen y)" c "ps_prefix ps" "ps_interleaved ps"] assms newest_cached [OF assms(3)]
  by (auto simp: stock_noise_def tg_fresh_def pressure_ok_def applies_def gen_ok_def split: if_splits)

lemma stock_noise_evicts:
  assumes "pressure_ok ps" "replaying ps i (y, c)" "cached (ps_prefix ps) c \<or> lost c" "applies ps i"
    and "ps_capacity ps < ps_prefix ps + ps_interleaved ps" "stock_noise ps i (y, c) = (y', c')"
  shows "replaying ps i (y', c') \<and> lost c' \<and> ta_hits y' = ta_hits y \<and> ta_charged y' = ta_charged y"
  using noise_evicts [of "tg_next (ta_gen y)" c "ps_prefix ps" "ps_interleaved ps"] assms
  by (auto simp: stock_noise_def tg_fresh_def pressure_ok_def applies_def gen_ok_def lost_def)

lemma stock_child_hits:
  assumes "pressure_ok ps" "replaying ps i (y, c)" "cached (ps_prefix ps) c"
    and "stock_child ps (parent_prefix ps) i (y, c) = (y', c')"
  shows "replaying ps (Suc i) (y', c') \<and> newest (ps_prefix ps) c' \<and> ta_hits y' = ta_hits y + 1 \<and>
    ta_charged y' = ta_charged y + ps_suffix ps"
proof -
  have g: "gen_ok i (ta_gen y)" using assms(2) by simp
  note child = child_hits [of "tg_next (ta_gen y)" c "ps_prefix ps" "ps_suffix ps"]
  show ?thesis
    using assms child match_cached [OF assms(3)] tg_block_new [OF g, of "ps_suffix ps"]
    by (auto simp: stock_child_def count_hit_def pressure_ok_def Let_def)
qed

lemma stock_child_misses:
  assumes "pressure_ok ps" "replaying ps i (y, c)" "lost c"
    and "stock_child ps (parent_prefix ps) i (y, c) = (y', c')"
  shows "replaying ps (Suc i) (y', c') \<and> cached (ps_prefix ps) c' \<and> ta_hits y' = ta_hits y \<and>
    ta_charged y' = ta_charged y + ps_prefix ps + ps_suffix ps"
proof -
  have g: "gen_ok i (ta_gen y)" using assms(2) by simp
  note child = child_misses [of "tg_next (ta_gen y)" c "ps_prefix ps" "ps_suffix ps"]
  show ?thesis
    using assms child match_gone [of c "ps_prefix ps"] tg_block_new [OF g, of "ps_suffix ps"]
    by (auto simp: stock_child_def count_hit_def pressure_ok_def Let_def lost_def)
qed

text \<open>Rounds that all count alike.\<close>

lemma fold_counts:
  assumes step: "\<And>i x. a \<le> i \<Longrightarrow> i < n \<Longrightarrow> I i x \<Longrightarrow> I (Suc i) (f i x) \<and> h (f i x) = h x + dh \<and> d (f i x) = d x + (dd :: int)"
    and "I a x" "a \<le> n"
  shows "I n (fold f [a..<n] x) \<and> h (fold f [a..<n] x) = h x + int (n - a) * dh \<and> d (fold f [a..<n] x) = d x + int (n - a) * dd"
  using assms(3) step
proof (induction n rule: dec_induct)
  case base
  then show ?case using assms(2) by simp
next
  case (step m)
  then have "I m (fold f [a..<m] x) \<and> h (fold f [a..<m] x) = h x + int (m - a) * dh \<and> d (fold f [a..<m] x) = d x + int (m - a) * dd"
    by auto
  with step show ?case by (simp add: Suc_diff_le algebra_simps)
qed


abbreviation stock_round :: "pressure \<Rightarrow> nat \<Rightarrow> tally \<times> stock \<Rightarrow> tally \<times> stock" where
  "stock_round ps i x \<equiv> stock_child ps (parent_prefix ps) i (stock_noise ps i x)"

lemma round_keeps:
  assumes "pressure_ok ps" "ps_prefix ps + ps_interleaved ps \<le> ps_capacity ps" "replaying ps i x" "newest (ps_prefix ps) (snd x)"
  shows "replaying ps (Suc i) (stock_round ps i x) \<and> newest (ps_prefix ps) (snd (stock_round ps i x)) \<and>
    ta_hits (fst (stock_round ps i x)) = ta_hits (fst x) + 1 \<and> ta_charged (fst (stock_round ps i x)) = ta_charged (fst x) + ps_suffix ps"
proof -
  obtain y c y1 c1 y2 c2 where x: "x = (y, c)" "stock_noise ps i (y, c) = (y1, c1)" "stock_child ps (parent_prefix ps) i (y1, c1) = (y2, c2)"
    by (metis surj_pair)
  have "replaying ps i (y1, c1)" "cached (ps_prefix ps) c1" "ta_hits y1 = ta_hits y" "ta_charged y1 = ta_charged y"
    using stock_noise_keeps [OF assms(1) _ _ assms(2) x(2)] assms(3,4) x(1) by auto
  with stock_child_hits [OF assms(1) this(1,2) x(3)] show ?thesis by (simp add: x)
qed

lemma round_evicts:
  assumes "pressure_ok ps" "ps_capacity ps < ps_prefix ps + ps_interleaved ps" "applies ps i" "replaying ps i x" "cached (ps_prefix ps) (snd x)"
  shows "replaying ps (Suc i) (stock_round ps i x) \<and> cached (ps_prefix ps) (snd (stock_round ps i x)) \<and>
    ta_hits (fst (stock_round ps i x)) = ta_hits (fst x) \<and>
    ta_charged (fst (stock_round ps i x)) = ta_charged (fst x) + (ps_prefix ps + ps_suffix ps)"
proof -
  obtain y c y1 c1 y2 c2 where x: "x = (y, c)" "stock_noise ps i (y, c) = (y1, c1)" "stock_child ps (parent_prefix ps) i (y1, c1) = (y2, c2)"
    by (metis surj_pair)
  have "replaying ps i (y1, c1)" "lost c1" "ta_hits y1 = ta_hits y" "ta_charged y1 = ta_charged y"
    using stock_noise_evicts [OF assms(1) _ _ assms(3,2) x(2)] assms(4,5) x(1) by auto
  with stock_child_misses [OF assms(1) this(1,2) x(3)] show ?thesis by (simp add: x)
qed

lemma round_quiet:
  assumes "pressure_ok ps" "\<not> applies ps i" "replaying ps i x" "cached (ps_prefix ps) (snd x)"
  shows "replaying ps (Suc i) (stock_round ps i x) \<and> cached (ps_prefix ps) (snd (stock_round ps i x)) \<and>
    ta_hits (fst (stock_round ps i x)) = ta_hits (fst x) + 1 \<and> ta_charged (fst (stock_round ps i x)) = ta_charged (fst x) + ps_suffix ps"
proof -
  obtain y c y2 c2 where x: "x = (y, c)" "stock_child ps (parent_prefix ps) i (y, c) = (y2, c2)" by (metis surj_pair)
  have "stock_noise ps i (y, c) = (y, c)" using assms(2) by (simp add: stock_noise_def)
  with stock_child_hits [OF assms(1) _ _ x(2)] assms(3,4) newest_cached show ?thesis by (auto simp: x)
qed

section \<open>The prediction is exact\<close>

abbreviation replayed :: "pressure \<Rightarrow> nat \<Rightarrow> tally \<times> stock \<Rightarrow> tally \<times> stock" where
  "replayed ps i x \<equiv> fold (stock_round ps) [i..<nat (ps_children ps)] x"

abbreviation warm :: "pressure \<Rightarrow> nat \<Rightarrow> tally \<times> stock \<Rightarrow> bool" where
  "warm ps i x \<equiv> replaying ps i x \<and> cached (ps_prefix ps) (snd x)"

lemma rounds_keep:
  assumes "pressure_ok ps" "ps_prefix ps + ps_interleaved ps \<le> ps_capacity ps" "replaying ps 0 x" "newest (ps_prefix ps) (snd x)"
  shows "ta_hits (fst (replayed ps 0 x)) = ta_hits (fst x) + int (nat (ps_children ps) - 0) * 1 \<and>
    ta_charged (fst (replayed ps 0 x)) = ta_charged (fst x) + int (nat (ps_children ps) - 0) * ps_suffix ps"
  using fold_counts [where I = "\<lambda>i x. replaying ps i x \<and> newest (ps_prefix ps) (snd x)" and a = 0 and n = "nat (ps_children ps)"
      and f = "stock_round ps" and h = "\<lambda>x. ta_hits (fst x)" and d = "\<lambda>x. ta_charged (fst x)" and dh = 1 and dd = "ps_suffix ps" and x = x]
    round_keeps [OF assms(1,2)] assms(3,4) by blast

lemma rounds_evict:
  assumes "pressure_ok ps" "ps_capacity ps < ps_prefix ps + ps_interleaved ps" "\<And>i. applies ps i" "warm ps 0 x"
  shows "ta_hits (fst (replayed ps 0 x)) = ta_hits (fst x) + int (nat (ps_children ps) - 0) * 0 \<and>
    ta_charged (fst (replayed ps 0 x)) = ta_charged (fst x) + int (nat (ps_children ps) - 0) * (ps_prefix ps + ps_suffix ps)"
  using fold_counts [where I = "warm ps" and a = 0 and n = "nat (ps_children ps)" and f = "stock_round ps" and h = "\<lambda>x. ta_hits (fst x)"
      and d = "\<lambda>x. ta_charged (fst x)" and dh = 0 and dd = "ps_prefix ps + ps_suffix ps" and x = x]
    round_evicts [OF assms(1-3)] assms(4) by auto

lemma rounds_quiet:
  assumes "pressure_ok ps" "\<And>i. 1 \<le> i \<Longrightarrow> \<not> applies ps i" "warm ps 1 x" "1 \<le> nat (ps_children ps)"
  shows "ta_hits (fst (replayed ps 1 x)) = ta_hits (fst x) + int (nat (ps_children ps) - 1) * 1 \<and>
    ta_charged (fst (replayed ps 1 x)) = ta_charged (fst x) + int (nat (ps_children ps) - 1) * ps_suffix ps"
  using fold_counts [where I = "warm ps" and a = 1 and n = "nat (ps_children ps)" and f = "stock_round ps" and h = "\<lambda>x. ta_hits (fst x)"
      and d = "\<lambda>x. ta_charged (fst x)" and dh = 1 and dd = "ps_suffix ps" and x = x]
    round_quiet [OF assms(1,2)] assms(3,4) by auto

lemma stock_rounds:
  assumes ps: "pressure_ok ps" and x: "replaying ps 0 x" "newest (ps_prefix ps) (snd x)" "ta_hits (fst x) = 0"
  shows "ta_hits (fst (replayed ps 0 x)) = stock_parent_hits ps \<and> ta_charged (fst (replayed ps 0 x)) =
      ta_charged (fst x) + ps_children ps * ps_suffix ps + (ps_children ps - stock_parent_hits ps) * ps_prefix ps"
proof -
  let ?n = "nat (ps_children ps)" and ?p = "ps_prefix ps"
  have n: "int ?n = ps_children ps" "1 \<le> ?n" "ps_prefix ps \<le> ps_capacity ps" using ps by (auto simp: pressure_ok_def)
  have w: "warm ps 0 x" using x newest_cached by blast
  consider (fits) "?p + ps_interleaved ps \<le> ps_capacity ps"
    | (sustained) "ps_capacity ps < ?p + ps_interleaved ps" "ps_pattern ps = ''sustained''"
    | (burst) "ps_capacity ps < ?p + ps_interleaved ps" "ps_pattern ps = ''burst''"
    using ps linorder_le_less_linear [of "?p + ps_interleaved ps" "ps_capacity ps"] unfolding pressure_ok_def by blast
  then show ?thesis
  proof cases
    case fits
    then have "stock_parent_hits ps = ps_children ps" using n(3) by (simp add: stock_parent_hits_def break_even_u_def Let_def)
    with rounds_keep [OF ps fits x(1,2)] show ?thesis using x(3) n(1) by simp
  next
    case sustained
    have "applies ps i" for i using sustained n(3) by (auto simp: applies_def)
    moreover have "stock_parent_hits ps = 0" using sustained n(3) by (simp add: stock_parent_hits_def break_even_u_def Let_def)
    ultimately show ?thesis using rounds_evict [OF ps sustained(1) _ w] x(3) n(1) by (simp add: algebra_simps)
  next
    case burst
    have first: "applies ps 0" and off: "\<not> applies ps i" if "1 \<le> i" for i using burst n(3) that by (auto simp: applies_def)
    let ?x1 = "stock_round ps 0 x"
    have r0: "warm ps 1 ?x1" "ta_hits (fst ?x1) = 0" "ta_charged (fst ?x1) = ta_charged (fst x) + (?p + ps_suffix ps)"
      using round_evicts [OF ps burst(1) _ x(1)] first [OF order_refl] w x(3) by auto
    have hits: "stock_parent_hits ps = ps_children ps - 1" "ps_children ps - stock_parent_hits ps = 1"
      using burst n(3) by (simp_all add: stock_parent_hits_def break_even_u_def Let_def)
    have "replayed ps 0 x = replayed ps 1 ?x1" using n(2) by (simp add: upt_conv_Cons)
    with rounds_quiet [OF ps off r0(1) n(2)] hits r0 n show ?thesis by (simp add: of_nat_diff left_diff_distrib)
  qed
qed

lemma run_stock_exact:
  assumes ps: "pressure_ok ps"
  shows "\<exists>m. run_stock ps = Inr m \<and> me_children m = ps_children ps \<and> me_hits m = pr_stock_hits (pressure_model ps) \<and>
    me_child_charged m = pr_stock_charged (pressure_model ps)"
proof -
  let ?p = "ps_prefix ps"
  define g where "g = \<lparr>tg_next = ps_prefix ps, tg_ranges = [(''parent'', 0)]\<rparr>"
  define c0 where "c0 = \<lparr>sk_capacity = ps_capacity ps, sk_root = [], sk_resident = 0, sk_charged = 0, sk_clock = 1\<rparr>"
  define c1 where "c1 = snd (run_request (parent_prefix ps) c0)"
  let ?x = "(\<lparr>ta_gen = g, ta_hits = 0, ta_charged = sk_charged c1\<rparr>, c1)"
  have p: "0 < ?p" and init: "stock_init (ps_capacity ps) = Inr c0"
    using ps by (auto simp: stock_init_def pressure_ok_def c0_def)
  have block: "tg_block ''parent'' ?p tg_new = (parent_prefix ps, g)" by (simp add: tg_block_def tg_new_def g_def)
  have c1: "c1 = c0\<lparr>sk_root := [(0, RNode (parent_prefix ps) 1 [])], sk_resident := ?p, sk_charged := ?p, sk_clock := 2\<rparr>"
    unfolding c1_def using p prefix_block [of ?p] run_request_new [of "parent_prefix ps" c0 "[]" 0] by (simp add: c0_def)
  have "stock_ok ?p c1"
    using p prefix_block [of ?p] by (auto simp: c1 c0_def stock_ok_def older_leaves_def)
  then have "replaying ps 0 ?x" by (simp add: g_def gen_ok_def c1 c0_def)
  moreover have "newest ?p (snd ?x)" by (simp add: newest_def c1 older_leaves_def)
  ultimately have "ta_hits (fst (fold (stock_round ps) [0..<nat (ps_children ps)] ?x)) = stock_parent_hits ps \<and>
      ta_charged (fst (fold (stock_round ps) [0..<nat (ps_children ps)] ?x)) =
        ta_charged (fst ?x) + ps_children ps * ps_suffix ps + (ps_children ps - stock_parent_hits ps) * ?p"
    by (intro stock_rounds [OF ps]) simp_all
  moreover have "sk_charged c1 = ?p" by (simp add: c1)
  ultimately show ?thesis
    by (auto simp: run_stock_def init block c1_def [symmetric] pressure_model_def Let_def split: prod.split)
qed

end
