(* ===== verification/Pressure_Props.thy ===== *)
theory Pressure_Props
  imports Pressure_Stock
begin

text \<open>
  The pinned arm of the replay, over the specification of the tree cache, and the comparison of both arms with the
  prediction of the cost model.
\<close>

section \<open>Calls on the specification\<close>

abbreviation pages :: "(string \<Rightarrow> (string \<times> int list) option) \<Rightarrow> (string \<times> int list) set" where
  "pages T \<equiv> stored \<lparr>sp_trees = T, sp_seq = 0\<rparr>"

lemma stored_pages: "stored A = pages (sp_trees A)"
  by (simp add: stored_def)

lemma spec_match_pages: "spec_match ns toks A = spec_match ns toks \<lparr>sp_trees = sp_trees A, sp_seq = 0\<rparr>"
  by (simp add: spec_match_def stored_in_def stored_def)

definition pin_at :: "(nat \<Rightarrow> real) \<Rightarrow> int \<Rightarrow> (string \<Rightarrow> (string \<times> int list) option) \<Rightarrow> int \<Rightarrow> kv_cache \<Rightarrow> bool" where
  "pin_at clk cap T n s \<longleftrightarrow> kv_reach no_recreate clk cap None s \<and> sp_trees (kv_abs s) = T \<and> st_charged (kv_stats s) = n"

lemma pin_at_step:
  assumes "pin_at clk cap T n s" "no_recreate op s" "s' = kv_exec clk op s" "sp_trees (kv_abs s') = T'" "st_charged (kv_stats s') = n'"
  shows "pin_at clk cap T' n' s'"
  using assms kv_reach.step by (auto simp: pin_at_def)

lemma pin_finite: "pin_at clk cap T n s \<Longrightarrow> finite (pages T)"
  using card_stored(1) [of s] kv_reach_inv [of clk cap None s] by (auto simp: pin_at_def cache_inv_def stored_pages [of "kv_abs s"])

lemma charged_kept:
  "st_charged (kv_stats (snd (create_tree clk t s))) = st_charged (kv_stats s)"
  "st_charged (kv_stats (snd (fork_branch t c s))) = st_charged (kv_stats s)"
  "st_charged (kv_stats (snd (kill t s))) = st_charged (kv_stats s)"
  "st_charged (kv_stats (snd (match_tree_prefix clk t toks s))) = st_charged (kv_stats s)"
  by (auto simp: create_tree_def fork_branch_def kill_def match_tree_prefix_def walk_ns_def set_root_def Let_def
      split: option.split prod.split)

lemma charged_extend:
  assumes inv: "cache_inv s" and run: "extend_kv clk t toks s = (Inr k, s')"
  shows "st_charged (kv_stats s') = st_charged (kv_stats s) + k"
proof -
  obtain tid where tid: "dget (kv_trees s) t = Some tid" using run by (cases "dget (kv_trees s) t") (auto simp: extend_kv_def)
  then have ns: "ns_of s t = Some (tid_namespace tid)" by (simp add: ns_of_def)
  obtain sq r where "dget (kv_seqs s) t = Some sq" "dget (kv_root s) (tid_namespace tid) = Some r"
    using cache_wf_tree [OF _ ns] inv unfolding cache_inv_def by blast
  then show ?thesis
    by (rule_tac extend_run [OF inv tid, where clk = clk and toks = toks]) (use run in \<open>auto simp: Let_def extended_def split: if_splits\<close>)
qed

lemma pin_create:
  assumes "pin_at clk cap T n s" "T t = None" "\<And>u ns sq. T u = Some (ns, sq) \<Longrightarrow> ns \<noteq> t"
  obtains r s' where "create_tree clk t s = (Inr r, s')" "pin_at clk cap (T(t \<mapsto> (t, []))) n s'"
proof -
  have reach: "kv_reach no_recreate clk cap None s" and T: "sp_trees (kv_abs s) = T" "st_charged (kv_stats s) = n"
    using assms(1) by (auto simp: pin_at_def)
  note inv = kv_reach_inv [OF reach]
  have "no_recreate (CreateTree t) s"
  proof (rule no_recreate_root [OF inv], rule)
    assume "t \<in> keys (kv_root s)"
    then obtain u where u: "ns_of s u = Some t" using cache_wf_ns inv by (auto simp: cache_inv_def)
    then obtain sq where "dget (kv_seqs s) u = Some sq" using cache_wf_tree [OF _ u] inv unfolding cache_inv_def by blast
    with u have "T u = Some (t, sq)" unfolding T(1) [symmetric] kv_abs_tree by simp
    then show False using assms(3) by blast
  qed
  obtain r s' where run: "create_tree clk t s = (r, s')" by (cases "create_tree clk t s")
  from create_tree_refines [OF inv, of clk t] assms(2) T(1)
  have "map_sum id tid_tree_id r = Inr t \<and> sp_trees (kv_abs s') = T(t \<mapsto> (t, []))" by (auto simp: run spec_create_def)
  moreover from this obtain r' where "r = Inr r'" by (cases r) auto
  moreover have "st_charged (kv_stats s') = n" using charged_kept(1) [of clk t s] run T(2) by simp
  ultimately show thesis
    using run \<open>no_recreate (CreateTree t) s\<close>
    by (intro that pin_at_step [OF assms(1), where op = "CreateTree t"]) (auto simp del: no_recreate.simps)
qed

lemma pin_fork:
  assumes "pin_at clk cap T n s" "T t = Some x" "T c = None" "c \<noteq> []"
  obtains r s' where "fork_branch t (Some c) s = (Inr r, s')" "pin_at clk cap (T(c \<mapsto> x)) n s'"
proof -
  have reach: "kv_reach no_recreate clk cap None s" and T: "sp_trees (kv_abs s) = T" "st_charged (kv_stats s) = n"
    using assms(1) by (auto simp: pin_at_def)
  obtain r s' where run: "fork_branch t (Some c) s = (r, s')" by (cases "fork_branch t (Some c) s")
  from fork_branch_refines [OF kv_reach_inv [OF reach], of t "Some c"] assms(2-4) T(1)
  have "map_sum id tid_tree_id r = Inr c \<and> sp_trees (kv_abs s') = T(c \<mapsto> x)"
    by (cases x) (auto simp: run spec_fork_def child_name_def)
  moreover from this obtain r' where "r = Inr r'" by (cases r) auto
  moreover have "st_charged (kv_stats s') = n" using charged_kept(2) [of t "Some c" s] run T(2) by simp
  ultimately show thesis using run by (intro that pin_at_step [OF assms(1), where op = "ForkBranch t (Some c)"]) auto
qed

lemma pin_kill:
  assumes "pin_at clk cap T n s"
  obtains r s' where "kill t s = (Inr r, s')" "pin_at clk cap (T(t := None)) n s'"
proof -
  have reach: "kv_reach no_recreate clk cap None s" and T: "sp_trees (kv_abs s) = T" "st_charged (kv_stats s) = n"
    using assms(1) by (auto simp: pin_at_def)
  obtain r s' where run: "kill t s = (r, s')" by (cases "kill t s")
  from kill_refines [OF kv_reach_inv [OF reach], of t] T(1)
  have "sp_trees (kv_abs s') = T(t := None)" "\<exists>k. r = Inr k" by (auto simp: run spec_kill_def Let_def)
  moreover have "st_charged (kv_stats s') = n" using charged_kept(3) [of t s] run T(2) by simp
  ultimately show thesis using run by (auto intro!: that pin_at_step [OF assms(1), where op = "Kill t"])
qed

lemma pin_extend:
  assumes "pin_at clk cap T n s" "T t = Some (ns, sq)"
    and k: "card (pages (T(t \<mapsto> (ns, sq @ toks)))) = card (pages T) + k" "int (card (pages T)) + int k \<le> cap"
  obtains s' where "extend_kv clk t toks s = (Inr (int k), s')" "pin_at clk cap (T(t \<mapsto> (ns, sq @ toks))) (n + int k) s'"
proof -
  have reach: "kv_reach no_recreate clk cap None s" and T: "sp_trees (kv_abs s) = T" "st_charged (kv_stats s) = n"
    using assms(1) by (auto simp: pin_at_def)
  have lim: "kv_capacity s = cap" "kv_budget s = None" using kv_reach_limits [OF reach] by auto
  obtain r s' where run: "extend_kv clk t toks s = (r, s')" by (cases "extend_kv clk t toks s")
  from extend_refines [OF kv_reach_inv [OF reach], of clk t toks] assms(2) T(1) k
  have "r = Inr (int k)" "sp_trees (kv_abs s') = T(t \<mapsto> (ns, sq @ toks))"
    by (auto simp: run spec_extend_def lim Let_def stored_pages [of "kv_abs s"] stored_pages [of "sp_trees_update _ _"])
  moreover from this have "st_charged (kv_stats s') = n + int k" using charged_extend [OF kv_reach_inv [OF reach]] run T(2) by metis
  ultimately show thesis using run by (intro that pin_at_step [OF assms(1), where op = "Extend t toks"]) auto
qed

lemma pin_match:
  assumes "pin_at clk cap T n s" "T t = Some (ns, sq)"
  obtains s' where "match_tree_prefix clk t toks s = (Inr (spec_match ns toks \<lparr>sp_trees = T, sp_seq = 0\<rparr>), s')" "pin_at clk cap T n s'"
proof -
  have reach: "kv_reach no_recreate clk cap None s" and T: "sp_trees (kv_abs s) = T" "st_charged (kv_stats s) = n"
    using assms(1) by (auto simp: pin_at_def)
  obtain r s' where run: "match_tree_prefix clk t toks s = (r, s')" by (cases "match_tree_prefix clk t toks s")
  from match_tree_prefix_refines [OF kv_reach_inv [OF reach], of clk t toks] assms(2) T(1)
  have "r = Inr (spec_match ns toks (kv_abs s))" "sp_trees (kv_abs s') = T" by (auto simp: run)
  moreover have "st_charged (kv_stats s') = n" using charged_kept(4) [of clk t toks s] run T(2) by simp
  ultimately show thesis
    using run T(1) spec_match_pages [of ns toks "kv_abs s"]
    by (intro that pin_at_step [OF assms(1), where op = "MatchTreePrefix t toks"]) auto
qed


section \<open>What the trees hold\<close>

lemma pages_empty: "T t = None \<Longrightarrow> pages (T(t \<mapsto> (ns, []))) = pages T"
  by (auto simp: stored_def) (metis option.distinct(1))

lemma pages_fork: "T t = Some x \<Longrightarrow> T c = None \<Longrightarrow> pages (T(c \<mapsto> x)) = pages T"
  by (auto simp: stored_def split: if_splits) (metis option.distinct(1))+

lemma pages_extend:
  assumes "T t = Some (ns, sq)" "toks \<noteq> []" "finite (pages T)" "\<And>u sq'. T u = Some (ns, sq') \<Longrightarrow> hd toks \<notin> set sq'"
  shows "card (pages (T(t \<mapsto> (ns, sq @ toks)))) = card (pages T) + length toks"
proof -
  let ?new = "(\<lambda>r. (ns, sq @ r)) ` {r. r \<noteq> [] \<and> prefix r toks}"
  have "pages (T(t \<mapsto> (ns, sq @ toks))) = pages T \<union> ?new"
  proof (intro set_eqI iffI)
    fix x assume "x \<in> pages (T(t \<mapsto> (ns, sq @ toks)))"
    then show "x \<in> pages T \<union> ?new"
      using assms(1) prefix_order.refl by (cases x) (fastforce simp: stored_def prefix_append image_iff split: if_splits)
  next
    fix x assume "x \<in> pages T \<union> ?new"
    then show "x \<in> pages (T(t \<mapsto> (ns, sq @ toks)))"
      using assms(1) by (auto simp: stored_def intro: prefix_order.trans) (metis option.inject prod.inject prefixI prefix_order.trans)
  qed
  moreover have "pages T \<inter> ?new = {}"
  proof (rule ccontr)
    assume "pages T \<inter> ?new \<noteq> {}"
    then obtain r u sq' where r: "r \<noteq> []" "prefix r toks" "T u = Some (ns, sq')" "prefix (sq @ r) sq'"
      by (auto simp: stored_def)
    then have "hd toks \<in> set r" by (cases r) (auto simp: prefix_def)
    moreover have "set r \<subseteq> set sq'" using set_mono_prefix [OF r(4)] by simp
    ultimately show False using assms(4) [OF r(3)] by blast
  qed
  moreover have "card ?new = length toks" by (subst card_image) (simp_all add: inj_on_def card_prefixes)
  moreover have "finite ?new" using assms(2) \<open>card ?new = _\<close> by (metis card.infinite length_0_conv)
  ultimately show ?thesis using assms(3) by (simp add: card_Un_disjoint)
qed

lemma match_pages:
  assumes "T t = Some (ns, sq)" "prefix pre sq" "pre \<noteq> []"
  shows "length pre \<le> spec_match ns pre \<lparr>sp_trees = T, sp_seq = q\<rparr>"
  unfolding spec_match_def
  by (rule Max_ge [OF length_prefixes_bounded]) (use assms in \<open>auto simp: stored_in_def stored_def intro!: imageI\<close>)


section \<open>The pinned arm\<close>

lemma names_distinct [simp]:
  "kid_name i = kid_name j \<longleftrightarrow> i = j" "noise_name i \<noteq> kid_name j" "kid_name i \<noteq> ''parent''" "noise_name i \<noteq> ''parent''"
  "kid_name i \<noteq> []"
  by (auto simp: kid_name_def noise_name_def dest: str_nat_inject)

text \<open>Before round \<open>i\<close>: the parent and \<open>i\<close> children live in the parent's namespace.\<close>

definition pinning :: "pressure \<Rightarrow> nat \<Rightarrow> tally \<Rightarrow> (string \<Rightarrow> (string \<times> int list) option) \<Rightarrow> bool" where
  "pinning ps i y T \<longleftrightarrow> gen_ok i (ta_gen y) \<and> ps_prefix ps \<le> tg_next (ta_gen y) \<and>
     T ''parent'' = Some (''parent'', parent_prefix ps) \<and> dom T = insert ''parent'' (kid_name ` {..<i}) \<and>
     (\<forall>t ns sq. T t = Some (ns, sq) \<longrightarrow> ns = ''parent'' \<and> (\<forall>x \<in> set sq. x < tg_next (ta_gen y))) \<and>
     int (card (pages T)) = ps_prefix ps + int i * ps_suffix ps"

lemma pinningD:
  assumes "pinning ps i y T"
  shows "gen_ok i (ta_gen y)" "ps_prefix ps \<le> tg_next (ta_gen y)" "T ''parent'' = Some (''parent'', parent_prefix ps)"
    "dom T = insert ''parent'' (kid_name ` {..<i})" "T t = Some (ns, sq) \<Longrightarrow> ns = ''parent''"
    "T t = Some (ns, sq) \<Longrightarrow> x \<in> set sq \<Longrightarrow> x < tg_next (ta_gen y)" "int (card (pages T)) = ps_prefix ps + int i * ps_suffix ps"
  using assms unfolding pinning_def by blast+

lemma pinningI:
  assumes "gen_ok i (ta_gen y)" "ps_prefix ps \<le> tg_next (ta_gen y)" "T ''parent'' = Some (''parent'', parent_prefix ps)"
    "dom T = insert ''parent'' (kid_name ` {..<i})" "\<And>t ns sq. T t = Some (ns, sq) \<Longrightarrow> ns = ''parent''"
    "\<And>t ns sq x. T t = Some (ns, sq) \<Longrightarrow> x \<in> set sq \<Longrightarrow> x < tg_next (ta_gen y)" "int (card (pages T)) = ps_prefix ps + int i * ps_suffix ps"
  shows "pinning ps i y T"
  unfolding pinning_def by (intro conjI allI impI ballI) (fact assms(1-4) | rule assms(5) assms(6), assumption+ | fact assms(7))+

lemma pinning_later:
  assumes "pinning ps i y T" "gen_ok i (ta_gen z)" "tg_next (ta_gen y) \<le> tg_next (ta_gen z)"
  shows "pinning ps i z T"
proof (rule pinningI [OF assms(2) _ pinningD(3,4) [OF assms(1)] _ _ pinningD(7) [OF assms(1)]])
  show "ps_prefix ps \<le> tg_next (ta_gen z)" using pinningD(2) [OF assms(1)] assms(3) by simp
  show "ns = ''parent''" if "T t = Some (ns, sq)" for t ns sq by (rule pinningD(5) [OF assms(1) that])
  show "x < tg_next (ta_gen z)" if "T t = Some (ns, sq)" "x \<in> set sq" for t ns sq x
    using pinningD(6) [OF assms(1) that] assms(3) by simp
qed

lemma pinning_unused:
  assumes "pinning ps i y T"
  shows "T (noise_name j) = None" "i \<le> j \<Longrightarrow> T (kid_name j) = None"
proof -
  have "noise_name j \<notin> dom T" "i \<le> j \<Longrightarrow> kid_name j \<notin> dom T" unfolding pinningD(4) [OF assms] by auto
  then show "T (noise_name j) = None" "i \<le> j \<Longrightarrow> T (kid_name j) = None" by (simp_all only: domIff not_not)
qed

lemma pinning_room:
  assumes "pressure_ok ps" "pinning ps i y T" "i < nat (ps_children ps)"
  shows "int (card (pages T)) + ps_suffix ps \<le> pinned_capacity ps" "int (card (pages T)) + ps_interleaved ps \<le> pinned_capacity ps"
proof -
  have "int (Suc i) * ps_suffix ps \<le> ps_children ps * ps_suffix ps"
    using assms(1,3) by (intro mult_right_mono) (auto simp: pressure_ok_def)
  then show "int (card (pages T)) + ps_suffix ps \<le> pinned_capacity ps" "int (card (pages T)) + ps_interleaved ps \<le> pinned_capacity ps"
    using assms(1) unfolding pinningD(7) [OF assms(2)] by (auto simp: pinned_capacity_def pressure_ok_def distrib_right)
qed

lemma pinned_noise_ok:
  assumes ps: "pressure_ok ps" and T: "pinning ps i y T" and i: "i < nat (ps_children ps)" and at: "pin_at clk (pinned_capacity ps) T n s"
  obtains y' n' s' where "pinned_noise clk ps i y s = (Inr y', s')" "pin_at clk (pinned_capacity ps) T n' s'" "pinning ps i y' T"
    "ta_hits y' = ta_hits y" "ta_charged y' = ta_charged y"
proof (cases "applies ps i")
  case False
  then show thesis using that [OF _ at T] by (simp add: pinned_noise_def ret_def)
next
  case True
  let ?t = "noise_name i" and ?g = "ta_gen y" and ?u = "ps_interleaved ps"
  let ?toks = "[tg_next ?g..tg_next ?g + ?u - 1]" and ?y = "y\<lparr>ta_gen := ?g\<lparr>tg_next := tg_next ?g + ?u\<rparr>\<rparr>"
  have u: "0 < ?u" using True by (simp add: applies_def)
  have new: "T ?t = None" by (rule pinning_unused(1) [OF T])
  obtain r s1 where s1: "create_tree clk ?t s = (Inr r, s1)" "pin_at clk (pinned_capacity ps) (T(?t \<mapsto> (?t, []))) n s1"
    by (rule pin_create [OF at new]) (use pinningD(5) [OF T] in force)
  have grow: "card (pages ((T(?t \<mapsto> (?t, [])))(?t \<mapsto> (?t, [] @ ?toks)))) = card (pages (T(?t \<mapsto> (?t, [])))) + length ?toks"
    by (rule pages_extend [OF _ _ pin_finite [OF s1(2)]]) (use u pinningD(5) [OF T] in \<open>force simp: upto_facts split: if_splits\<close>)+
  obtain s2 where s2: "extend_kv clk ?t ?toks s1 = (Inr (int (length ?toks)), s2)"
      "pin_at clk (pinned_capacity ps) (T(?t \<mapsto> (?t, ?toks))) (n + int (length ?toks)) s2"
    by (rule pin_extend [OF s1(2) _ grow])
      (use pinning_room(2) [OF ps T i] u in \<open>simp_all add: pages_empty [of T, OF new] upto_facts\<close>)
  obtain r' s3 where s3: "kill ?t s2 = (Inr r', s3)" "pin_at clk (pinned_capacity ps) ((T(?t \<mapsto> (?t, ?toks)))(?t := None)) (n + int (length ?toks)) s3"
    by (rule pin_kill [OF s2(2)])
  have "(T(?t \<mapsto> (?t, ?toks)))(?t := None) = T" using new by auto
  moreover have "pinning ps i ?y T"
    using pinningD(1) [OF T] u by (intro pinning_later [OF T]) (simp_all add: gen_ok_def)
  ultimately show thesis
    using s1(1) s2(1) s3 True by (intro that [of ?y s3]) (simp_all add: pinned_noise_def tg_fresh_def seqp_def ret_def)
qed


lemma pinning_child:
  assumes "pinning ps i y T" "0 \<le> ps_suffix ps" "gen_ok (Suc i) (ta_gen z)" "tg_next (ta_gen z) = tg_next (ta_gen y) + ps_suffix ps"
    and sq: "\<And>x. x \<in> set sq \<Longrightarrow> x < tg_next (ta_gen z)"
    and "int (card (pages (T(kid_name i \<mapsto> (''parent'', sq))))) = int (card (pages T)) + ps_suffix ps"
  shows "pinning ps (Suc i) z (T(kid_name i \<mapsto> (''parent'', sq)))"
proof (rule pinningI [OF assms(3)])
  show "ps_prefix ps \<le> tg_next (ta_gen z)" using pinningD(2) [OF assms(1)] assms(2,4) by simp
  show "(T(kid_name i \<mapsto> (''parent'', sq))) ''parent'' = Some (''parent'', parent_prefix ps)"
    using pinningD(3) [OF assms(1)] by (simp add: names_distinct(3) [symmetric])
  show "dom (T(kid_name i \<mapsto> (''parent'', sq))) = insert ''parent'' (kid_name ` {..<Suc i})"
    unfolding dom_fun_upd pinningD(4) [OF assms(1)] by (auto simp: lessThan_Suc)
  show "ns = ''parent''" if "(T(kid_name i \<mapsto> (''parent'', sq))) t = Some (ns, sq')" for t ns sq'
    using that pinningD(5) [OF assms(1)] by (auto split: if_splits)
  show "x < tg_next (ta_gen z)" if "(T(kid_name i \<mapsto> (''parent'', sq))) t = Some (ns, sq')" "x \<in> set sq'" for t ns sq' x
    using that sq pinningD(6) [OF assms(1), of t ns sq' x] assms(2,4) by (cases "t = kid_name i") simp_all
  show "int (card (pages (T(kid_name i \<mapsto> (''parent'', sq))))) = ps_prefix ps + int (Suc i) * ps_suffix ps"
    using assms(6) pinningD(7) [OF assms(1)] by (simp add: distrib_right)
qed

lemma pinned_fork_hits:
  assumes ps: "pressure_ok ps" and T: "pinning ps i y T" and at: "pin_at clk (pinned_capacity ps) T n s"
  obtains r s1 m s2 where "fork_branch ''parent'' (Some (kid_name i)) s = (Inr r, s1)"
    "match_tree_prefix clk (kid_name i) (parent_prefix ps) s1 = (Inr m, s2)" "ps_prefix ps \<le> int m"
    "pin_at clk (pinned_capacity ps) (T(kid_name i \<mapsto> (''parent'', parent_prefix ps))) n s2"
    "pages (T(kid_name i \<mapsto> (''parent'', parent_prefix ps))) = pages T"
proof -
  let ?k = "kid_name i" and ?pre = "parent_prefix ps"
  let ?T1 = "T(?k \<mapsto> (''parent'', ?pre))"
  define m where "m = spec_match ''parent'' ?pre \<lparr>sp_trees = ?T1, sp_seq = 0\<rparr>"
  have new: "T ?k = None" by (rule pinning_unused(2) [OF T order_refl])
  obtain r s1 where s1: "fork_branch ''parent'' (Some ?k) s = (Inr r, s1)" "pin_at clk (pinned_capacity ps) ?T1 n s1"
    by (rule pin_fork [OF at pinningD(3) [OF T] new names_distinct(5)])
  obtain s2 where s2: "match_tree_prefix clk ?k ?pre s1 = (Inr m, s2)" "pin_at clk (pinned_capacity ps) ?T1 n s2"
    unfolding m_def by (rule pin_match [OF s1(2), of ?k]) simp_all
  have p: "0 < ps_prefix ps" using ps by (simp add: pressure_ok_def)
  then have "length ?pre \<le> m" unfolding m_def by (intro match_pages [of _ ?k _ ?pre]) (use prefix_block(1) in simp_all)
  then have "ps_prefix ps \<le> int m" using p by simp
  with s1 s2 pages_fork [OF pinningD(3) [OF T] new] show thesis by (intro that)
qed

lemma pinned_child_ok:
  assumes ps: "pressure_ok ps" and T: "pinning ps i y T" and i: "i < nat (ps_children ps)" and at: "pin_at clk (pinned_capacity ps) T n s"
  obtains y' T' n' s' where "pinned_child clk ps (parent_prefix ps) i y s = (Inr y', s')" "pin_at clk (pinned_capacity ps) T' n' s'"
    "pinning ps (Suc i) y' T'" "ta_hits y' = ta_hits y + 1" "ta_charged y' = ta_charged y + ps_suffix ps"
proof -
  let ?k = "kid_name i" and ?pre = "parent_prefix ps" and ?g = "ta_gen y"
  let ?T1 = "T(?k \<mapsto> (''parent'', ?pre))" and ?suf = "[tg_next ?g..tg_next ?g + ps_suffix ps - 1]"
  obtain g where block: "tg_block (suffix_name i) (ps_suffix ps) ?g = (?suf, g)"
    and g: "gen_ok (Suc i) g" "tg_next g = tg_next ?g + ps_suffix ps"
    using tg_block_new [OF pinningD(1) [OF T], of "ps_suffix ps"] by simp
  have p: "0 \<le> ps_suffix ps" using ps by (simp add: pressure_ok_def)
  obtain r s1 m s2 where s1: "fork_branch ''parent'' (Some ?k) s = (Inr r, s1)"
    and s2: "match_tree_prefix clk ?k ?pre s1 = (Inr m, s2)" "pin_at clk (pinned_capacity ps) ?T1 n s2"
    and m: "ps_prefix ps \<le> int m" and pg: "pages ?T1 = pages T"
    by (rule pinned_fork_hits [OF ps T at])
  let ?y = "\<lambda>c. (count_hit ps m y)\<lparr>ta_gen := g, ta_charged := ta_charged y + c\<rparr>"
  have hits: "ta_hits (?y c) = ta_hits y + 1" for c using m by (simp add: count_hit_def)
  show thesis
  proof (cases "ps_suffix ps = 0")
    case True
    then have "pinned_child clk ps ?pre i y s = (Inr (?y 0), s2)" using s1 s2(1) block by (simp add: pinned_child_def proc_defs)
    moreover have "pinning ps (Suc i) (?y 0) ?T1"
      by (rule pinning_child [OF T p]) (use True g pinningD(2) [OF T] in \<open>simp_all add: pg\<close>)
    ultimately show thesis using hits True s2(2) by (intro that [of "?y 0" s2]) simp_all
  next
    case False
    then have suf: "0 < ps_suffix ps" using p by simp
    note S = upto_facts [OF suf, of "tg_next ?g"]
    have fresh: "hd ?suf \<notin> set sq" if "?T1 u = Some (''parent'', sq)" for u sq
      using that S(2) pinningD(2) [OF T] pinningD(6) [OF T, of u "''parent''" sq] by (fastforce split: if_splits)
    have grow: "card (pages (?T1(?k \<mapsto> (''parent'', ?pre @ ?suf)))) = card (pages ?T1) + length ?suf"
      by (rule pages_extend [OF _ S(1) pin_finite [OF s2(2)] fresh]) simp_all
    obtain s3 where s3: "extend_kv clk ?k ?suf s2 = (Inr (int (length ?suf)), s3)"
        "pin_at clk (pinned_capacity ps) (?T1(?k \<mapsto> (''parent'', ?pre @ ?suf))) (n + int (length ?suf)) s3"
      by (rule pin_extend [OF s2(2) _ grow]) (use pinning_room(1) [OF ps T i] suf in \<open>simp_all add: pg\<close>)
    have "st_charged (kv_stats s2) = n" "st_charged (kv_stats s3) = n + ps_suffix ps" using s2(2) s3(2) suf by (simp_all add: pin_at_def)
    then have "pinned_child clk ps ?pre i y s = (Inr (?y (ps_suffix ps)), s3)"
      using s1 s2(1) s3(1) block S(1) by (simp add: pinned_child_def proc_defs)
    moreover have "pinning ps (Suc i) (?y (ps_suffix ps)) (T(?k \<mapsto> (''parent'', ?pre @ ?suf)))"
      by (rule pinning_child [OF T p]) (use g pinningD(2) [OF T] grow suf in \<open>auto simp: pg\<close>)
    ultimately show thesis using hits s3(2) by (intro that [of "?y (ps_suffix ps)" s3]) simp_all
  qed
qed

lemma pinned_rounds_ok:
  assumes "pressure_ok ps" "pinning ps i y T" "pin_at clk (pinned_capacity ps) T n s" "i + k = nat (ps_children ps)"
  shows "\<exists>y' s'. pinned_rounds clk ps (parent_prefix ps) [i..<i + k] y s = (Inr y', s') \<and> ta_hits y' = ta_hits y + int k \<and>
    ta_charged y' = ta_charged y + int k * ps_suffix ps"
  using assms(2-4)
proof (induction k arbitrary: i y T n s)
  case 0
  then show ?case by (simp add: ret_def)
next
  case (Suc k)
  then have i: "i < nat (ps_children ps)" by simp
  obtain y1 n1 s1 where r1: "pinned_noise clk ps i y s = (Inr y1, s1)" "pin_at clk (pinned_capacity ps) T n1 s1" "pinning ps i y1 T"
      "ta_hits y1 = ta_hits y" "ta_charged y1 = ta_charged y"
    by (rule pinned_noise_ok [OF assms(1) Suc.prems(1) i Suc.prems(2)])
  obtain y2 T2 n2 s2 where r2: "pinned_child clk ps (parent_prefix ps) i y1 s1 = (Inr y2, s2)" "pin_at clk (pinned_capacity ps) T2 n2 s2"
      "pinning ps (Suc i) y2 T2" "ta_hits y2 = ta_hits y1 + 1" "ta_charged y2 = ta_charged y1 + ps_suffix ps"
    by (rule pinned_child_ok [OF assms(1) r1(3) i r1(2)])
  have "[i..<i + Suc k] = i # [Suc i..<Suc i + k]" by (simp add: upt_conv_Cons)
  with Suc.IH [OF r2(3,2)] Suc.prems(3) r1 r2 show ?case by (fastforce simp: seqp_def distrib_right)
qed

lemma run_pinned_exact:
  assumes ps: "pressure_ok ps"
  shows "\<exists>m. run_pinned clk ps = Inr m \<and> me_children m = ps_children ps \<and> me_hits m = pr_pinned_hits (pressure_model ps) \<and>
    me_child_charged m = pr_pinned_charged (pressure_model ps)"
proof -
  let ?pre = "parent_prefix ps" and ?cap = "pinned_capacity ps"
  define g where "g = \<lparr>tg_next = ps_prefix ps, tg_ranges = [(''parent'', 0)]\<rparr>"
  have block: "tg_block ''parent'' (ps_prefix ps) tg_new = (?pre, g)" by (simp add: tg_block_def tg_new_def g_def)
  have p: "0 < ps_prefix ps" "ps_prefix ps \<le> ?cap" "0 \<le> ?cap" "0 \<le> ps_children ps"
    using ps by (auto simp: pressure_ok_def pinned_capacity_def)
  obtain s0 where s0: "kv_init ?cap None = Inr s0" using p by (simp add: kv_init_def)
  then have "pin_at clk ?cap (\<lambda>_. None) 0 s0"
    using kv_reach.init [of ?cap None s0 no_recreate clk] by (auto simp: pin_at_def kv_init_def kv_abs_def empty_stats_def split: if_splits)
  then obtain r s1 where s1: "create_tree clk ''parent'' s0 = (Inr r, s1)" "pin_at clk ?cap [''parent'' \<mapsto> (''parent'', [])] 0 s1"
    by (rule pin_create) simp_all
  have none: "pages [''parent'' \<mapsto> (''parent'', [])] = {}" by (simp add: stored_def)
  have grow: "card (pages ([''parent'' \<mapsto> (''parent'', [])](''parent'' \<mapsto> (''parent'', [] @ ?pre)))) =
      card (pages [''parent'' \<mapsto> (''parent'', [])]) + length ?pre"
    by (rule pages_extend) (use prefix_block(1) [OF p(1)] none in \<open>auto split: if_splits\<close>)
  obtain s2 where s2: "extend_kv clk ''parent'' ?pre s1 = (Inr (int (length ?pre)), s2)"
      "pin_at clk ?cap ([''parent'' \<mapsto> (''parent'', [])](''parent'' \<mapsto> (''parent'', [] @ ?pre))) (0 + int (length ?pre)) s2"
    by (rule pin_extend [OF s1(2) _ grow]) (use p none in simp_all)
  let ?T = "[''parent'' \<mapsto> (''parent'', ?pre)]" and ?y = "\<lparr>ta_gen = g, ta_hits = 0, ta_charged = ps_prefix ps\<rparr>"
  have at: "pin_at clk ?cap ?T (ps_prefix ps) s2" using s2(2) p by simp
  have "int (card (pages ?T)) = ps_prefix ps" using grow none p by simp
  then have "pinning ps 0 ?y ?T" by (intro pinningI) (auto simp: g_def gen_ok_def split: if_splits)
  from pinned_rounds_ok [OF ps this at, of "nat (ps_children ps)"]
  obtain y' s' where "pinned_rounds clk ps ?pre [0..<nat (ps_children ps)] ?y s2 = (Inr y', s')"
      "ta_hits y' = ps_children ps" "ta_charged y' = ps_prefix ps + ps_children ps * ps_suffix ps"
    using p(4) by auto
  moreover have "st_charged (kv_stats s2) = ps_prefix ps" using at by (simp add: pin_at_def)
  ultimately show ?thesis
    using s1(1) s2(1) prefix_block(1) [OF p(1)]
    by (simp add: run_pinned_def s0 pinned_replay_def block proc_defs pressure_model_def Let_def)
qed

section \<open>The comparison\<close>

text \<open>
  C39: For every accepted scenario with a non-empty prefix, the replay on both caches gives what the cost model predicts:
  the hit rate of the stock cache, a hit for every child of the pinned cache, the charges of both arms to the token, and
  their ratio.
\<close>

theorem replay_matches_model:
  assumes "pressure_init p n s u c pattern = Inr ps" "0 < p"
  shows "\<exists>r. compare clk ps = Inr r \<and> cmp_stock_rate r = pr_stock_rate (pressure_model ps) \<and> cmp_pinned_rate r = 1 \<and>
    cmp_stock r = pr_stock_charged (pressure_model ps) \<and> cmp_pinned r = pr_pinned_charged (pressure_model ps) \<and>
    cmp_ratio r = pr_ratio (pressure_model ps)"
proof -
  have ok: "pressure_ok ps" by (rule pressure_init_ok [OF assms])
  then have "ps_children ps \<noteq> 0" by (auto simp: pressure_ok_def)
  moreover obtain m where "run_stock ps = Inr m" "me_children m = ps_children ps" "me_hits m = pr_stock_hits (pressure_model ps)"
      "me_child_charged m = pr_stock_charged (pressure_model ps)" using run_stock_exact [OF ok] by blast
  moreover obtain m' where "run_pinned clk ps = Inr m'" "me_children m' = ps_children ps" "me_hits m' = pr_pinned_hits (pressure_model ps)"
      "me_child_charged m' = pr_pinned_charged (pressure_model ps)" using run_pinned_exact [OF ok] by blast
  ultimately show ?thesis by (simp add: compare_def parent_hit_rate_def) (simp add: pressure_model_def Let_def)
qed

definition sample_pressure :: pressure where
  "sample_pressure = \<lparr>ps_prefix = 4, ps_children = 3, ps_suffix = 2, ps_interleaved = 7, ps_capacity = 10, ps_pattern = ''sustained''\<rparr>"

theorem replay_matches_model_witness:
  "\<exists>r. compare real sample_pressure = Inr r \<and> cmp_stock_rate r = 0 \<and> cmp_pinned_rate r = 1 \<and> cmp_stock r = 22 \<and> cmp_pinned r = 10"
proof -
  have "pressure_init 4 3 2 7 10 ''sustained'' = Inr sample_pressure" by (simp add: pressure_init_def sample_pressure_def)
  moreover have "pr_stock_rate (pressure_model sample_pressure) = 0" "pr_stock_charged (pressure_model sample_pressure) = 22"
      "pr_pinned_charged (pressure_model sample_pressure) = 10"
    by (simp_all add: pressure_model_def sample_pressure_def stock_parent_hits_def break_even_u_def Let_def py_round_def)
  ultimately show ?thesis using replay_matches_model [of 4 3 2 7 10 "''sustained''" sample_pressure real] by auto
qed

text \<open>
  Without a prefix the two differ: the replay counts a hit for every child, the model predicts none once the unrelated
  tokens exceed the capacity.
\<close>

lemma empty_prefix_differs:
  "\<exists>ps m. pressure_init 0 1 1 2 1 ''sustained'' = Inr ps \<and> run_stock ps = Inr m \<and> me_hits m = 1 \<and> pr_stock_hits (pressure_model ps) = 0"
proof -
  let ?ps = "\<lparr>ps_prefix = 0, ps_children = 1, ps_suffix = 1, ps_interleaved = 2, ps_capacity = 1, ps_pattern = ''sustained''\<rparr>"
  have "\<not> isl (run_stock ?ps) \<and> me_hits (projr (run_stock ?ps)) = 1" by code_simp
  then have "\<exists>m. run_stock ?ps = Inr m \<and> me_hits m = 1" by (cases "run_stock ?ps") simp_all
  moreover have "pressure_init 0 1 1 2 1 ''sustained'' = Inr ?ps" "pr_stock_hits (pressure_model ?ps) = 0"
    by (simp_all add: pressure_init_def pressure_model_def stock_parent_hits_def break_even_u_def Let_def)
  ultimately show ?thesis by blast
qed

end
