(* ===== verification/Locking.thy ===== *)
theory Locking
  imports Prelude
begin

text \<open>
  The method lock of \<open>_locking.py\<close>: a component owns one reentrant lock, and every public method runs while holding it.
  Threads call methods concurrently; a method is a sequence of actions on the component, with calls of other locked
  methods in between.  Any schedule amounts to running the methods one after another, in the order in which they got the
  lock: this is why the other theories model a locked method as one transition.
\<close>

section \<open>Methods, threads and the lock\<close>

datatype 's meth = MReturn | MAct "'s \<Rightarrow> 's \<times> 's meth" | MWith "'s meth" "'s meth"

text \<open>\<open>with self._lock:\<close> around the method, and the wrapper returns what the method returned.\<close>

definition locked :: "'s meth \<Rightarrow> 's meth" where
  "locked m = MWith m MReturn"

primrec run_body :: "'s meth \<Rightarrow> 's \<Rightarrow> 's" where
  "run_body MReturn = (\<lambda>s. s)"
| "run_body (MAct f) = (\<lambda>s. case map_prod id run_body (f s) of (s', k) \<Rightarrow> k s')"
| "run_body (MWith b r) = (\<lambda>s. run_body r (run_body b s))"

record 's caller =
  ca_todo :: "'s meth list"
  ca_cur :: "'s meth"
  ca_stack :: "'s meth list"

record 's locking =
  lk_owner :: "(nat \<times> nat) option"
  lk_state :: 's
  lk_threads :: "nat \<Rightarrow> 's caller"

text \<open>\<open>RLock.acquire\<close> and \<open>release\<close>: \<open>None\<close> where a thread waits, or where releasing raises.\<close>

definition acquire :: "nat \<Rightarrow> (nat \<times> nat) option \<Rightarrow> (nat \<times> nat) option" where
  "acquire t own = (case own of None \<Rightarrow> Some (t, 1) | Some (u, n) \<Rightarrow> if u = t then Some (t, Suc n) else None)"

definition release_lock :: "nat \<Rightarrow> (nat \<times> nat) option \<Rightarrow> (nat \<times> nat) option option" where
  "release_lock t own = (case own of None \<Rightarrow> None | Some (u, n) \<Rightarrow> if u \<noteq> t then None else Some (if n \<le> 1 then None else Some (t, n - 1)))"

definition set_caller :: "nat \<Rightarrow> 's caller \<Rightarrow> 's locking \<Rightarrow> 's locking" where
  "set_caller t th c = c\<lparr>lk_threads := (lk_threads c)(t := th)\<rparr>"

definition lock_step :: "nat \<Rightarrow> 's locking \<Rightarrow> 's locking option" where
  "lock_step t c =
     (let th = lk_threads c t in
      case ca_cur th of
        MAct f \<Rightarrow> (case f (lk_state c) of (s, b) \<Rightarrow> Some (set_caller t (th\<lparr>ca_cur := b\<rparr>) (c\<lparr>lk_state := s\<rparr>)))
      | MWith b r \<Rightarrow>
         (case acquire t (lk_owner c) of
            None \<Rightarrow> None
          | Some own \<Rightarrow> Some (set_caller t (th\<lparr>ca_cur := b, ca_stack := r # ca_stack th\<rparr>) (c\<lparr>lk_owner := Some own\<rparr>)))
      | MReturn \<Rightarrow>
         (case ca_stack th of
            r # rest \<Rightarrow>
             (case release_lock t (lk_owner c) of
                None \<Rightarrow> None
              | Some own \<Rightarrow> Some (set_caller t (th\<lparr>ca_cur := r, ca_stack := rest\<rparr>) (c\<lparr>lk_owner := own\<rparr>)))
          | [] \<Rightarrow>
             (case ca_todo th of
                [] \<Rightarrow> None
              | m # ms \<Rightarrow> Some (set_caller t (th\<lparr>ca_cur := m, ca_todo := ms\<rparr>) c))))"

text \<open>The order in which the threads get the free lock, with the methods they run.\<close>

definition admitted :: "nat \<Rightarrow> 's locking \<Rightarrow> (nat \<times> 's meth) list" where
  "admitted t c = (case ca_cur (lk_threads c t) of MWith b r \<Rightarrow> if lk_owner c = None then [(t, b)] else [] | _ \<Rightarrow> [])"

definition lock_init :: "'s \<Rightarrow> (nat \<Rightarrow> 's meth list) \<Rightarrow> 's locking" where
  "lock_init s prog = \<lparr>lk_owner = None, lk_state = s,
     lk_threads = (\<lambda>t. \<lparr>ca_todo = map locked (prog t), ca_cur = MReturn, ca_stack = []\<rparr>)\<rparr>"

inductive lock_reach :: "'s \<Rightarrow> (nat \<Rightarrow> 's meth list) \<Rightarrow> 's locking \<Rightarrow> (nat \<times> 's meth) list \<Rightarrow> bool" for s0 prog where
  start: "lock_reach s0 prog (lock_init s0 prog) []"
| step: "lock_reach s0 prog c tr \<Longrightarrow> lock_step t c = Some c' \<Longrightarrow> lock_reach s0 prog c' (tr @ admitted t c)"

section \<open>The invariant\<close>

definition finish :: "'s caller \<Rightarrow> 's \<Rightarrow> 's" where
  "finish th s = fold run_body (ca_stack th) (run_body (ca_cur th) s)"

definition outside :: "'s caller \<Rightarrow> bool" where
  "outside th \<longleftrightarrow> ca_stack th = [] \<and> (ca_cur th = MReturn \<or> (\<exists>m. ca_cur th = locked m))"

definition waiting :: "'s caller \<Rightarrow> 's meth list" where
  "waiting th = (case ca_stack th of [] \<Rightarrow> (case ca_cur th of MWith m _ \<Rightarrow> [m] | _ \<Rightarrow> []) | _ \<Rightarrow> [])"

definition serial :: "'s \<Rightarrow> (nat \<times> 's meth) list \<Rightarrow> 's" where
  "serial s tr = fold run_body (map snd tr) s"

definition of_thread :: "nat \<Rightarrow> (nat \<times> 's meth) list \<Rightarrow> 's meth list" where
  "of_thread t tr = map snd (filter (\<lambda>x. fst x = t) tr)"

definition owner_ok :: "'s \<Rightarrow> 's locking \<Rightarrow> (nat \<times> 's meth) list \<Rightarrow> bool" where
  "owner_ok s0 c tr = (case lk_owner c of
       None \<Rightarrow> lk_state c = serial s0 tr
     | Some (t, n) \<Rightarrow> n = length (ca_stack (lk_threads c t)) \<and> 0 < n \<and> last (ca_stack (lk_threads c t)) = MReturn \<and>
         finish (lk_threads c t) (lk_state c) = serial s0 tr)"

definition lock_inv :: "'s \<Rightarrow> (nat \<Rightarrow> 's meth list) \<Rightarrow> 's locking \<Rightarrow> (nat \<times> 's meth) list \<Rightarrow> bool" where
  "lock_inv s0 prog c tr \<longleftrightarrow> owner_ok s0 c tr \<and>
     (\<forall>t. (\<forall>n. lk_owner c \<noteq> Some (t, n)) \<longrightarrow> outside (lk_threads c t)) \<and>
     (\<forall>t. \<exists>ms. ca_todo (lk_threads c t) = map locked ms \<and> of_thread t tr @ waiting (lk_threads c t) @ ms = prog t)"

lemma lock_inv_init: "lock_inv s0 prog (lock_init s0 prog) []"
  by (auto simp: lock_inv_def lock_init_def owner_ok_def serial_def outside_def waiting_def of_thread_def)

lemma set_caller_simps [simp]:
  "lk_owner (set_caller t th c) = lk_owner c" "lk_state (set_caller t th c) = lk_state c"
  "lk_threads (set_caller t th c) = (lk_threads c)(t := th)"
  by (simp_all add: set_caller_def)

lemma of_thread_simps [simp]: "of_thread t (tr @ tr') = of_thread t tr @ of_thread t tr'" "of_thread t [] = []"
  "of_thread t [(u, m)] = (if u = t then [m] else [])"
  by (simp_all add: of_thread_def)

lemma serial_snoc: "serial s (tr @ [(t, m)]) = run_body m (serial s tr)"
  by (simp add: serial_def)


lemma lock_inv_caller:
  assumes "lock_inv s0 prog c tr" "owner_ok s0 c' (tr @ new)"
    and "\<And>u. u \<noteq> t \<Longrightarrow> lk_threads c' u = lk_threads c u" "\<And>u. u \<noteq> t \<Longrightarrow> of_thread u new = []"
    and "\<And>u n. u \<noteq> t \<Longrightarrow> lk_owner c' \<noteq> Some (u, n) \<Longrightarrow> lk_owner c \<noteq> Some (u, n)"
    and "(\<And>n. lk_owner c' \<noteq> Some (t, n)) \<Longrightarrow> outside (lk_threads c' t)"
    and "\<And>ms. ca_todo (lk_threads c t) = map locked ms \<Longrightarrow>
      \<exists>ms'. ca_todo (lk_threads c' t) = map locked ms' \<and> of_thread t new @ waiting (lk_threads c' t) @ ms' = waiting (lk_threads c t) @ ms"
  shows "lock_inv s0 prog c' (tr @ new)"
  unfolding lock_inv_def
proof (intro conjI allI impI)
  fix u
  show "outside (lk_threads c' u)" if "\<forall>n. lk_owner c' \<noteq> Some (u, n)"
    using that assms(1,3,5,6) unfolding lock_inv_def by (cases "u = t") auto
  obtain ms where ms: "ca_todo (lk_threads c u) = map locked ms" "of_thread u tr @ waiting (lk_threads c u) @ ms = prog u"
    using assms(1) unfolding lock_inv_def by blast
  show "\<exists>ms. ca_todo (lk_threads c' u) = map locked ms \<and> of_thread u (tr @ new) @ waiting (lk_threads c' u) @ ms = prog u"
  proof (cases "u = t")
    case True
    with assms(7) ms obtain ms' where "ca_todo (lk_threads c' t) = map locked ms'"
      "of_thread t new @ waiting (lk_threads c' t) @ ms' = waiting (lk_threads c t) @ ms" by blast
    then show ?thesis using True ms(2) by (metis append.assoc of_thread_simps(1))
  next
    case False
    then show ?thesis using ms assms(3,4) by auto
  qed
qed (rule assms(2))

lemma inside_owns:
  assumes "lock_inv s0 prog c tr" "\<not> outside (lk_threads c t)"
  obtains n where "lk_owner c = Some (t, n)" "n = length (ca_stack (lk_threads c t))" "0 < n" "last (ca_stack (lk_threads c t)) = MReturn"
    "finish (lk_threads c t) (lk_state c) = serial s0 tr"
  using assms unfolding lock_inv_def owner_ok_def by (cases "lk_owner c") fastforce+

lemma lock_act_inv:
  assumes inv: "lock_inv s0 prog c tr" and step: "lock_step t c = Some c'" and MAct: "ca_cur (lk_threads c t) = MAct f"
  shows "lock_inv s0 prog c' (tr @ admitted t c)"
proof -
  have "\<not> outside (lk_threads c t)" using MAct by (auto simp: outside_def locked_def)
  with inv obtain n where n: "lk_owner c = Some (t, n)" "n = length (ca_stack (lk_threads c t))" "0 < n"
      "last (ca_stack (lk_threads c t)) = MReturn" "finish (lk_threads c t) (lk_state c) = serial s0 tr" by (rule inside_owns)
  obtain s' b where f: "f (lk_state c) = (s', b)" by (cases "f (lk_state c)")
  have c': "c' = set_caller t ((lk_threads c t)\<lparr>ca_cur := b\<rparr>) (c\<lparr>lk_state := s'\<rparr>)" using step MAct f by (simp add: lock_step_def)
  have "admitted t c = []" using MAct by (simp add: admitted_def)
  moreover have "lock_inv s0 prog c' (tr @ [])"
    by (rule lock_inv_caller [OF inv, where t = t]) (use n MAct f in \<open>auto simp: c' owner_ok_def finish_def waiting_def split: list.split\<close>)
  ultimately show ?thesis by simp
qed

lemma lock_with_inv:
  assumes inv: "lock_inv s0 prog c tr" and step: "lock_step t c = Some c'" and MWith: "ca_cur (lk_threads c t) = MWith b r"
  shows "lock_inv s0 prog c' (tr @ admitted t c)"
proof (cases "lk_owner c")
  case None
  then have "outside (lk_threads c t)" "lk_state c = serial s0 tr" using inv by (auto simp: lock_inv_def owner_ok_def)
  then have o: "ca_stack (lk_threads c t) = []" "r = MReturn" "lk_state c = serial s0 tr"
    using MWith by (auto simp: outside_def locked_def)
  have c': "c' = set_caller t ((lk_threads c t)\<lparr>ca_cur := b, ca_stack := [r]\<rparr>) (c\<lparr>lk_owner := Some (t, 1)\<rparr>)"
    using step MWith None o by (simp add: lock_step_def acquire_def)
  have "admitted t c = [(t, b)]" using MWith None by (simp add: admitted_def)
  moreover have "lock_inv s0 prog c' (tr @ [(t, b)])"
    by (rule lock_inv_caller [OF inv, where t = t])
      (use None MWith o in \<open>auto simp: c' owner_ok_def finish_def waiting_def serial_snoc split: if_splits\<close>)
  ultimately show ?thesis by simp
next
  case (Some x)
  then have own: "fst x = t" using step MWith by (auto simp: lock_step_def acquire_def split: prod.splits if_splits)
  then obtain n where n: "lk_owner c = Some (t, n)" using Some by (cases x) auto
  then have k: "n = length (ca_stack (lk_threads c t))" "0 < n" "last (ca_stack (lk_threads c t)) = MReturn"
      "finish (lk_threads c t) (lk_state c) = serial s0 tr"
    using inv by (auto simp: lock_inv_def owner_ok_def)
  have c': "c' = set_caller t ((lk_threads c t)\<lparr>ca_cur := b, ca_stack := r # ca_stack (lk_threads c t)\<rparr>) (c\<lparr>lk_owner := Some (t, Suc n)\<rparr>)"
    using step MWith n by (simp add: lock_step_def acquire_def Let_def)
  have "admitted t c = []" using MWith n by (simp add: admitted_def)
  moreover have "lock_inv s0 prog c' (tr @ [])"
    by (rule lock_inv_caller [OF inv, where t = t])
      (use n k MWith in \<open>auto simp: c' owner_ok_def finish_def waiting_def split: if_splits list.split\<close>)
  ultimately show ?thesis by simp
qed

lemma lock_return_inv:
  assumes inv: "lock_inv s0 prog c tr" and step: "lock_step t c = Some c'" and MReturn: "ca_cur (lk_threads c t) = MReturn"
  shows "lock_inv s0 prog c' (tr @ admitted t c)"
proof -
  have no: "admitted t c = []" using MReturn by (simp add: admitted_def)
  show ?thesis
  proof (cases "ca_stack (lk_threads c t)")
    case (Cons r rest)
    then have "\<not> outside (lk_threads c t)" by (simp add: outside_def)
    with inv obtain n where n: "lk_owner c = Some (t, n)" "n = length (ca_stack (lk_threads c t))" "0 < n"
        "last (ca_stack (lk_threads c t)) = MReturn" "finish (lk_threads c t) (lk_state c) = serial s0 tr" by (rule inside_owns)
    have c': "c' = set_caller t ((lk_threads c t)\<lparr>ca_cur := r, ca_stack := rest\<rparr>) (c\<lparr>lk_owner := if n \<le> 1 then None else Some (t, n - 1)\<rparr>)"
      using step MReturn Cons n(1) by (simp add: lock_step_def release_lock_def)
    have "lock_inv s0 prog c' (tr @ [])"
      by (rule lock_inv_caller [OF inv, where t = t])
        (use n MReturn Cons in \<open>auto simp: c' owner_ok_def finish_def waiting_def outside_def split: if_splits list.splits\<close>)
    then show ?thesis by (simp add: no)
  next
    case Nil
    then obtain m ms where m: "ca_todo (lk_threads c t) = m # ms" and
        c': "c' = set_caller t ((lk_threads c t)\<lparr>ca_cur := m, ca_todo := ms\<rparr>) c"
      using step MReturn by (cases "ca_todo (lk_threads c t)") (auto simp: lock_step_def)
    obtain k where k: "m = locked k"
      using inv m unfolding lock_inv_def by (metis list.distinct(1) list.inject list.map_disc_iff map_eq_Cons_conv)
    have free: "lk_owner c \<noteq> Some (t, n)" for n using inv Nil by (auto simp: lock_inv_def owner_ok_def)
    have "lock_inv s0 prog c' (tr @ [])"
      by (rule lock_inv_caller [OF inv, where t = t])
        (use inv free Nil MReturn m k in \<open>auto simp: c' lock_inv_def owner_ok_def finish_def waiting_def outside_def locked_def split: option.splits\<close>)
    then show ?thesis by (simp add: no)
  qed
qed

lemma lock_step_inv:
  assumes "lock_inv s0 prog c tr" "lock_step t c = Some c'"
  shows "lock_inv s0 prog c' (tr @ admitted t c)"
  using lock_act_inv [OF assms] lock_with_inv [OF assms] lock_return_inv [OF assms] by (cases "ca_cur (lk_threads c t)") blast+

lemma lock_reach_inv: "lock_reach s0 prog c tr \<Longrightarrow> lock_inv s0 prog c tr"
  by (induction rule: lock_reach.induct) (auto intro: lock_inv_init lock_step_inv)


section \<open>Locked methods are atomic\<close>

text \<open>
  C37: Whatever the schedule, whenever the lock is free the component is in the state that the admitted methods give when they
  run one after another without interruption, and every thread had its methods admitted in its own order.
\<close>

theorem locked_methods_serial:
  assumes "lock_reach s0 prog c tr" "lk_owner c = None"
  shows "lk_state c = serial s0 tr \<and> (\<forall>t. prefix (of_thread t tr) (prog t))"
  using lock_reach_inv [OF assms(1)] assms(2) unfolding lock_inv_def owner_ok_def by (auto simp: prefix_def) metis

text \<open>Two threads count, each reading and then writing; the second waits for the lock in between.\<close>

fun lock_sched :: "nat list \<Rightarrow> 's locking \<Rightarrow> (nat \<times> 's meth) list \<Rightarrow> ('s locking \<times> (nat \<times> 's meth) list) option" where
  "lock_sched [] c tr = Some (c, tr)"
| "lock_sched (t # ts) c tr = (case lock_step t c of None \<Rightarrow> None | Some c' \<Rightarrow> lock_sched ts c' (tr @ admitted t c))"

lemma lock_sched_reach: "lock_reach s0 prog c tr \<Longrightarrow> lock_sched ts c tr = Some (c', tr') \<Longrightarrow> lock_reach s0 prog c' tr'"
  by (induction ts arbitrary: c tr) (auto split: option.splits intro: lock_reach.step)

definition count_up :: "int meth" where
  "count_up = MAct (\<lambda>s. (s, MAct (\<lambda>_. (s + 1, MReturn))))"

definition two_counters :: "nat \<Rightarrow> int meth list" where
  "two_counters t = (if t < 2 then [count_up] else [])"

theorem locked_methods_serial_witness:
  "\<exists>c. lock_sched [0, 1, 0, 0, 0, 0, 1, 1, 1, 1] (lock_init 0 two_counters) [] = Some (c, [(0, count_up), (1, count_up)]) \<and>
     lk_state c = serial 0 [(0, count_up), (1, count_up)] \<and> lk_state c = 2"
proof -
  obtain c tr where run: "lock_sched [0, 1, 0, 0, 0, 0, 1, 1, 1, 1] (lock_init 0 two_counters) [] = Some (c, tr)"
      "lk_owner c = None" "tr = [(0, count_up), (1, count_up)]"
    by (simp add: lock_step_def lock_init_def two_counters_def count_up_def locked_def acquire_def release_lock_def admitted_def Let_def)
  have "lk_state c = serial 0 tr" using locked_methods_serial [OF lock_sched_reach [OF lock_reach.start run(1)] run(2)] by blast
  then show ?thesis using run by (simp add: serial_def count_up_def)
qed

text \<open>A thread with work left never waits forever for a lock that nobody gives back: some thread can take a step.\<close>

lemma lock_never_stuck:
  assumes "lock_reach s0 prog c tr" "ca_cur (lk_threads c t) \<noteq> MReturn \<or> ca_stack (lk_threads c t) \<noteq> [] \<or> ca_todo (lk_threads c t) \<noteq> []"
  shows "\<exists>u c'. lock_step u c = Some c'"
proof (cases "lk_owner c")
  case None
  then have "outside (lk_threads c t)" using lock_reach_inv [OF assms(1)] by (simp add: lock_inv_def)
  then have "\<exists>c'. lock_step t c = Some c'"
    using assms(2) None by (auto simp: outside_def locked_def lock_step_def acquire_def Let_def split: list.split)
  then show ?thesis by blast
next
  case (Some x)
  obtain u n where x: "x = (u, n)" by (cases x)
  then have "0 < length (ca_stack (lk_threads c u))"
    using lock_reach_inv [OF assms(1)] Some by (auto simp: lock_inv_def owner_ok_def)
  then have "\<exists>c'. lock_step u c = Some c'"
    using Some x by (cases "ca_cur (lk_threads c u)"; cases "ca_stack (lk_threads c u)")
      (auto simp: lock_step_def acquire_def release_lock_def Let_def split: prod.split)
  then show ?thesis by blast
qed

end
