(* ===== verification/Spec2Isabelle.thy ===== *)
theory Spec2Isabelle
  imports Orchestrator_Methods Reaper_Props SGLang_Backend SGLang_HTTP_Threads Netns_Props Vsock_Props Tree_Agent_Props Firecracker_Forks Firecracker_Paths
    Sparse_Copy Harness_LLM Census Pressure_Props Locking
begin

text \<open>
  A verification library for \<open>agentfork\<close>, a Python library for tree-structured agents: branches of an agent share the
  key/value cache of their common prefix copy-on-write and run in sandboxes that are forked with them.

  \<^bold>\<open>The program.\<close>  \<open>ForkOrchestrator\<close> (\<open>src/agentfork/orchestrator.py\<close>) keeps a registry of branches on disk and
  drives two backends for each branch: a KV cache (\<open>kv/tree_cache.py\<close> in process, \<open>kv/sglang_backend.py\<close> over an engine,
  \<open>kv/sglang_http_backend.py\<close> over a remote server such as \<open>demo/sglang_tree_server.py\<close>) and a sandbox
  (\<open>kill/reaper.py\<close> for processes, \<open>sandbox/firecracker_backend.py\<close> for microVMs, with \<open>sandbox/fc_bench.py\<close>,
  \<open>sandbox/netns.py\<close>, \<open>sandbox/vsock.py\<close> and \<open>sandbox/guest_agent.py\<close> below it).  \<open>TreeAgent\<close>
  (\<open>harness/agent.py\<close>) runs rounds of work on branches through the orchestrator, with proposals of a language model
  (\<open>harness/adapter.py\<close>).  \<open>bench/cost_model.py\<close>, \<open>bench/pressure_bench.py\<close> and \<open>workload/census.py\<close> predict,
  replay and measure what sharing saves.

  \<^bold>\<open>Conventions.\<close>  A method that may raise is a procedure: a function from a state to an outcome (\<open>Inl\<close> an exception,
  \<open>Inr\<close> a value) and the state it leaves, since an exception undoes nothing (\<open>Prelude\<close>, \<open>Procs\<close>).  Dictionaries are
  association lists in insertion order with distinct keys; integers are \<open>int\<close>; floats are \<open>real\<close>, hence without rounding
  and NaN; text is a list of characters below 256.  A locked method is one transition (\<open>Locking\<close> says why); where the code
  releases the lock within a method, each section is a definition of its own.

  \<^bold>\<open>Theories.\<close>
  \<^item> \<open>Prelude\<close>, \<open>Procs\<close>, \<open>Python_Text\<close>, \<open>Base64\<close>: exceptions, dictionaries, procedures with Hoare triples, the parts of
    the standard library that are used.
  \<^item> \<open>Locking\<close> (\<open>_locking.py\<close>): the reentrant method lock under threads that interleave at every action; a free lock means
    the state of the admitted methods run one by one, and no schedule gets stuck.
  \<^item> \<open>Radix_Node\<close>, \<open>Tree_Cache\<close> (\<open>kv/tree_cache.py\<close>): nodes and loops, and the class \<open>TreeKVCache\<close>.  \<open>Radix_Laws\<close> reads a
    tree as a map from prefixes to owners; \<open>Tree_Cache_Laws\<close> has the invariant; \<open>Tree_Cache_Spec\<close> an abstract cache without
    the tree, which every method refines; \<open>Tree_Cache_Props\<close> what follows for sharing, charges, limits and eviction.
  \<^item> \<open>Registry\<close>, \<open>Orchestrator\<close> (\<open>orchestrator.py\<close>): the records and their JSON document, and every method of
    \<open>ForkOrchestrator\<close>.  \<open>Backends\<close> states the protocols \<open>KVBackend\<close> and \<open>SandboxBackend\<close> as locales and interprets them on
    \<open>TreeKVCache\<close> and \<open>NullSandbox\<close>.  \<open>Orchestrator_Laws\<close>, \<open>_Safety\<close>, \<open>_Props\<close>, \<open>_Quiet\<close>, \<open>_Outcomes\<close>, \<open>_Live\<close>,
    \<open>_Recovery\<close>, \<open>_Methods\<close>: the registry agrees with memory, no resource without a record, the outcomes of each method, and
    that collection collects when the backends answer.
  \<^item> \<open>Reaper\<close>, \<open>Reaper_Laws\<close>, \<open>Reaper_Props\<close> (\<open>kill/reaper.py\<close>, \<open>kill/_pdeathsig.py\<close>, \<open>ReaperSandbox\<close>): no process and no
    pidfd without a branch, and no wait for a child that runs, on every failure of a system call.
  \<^item> \<open>SGLang_Backend\<close> (\<open>kv/sglang_backend.py\<close>): the adapter keeps the KV contract over every engine with the documented
    behaviour, and equals \<open>TreeKVCache\<close> over an engine that behaves like it.
  \<^item> \<open>SGLang_HTTP\<close>, \<open>_Laws\<close>, \<open>_Props\<close>, \<open>_Threads\<close> (\<open>kv/sglang_http_backend.py\<close>), \<open>Tree_Server\<close>, \<open>Tree_Server_Laws\<close>
    (\<open>demo/sglang_tree_server.py\<close>): client and server over a network that loses requests and replies: what a kill removes, how
    often a request is sent, and that concurrent callers exclude each other.
  \<^item> \<open>Netns\<close>, \<open>Netns_Props\<close> (\<open>sandbox/netns.py\<close>): indices as a set in use (locale \<open>index_pool\<close>), disjoint networks, set-up
    with roll-back, tear-down.
  \<^item> \<open>Vsock\<close>, \<open>Vsock_Props\<close> (\<open>sandbox/vsock.py\<close>, \<open>sandbox/guest_agent.py\<close>): the exec channel end to end.
  \<^item> \<open>Microvm\<close> (\<open>MicroVM\<close> and the jailer helpers of \<open>sandbox/fc_bench.py\<close>), \<open>Firecracker\<close> (every method of
    \<open>FirecrackerSandbox\<close>), \<open>Sparse_Copy\<close> (\<open>_copy_overlay\<close> at the level of reads and writes).  \<open>Firecracker_Laws\<close> gives
    the sandbox contract, \<open>Firecracker_Props\<close> which VMMs run, \<open>Firecracker_Recovery\<close> what a restarted supervisor finds and whom
    it spares, \<open>Firecracker_Forks\<close> what a fork inherits, \<open>Firecracker_Paths\<close> where branches keep their files.
  \<^item> \<open>Tree_Agent\<close>, \<open>Tree_Agent_Props\<close> (\<open>harness/agent.py\<close>): validation before forking, lineage, the ledger, the winner's
    chain.  \<open>Harness_LLM\<close> (\<open>harness/adapter.py\<close>): prompts and the parsing of replies.
  \<^item> \<open>Cost_Model\<close>, \<open>Census\<close>, \<open>Stock_Cache\<close>, \<open>Pressure_Bench\<close>, \<open>Pressure_Stock\<close>, \<open>Pressure_Props\<close> (\<open>bench/\<close>,
    \<open>workload/\<close>): the closed-form model of cache pressure is what replaying the workload on both caches gives, to the token.
  \<^item> This theory: the orchestrator over the remote cache and microVMs.

  \<^bold>\<open>Interfaces.\<close>  The orchestrator's theorems are proved once, in the locales \<open>orch_core\<close>, \<open>orchestrated\<close> and \<open>reliable_orch\<close>,
  for any two backends that keep \<open>kv_contract\<close> and \<open>sandbox_contract\<close> (\<open>sandbox_core\<close> is the latter without the law of
  \<open>restart\<close>).  \<open>kv_contract\<close> is interpreted on \<open>TreeKVCache\<close>, \<open>sandbox_contract\<close> on \<open>NullSandbox\<close> and \<open>ReaperSandbox\<close>,
  \<open>sandbox_core\<close> on \<open>FirecrackerSandbox\<close>, whose \<open>restart\<close> breaks its law; \<open>engine_contract\<close> and \<open>tree_server\<close> are sublocales of \<open>kv_contract\<close>; the engine
  behind them (\<open>radix_contract\<close>, \<open>engine_contract\<close>) is interpreted on \<open>TreeKVCache\<close>.

  \<^bold>\<open>Parameters.\<close>  Readings of clocks, failures of system calls, of requests and of registry writes (any, unless a theorem says
  otherwise), SHA-256, the text codec of \<open>json\<close> (\<open>loads\<close> inverts \<open>dumps\<close>), the SGLang engine, the Firecracker API's effect
  on a guest, the effect of commands in a guest, the kernel's data extents and what reads and writes transfer or raise, the HTTP
  transport of a language model, the work on a branch and its evaluator.

  \<^bold>\<open>Loops and bounds.\<close>  Loops over data are total functions.  Loops that the environment may keep going are partial functions,
  and that they return is part of what is proved: \<open>connect_loop\<close> when every round takes the time it sleeps, \<open>settle_loser\<close>
  with backends whose kills return, the loops of \<open>_sparse_copy\<close> when transfers make progress.  Two loops have a counter:
  \<open>ready_loop\<close> of \<open>wait_ready\<close> sleeps a quarter of a second per round up to its deadline, so that \<open>4 * t + 2\<close> rounds are
  enough for a clock that advances by what is slept (lemma \<open>wait_ready_bound\<close>), and \<open>stock_evict_loop\<close> removes a node per round, so that the
  number of nodes is enough (lemma \<open>evict_run\<close> covers every run).

  \<^bold>\<open>Waiting.\<close>  A wait for a process returns when the process is dead.  A wait for one that runs is not an end of it: the process
  stays as it is and a flag of the state (\<open>rp_stuck\<close>, \<open>ho_stuck\<close>) says that the caller hangs.  That no call of \<open>BranchReaper\<close>
  hangs is part of its invariant; for \<open>MicroVM\<close> it is said by \<open>force_cleanup_returns\<close> and \<open>vm_kill_life\<close>.  \<open>Popen.kill\<close> of
  an own child does not fail; the signal through a pidfd may, and its ESRCH means that the process has been waited for.

  \<^bold>\<open>Side conditions.\<close>  A theorem over reachable states names the calls it allows.  \<open>no_recreate\<close> (\<open>Tree_Cache_Laws\<close>): no killed
  root is created again while its forks live; \<open>create_tree_leak\<close> shows what the code does otherwise.  \<open>call_ok\<close>
  (\<open>Orchestrator_Laws\<close>): no child id given to \<open>fork\<close> is empty (\<open>empty_child_id_leaks\<close>), and \<open>ends\<close> has the branches that a
  \<open>generate\<close> is told to end, of which the KV tree may be gone.  \<open>restarts_dead\<close>: the passes of a reaper started with
  \<open>restart_dead=True\<close>, which the theorems on microVMs exclude since a restart that fails after it started a VMM leaves it
  running (\<open>restart_leaks_vmm\<close>).

  \<^bold>\<open>What the code leaves open.\<close>  Lemmas that show a way out of a guarantee: those just named, \<open>jail_id_collision\<close>, \<open>empty_stdin_is_dropped\<close>, \<open>detached_value_error_unanswered\<close> and
  \<open>empty_prefix_differs\<close>.

  \<^bold>\<open>Not modelled.\<close>  The thread pool of \<open>_fan_out\<close> runs its calls one after the other, in order; a registry document with fields
  of a wrong type is refused where the code stores them unchecked.  Hard links are copies; the effects of concurrent calls on one branch of \<open>FirecrackerSandbox\<close> are those of the
  order in which its waits and locks admit them.  Start of processes and the accept loop of the guest agent, socket set-up
  of the demo server, command lines.  \<open>bench/kill_bench.py\<close>, \<open>bench/crash_bench.py\<close> and the
  latency measurements of \<open>fc_bench.py\<close> measure time and have no behaviour of their own; \<open>demo/demo.py\<close>,
  \<open>demo/fc_demo.py\<close>, \<open>demo/tree_agent_demo.py\<close> and \<open>demo/integrated_demo.py\<close> call the library and print;
  \<open>patches/\<close>, \<open>modal_gpu_validation.py\<close> and \<open>modal_pressure_sweep.py\<close> drive a patched SGLang on a GPU, whose code is
  not in the repository.
\<close>

section \<open>The deployment\<close>

text \<open>
  The orchestrator over the remote KV cache, behind a network that loses requests and replies, and over microVMs on a
  host where anything may fail.
\<close>

definition deployment :: "http_config \<Rightarrow> 'c radix_engine \<Rightarrow> ('r, 'v, 'd, 'w) fc_env \<Rightarrow> (nat \<Rightarrow> real) \<Rightarrow> (nat \<Rightarrow> exc option) \<Rightarrow>
    ((fault list \<times> 'c) http_backend, ('r, 'v, 'd, 'w) fc) config" where
  "deployment C E F clk io = \<lparr>cf_kv = http_kv_backend C (remote_kv C E), cf_sb = firecracker_sandbox F, cf_clock = clk, cf_io = io\<rparr>"

text \<open>
  C3: In the deployment, whatever is lost on the network and whatever fails on the host and at the registry file, after any
  sequence of orchestrator calls with no \<open>restart\<close> among them (no pass of a reaper started with \<open>restart_dead=True\<close>, see
  \<open>restart_leaks_vmm\<close>) and no fork under an empty id, every tree the remote engine holds and every VMM that runs belongs to
  a branch in the registry, where \<open>kill\<close> and \<open>reconcile\<close> find it.
\<close>

theorem deployment_has_no_orphans:
  assumes "radix_contract E ctrees cinv"
    and "orch_started (\<lambda>s. ctrees (snd (hb_server s))) (\<lambda>s. cinv (snd (hb_server s))) (\<lambda>s. keys (fc_vms s)) (fc_inv F) s0"
    and "orch_reach (\<lambda>c. call_ok ends c \<and> \<not> restarts_dead c) (deployment C E F clk io) s0 s"
  shows "ctrees (snd (hb_server (o_kv s))) \<subseteq> keys (o_branches s) \<and>
    {h. vmm_running (fc_host (o_sb s)) h} \<subseteq> (\<Union>b \<in> keys (o_branches s). {h. branch_runs (o_sb s) b h})"
proof -
  let ?G = "deployment C E F clk io" and ?trees = "\<lambda>s. ctrees (snd (hb_server s))" and ?kinv = "\<lambda>s. cinv (snd (hb_server s))"
  have kv: "kv_contract (cf_kv ?G) ?trees ?kinv" by (simp add: deployment_def remote_kv_contract [OF assms(1)])
  have "orch_core ?G ?trees ?kinv (\<lambda>s. keys (fc_vms s)) (fc_inv F)"
    using kv fc_box.sandbox_core_axioms [of F] by (simp add: orch_core_def deployment_def)
  from orch_reach_good_core [OF this assms(3) orch_started_good [OF assms(2)]] have "?trees (o_kv s) \<subseteq> keys (o_branches s)" by (simp add: sys_inv_def covered_def)
  moreover have "\<exists>b \<in> keys (o_branches s). branch_runs (o_sb s) b h" if "vmm_running (fc_host (o_sb s)) h" for h
    by (rule running_vmms_recorded [OF kv _ assms(2,3) that]) (simp add: deployment_def)
  ultimately show ?thesis by blast
qed

text \<open>A first branch on an empty server and an idle host, with a network that fails twice.\<close>

definition deployed :: "((fault list \<times> pooled_cache) http_backend, (string list list, unit, string list, unit) fc) orch" where
  "deployed = projr (orch_init (hb_new ([LostReply, Overloaded], \<lparr>pc_cache = projr (kv_init 8 None), pc_free = 8\<rparr>)) sample_fc_start
     False None None True None)"

theorem deployment_has_no_orphans_witness:
  "case snd (create_parent (deployment remote_config (pooled_engine real) (sample_fc no_fault) real (\<lambda>_. None)) ''a'' [] None deployed) of s \<Rightarrow>
     keys (kv_trees (pc_cache (snd (hb_server (o_kv s))))) \<subseteq> keys (o_branches s) \<and>
     {h. vmm_running (fc_host (o_sb s)) h} \<subseteq> (\<Union>b \<in> keys (o_branches s). {h. branch_runs (o_sb s) b h})"
proof -
  let ?G = "deployment remote_config (pooled_engine real) (sample_fc no_fault) real (\<lambda>_. None)"
  let ?kv = "hb_new ([LostReply, Overloaded], \<lparr>pc_cache = projr (kv_init 8 None), pc_free = 8\<rparr>)"
  have kv: "cache_dicts (pc_cache (snd (hb_server ?kv)))" "keys (kv_trees (pc_cache (snd (hb_server ?kv)))) = {}"
    by (simp_all add: kv_init_def cache_dicts_def hb_new_def)
  have "orch_init ?kv sample_fc_start False None None True None = Inr deployed"
    by (simp add: deployed_def orch_init_def not_positive_def load_registry_def orch_new_def seqp_def ret_def)
  then have start: "orch_started (\<lambda>s. keys (kv_trees (pc_cache (snd (hb_server s))))) (\<lambda>s. cache_dicts (pc_cache (snd (hb_server s))))
      (\<lambda>s. keys (fc_vms s)) (fc_inv (sample_fc no_fault)) deployed"
    unfolding orch_started_def
    by (intro exI [of _ ?kv] exI [of _ sample_fc_start] exI conjI) (assumption, use kv sample_fc_start_ok in simp_all)
  have "orch_reach (\<lambda>c. call_ok {} c \<and> \<not> restarts_dead c) ?G deployed (snd (create_parent ?G ''a'' [] None deployed))"
    by (rule orch_reach.step [OF orch_reach.start, where c = "CallCreate ''a'' [] None"]) simp_all
  from deployment_has_no_orphans [OF pooled.radix_contract_axioms start this] show ?thesis by simp
qed

end
